(* ===== verification/Prelude.thy ===== *)
theory Prelude
  imports Main "HOL-Library.Word" "HOL-Library.List_Lexorder" "HOL-Library.Char_ord"
begin

text \<open>
  Shared vocabulary of the development: the machine types, the crate's error type
  (\<^verbatim>\<open>src/src/error.rs\<close>), byte slices, and the little-endian integer encodings that every
  on-disk format of the repository uses (\<^verbatim>\<open>to_le_bytes\<close> and \<^verbatim>\<open>from_le_bytes\<close> of Rust's
  integers). \<^verbatim>\<open>usize\<close> lengths and indices are \<open>nat\<close>; the integers that are stored in a
  file keep their width (\<open>u32\<close>, \<open>u64\<close>), and their arithmetic wraps as it does in the
  release profile of the crate.
\<close>

section \<open>Types\<close>

type_synonym u8 = "8 word"
type_synonym u32 = "32 word"
type_synonym u64 = "64 word"
type_synonym bytes = "u8 list"
type_synonym fname = string

named_theorems le_simps "little-endian encodings: widths and round trips"
named_theorems slice_simps "byte slices"
named_theorems no_fault "operations on a file system without pending faults"

text \<open>
  The reason of a failed record decode (\<^verbatim>\<open>DecodeError\<close> of \<^verbatim>\<open>src/src/wal/record.rs\<close>) and
  the crate's error type. An I/O error carries what the code or the operating system can
  tell apart here; the text of a \<^verbatim>\<open>Corruption\<close> or \<^verbatim>\<open>InvalidArgument\<close> message is kept to
  its constant part. \<open>Panic\<close> is not a variant of the crate's enum: it stands for a panic
  (a failed assertion, an index out of range, a division by zero), which leaves every caller
  as an error does.
\<close>

datatype io_error = NotFound | UnexpectedEof | OsError

datatype error =
    Io io_error
  | Corruption string
  | InvalidArgument string
  | Closed
  | Panic string

section \<open>Results\<close>

text \<open>\<^verbatim>\<open>collect::<Result<Vec<_>>>\<close>: the first error, or all the values.\<close>

fun collect_results :: "('e + 'a) list \<Rightarrow> 'e + 'a list" where
  "collect_results [] = Inr []"
| "collect_results (Inl e # rs) = Inl e"
| "collect_results (Inr x # rs) =
     (case collect_results rs of Inl e \<Rightarrow> Inl e | Inr xs \<Rightarrow> Inr (x # xs))"

lemma collect_results_Inr [simp]: "collect_results (map Inr xs) = Inr xs"
  by (induction xs) auto

section \<open>Slices\<close>

text \<open>\<^verbatim>\<open>&buf[p..q]\<close> and \<^verbatim>\<open>copy_from_slice\<close> into \<^verbatim>\<open>buf[p..p + len]\<close>.\<close>

definition subslice :: "nat \<Rightarrow> nat \<Rightarrow> 'a list \<Rightarrow> 'a list" where
  "subslice p q xs = take (q - p) (drop p xs)"

definition overwrite :: "nat \<Rightarrow> 'a list \<Rightarrow> 'a list \<Rightarrow> 'a list" where
  "overwrite p ys xs = take p xs @ ys @ drop (p + length ys) xs"

lemma length_subslice [slice_simps]: "length (subslice p q xs) = min (q - p) (length xs - p)"
  by (simp add: subslice_def)

lemma subslice_append_left [slice_simps]:
  "q \<le> length xs \<Longrightarrow> subslice p q (xs @ ys) = subslice p q xs"
  by (cases "p \<le> length xs") (auto simp: subslice_def)

lemma subslice_append_right:
  "length xs \<le> p \<Longrightarrow> subslice p q (xs @ ys) = subslice (p - length xs) (q - length xs) ys"
  by (simp add: subslice_def)

lemma subslice_mid: "length xs = p \<Longrightarrow> p + length ys = q \<Longrightarrow> subslice p q (xs @ ys @ zs) = ys"
  by (auto simp: subslice_def)

lemma subslice_mid_end: "length xs = p \<Longrightarrow> p + length ys = q \<Longrightarrow> subslice p q (xs @ ys) = ys"
  by (auto simp: subslice_def)

lemma subslice_0 [slice_simps]: "subslice 0 q xs = take q xs"
  by (simp add: subslice_def)

lemma subslice_all [slice_simps]: "subslice 0 (length xs) xs = xs"
  by (simp add: subslice_def)

lemma subslice_subslice:
  "b \<le> q - p \<Longrightarrow> subslice a b (subslice p q xs) = subslice (p + a) (p + b) xs"
  by (auto simp: subslice_def drop_take add.commute min_def)

lemma subslice_drop: "subslice a b (drop p xs) = subslice (p + a) (p + b) xs"
  by (simp add: subslice_def add.commute)

lemma subslice_take: "b \<le> n \<Longrightarrow> subslice a b (take n xs) = subslice a b xs"
  by (auto simp: subslice_def drop_take min_def)

lemma subslice_concat:
  "p \<le> q \<Longrightarrow> q \<le> r \<Longrightarrow> subslice p q xs @ subslice q r xs = subslice p r xs"
  unfolding subslice_def
  by (metis (no_types, lifting) drop_drop le_add_diff_inverse
      le_add_diff_inverse2 ordered_cancel_comm_monoid_diff_class.add_diff_assoc2 take_add)

lemma overwrite_mid:
  "length xs = p \<Longrightarrow> length ys = length zs \<Longrightarrow> overwrite p ys (xs @ zs @ us) = xs @ ys @ us"
  by (simp add: overwrite_def)

section \<open>Little-endian integers\<close>

fun le_bytes :: "nat \<Rightarrow> nat \<Rightarrow> bytes" where
  "le_bytes 0 x = []"
| "le_bytes (Suc n) x = word_of_nat (x mod 256) # le_bytes n (x div 256)"

fun le_val :: "bytes \<Rightarrow> nat" where
  "le_val [] = 0"
| "le_val (b # bs) = unat b + 256 * le_val bs"

lemma length_le_bytes [simp]: "length (le_bytes n x) = n"
  by (induction n arbitrary: x) auto

lemma le_val_le_bytes [le_simps]: "le_val (le_bytes n x) = x mod 256 ^ n"
proof (induction n arbitrary: x)
  case 0
  then show ?case by simp
next
  case (Suc n)
  have "unat (word_of_nat (x mod 256) :: u8) = x mod 256"
    by (simp add: unsigned_of_nat take_bit_eq_mod)
  then show ?case
    by (simp add: Suc mod_mult2_eq)
qed

lemma le_val_less: "le_val bs < 256 ^ length bs"
proof (induction bs)
  case Nil
  then show ?case by simp
next
  case (Cons b bs)
  have "unat b < 256" using unsigned_less [of b, where ?'a = nat] by simp
  with Cons show ?case by simp
qed

lemma le_bytes_le_val [le_simps]: "le_bytes (length bs) (le_val bs) = bs"
proof (induction bs)
  case Nil
  then show ?case by simp
next
  case (Cons b bs)
  have b: "unat b < 256" using unsigned_less [of b, where ?'a = nat] by simp
  then have "(unat b + 256 * le_val bs) mod 256 = unat b"
    and "(unat b + 256 * le_val bs) div 256 = le_val bs"
    by simp_all
  with Cons show ?case by simp
qed

definition u32_to_le :: "u32 \<Rightarrow> bytes" where
  "u32_to_le w = le_bytes 4 (unat w)"

definition u32_from_le :: "bytes \<Rightarrow> u32" where
  "u32_from_le bs = word_of_nat (le_val bs)"

definition u64_to_le :: "u64 \<Rightarrow> bytes" where
  "u64_to_le w = le_bytes 8 (unat w)"

definition u64_from_le :: "bytes \<Rightarrow> u64" where
  "u64_from_le bs = word_of_nat (le_val bs)"

lemma length_u32_to_le [simp]: "length (u32_to_le w) = 4"
  by (simp add: u32_to_le_def)

lemma length_u64_to_le [simp]: "length (u64_to_le w) = 8"
  by (simp add: u64_to_le_def)

lemma u32_from_to_le [simp]: "u32_from_le (u32_to_le w) = w"
proof -
  have "unat w < 256 ^ 4" using unsigned_less [of w, where ?'a = nat] by simp
  then show ?thesis
    by (simp add: u32_from_le_def u32_to_le_def le_val_le_bytes)
qed

lemma u64_from_to_le [simp]: "u64_from_le (u64_to_le w) = w"
proof -
  have "unat w < 256 ^ 8" using unsigned_less [of w, where ?'a = nat] by simp
  then show ?thesis
    by (simp add: u64_from_le_def u64_to_le_def le_val_le_bytes)
qed

lemma u32_to_from_le: "length bs = 4 \<Longrightarrow> u32_to_le (u32_from_le bs) = bs"
  using le_bytes_le_val [of bs] le_val_less [of bs]
  by (simp add: u32_to_le_def u32_from_le_def unsigned_of_nat take_bit_eq_mod)

lemma u64_to_from_le: "length bs = 8 \<Longrightarrow> u64_to_le (u64_from_le bs) = bs"
  using le_bytes_le_val [of bs] le_val_less [of bs]
  by (simp add: u64_to_le_def u64_from_le_def unsigned_of_nat take_bit_eq_mod)

lemma u32_to_le_inject [simp]: "u32_to_le v = u32_to_le w \<longleftrightarrow> v = w"
  by (metis u32_from_to_le)

lemma u64_to_le_inject [simp]: "u64_to_le v = u64_to_le w \<longleftrightarrow> v = w"
  by (metis u64_from_to_le)

text \<open>The casts \<^verbatim>\<open>len as u32\<close> and \<^verbatim>\<open>len as u64\<close> keep a length that fits.\<close>

lemma unat_u32_of_nat: "n < 2 ^ 32 \<Longrightarrow> unat (word_of_nat n :: u32) = n"
  by (simp add: unsigned_of_nat take_bit_eq_mod)

lemma unat_u64_of_nat: "n < 2 ^ 64 \<Longrightarrow> unat (word_of_nat n :: u64) = n"
  by (simp add: unsigned_of_nat take_bit_eq_mod)

text \<open>Byte-string literals such as \<^verbatim>\<open>b"SASTWAL1"\<close>.\<close>

definition ascii :: "string \<Rightarrow> bytes" where
  "ascii s = map (\<lambda>c. word_of_nat (of_char c)) s"

lemma length_ascii [simp]: "length (ascii s) = length s"
  by (simp add: ascii_def)

end
