(* ===== verification/BTree.thy ===== *)
theory BTree
  imports Prelude
begin

text \<open>
  The ordered map of the standard library (\<^verbatim>\<open>std::collections::BTreeMap\<close>) as the code uses
  it: lookup, insertion, removal and iteration in key order. A map is the list of its
  entries in strictly ascending key order, which is what \<^verbatim>\<open>iter()\<close> yields. The locale
  \<open>ordered_map\<close> is the interface the components rely on; it is interpreted below on these
  operations.
\<close>

section \<open>Strictly sorted association lists\<close>

abbreviation ksorted :: "('k::linorder \<times> 'v) list \<Rightarrow> bool" where
  "ksorted xs \<equiv> sorted_wrt (<) (map fst xs)"

fun bt_get :: "('k::linorder \<times> 'v) list \<Rightarrow> 'k \<Rightarrow> 'v option" where
  "bt_get [] k = None"
| "bt_get ((a, v) # xs) k = (if k = a then Some v else bt_get xs k)"

fun bt_insert :: "('k::linorder \<times> 'v) list \<Rightarrow> 'k \<Rightarrow> 'v \<Rightarrow> ('k \<times> 'v) list" where
  "bt_insert [] k v = [(k, v)]"
| "bt_insert ((a, w) # xs) k v =
     (if k < a then (k, v) # (a, w) # xs
      else if k = a then (k, v) # xs
      else (a, w) # bt_insert xs k v)"

fun bt_remove :: "('k::linorder \<times> 'v) list \<Rightarrow> 'k \<Rightarrow> ('k \<times> 'v) list" where
  "bt_remove [] k = []"
| "bt_remove ((a, v) # xs) k = (if k = a then xs else (a, v) # bt_remove xs k)"

lemma bt_get_map_of: "bt_get xs = map_of xs"
proof
  show "bt_get xs k = map_of xs k" for k
    by (induction xs) auto
qed

lemma map_of_bt_insert [simp]: "map_of (bt_insert xs k v) = (map_of xs)(k \<mapsto> v)"
  by (induction xs) (auto simp: fun_eq_iff)

lemma set_fst_bt_insert: "fst ` set (bt_insert xs k v) = insert k (fst ` set xs)"
  by (induction xs k v rule: bt_insert.induct) (simp_all add: insert_commute)

lemma set_bt_insert: "set (bt_insert xs k v) \<subseteq> insert (k, v) (set xs)"
  by (induction xs k v rule: bt_insert.induct) auto

lemma bt_insert_sorted: "ksorted xs \<Longrightarrow> ksorted (bt_insert xs k v)"
proof (induction xs)
  case Nil
  then show ?case by simp
next
  case (Cons x xs)
  obtain a w where x: "x = (a, w)" by (cases x)
  have IH: "ksorted (bt_insert xs k v)" using Cons by simp
  have above: "\<forall>b \<in> fst ` set xs. a < b" using Cons.prems by (auto simp: x)
  have below: "\<forall>b \<in> fst ` set (bt_insert xs k v). a < b" if "\<not> k < a" "k \<noteq> a"
    using above that by (auto simp: set_fst_bt_insert)
  show ?case
    using IH above below Cons.prems by (auto simp: x dest: less_trans)
qed

lemma ksorted_distinct: "ksorted xs \<Longrightarrow> distinct (map fst xs)"
  by (induction xs) auto

lemma map_of_bt_remove:
  "distinct (map fst xs) \<Longrightarrow> map_of (bt_remove xs k) = (map_of xs)(k := None)"
proof (induction xs)
  case Nil
  then show ?case by simp
next
  case (Cons x xs)
  then have "map_of xs (fst x) = None" by (simp add: map_of_eq_None_iff)
  with Cons show ?case by (cases x) (auto simp: fun_eq_iff)
qed

lemma set_bt_remove: "set (bt_remove xs k) \<subseteq> set xs"
  by (induction xs k rule: bt_remove.induct) auto

lemma bt_remove_sorted: "ksorted xs \<Longrightarrow> ksorted (bt_remove xs k)"
proof (induction xs)
  case Nil
  then show ?case by simp
next
  case (Cons x xs)
  have "set (bt_remove xs k) \<subseteq> set xs"
    by (rule set_bt_remove)
  with Cons show ?case by (cases x) auto
qed

lemma map_of_bt_remove_sorted [simp]:
  "ksorted xs \<Longrightarrow> map_of (bt_remove xs k) = (map_of xs)(k := None)"
  by (rule map_of_bt_remove) (rule ksorted_distinct)

text \<open>Two strictly sorted lists with the same bindings are the same list.\<close>

lemma ksorted_ext:
  assumes "ksorted xs" and "ksorted ys" and eq: "map_of xs = map_of ys"
  shows "xs = ys"
proof -
  have d: "distinct (map fst xs)" "distinct (map fst ys)"
    using assms(1,2) by (simp_all add: ksorted_distinct)
  have "set xs = set ys"
    using map_of_inject_set [OF d] eq by simp
  moreover have "sorted (map fst xs)" "sorted (map fst ys)"
    using assms(1,2) by (simp_all add: strict_sorted_imp_sorted)
  ultimately show ?thesis
    using d by (intro map_sorted_distinct_set_unique [where f = fst])
      (auto simp: distinct_map intro: inj_on_subset)
qed

lemma bt_remove_missing: "map_of xs k = None \<Longrightarrow> bt_remove xs k = xs"
  by (induction xs k rule: bt_remove.induct) (auto split: if_splits)

lemma bt_remove_insert: "ksorted xs \<Longrightarrow> map_of xs k = None \<Longrightarrow> bt_remove (bt_insert xs k v) k = xs"
  by (rule ksorted_ext) (auto simp: bt_insert_sorted bt_remove_sorted)

section \<open>The interface\<close>

locale ordered_map =
  fixes empty :: "'m"
    and get :: "'m \<Rightarrow> 'k::linorder \<Rightarrow> 'v option"
    and insert :: "'m \<Rightarrow> 'k \<Rightarrow> 'v \<Rightarrow> 'm"
    and iter :: "'m \<Rightarrow> ('k \<times> 'v) list"
    and wf :: "'m \<Rightarrow> bool"
  assumes wf_empty: "wf empty"
    and wf_insert: "wf m \<Longrightarrow> wf (insert m k v)"
    and get_empty: "get empty k = None"
    and get_insert: "wf m \<Longrightarrow> get (insert m k v) k' = (if k' = k then Some v else get m k')"
    and iter_sorted: "wf m \<Longrightarrow> ksorted (iter m)"
    and get_iter: "wf m \<Longrightarrow> get m k = map_of (iter m) k"
begin

definition insert_all :: "'m \<Rightarrow> ('k \<times> 'v) list \<Rightarrow> 'm" where
  "insert_all = foldl (\<lambda>m (k, v). insert m k v)"

lemma wf_insert_all: "wf m \<Longrightarrow> wf (insert_all m kvs)"
  by (induction kvs arbitrary: m) (auto simp: insert_all_def wf_insert split: prod.splits)

lemma get_insert_all:
  "wf m \<Longrightarrow> get (insert_all m kvs) k =
     (case map_of (rev kvs) k of None \<Rightarrow> get m k | Some v \<Rightarrow> Some v)"
proof (induction kvs arbitrary: m)
  case Nil
  then show ?case by (simp add: insert_all_def)
next
  case (Cons kv kvs)
  obtain a v where kv: "kv = (a, v)" by (cases kv)
  have "get (insert_all (insert m a v) kvs) k =
      (case map_of (rev kvs) k of None \<Rightarrow> get (insert m a v) k | Some v \<Rightarrow> Some v)"
    by (rule Cons.IH) (rule wf_insert [OF Cons.prems])
  then show ?case
    by (auto simp: kv insert_all_def get_insert [OF Cons.prems] map_add_def split: option.splits)
qed

end

interpretation bt: ordered_map "[]" bt_get bt_insert "\<lambda>xs. xs" ksorted
  by unfold_locales (auto simp: bt_insert_sorted bt_get_map_of)

end
