(* ===== verification/Fs.thy ===== *)
theory Fs
  imports BTree
begin

text \<open>
  The I/O layer (\<^verbatim>\<open>src/src/io/mod.rs\<close>, \<^verbatim>\<open>src/src/io/fs.rs\<close>) over the state of one directory.
  A file is an inode: a handle names the inode, so a handle kept across a rename or a removal
  still reads and appends to its own file, as on the operating systems the code targets. The
  state keeps what a process sees (\<open>names\<close>, \<open>content\<close>) apart from what has reached stable
  storage (\<open>stable_names\<close>, \<open>stable\<close>), which only \<open>sync\<close> and \<open>sync_dir\<close> advance.

  Any call of the operating system may fail. The field \<open>plan\<close> decides which: every operation
  takes one outcome from it, and an empty plan lets everything succeed. A failing append may
  leave a prefix of its bytes in the file, as \<^verbatim>\<open>write_all\<close> may.
\<close>

section \<open>The state of the directory\<close>

datatype outcome = Good | Fail nat

record fs =
  names :: "(fname \<times> nat) list"
  content :: "nat \<Rightarrow> bytes"
  stable_names :: "(fname \<times> nat) list"
  stable :: "nat \<Rightarrow> bytes"
  next_ino :: nat
  plan :: "outcome list"

definition empty_fs :: fs where
  "empty_fs = \<lparr>names = [], content = (\<lambda>_. []), stable_names = [], stable = (\<lambda>_. []),
     next_ino = 0, plan = []\<rparr>"

fun take_outcome :: "fs \<Rightarrow> outcome \<times> fs" where
  "take_outcome s = (case plan s of [] \<Rightarrow> (Good, s) | o1 # os \<Rightarrow> (o1, s\<lparr>plan := os\<rparr>))"

section \<open>Operations\<close>

text \<open>\<^verbatim>\<open>StdFs::open_append\<close>: creates the file if it does not exist.\<close>

definition open_append :: "fname \<Rightarrow> fs \<Rightarrow> (error + nat) \<times> fs" where
  "open_append p s =
     (case take_outcome s of
        (Fail _, s) \<Rightarrow> (Inl (Io OsError), s)
      | (Good, s) \<Rightarrow>
          (case bt_get (names s) p of
             Some h \<Rightarrow> (Inr h, s)
           | None \<Rightarrow> (let h = next_ino s in
               (Inr h, s\<lparr>names := bt_insert (names s) p h, content := (content s)(h := []),
                         stable := (stable s)(h := []), next_ino := Suc h\<rparr>))))"

text \<open>\<^verbatim>\<open>StdFs::open_read\<close>: the file must exist.\<close>

definition open_read :: "fname \<Rightarrow> fs \<Rightarrow> (error + nat) \<times> fs" where
  "open_read p s =
     (case take_outcome s of
        (Fail _, s) \<Rightarrow> (Inl (Io OsError), s)
      | (Good, s) \<Rightarrow>
          (case bt_get (names s) p of
             Some h \<Rightarrow> (Inr h, s)
           | None \<Rightarrow> (Inl (Io NotFound), s)))"

text \<open>\<^verbatim>\<open>StdFileAppend::append\<close>: \<^verbatim>\<open>write_all\<close> at the end of the file.\<close>

definition append_file :: "nat \<Rightarrow> bytes \<Rightarrow> fs \<Rightarrow> (error + unit) \<times> fs" where
  "append_file h bs s =
     (case take_outcome s of
        (Fail n, s) \<Rightarrow>
          (Inl (Io OsError), s\<lparr>content := (content s)(h := content s h @ take n bs)\<rparr>)
      | (Good, s) \<Rightarrow> (Inr (), s\<lparr>content := (content s)(h := content s h @ bs)\<rparr>))"

text \<open>\<^verbatim>\<open>StdFileAppend::sync\<close>: \<^verbatim>\<open>sync_all\<close>.\<close>

definition sync_file :: "nat \<Rightarrow> fs \<Rightarrow> (error + unit) \<times> fs" where
  "sync_file h s =
     (case take_outcome s of
        (Fail _, s) \<Rightarrow> (Inl (Io OsError), s)
      | (Good, s) \<Rightarrow> (Inr (), s\<lparr>stable := (stable s)(h := content s h)\<rparr>))"

text \<open>\<^verbatim>\<open>len\<close> of both kinds of handle, and \<^verbatim>\<open>is_empty\<close> of the traits.\<close>

definition file_len :: "nat \<Rightarrow> fs \<Rightarrow> (error + nat) \<times> fs" where
  "file_len h s =
     (case take_outcome s of
        (Fail _, s) \<Rightarrow> (Inl (Io OsError), s)
      | (Good, s) \<Rightarrow> (Inr (length (content s h)), s))"

definition file_is_empty :: "nat \<Rightarrow> fs \<Rightarrow> (error + bool) \<times> fs" where
  "file_is_empty h s =
     (case file_len h s of
        (Inl e, s) \<Rightarrow> (Inl e, s)
      | (Inr n, s) \<Rightarrow> (Inr (n = 0), s))"

text \<open>
  \<^verbatim>\<open>StdFileRead::read_at\<close>: \<^verbatim>\<open>read_exact_at\<close>, which fails when the file ends before the
  buffer is full. An empty buffer is filled at any offset.
\<close>

definition read_at :: "nat \<Rightarrow> nat \<Rightarrow> nat \<Rightarrow> fs \<Rightarrow> (error + bytes) \<times> fs" where
  "read_at h off n s =
     (case take_outcome s of
        (Fail _, s) \<Rightarrow> (Inl (Io OsError), s)
      | (Good, s) \<Rightarrow>
          if n = 0 \<or> off + n \<le> length (content s h)
          then (Inr (subslice off (off + n) (content s h)), s)
          else (Inl (Io UnexpectedEof), s))"

definition sync_dir :: "fs \<Rightarrow> (error + unit) \<times> fs" where
  "sync_dir s =
     (case take_outcome s of
        (Fail _, s) \<Rightarrow> (Inl (Io OsError), s)
      | (Good, s) \<Rightarrow> (Inr (), s\<lparr>stable_names := names s\<rparr>))"

definition create_dir_all :: "fs \<Rightarrow> (error + unit) \<times> fs" where
  "create_dir_all s =
     (case take_outcome s of
        (Fail _, s) \<Rightarrow> (Inl (Io OsError), s)
      | (Good, s) \<Rightarrow> (Inr (), s))"

text \<open>\<^verbatim>\<open>rename\<close> replaces the target atomically.\<close>

definition rename_file :: "fname \<Rightarrow> fname \<Rightarrow> fs \<Rightarrow> (error + unit) \<times> fs" where
  "rename_file p q s =
     (case take_outcome s of
        (Fail _, s) \<Rightarrow> (Inl (Io OsError), s)
      | (Good, s) \<Rightarrow>
          (case bt_get (names s) p of
             None \<Rightarrow> (Inl (Io NotFound), s)
           | Some h \<Rightarrow> (Inr (), s\<lparr>names := bt_insert (bt_remove (names s) p) q h\<rparr>)))"

definition remove_file :: "fname \<Rightarrow> fs \<Rightarrow> (error + unit) \<times> fs" where
  "remove_file p s =
     (case take_outcome s of
        (Fail _, s) \<Rightarrow> (Inl (Io OsError), s)
      | (Good, s) \<Rightarrow>
          (case bt_get (names s) p of
             None \<Rightarrow> (Inl (Io NotFound), s)
           | Some h \<Rightarrow> (Inr (), s\<lparr>names := bt_remove (names s) p\<rparr>)))"

text \<open>\<^verbatim>\<open>list_dir\<close> sorts its entries.\<close>

definition list_dir :: "fs \<Rightarrow> (error + fname list) \<times> fs" where
  "list_dir s =
     (case take_outcome s of
        (Fail _, s) \<Rightarrow> (Inl (Io OsError), s)
      | (Good, s) \<Rightarrow> (Inr (map fst (names s)), s))"

section \<open>Running without faults\<close>

text \<open>
  With an empty plan each operation is the plain file operation; these equations are what
  the functional proofs of the other components rewrite with.
\<close>

lemma take_outcome_Good [no_fault]: "plan s = [] \<Longrightarrow> take_outcome s = (Good, s)"
  by simp

declare take_outcome.simps [simp del]

lemma open_append_old [no_fault]:
  "plan s = [] \<Longrightarrow> bt_get (names s) p = Some h \<Longrightarrow> open_append p s = (Inr h, s)"
  by (simp add: open_append_def take_outcome_Good)

lemma open_append_new [no_fault]:
  "plan s = [] \<Longrightarrow> bt_get (names s) p = None \<Longrightarrow>
   open_append p s = (Inr (next_ino s),
     s\<lparr>names := bt_insert (names s) p (next_ino s), content := (content s)(next_ino s := []),
       stable := (stable s)(next_ino s := []), next_ino := Suc (next_ino s)\<rparr>)"
  by (simp add: open_append_def take_outcome_Good Let_def)

lemma open_read_old [no_fault]:
  "plan s = [] \<Longrightarrow> bt_get (names s) p = Some h \<Longrightarrow> open_read p s = (Inr h, s)"
  by (simp add: open_read_def take_outcome_Good)

lemma append_file_ok [no_fault]:
  "plan s = [] \<Longrightarrow> append_file h bs s =
     (Inr (), s\<lparr>content := (content s)(h := content s h @ bs)\<rparr>)"
  by (simp add: append_file_def take_outcome_Good)

lemma sync_file_ok [no_fault]:
  "plan s = [] \<Longrightarrow> sync_file h s = (Inr (), s\<lparr>stable := (stable s)(h := content s h)\<rparr>)"
  by (simp add: sync_file_def take_outcome_Good)

lemma file_len_ok [no_fault]: "plan s = [] \<Longrightarrow> file_len h s = (Inr (length (content s h)), s)"
  by (simp add: file_len_def take_outcome_Good)

lemma file_is_empty_ok [no_fault]:
  "plan s = [] \<Longrightarrow> file_is_empty h s = (Inr (content s h = []), s)"
  by (simp add: file_is_empty_def file_len_ok)

lemma read_at_ok [no_fault]:
  "plan s = [] \<Longrightarrow> off + n \<le> length (content s h) \<Longrightarrow>
   read_at h off n s = (Inr (subslice off (off + n) (content s h)), s)"
  by (simp add: read_at_def take_outcome_Good)

lemma sync_dir_ok [no_fault]: "plan s = [] \<Longrightarrow> sync_dir s = (Inr (), s\<lparr>stable_names := names s\<rparr>)"
  by (simp add: sync_dir_def take_outcome_Good)

lemma create_dir_all_ok [no_fault]: "plan s = [] \<Longrightarrow> create_dir_all s = (Inr (), s)"
  by (simp add: create_dir_all_def take_outcome_Good)

lemma rename_file_ok [no_fault]:
  "plan s = [] \<Longrightarrow> bt_get (names s) p = Some h \<Longrightarrow>
   rename_file p q s = (Inr (), s\<lparr>names := bt_insert (bt_remove (names s) p) q h\<rparr>)"
  by (simp add: rename_file_def take_outcome_Good)

lemma remove_file_ok [no_fault]:
  "plan s = [] \<Longrightarrow> bt_get (names s) p = Some h \<Longrightarrow>
   remove_file p s = (Inr (), s\<lparr>names := bt_remove (names s) p\<rparr>)"
  by (simp add: remove_file_def take_outcome_Good)

lemma remove_file_missing [no_fault]:
  "plan s = [] \<Longrightarrow> bt_get (names s) p = None \<Longrightarrow> remove_file p s = (Inl (Io NotFound), s)"
  by (simp add: remove_file_def take_outcome_Good)

lemma list_dir_ok [no_fault]: "plan s = [] \<Longrightarrow> list_dir s = (Inr (map fst (names s)), s)"
  by (simp add: list_dir_def take_outcome_Good)

text \<open>With faults, an append is all or a prefix.\<close>

lemma append_file_cases:
  obtains (ok) os where "append_file h bs s =
      (Inr (), s\<lparr>plan := os, content := (content s)(h := content s h @ bs)\<rparr>)"
  | (fail) n os where "append_file h bs s =
      (Inl (Io OsError), s\<lparr>plan := os, content := (content s)(h := content s h @ take n bs)\<rparr>)"
proof (cases "plan s")
  case Nil
  have "append_file h bs s = (Inr (), s\<lparr>plan := [], content := (content s)(h := content s h @ bs)\<rparr>)"
    unfolding append_file_ok [OF Nil] by (simp add: Nil [symmetric])
  then show thesis by (rule ok)
next
  case (Cons o1 os)
  show thesis
  proof (cases o1)
    case Good
    with Cons show thesis by (intro ok [of os]) (simp add: append_file_def take_outcome.simps)
  next
    case (Fail n)
    with Cons show thesis by (intro fail [of n os]) (simp add: append_file_def take_outcome.simps)
  qed
qed

section \<open>What an operation can change\<close>

text \<open>
  The well-formed states: directory entries are sorted, a handle in use lies below the next
  free inode, and no two names share an inode. A fresh inode therefore never aliases an open
  handle, and a write to one file never changes another.
\<close>

definition fs_ok :: "fs \<Rightarrow> bool" where
  "fs_ok s \<longleftrightarrow> ksorted (names s) \<and>
     (\<forall>p h. bt_get (names s) p = Some h \<longrightarrow> h < next_ino s) \<and>
     (\<forall>p q h. bt_get (names s) p = Some h \<longrightarrow> bt_get (names s) q = Some h \<longrightarrow> p = q)"

lemma fs_ok_empty: "fs_ok empty_fs"
  by (simp add: fs_ok_def empty_fs_def)

lemma fs_ok_names_less: "fs_ok s \<Longrightarrow> bt_get (names s) p = Some h \<Longrightarrow> h < next_ino s"
  by (simp add: fs_ok_def)

lemma fs_ok_sorted: "fs_ok s \<Longrightarrow> ksorted (names s)"
  by (simp add: fs_ok_def)

lemma fs_ok_inj:
  "fs_ok s \<Longrightarrow> bt_get (names s) p = Some h \<Longrightarrow> bt_get (names s) q = Some h' \<Longrightarrow>
   p \<noteq> q \<Longrightarrow> h \<noteq> h'"
  by (auto simp: fs_ok_def)

lemma fs_ok_fresh:
  "fs_ok s \<Longrightarrow> names s' = bt_insert (names s) p (next_ino s) \<Longrightarrow> next_ino s' = Suc (next_ino s) \<Longrightarrow>
   fs_ok s'"
  by (auto simp: fs_ok_def bt_get_map_of bt_insert_sorted dest: less_imp_neq intro: less_SucI)

lemma fs_ok_remove:
  "fs_ok s \<Longrightarrow> names s' = bt_remove (names s) p \<Longrightarrow> next_ino s' = next_ino s \<Longrightarrow> fs_ok s'"
  by (auto simp: fs_ok_def bt_get_map_of bt_remove_sorted)

lemma fs_ok_same: "fs_ok s \<Longrightarrow> names s' = names s \<Longrightarrow> next_ino s' = next_ino s \<Longrightarrow> fs_ok s'"
  by (simp add: fs_ok_def)

text \<open>Removing a name leaves a state without it, whether or not it was there.\<close>

lemma remove_file_state:
  "plan s = [] \<Longrightarrow> snd (remove_file p s) = s\<lparr>names := bt_remove (names s) p\<rparr>"
  by (cases "bt_get (names s) p")
     (simp_all add: remove_file_ok remove_file_missing bt_get_map_of bt_remove_missing)

end
