(* ===== verification/Text.thy ===== *)
theory Text
  imports Prelude
begin

text \<open>
  The text formatting and parsing of the standard library that the code relies on:
  \<^verbatim>\<open>{n}\<close>, the zero-padded \<^verbatim>\<open>{id:06}\<close> of file names, the hexadecimal \<^verbatim>\<open>{x:#010x}\<close> of error
  messages, and \<^verbatim>\<open>str::parse\<close> for unsigned integers (an optional plus sign, at least one digit,
  an error on overflow).
\<close>

section \<open>Decimal\<close>

definition digit_char :: "nat \<Rightarrow> char" where
  "digit_char d = char_of (if d < 10 then 48 + d else 87 + d)"

definition digit_val :: "char \<Rightarrow> nat option" where
  "digit_val c = (let n = of_char c :: nat in if 48 \<le> n \<and> n \<le> 57 then Some (n - 48) else None)"

fun dec_string :: "nat \<Rightarrow> string" where
  "dec_string n = (if n < 10 then [digit_char n]
     else dec_string (n div 10) @ [digit_char (n mod 10)])"

definition pad_left :: "nat \<Rightarrow> string \<Rightarrow> string" where
  "pad_left w s = replicate (w - length s) (CHR ''0'') @ s"

fun parse_digits :: "nat \<Rightarrow> nat \<Rightarrow> string \<Rightarrow> nat option" where
  "parse_digits limit acc [] = Some acc"
| "parse_digits limit acc (c # cs) =
     (case digit_val c of
        None \<Rightarrow> None
      | Some d \<Rightarrow> (let acc' = 10 * acc + d in
          if acc' \<le> limit then parse_digits limit acc' cs else None))"

definition parse_uint :: "nat \<Rightarrow> string \<Rightarrow> nat option" where
  "parse_uint limit s =
     (let ds = (case s of c # cs \<Rightarrow> if c = CHR ''+'' then cs else s | [] \<Rightarrow> s)
      in if ds = [] then None else parse_digits limit 0 ds)"

declare dec_string.simps [simp del]

lemma digit_val_char: "d < 10 \<Longrightarrow> digit_val (digit_char d) = Some d"
  by (simp add: digit_val_def digit_char_def)

lemma digit_char_range:
  "d < 10 \<Longrightarrow> 48 \<le> (of_char (digit_char d) :: nat) \<and> (of_char (digit_char d) :: nat) \<le> 57"
  by (simp add: digit_char_def)

lemma dec_string_digits: "c \<in> set (dec_string n) \<Longrightarrow> \<exists>d < 10. c = digit_char d"
proof (induction n rule: dec_string.induct)
  case (1 n)
  then show ?case
    by (subst (asm) (2) dec_string.simps) (auto split: if_splits intro: exI [of _ "n mod 10"])
qed

lemma dec_string_nonempty [simp]: "dec_string n \<noteq> []"
  by (subst dec_string.simps) simp

lemma parse_digits_append:
  "parse_digits limit acc (xs @ ys) =
     (case parse_digits limit acc xs of None \<Rightarrow> None | Some a \<Rightarrow> parse_digits limit a ys)"
  by (induction xs arbitrary: acc) (auto simp: Let_def split: option.splits)

lemma parse_digits_dec_string: "n \<le> limit \<Longrightarrow> parse_digits limit 0 (dec_string n) = Some n"
proof (induction n rule: dec_string.induct)
  case (1 n)
  show ?case
  proof (cases "n < 10")
    case True
    then show ?thesis
      using 1 by (subst dec_string.simps) (simp add: digit_val_char)
  next
    case False
    then have "parse_digits limit 0 (dec_string (n div 10)) = Some (n div 10)"
      using 1 by simp
    then show ?thesis
      using False 1
      by (subst dec_string.simps) (simp add: parse_digits_append digit_val_char)
  qed
qed

lemma parse_digits_zeros:
  "parse_digits limit 0 (replicate k (CHR ''0'') @ s) = parse_digits limit 0 s"
  by (induction k) (auto simp: digit_val_def)

lemma pad_dec_head:
  assumes "pad_left w (dec_string n) = c # cs"
  shows "c \<noteq> CHR ''+''"
proof -
  have "c \<in> set (pad_left w (dec_string n))" using assms by simp
  then consider "c = CHR ''0''" | "c \<in> set (dec_string n)"
    by (auto simp: pad_left_def)
  then have "48 \<le> (of_char c :: nat)"
  proof cases
    case 1
    then show ?thesis by simp
  next
    case 2
    then obtain d where "d < 10" "c = digit_char d"
      by (blast dest: dec_string_digits)
    then show ?thesis using digit_char_range by blast
  qed
  then show ?thesis by auto
qed

lemma parse_pad_dec: "n \<le> limit \<Longrightarrow> parse_uint limit (pad_left w (dec_string n)) = Some n"
proof -
  assume n: "n \<le> limit"
  obtain c cs where s: "pad_left w (dec_string n) = c # cs"
    by (cases "pad_left w (dec_string n)") (auto simp: pad_left_def)
  have "parse_digits limit 0 (pad_left w (dec_string n)) = Some n"
    by (simp add: pad_left_def parse_digits_zeros parse_digits_dec_string n)
  then show ?thesis
    using s pad_dec_head [OF s] by (simp add: parse_uint_def)
qed

lemma parse_dec: "n \<le> limit \<Longrightarrow> parse_uint limit (dec_string n) = Some n"
  using parse_pad_dec [of n limit 0] by (simp add: pad_left_def)

lemma pad_dec_inject: "pad_left w (dec_string m) = pad_left w (dec_string n) \<longleftrightarrow> m = n"
proof
  assume "pad_left w (dec_string m) = pad_left w (dec_string n)"
  then have "parse_uint (max m n) (pad_left w (dec_string m)) =
      parse_uint (max m n) (pad_left w (dec_string n))"
    by simp
  then show "m = n" by (simp add: parse_pad_dec)
qed simp

lemma pad_dec_chars:
  "c \<in> set (pad_left w (dec_string n)) \<Longrightarrow> 48 \<le> (of_char c :: nat) \<and> (of_char c :: nat) \<le> 57"
  using digit_char_range by (auto simp: pad_left_def dest!: dec_string_digits)

section \<open>Hexadecimal\<close>

fun hex_digits :: "nat \<Rightarrow> nat \<Rightarrow> string" where
  "hex_digits 0 x = []"
| "hex_digits (Suc n) x = hex_digits n (x div 16) @ [digit_char (x mod 16)]"

definition hex_string :: "nat \<Rightarrow> nat \<Rightarrow> string" where
  "hex_string w x = ''0x'' @ hex_digits w x"

end
