(* ===== verification/Wal_Record.thy ===== *)
theory Wal_Record
  imports Text
begin

text \<open>
  The record format of the write-ahead log, \<^verbatim>\<open>src/src/wal/record.rs\<close>: the mutation a record
  stands for, its encoding behind a checksum, and its decoding with every reason for refusal.
  The checksum \<^verbatim>\<open>crc32fast::hash\<close> is a library function: it is the parameter \<open>crc\<close> of every
  definition that uses it, and nothing is assumed about it beyond being a function of the bytes.
\<close>

section \<open>Data\<close>

definition HEADER_LEN :: nat where "HEADER_LEN = 4 + 1 + 4 + 4"
definition MAX_KEY_LEN :: u32 where "MAX_KEY_LEN = 64 * 1024"
definition MAX_VALUE_LEN :: u32 where "MAX_VALUE_LEN = 64 * 1024 * 1024"
definition KIND_PUT :: u8 where "KIND_PUT = 0x01"
definition KIND_DELETE :: u8 where "KIND_DELETE = 0x02"
definition KIND_VECTOR :: u8 where "KIND_VECTOR = 0x03"

datatype record_kind = Put | Vector | Delete

fun to_byte :: "record_kind \<Rightarrow> u8" where
  "to_byte Put = KIND_PUT"
| "to_byte Vector = KIND_VECTOR"
| "to_byte Delete = KIND_DELETE"

definition from_byte :: "u8 \<Rightarrow> record_kind option" where
  "from_byte b =
     (if b = KIND_PUT then Some Put
      else if b = KIND_VECTOR then Some Vector
      else if b = KIND_DELETE then Some Delete
      else None)"

record wal_record =
  rec_kind :: record_kind
  rec_key :: bytes
  rec_value :: bytes

definition encoded_len :: "nat \<Rightarrow> nat \<Rightarrow> nat" where
  "encoded_len key_len value_len = HEADER_LEN + key_len + value_len"

section \<open>Encoding\<close>

text \<open>
  \<open>encode\<close> appends to \<open>out\<close>: it reserves the checksum, writes the header and the payload, and
  patches the checksum of everything after its own field. An error leaves \<open>out\<close> as it was.
\<close>

definition encode ::
    "(bytes \<Rightarrow> u32) \<Rightarrow> record_kind \<Rightarrow> bytes \<Rightarrow> bytes \<Rightarrow> bytes \<Rightarrow> error + (nat \<times> bytes)" where
  "encode crc k ky v out =
     (if ky = [] then Inl (InvalidArgument ''empty key'')
      else if length ky > unat MAX_KEY_LEN then Inl (InvalidArgument ''key length exceeds maximum'')
      else if length v > unat MAX_VALUE_LEN
        then Inl (InvalidArgument ''value length exceeds maximum'')
      else if k = Delete \<and> v \<noteq> []
        then Inl (InvalidArgument ''value must be empty for Delete records'')
      else
        (let total = encoded_len (length ky) (length v);
             crc_pos = length out;
             out = out @ replicate 4 0;
             out = out @ [to_byte k];
             out = out @ u32_to_le (word_of_nat (length ky));
             out = out @ u32_to_le (word_of_nat (length v));
             out = out @ ky;
             out = out @ v;
             payload_start = crc_pos + 4;
             c = crc (drop payload_start out);
             out = overwrite crc_pos (u32_to_le c) out
         in Inr (total, out)))"

section \<open>Decoding\<close>

datatype decode_error =
    Truncated nat nat
  | BadCrc u32 u32
  | BadKind u8
  | LengthExceedsMax string u32 u32
  | EmptyKey
  | UnexpectedDeleteValue

fun decode_error_text :: "decode_error \<Rightarrow> string" where
  "decode_error_text (Truncated needed available) =
     ''record truncated: needed '' @ dec_string needed @ '' bytes, have '' @ dec_string available"
| "decode_error_text (BadCrc stored computed) =
     ''CRC mismatch: stored '' @ hex_string 8 (unat stored) @
     '', computed '' @ hex_string 8 (unat computed)"
| "decode_error_text (BadKind b) = ''unknown record kind '' @ hex_string 2 (unat b)"
| "decode_error_text (LengthExceedsMax field len mx) =
     field @ '' length '' @ dec_string (unat len) @ '' exceeds maximum '' @ dec_string (unat mx)"
| "decode_error_text EmptyKey = ''record has zero-length key''"
| "decode_error_text UnexpectedDeleteValue = ''Delete record carries a non-empty value''"

definition error_of_decode :: "decode_error \<Rightarrow> error" where
  "error_of_decode e = Corruption (decode_error_text e)"

definition decode :: "(bytes \<Rightarrow> u32) \<Rightarrow> bytes \<Rightarrow> decode_error + (wal_record \<times> nat)" where
  "decode crc buf =
     (if length buf < HEADER_LEN then Inl (Truncated HEADER_LEN (length buf))
      else
        (let stored_crc = u32_from_le (subslice 0 4 buf);
             kind_byte = buf ! 4;
             key_len = u32_from_le (subslice 5 9 buf);
             value_len = u32_from_le (subslice 9 13 buf)
         in if key_len = 0 then Inl EmptyKey
            else if key_len > MAX_KEY_LEN
              then Inl (LengthExceedsMax ''key'' key_len MAX_KEY_LEN)
            else if value_len > MAX_VALUE_LEN
              then Inl (LengthExceedsMax ''value'' value_len MAX_VALUE_LEN)
            else
              (let total = HEADER_LEN + unat key_len + unat value_len
               in if length buf < total then Inl (Truncated total (length buf))
                  else
                    (let computed_crc = crc (subslice 4 total buf)
                     in if computed_crc \<noteq> stored_crc then Inl (BadCrc stored_crc computed_crc)
                        else
                          (case from_byte kind_byte of
                             None \<Rightarrow> Inl (BadKind kind_byte)
                           | Some k \<Rightarrow>
                               (let ky = subslice HEADER_LEN (HEADER_LEN + unat key_len) buf;
                                    v = subslice (HEADER_LEN + unat key_len) total buf
                                in if k = Delete \<and> v \<noteq> [] then Inl UnexpectedDeleteValue
                                   else Inr (\<lparr>rec_kind = k, rec_key = ky, rec_value = v\<rparr>, total)))))))"

section \<open>The frame of a record\<close>

text \<open>
  What the encoder writes, as one expression: the checksum field and the body it covers.
  \<open>valid_record\<close> is the encoder's admission test.
\<close>

definition record_body :: "record_kind \<Rightarrow> bytes \<Rightarrow> bytes \<Rightarrow> bytes" where
  "record_body k ky v = [to_byte k] @ u32_to_le (word_of_nat (length ky)) @
     u32_to_le (word_of_nat (length v)) @ ky @ v"

definition frame :: "(bytes \<Rightarrow> u32) \<Rightarrow> wal_record \<Rightarrow> bytes" where
  "frame crc r = (let body = record_body (rec_kind r) (rec_key r) (rec_value r)
     in u32_to_le (crc body) @ body)"

definition valid_record :: "wal_record \<Rightarrow> bool" where
  "valid_record r \<longleftrightarrow> rec_key r \<noteq> [] \<and> length (rec_key r) \<le> unat MAX_KEY_LEN
     \<and> length (rec_value r) \<le> unat MAX_VALUE_LEN
     \<and> (rec_kind r = Delete \<longrightarrow> rec_value r = [])"

lemma unat_MAX_KEY_LEN [simp]: "unat MAX_KEY_LEN = 65536"
  by (simp add: MAX_KEY_LEN_def)

lemma unat_MAX_VALUE_LEN [simp]: "unat MAX_VALUE_LEN = 67108864"
  by (simp add: MAX_VALUE_LEN_def)

lemma HEADER_LEN_eq [simp]: "HEADER_LEN = 13"
  by (simp add: HEADER_LEN_def)

lemma from_to_byte [simp]: "from_byte (to_byte k) = Some k"
  by (cases k) (simp_all add: from_byte_def KIND_PUT_def KIND_VECTOR_def KIND_DELETE_def)

lemma from_byte_Some: "from_byte b = Some k \<longleftrightarrow> b = to_byte k"
  by (cases k) (auto simp: from_byte_def KIND_PUT_def KIND_VECTOR_def KIND_DELETE_def
      split: if_splits)

lemma length_record_body: "length (record_body k ky v) = 9 + length ky + length v"
  by (simp add: record_body_def)

lemma length_frame [simp]:
  "length (frame crc r) = 13 + length (rec_key r) + length (rec_value r)"
  by (simp add: frame_def Let_def length_record_body)

lemma encode_frame:
  "encode crc k ky v out =
     (if valid_record \<lparr>rec_kind = k, rec_key = ky, rec_value = v\<rparr>
      then Inr (13 + length ky + length v,
             out @ frame crc \<lparr>rec_kind = k, rec_key = ky, rec_value = v\<rparr>)
      else Inl (InvalidArgument
        (if ky = [] then ''empty key''
         else if length ky > 65536 then ''key length exceeds maximum''
         else if length v > 67108864 then ''value length exceeds maximum''
         else ''value must be empty for Delete records'')))"
proof -
  have "overwrite (length out) c (out @ replicate 4 0 @ record_body k ky v) =
      out @ c @ record_body k ky v" if "length c = 4" for c
    using that by (simp add: overwrite_mid)
  then show ?thesis
    by (simp add: encode_def valid_record_def encoded_len_def frame_def Let_def record_body_def)
qed

section \<open>Decoding a frame\<close>

text \<open>The fields a decoder reads from a buffer that starts with a frame, cut short or not.\<close>

lemma frame_parts:
  "frame crc r @ rest =
     u32_to_le (crc (record_body (rec_kind r) (rec_key r) (rec_value r))) @ [to_byte (rec_kind r)] @
     u32_to_le (word_of_nat (length (rec_key r))) @
     u32_to_le (word_of_nat (length (rec_value r))) @ rec_key r @ rec_value r @ rest"
  by (simp add: frame_def record_body_def Let_def)

lemma frame_fields:
  "subslice 0 4 (frame crc r @ rest) =
     u32_to_le (crc (record_body (rec_kind r) (rec_key r) (rec_value r)))"
  "(frame crc r @ rest) ! 4 = to_byte (rec_kind r)"
  "subslice 5 9 (frame crc r @ rest) = u32_to_le (word_of_nat (length (rec_key r)))"
  "subslice 9 13 (frame crc r @ rest) = u32_to_le (word_of_nat (length (rec_value r)))"
  by (simp_all add: frame_parts subslice_def drop_append nth_append)

lemma frame_payload:
  "subslice 4 (length (frame crc r)) (frame crc r @ rest) =
     record_body (rec_kind r) (rec_key r) (rec_value r)"
  "subslice 13 (13 + length (rec_key r)) (frame crc r @ rest) = rec_key r"
  "subslice (13 + length (rec_key r)) (length (frame crc r)) (frame crc r @ rest) = rec_value r"
proof -
  define hdr where "hdr = u32_to_le (crc (record_body (rec_kind r) (rec_key r) (rec_value r))) @
     [to_byte (rec_kind r)] @ u32_to_le (word_of_nat (length (rec_key r))) @
     u32_to_le (word_of_nat (length (rec_value r)))"
  have hdr: "length hdr = 13" "frame crc r @ rest = hdr @ rec_key r @ rec_value r @ rest"
    by (simp_all add: hdr_def frame_parts)
  show "subslice 13 (13 + length (rec_key r)) (frame crc r @ rest) = rec_key r"
    by (simp add: hdr subslice_mid)
  show "subslice (13 + length (rec_key r)) (length (frame crc r)) (frame crc r @ rest) =
      rec_value r"
    using subslice_mid [of "hdr @ rec_key r" "13 + length (rec_key r)" "rec_value r"
        "length (frame crc r)" rest]
    by (simp add: hdr)
  show "subslice 4 (length (frame crc r)) (frame crc r @ rest) =
      record_body (rec_kind r) (rec_key r) (rec_value r)"
    by (simp add: frame_def Let_def subslice_mid length_record_body)
qed

lemma frame_fields_take:
  assumes "13 \<le> n"
  shows "subslice 0 4 (take n (frame crc r @ rest)) =
      u32_to_le (crc (record_body (rec_kind r) (rec_key r) (rec_value r)))"
    and "take n (frame crc r @ rest) ! 4 = to_byte (rec_kind r)"
    and "subslice 5 9 (take n (frame crc r @ rest)) = u32_to_le (word_of_nat (length (rec_key r)))"
    and "subslice 9 13 (take n (frame crc r @ rest)) = u32_to_le (word_of_nat (length (rec_value r)))"
  using assms by (simp_all add: subslice_take frame_fields del: length_frame take_append)

lemma valid_record_lengths:
  assumes "valid_record r"
  shows "unat (word_of_nat (length (rec_key r)) :: u32) = length (rec_key r)"
    and "unat (word_of_nat (length (rec_value r)) :: u32) = length (rec_value r)"
    and "(word_of_nat (length (rec_key r)) :: u32) \<noteq> 0"
    and "(word_of_nat (length (rec_key r)) :: u32) \<le> MAX_KEY_LEN"
    and "(word_of_nat (length (rec_value r)) :: u32) \<le> MAX_VALUE_LEN"
proof -
  show k: "unat (word_of_nat (length (rec_key r)) :: u32) = length (rec_key r)"
    and v: "unat (word_of_nat (length (rec_value r)) :: u32) = length (rec_value r)"
    using assms by (simp_all add: valid_record_def unat_u32_of_nat)
  show "(word_of_nat (length (rec_key r)) :: u32) \<noteq> 0"
    using k assms by (auto simp: valid_record_def)
  show "(word_of_nat (length (rec_key r)) :: u32) \<le> MAX_KEY_LEN"
    and "(word_of_nat (length (rec_value r)) :: u32) \<le> MAX_VALUE_LEN"
    using k v assms by (simp_all add: valid_record_def word_le_nat_alt)
qed

lemma decode_frame:
  assumes "valid_record r"
  shows "decode crc (frame crc r @ rest) = Inr (r, length (frame crc r))"
  using assms valid_record_lengths [OF assms] frame_payload [where crc = crc and r = r and rest = rest]
  by (simp add: decode_def frame_fields Let_def valid_record_def linorder_not_less)

text \<open>
  A buffer that ends inside a frame is reported as truncated, with the length of the whole
  frame as soon as the header is there.
\<close>

lemma decode_torn:
  assumes "valid_record r" and "n < length (frame crc r)"
  shows "decode crc (take n (frame crc r)) =
    Inl (Truncated (if n < 13 then 13 else length (frame crc r)) n)"
proof (cases "n < 13")
  case True
  then show ?thesis using assms(2) by (simp add: decode_def min_def)
next
  case False
  then show ?thesis
    using assms(2) valid_record_lengths [OF assms(1)] frame_fields_take [where n = n and crc = crc and r = r and rest = "[]"]
    by (simp add: decode_def Let_def min_def linorder_not_less)
qed

text \<open>Conversely, whatever \<open>decode\<close> accepts starts with the frame of the record it returns.\<close>

lemma decode_Inr:
  assumes "decode crc buf = Inr (r, n)"
  shows "valid_record r" and "n = length (frame crc r)" and "n \<le> length buf"
    and "take n buf = frame crc r"
proof -
  define kl where "kl = u32_from_le (subslice 5 9 buf)"
  define vl where "vl = u32_from_le (subslice 9 13 buf)"
  define total where "total = 13 + unat kl + unat vl"
  have len: "13 \<le> length buf" "total \<le> length buf" and n: "n = total"
    and kl: "kl \<noteq> 0" "kl \<le> MAX_KEY_LEN" and vl: "vl \<le> MAX_VALUE_LEN"
    and crc: "crc (subslice 4 total buf) = u32_from_le (subslice 0 4 buf)"
    and kind: "from_byte (buf ! 4) = Some (rec_kind r)"
    and ky: "rec_key r = subslice 13 (13 + unat kl) buf"
    and v: "rec_value r = subslice (13 + unat kl) total buf"
    and del: "rec_kind r = Delete \<longrightarrow> rec_value r = []"
    using assms
    by (auto simp: decode_def Let_def kl_def vl_def total_def split: if_splits option.splits)
  have lky: "length (rec_key r) = unat kl" and lv: "length (rec_value r) = unat vl"
    using len by (simp_all add: ky v length_subslice total_def)
  show valid: "valid_record r"
    using kl vl lky lv del
    by (auto simp: valid_record_def word_le_nat_alt unat_eq_0 simp flip: length_0_conv)
  show "n = length (frame crc r)"
    by (simp add: n lky lv total_def)
  show "n \<le> length buf"
    using len n by simp
  have "record_body (rec_kind r) (rec_key r) (rec_value r) = subslice 4 total buf"
  proof -
    have "subslice 4 5 buf = [to_byte (rec_kind r)]"
      using kind len by (simp add: from_byte_Some subslice_def take_Suc_conv_app_nth
          flip: Cons_nth_drop_Suc)
    moreover have "subslice 5 9 buf = u32_to_le (word_of_nat (unat kl))"
      and "subslice 9 13 buf = u32_to_le (word_of_nat (unat vl))"
      using len by (simp_all add: kl_def vl_def u32_to_from_le length_subslice)
    ultimately have "record_body (rec_kind r) (rec_key r) (rec_value r) =
        subslice 4 5 buf @ subslice 5 9 buf @ subslice 9 13 buf @ rec_key r @ rec_value r"
      by (simp add: record_body_def lky lv)
    also have "\<dots> = subslice 4 total buf"
      by (simp add: ky v subslice_concat total_def)
    finally show ?thesis .
  qed
  then have "frame crc r = subslice 0 4 buf @ subslice 4 total buf"
    using len by (simp add: frame_def Let_def crc u32_to_from_le length_subslice)
  also have "\<dots> = take n buf"
    using subslice_concat [of 0 4 total buf] by (simp add: n total_def subslice_0)
  finally show "take n buf = frame crc r" by simp
qed


section \<open>Properties\<close>

text \<open>C33: A record the encoder accepts decodes to itself, whatever bytes follow it, and the
  decoder reports exactly the bytes the encoder wrote.\<close>

theorem record_round_trip:
  assumes "encode crc k ky v [] = Inr (n, buf)"
  shows "decode crc (buf @ rest) = Inr (\<lparr>rec_kind = k, rec_key = ky, rec_value = v\<rparr>, n) \<and>
    n = length buf \<and> n = encoded_len (length ky) (length v)"
proof -
  let ?r = "\<lparr>rec_kind = k, rec_key = ky, rec_value = v\<rparr>"
  have "valid_record ?r" "buf = frame crc ?r" "n = 13 + length ky + length v"
    using assms by (auto simp: encode_frame split: if_splits)
  then show ?thesis using decode_frame [of ?r crc rest] by (simp add: encoded_len_def)
qed

theorem record_round_trip_witness:
  "\<exists>n buf. encode (\<lambda>_. 7) record_kind.Put [1, 2] [3] [] = Inr (n, buf) \<and>
     decode (\<lambda>_. 7) (buf @ [9, 9]) =
       Inr (\<lparr>rec_kind = record_kind.Put, rec_key = [1, 2], rec_value = [3]\<rparr>, n)"
proof -
  let ?r = "\<lparr>rec_kind = record_kind.Put, rec_key = [1, 2], rec_value = [3]\<rparr>"
  have enc: "encode (\<lambda>_. 7) record_kind.Put [1, 2] [3] [] = Inr (16, frame (\<lambda>_. 7) ?r)"
    by (simp add: encode_frame valid_record_def)
  with record_round_trip [OF enc, of "[9, 9]"] show ?thesis by blast
qed

text \<open>The decoder accepts nothing else: whatever it returns is an admissible record, and the
  bytes it consumed are exactly that record's encoding, so no two byte strings decode alike.\<close>

theorem decode_only_frames:
  assumes "decode crc buf = Inr (r, n)"
  shows "n \<le> length buf \<and> encode crc (rec_kind r) (rec_key r) (rec_value r) [] = Inr (n, take n buf)"
proof -
  have r: "\<lparr>rec_kind = rec_kind r, rec_key = rec_key r, rec_value = rec_value r\<rparr> = r" by simp
  show ?thesis using decode_Inr [OF assms] unfolding encode_frame r by simp
qed

theorem decode_only_frames_witness:
  "\<exists>buf n. decode (\<lambda>_. 7) buf = Inr (\<lparr>rec_kind = Delete, rec_key = [5], rec_value = []\<rparr>, n) \<and>
     encode (\<lambda>_. 7) Delete [5] [] [] = Inr (n, take n buf)"
proof -
  let ?r = "\<lparr>rec_kind = Delete, rec_key = [5], rec_value = []\<rparr>"
  have "decode (\<lambda>_. 7) (frame (\<lambda>_. 7) ?r) = Inr (?r, length (frame (\<lambda>_. 7) ?r))"
    using decode_frame [of ?r "\<lambda>_. 7" "[]"] by (simp add: valid_record_def)
  with decode_only_frames [OF this] show ?thesis by auto
qed

text \<open>Every proper prefix of an encoded record is reported as truncated, never as corrupt and
  never as a record, together with the length that would be needed.\<close>

theorem torn_record_is_truncated:
  assumes "encode crc k ky v [] = Inr (n, buf)" and "m < n"
  shows "decode crc (take m buf) = Inl (Truncated (if m < 13 then 13 else n) m)"
proof -
  let ?r = "\<lparr>rec_kind = k, rec_key = ky, rec_value = v\<rparr>"
  have "valid_record ?r" "buf = frame crc ?r" "n = length (frame crc ?r)"
    using assms(1) by (auto simp: encode_frame split: if_splits)
  then show ?thesis using decode_torn [of ?r m crc] assms(2) by simp
qed

theorem torn_record_is_truncated_witness:
  "\<exists>n buf. encode (\<lambda>_. 7) record_kind.Put [1, 2] [3] [] = Inr (n, buf) \<and>
     decode (\<lambda>_. 7) (take 14 buf) = Inl (Truncated n 14)"
proof -
  let ?r = "\<lparr>rec_kind = record_kind.Put, rec_key = [1, 2], rec_value = [3]\<rparr>"
  have enc: "encode (\<lambda>_. 7) record_kind.Put [1, 2] [3] [] = Inr (16, frame (\<lambda>_. 7) ?r)"
    by (simp add: encode_frame valid_record_def)
  with torn_record_is_truncated [OF enc, of 14] show ?thesis by auto
qed

end
