(* ===== verification/Wal_Writer.thy ===== *)
theory Wal_Writer
  imports Fs Wal_Record
begin

text \<open>
  The appender of the write-ahead log, \<^verbatim>\<open>src/src/wal/writer.rs\<close>: the file header, one encoded
  record per append, and no sync unless the caller asks for it. \<open>log_file\<close> states what a log
  file holds, and each operation is shown to extend it by exactly its record.
\<close>

section \<open>The writer\<close>

definition WAL_MAGIC :: bytes where "WAL_MAGIC = ascii ''SASTWAL1''"
definition FORMAT_VERSION :: u32 where "FORMAT_VERSION = 1"
definition FILE_HEADER_LEN :: nat where "FILE_HEADER_LEN = length WAL_MAGIC + 4"

record wal_writer =
  w_file :: nat
  w_scratch :: bytes

definition wal_open :: "fname \<Rightarrow> fs \<Rightarrow> (error + wal_writer) \<times> fs" where
  "wal_open path s =
     (case open_append path s of
        (Inl e, s) \<Rightarrow> (Inl e, s)
      | (Inr h, s) \<Rightarrow>
          (case file_is_empty h s of
             (Inl e, s) \<Rightarrow> (Inl e, s)
           | (Inr is_new, s) \<Rightarrow>
               if is_new then
                 (case append_file h (WAL_MAGIC @ u32_to_le FORMAT_VERSION) s of
                    (Inl e, s) \<Rightarrow> (Inl e, s)
                  | (Inr _, s) \<Rightarrow>
                      (case sync_file h s of
                         (Inl e, s) \<Rightarrow> (Inl e, s)
                       | (Inr _, s) \<Rightarrow>
                           (case sync_dir s of
                              (Inl e, s) \<Rightarrow> (Inl e, s)
                            | (Inr _, s) \<Rightarrow> (Inr \<lparr>w_file = h, w_scratch = []\<rparr>, s))))
               else (Inr \<lparr>w_file = h, w_scratch = []\<rparr>, s)))"

definition wal_append ::
    "(bytes \<Rightarrow> u32) \<Rightarrow> record_kind \<Rightarrow> bytes \<Rightarrow> bytes \<Rightarrow> wal_writer \<Rightarrow> fs \<Rightarrow>
     (error + unit) \<times> wal_writer \<times> fs" where
  "wal_append crc k ky v w s =
     (let w = w\<lparr>w_scratch := []\<rparr>
      in case encode crc k ky v (w_scratch w) of
           Inl e \<Rightarrow> (Inl e, w, s)
         | Inr (_, buf) \<Rightarrow>
             (let w = w\<lparr>w_scratch := buf\<rparr>
              in case append_file (w_file w) (w_scratch w) s of
                   (Inl e, s) \<Rightarrow> (Inl e, w, s)
                 | (Inr _, s) \<Rightarrow> (Inr (), w, s)))"

definition wal_sync :: "wal_writer \<Rightarrow> fs \<Rightarrow> (error + unit) \<times> fs" where
  "wal_sync w s = sync_file (w_file w) s"

definition wal_len :: "wal_writer \<Rightarrow> fs \<Rightarrow> (error + nat) \<times> fs" where
  "wal_len w s = file_len (w_file w) s"

definition wal_is_empty :: "wal_writer \<Rightarrow> fs \<Rightarrow> (error + bool) \<times> fs" where
  "wal_is_empty w s =
     (case wal_len w s of
        (Inl e, s) \<Rightarrow> (Inl e, s)
      | (Inr n, s) \<Rightarrow> (Inr (n = FILE_HEADER_LEN), s))"

section \<open>The contents of a log file\<close>

definition wal_header :: bytes where
  "wal_header = WAL_MAGIC @ u32_to_le FORMAT_VERSION"

definition log_bytes :: "(bytes \<Rightarrow> u32) \<Rightarrow> wal_record list \<Rightarrow> bytes" where
  "log_bytes crc rs = wal_header @ concat (map (frame crc) rs)"

lemma length_WAL_MAGIC [simp]: "length WAL_MAGIC = 8"
  by (simp add: WAL_MAGIC_def)

lemma FILE_HEADER_LEN_eq [simp]: "FILE_HEADER_LEN = 12"
  by (simp add: FILE_HEADER_LEN_def)

lemma length_wal_header [simp]: "length wal_header = 12"
  by (simp add: wal_header_def)

lemma wal_header_nonempty [simp]: "wal_header \<noteq> []"
  by (simp add: wal_header_def flip: length_0_conv)

lemma log_bytes_nonempty [simp]: "log_bytes crc rs \<noteq> []"
  by (simp add: log_bytes_def)

lemma log_bytes_Nil: "log_bytes crc [] = wal_header"
  by (simp add: log_bytes_def)

lemma log_bytes_snoc: "log_bytes crc (rs @ [r]) = log_bytes crc rs @ frame crc r"
  by (simp add: log_bytes_def)

text \<open>Opening a name that does not exist creates a log with no record, on stable storage.\<close>

lemma wal_open_new [no_fault]:
  assumes "plan s = []" and "bt_get (names s) path = None"
  shows "wal_open path s =
    (Inr \<lparr>w_file = next_ino s, w_scratch = []\<rparr>,
     s\<lparr>names := bt_insert (names s) path (next_ino s),
       content := (content s)(next_ino s := wal_header),
       stable := (stable s)(next_ino s := wal_header),
       stable_names := bt_insert (names s) path (next_ino s),
       next_ino := Suc (next_ino s)\<rparr>)"
  using assms by (simp add: wal_open_def no_fault wal_header_def)

lemma wal_open_old [no_fault]:
  assumes "plan s = []" and "bt_get (names s) path = Some h" and "content s h \<noteq> []"
  shows "wal_open path s = (Inr \<lparr>w_file = h, w_scratch = []\<rparr>, s)"
  using assms by (simp add: wal_open_def no_fault)

lemma wal_append_ok [no_fault]:
  assumes "plan s = []" and "valid_record \<lparr>rec_kind = k, rec_key = ky, rec_value = v\<rparr>"
  shows "wal_append crc k ky v w s =
    (Inr (), w\<lparr>w_scratch := frame crc \<lparr>rec_kind = k, rec_key = ky, rec_value = v\<rparr>\<rparr>,
     s\<lparr>content := (content s)(w_file w := content s (w_file w) @
       frame crc \<lparr>rec_kind = k, rec_key = ky, rec_value = v\<rparr>)\<rparr>)"
  using assms by (simp add: wal_append_def encode_frame no_fault)

text \<open>A record the encoder refuses never reaches the file.\<close>

lemma wal_append_invalid:
  assumes "\<not> valid_record \<lparr>rec_kind = k, rec_key = ky, rec_value = v\<rparr>"
  shows "\<exists>m. wal_append crc k ky v w s = (Inl (InvalidArgument m), w\<lparr>w_scratch := []\<rparr>, s)"
  using assms by (simp add: wal_append_def encode_frame)

lemma wal_sync_ok [no_fault]:
  "plan s = [] \<Longrightarrow> wal_sync w s =
     (Inr (), s\<lparr>stable := (stable s)(w_file w := content s (w_file w))\<rparr>)"
  by (simp add: wal_sync_def no_fault)


section \<open>Properties\<close>

text \<open>Whatever faults occur, an append adds nothing to the log but a prefix of its own record,
  and it reports success only if the whole record was added; a refused record adds nothing.\<close>

theorem wal_append_prefix:
  "case wal_append crc k ky v w s of
     (Inr _, w', s') \<Rightarrow> valid_record \<lparr>rec_kind = k, rec_key = ky, rec_value = v\<rparr> \<and>
       content s' = (content s)(w_file w := content s (w_file w) @
         frame crc \<lparr>rec_kind = k, rec_key = ky, rec_value = v\<rparr>)
   | (Inl _, w', s') \<Rightarrow> \<exists>n. content s' = (content s)(w_file w := content s (w_file w) @
         take n (frame crc \<lparr>rec_kind = k, rec_key = ky, rec_value = v\<rparr>))"
proof (cases "valid_record \<lparr>rec_kind = k, rec_key = ky, rec_value = v\<rparr>")
  case True
  let ?f = "frame crc \<lparr>rec_kind = k, rec_key = ky, rec_value = v\<rparr>"
  have run: "wal_append crc k ky v w s =
      (case append_file (w_file w) ?f s of
         (Inl e, s) \<Rightarrow> (Inl e, w\<lparr>w_scratch := ?f\<rparr>, s)
       | (Inr _, s) \<Rightarrow> (Inr (), w\<lparr>w_scratch := ?f\<rparr>, s))"
    using True by (simp add: wal_append_def encode_frame Let_def split: prod.split sum.split)
  show ?thesis
  proof (cases rule: append_file_cases [of "w_file w" ?f s])
    case (ok os)
    then show ?thesis using True unfolding run by simp
  next
    case (fail n os)
    then show ?thesis unfolding run by simp blast
  qed
next
  case False
  then obtain m where "wal_append crc k ky v w s = (Inl (InvalidArgument m), w\<lparr>w_scratch := []\<rparr>, s)"
    using wal_append_invalid by blast
  then show ?thesis by (auto intro: exI [of _ 0])
qed

end
