(* ===== verification/Wal_Reader.thy ===== *)
theory Wal_Reader
  imports Wal_Writer
begin

text \<open>
  Replay of the write-ahead log, \<^verbatim>\<open>src/src/wal/reader.rs\<close>: the header check on open, and
  \<open>next_record\<close>, which reads a record in two steps (its header, then the whole) and takes a
  record that runs past the end of the file for the torn tail of a crash. \<open>parse_log\<close> is the
  specification: what a log's bytes mean. \<open>next_record\<close> refines it.
\<close>

section \<open>The reader\<close>

record wal_reader =
  rd_file :: nat
  rd_file_len :: nat
  rd_offset :: nat
  rd_done :: bool
  rd_scratch :: bytes

definition wal_reader_open :: "fname \<Rightarrow> fs \<Rightarrow> (error + wal_reader) \<times> fs" where
  "wal_reader_open path s =
     (case open_read path s of
        (Inl e, s) \<Rightarrow> (Inl e, s)
      | (Inr h, s) \<Rightarrow>
          (case file_len h s of
             (Inl e, s) \<Rightarrow> (Inl e, s)
           | (Inr flen, s) \<Rightarrow>
               if flen < FILE_HEADER_LEN
               then (Inl (Corruption ''WAL file shorter than header''), s)
               else
                 (case read_at h 0 FILE_HEADER_LEN s of
                    (Inl e, s) \<Rightarrow> (Inl e, s)
                  | (Inr header, s) \<Rightarrow>
                      if subslice 0 (length WAL_MAGIC) header \<noteq> WAL_MAGIC
                      then (Inl (Corruption ''WAL magic mismatch''), s)
                      else
                        (let version = u32_from_le
                               (subslice (length WAL_MAGIC) FILE_HEADER_LEN header)
                         in if version \<noteq> FORMAT_VERSION
                            then (Inl (Corruption ''unsupported WAL format version''), s)
                            else (Inr \<lparr>rd_file = h, rd_file_len = flen,
                                   rd_offset = FILE_HEADER_LEN, rd_done = False,
                                   rd_scratch = []\<rparr>, s)))))"

definition next_record ::
    "(bytes \<Rightarrow> u32) \<Rightarrow> wal_reader \<Rightarrow> fs \<Rightarrow> (error + wal_record option) \<times> wal_reader \<times> fs" where
  "next_record crc rd s =
     (if rd_done rd then (Inr None, rd, s)
      else if rd_offset rd \<ge> rd_file_len rd then (Inr None, rd\<lparr>rd_done := True\<rparr>, s)
      else
        (let remaining = rd_file_len rd - rd_offset rd
         in if remaining < HEADER_LEN then (Inr None, rd\<lparr>rd_done := True\<rparr>, s)
            else
              (case read_at (rd_file rd) (rd_offset rd) HEADER_LEN s of
                 (Inl e, s) \<Rightarrow> (Inl e, rd, s)
               | (Inr hdr, s) \<Rightarrow>
                   (let rd = rd\<lparr>rd_scratch := hdr\<rparr>
                    in case decode crc (rd_scratch rd) of
                         Inl (Truncated needed _) \<Rightarrow>
                           if remaining < needed then (Inr None, rd\<lparr>rd_done := True\<rparr>, s)
                           else
                             (case read_at (rd_file rd) (rd_offset rd) needed s of
                                (Inl e, s) \<Rightarrow> (Inl e, rd, s)
                              | (Inr full, s) \<Rightarrow>
                                  (let rd = rd\<lparr>rd_scratch := full\<rparr>
                                   in case decode crc (rd_scratch rd) of
                                        Inl e \<Rightarrow> (Inl (error_of_decode e), rd, s)
                                      | Inr (r, consumed) \<Rightarrow>
                                          (Inr (Some r),
                                           rd\<lparr>rd_offset := rd_offset rd + consumed\<rparr>, s)))
                       | Inl e \<Rightarrow> (Inl (error_of_decode e), rd, s)
                       | Inr (r, consumed) \<Rightarrow>
                           (Inr (Some r), rd\<lparr>rd_offset := rd_offset rd + consumed\<rparr>, s)))))"

definition position :: "wal_reader \<Rightarrow> nat" where
  "position rd = rd_offset rd"

text \<open>Each record moves the offset forward, and only below the file's length: replay ends.\<close>

lemma decode_consumes: "decode crc buf = Inr (r, n) \<Longrightarrow> 13 < n"
  using decode_Inr [of crc buf r n] by (auto simp: valid_record_def)

lemma next_record_progress:
  assumes "next_record crc rd s = (Inr (Some r), rd', s')"
  shows "rd_file_len rd' = rd_file_len rd" and "rd_offset rd < rd_offset rd'"
    and "rd_offset rd < rd_file_len rd" and "rd_file rd' = rd_file rd"
  using assms
  by (auto simp: next_record_def Let_def dest!: decode_consumes
      split: if_splits prod.splits sum.splits decode_error.splits)

lemma decode_bounds: "decode crc buf = Inr (r, n) \<Longrightarrow> 13 < n \<and> n \<le> length buf"
  by (blast dest: decode_consumes decode_Inr(3))

section \<open>What a log's bytes mean\<close>

text \<open>
  The records of the bytes after the file header, and how the log ends: cleanly (at the end,
  or in a torn record) or in a record that does not decode.
\<close>

datatype log_end = Clean | Bad decode_error

function parse_log :: "(bytes \<Rightarrow> u32) \<Rightarrow> bytes \<Rightarrow> wal_record list \<times> log_end" where
  "parse_log crc bs =
     (case decode crc bs of
        Inl (Truncated _ _) \<Rightarrow> ([], Clean)
      | Inl e \<Rightarrow> ([], Bad e)
      | Inr (r, n) \<Rightarrow> (let (rs, e) = parse_log crc (drop n bs) in (r # rs, e)))"
  by pat_completeness auto
termination
  by (relation "measure (\<lambda>(crc, bs). length bs)")
     (auto dest!: decode_bounds)

declare parse_log.simps [simp del]

lemma parse_log_frame:
  "valid_record r \<Longrightarrow> parse_log crc (frame crc r @ bs) =
     (let (rs, e) = parse_log crc bs in (r # rs, e))"
  by (subst parse_log.simps) (simp add: decode_frame del: length_frame)

lemma parse_log_frames:
  "(\<forall>r \<in> set rs. valid_record r) \<Longrightarrow> parse_log crc (concat (map (frame crc) rs) @ bs) =
     (let (rs', e) = parse_log crc bs in (rs @ rs', e))"
  by (induction rs) (auto simp: parse_log_frame split: prod.splits)

lemma parse_log_torn:
  "valid_record r \<Longrightarrow> n < length (frame crc r) \<Longrightarrow> parse_log crc (take n (frame crc r)) = ([], Clean)"
  by (subst parse_log.simps) (simp add: decode_torn del: length_frame)

lemma parse_log_Nil [simp]: "parse_log crc [] = ([], Clean)"
  by (subst parse_log.simps) (simp add: decode_def)

section \<open>Reading a record in two steps\<close>

text \<open>
  The reader decodes the header alone first, to learn the length. Unless the header is
  already refused, that decode reports the length of the whole record, and decoding exactly
  that many bytes is decoding the rest of the file.
\<close>

lemma decode_take13:
  assumes "13 \<le> length bs"
  shows "(\<exists>t. 13 < t \<and> decode crc (take 13 bs) = Inl (Truncated t 13) \<and>
            (if length bs < t then decode crc bs = Inl (Truncated t (length bs))
             else decode crc (take t bs) = decode crc bs \<and>
               (\<forall>a b. decode crc bs \<noteq> Inl (Truncated a b)))) \<or>
         (\<exists>e. decode crc (take 13 bs) = Inl e \<and> decode crc bs = Inl e \<and>
            (\<forall>a b. e \<noteq> Truncated a b))"
proof -
  let ?kl = "u32_from_le (subslice 5 9 bs)" and ?vl = "u32_from_le (subslice 9 13 bs)"
  define t where "t = 13 + unat ?kl + unat ?vl"
  show ?thesis
  proof (cases "?kl = 0 \<or> ?kl > MAX_KEY_LEN \<or> ?vl > MAX_VALUE_LEN")
    case True
    then show ?thesis using assms
      by (intro disjI2) (auto simp: decode_def Let_def subslice_take)
  next
    case False
    then have "0 < unat ?kl" by (simp add: unat_gt_0)
    then have "13 < t" by (simp add: t_def)
    moreover have "decode crc (take 13 bs) = Inl (Truncated t 13)"
      using False assms \<open>13 < t\<close> by (simp add: decode_def Let_def subslice_take t_def)
    moreover have "if length bs < t then decode crc bs = Inl (Truncated t (length bs))
        else decode crc (take t bs) = decode crc bs \<and>
          (\<forall>a b. decode crc bs \<noteq> Inl (Truncated a b))"
      using False assms \<open>13 < t\<close>
      by (simp add: decode_def Let_def subslice_take t_def min_def split: option.splits)
    ultimately show ?thesis by blast
  qed
qed

definition reader_on :: "wal_reader \<Rightarrow> bytes \<Rightarrow> fs \<Rightarrow> bool" where
  "reader_on rd bs s \<longleftrightarrow> plan s = [] \<and> \<not> rd_done rd \<and>
     rd_file_len rd = length (content s (rd_file rd)) \<and> rd_offset rd \<le> rd_file_len rd \<and>
     bs = drop (rd_offset rd) (content s (rd_file rd))"

text \<open>
  The refinement: on the bytes it has not read yet, \<open>next_record\<close> gives what a decode of
  all of them would give, a truncated record being the end of the log.
\<close>

lemma next_record_refines:
  assumes on: "reader_on rd bs s"
  shows "case decode crc bs of
      Inl (Truncated _ _) \<Rightarrow> \<exists>rd'. next_record crc rd s = (Inr None, rd', s) \<and> rd_done rd'
    | Inl e \<Rightarrow> \<exists>rd'. next_record crc rd s = (Inl (error_of_decode e), rd', s)
    | Inr (r, n) \<Rightarrow> \<exists>rd'. next_record crc rd s = (Inr (Some r), rd', s) \<and>
        reader_on rd' (drop n bs) s"
proof (cases "length bs < 13")
  case True
  then show ?thesis using on
    by (auto simp: reader_on_def next_record_def Let_def decode_def)
next
  case False
  let ?c = "content s (rd_file rd)" and ?o = "rd_offset rd"
  have rem: "rd_file_len rd - ?o = length bs" and len: "?o + 13 \<le> length ?c"
    and ok: "plan s = []" "\<not> rd_done rd" "\<not> rd_file_len rd \<le> ?o"
    using on False by (auto simp: reader_on_def)
  have read: "read_at (rd_file rd) ?o n s = (Inr (take n bs), s)" if "n \<le> length bs" for n
    using that on False by (subst read_at_ok) (auto simp: reader_on_def subslice_def)
  from decode_take13 [of bs crc] False consider
      (torn) t where "decode crc (take 13 bs) = Inl (Truncated t 13)" "length bs < t"
        "decode crc bs = Inl (Truncated t (length bs))"
    | (full) t where "decode crc (take 13 bs) = Inl (Truncated t 13)" "\<not> length bs < t"
        "decode crc (take t bs) = decode crc bs" "\<forall>a b. decode crc bs \<noteq> Inl (Truncated a b)"
    | (bad) e where "decode crc (take 13 bs) = Inl e" "decode crc bs = Inl e"
        "\<forall>a b. e \<noteq> Truncated a b"
    by (auto split: if_splits)
  then show ?thesis
  proof cases
    case torn
    then show ?thesis using False ok rem
      by (simp add: next_record_def Let_def read)
  next
    case full
    have step: "next_record crc rd s =
        (let rd = rd\<lparr>rd_scratch := take t bs\<rparr> in
         case decode crc bs of Inl e \<Rightarrow> (Inl (error_of_decode e), rd, s)
         | Inr (r, consumed) \<Rightarrow>
             (Inr (Some r), rd\<lparr>rd_offset := rd_offset rd + consumed\<rparr>, s))"
      using False ok rem full by (simp add: next_record_def Let_def read)
    show ?thesis
    proof (cases "decode crc bs")
      case (Inl e)
      then show ?thesis using full(4) step by (cases e) simp_all
    next
      case (Inr p)
      obtain r n where p: "p = (r, n)" by (cases p)
      have "n \<le> length bs" using decode_bounds [of crc bs r n] Inr p by simp
      then show ?thesis
        using Inr p step on by (auto simp: reader_on_def Let_def drop_drop add.commute)
    qed
  next
    case bad
    then show ?thesis using False ok rem
      by (cases e) (simp_all add: next_record_def Let_def read)
  qed
qed

end
