(* ===== verification/Memtable.thy ===== *)
theory Memtable
  imports BTree
begin

text \<open>
  The in-memory write buffer, \<^verbatim>\<open>src/src/memtable.rs\<close>: an ordered map from keys to entries,
  where a deletion is a tombstone that stays in the map, and a running estimate of the bytes
  it holds. The invariant \<open>mt_ok\<close> says that the estimate is exact.
\<close>

section \<open>Entries and lookups\<close>

datatype entry = Put bytes | Vector bytes | Tombstone

fun payload_size :: "entry \<Rightarrow> nat" where
  "payload_size (Put v) = length v"
| "payload_size (Vector v) = length v"
| "payload_size Tombstone = 0"

fun is_vector :: "entry \<Rightarrow> bool" where
  "is_vector (Vector _) = True"
| "is_vector _ = False"

datatype lookup = Found bytes | Deleted | Missing

section \<open>The memtable\<close>

record memtable =
  mt_map :: "(bytes \<times> entry) list"
  mt_size :: nat

definition USIZE_MAX :: nat where "USIZE_MAX = 2 ^ 64 - 1"

definition saturating_sub :: "nat \<Rightarrow> nat \<Rightarrow> nat" where
  "saturating_sub a b = (if a < b then 0 else a - b)"

definition saturating_add :: "nat \<Rightarrow> nat \<Rightarrow> nat" where
  "saturating_add a b = (if a + b > USIZE_MAX then USIZE_MAX else a + b)"

definition mt_new :: memtable where
  "mt_new = \<lparr>mt_map = [], mt_size = 0\<rparr>"

definition mt_put :: "bytes \<Rightarrow> bytes \<Rightarrow> memtable \<Rightarrow> memtable" where
  "mt_put k v m =
     (let new_payload = length v;
          old = bt_get (mt_map m) k;
          m = m\<lparr>mt_map := bt_insert (mt_map m) k (Put v)\<rparr>
      in case old of
           None \<Rightarrow> m\<lparr>mt_size := mt_size m + (length k + new_payload)\<rparr>
         | Some e \<Rightarrow> m\<lparr>mt_size :=
             saturating_add (saturating_sub (mt_size m) (payload_size e)) new_payload\<rparr>)"

definition mt_put_vector :: "bytes \<Rightarrow> bytes \<Rightarrow> memtable \<Rightarrow> memtable" where
  "mt_put_vector k v m =
     (let new_payload = length v;
          old = bt_get (mt_map m) k;
          m = m\<lparr>mt_map := bt_insert (mt_map m) k (Vector v)\<rparr>
      in case old of
           None \<Rightarrow> m\<lparr>mt_size := mt_size m + (length k + new_payload)\<rparr>
         | Some e \<Rightarrow> m\<lparr>mt_size :=
             saturating_add (saturating_sub (mt_size m) (payload_size e)) new_payload\<rparr>)"

definition mt_delete :: "bytes \<Rightarrow> memtable \<Rightarrow> memtable" where
  "mt_delete k m =
     (let old = bt_get (mt_map m) k;
          m = m\<lparr>mt_map := bt_insert (mt_map m) k Tombstone\<rparr>
      in case old of
           None \<Rightarrow> m\<lparr>mt_size := mt_size m + length k\<rparr>
         | Some e \<Rightarrow> m\<lparr>mt_size := saturating_sub (mt_size m) (payload_size e)\<rparr>)"

definition mt_get :: "memtable \<Rightarrow> bytes \<Rightarrow> lookup" where
  "mt_get m k =
     (case bt_get (mt_map m) k of
        Some (Put v) \<Rightarrow> Found v
      | Some (Vector v) \<Rightarrow> Found v
      | Some Tombstone \<Rightarrow> Deleted
      | None \<Rightarrow> Missing)"

definition mt_len :: "memtable \<Rightarrow> nat" where
  "mt_len m = length (mt_map m)"

definition mt_is_empty :: "memtable \<Rightarrow> bool" where
  "mt_is_empty m = (mt_map m = [])"

definition approximate_size :: "memtable \<Rightarrow> nat" where
  "approximate_size m = mt_size m"

definition mt_iter :: "memtable \<Rightarrow> (bytes \<times> entry) list" where
  "mt_iter m = mt_map m"

section \<open>Contents\<close>

text \<open>
  A memtable stands for the map of its entries. Each operation is one update of that map,
  whatever the table held for the key before.
\<close>

definition mt_abs :: "memtable \<Rightarrow> bytes \<Rightarrow> entry option" where
  "mt_abs m = map_of (mt_map m)"

fun lookup_of :: "entry option \<Rightarrow> lookup" where
  "lookup_of (Some (Put v)) = Found v"
| "lookup_of (Some (Vector v)) = Found v"
| "lookup_of (Some Tombstone) = Deleted"
| "lookup_of None = Missing"

lemma mt_map_ops [simp]:
  "mt_map (mt_put k v m) = bt_insert (mt_map m) k (Put v)"
  "mt_map (mt_put_vector k v m) = bt_insert (mt_map m) k (Vector v)"
  "mt_map (mt_delete k m) = bt_insert (mt_map m) k Tombstone"
  "mt_map mt_new = []"
  by (simp_all add: mt_put_def mt_put_vector_def mt_delete_def mt_new_def Let_def
      split: option.splits)

lemma mt_abs_ops [simp]:
  "mt_abs (mt_put k v m) = (mt_abs m)(k \<mapsto> Put v)"
  "mt_abs (mt_put_vector k v m) = (mt_abs m)(k \<mapsto> Vector v)"
  "mt_abs (mt_delete k m) = (mt_abs m)(k \<mapsto> Tombstone)"
  "mt_abs mt_new = Map.empty"
  by (simp_all add: mt_abs_def)

lemma mt_get_abs: "mt_get m k = lookup_of (mt_abs m k)"
  by (simp add: mt_get_def mt_abs_def bt_get_map_of split: option.splits entry.splits)

section \<open>The size estimate\<close>

definition footprint :: "(bytes \<times> entry) list \<Rightarrow> nat" where
  "footprint xs = (\<Sum>(k, e) \<leftarrow> xs. length k + payload_size e)"

definition mt_ok :: "memtable \<Rightarrow> bool" where
  "mt_ok m \<longleftrightarrow> ksorted (mt_map m) \<and> mt_size m = footprint (mt_map m)"

lemma footprint_insert_new:
  "map_of xs k = None \<Longrightarrow>
   footprint (bt_insert xs k e) = footprint xs + length k + payload_size e"
  by (induction xs k e rule: bt_insert.induct) (auto simp: footprint_def split: if_splits)

lemma footprint_insert_old:
  "map_of xs k = Some d \<Longrightarrow> ksorted xs \<Longrightarrow>
   footprint (bt_insert xs k e) + payload_size d = footprint xs + payload_size e"
proof (induction xs k e rule: bt_insert.induct)
  case (1 k v)
  then show ?case by simp
next
  case (2 a w xs k v)
  have "\<not> k < a"
  proof
    assume less: "k < a"
    then have "map_of xs k = Some d" using 2 by (auto split: if_splits)
    then have "(k, d) \<in> set xs" by (rule map_of_SomeD)
    then have "a < k" using 2 by fastforce
    with less show False by simp
  qed
  with 2 show ?case by (auto simp: footprint_def split: if_splits)
qed

lemma footprint_ge:
  "map_of xs k = Some d \<Longrightarrow> payload_size d \<le> footprint xs"
  by (induction xs) (auto simp: footprint_def split: if_splits)

lemma mt_ok_new: "mt_ok mt_new"
  by (simp add: mt_ok_def mt_new_def footprint_def)

lemma sat_replace:
  assumes "c + b = a + d" and "b \<le> a" and "c \<le> USIZE_MAX"
  shows "saturating_add (saturating_sub a b) d = c"
proof -
  have "a - b + d = c" using assms(1,2) by linarith
  then show ?thesis using assms(2,3) by (simp add: saturating_add_def saturating_sub_def)
qed

lemma mt_ok_put:
  assumes "mt_ok m" and "footprint (mt_map (mt_put k v m)) \<le> USIZE_MAX"
  shows "mt_ok (mt_put k v m)"
proof (cases "map_of (mt_map m) k")
  case None
  then show ?thesis using assms
    by (simp add: mt_ok_def bt_insert_sorted mt_put_def bt_get_map_of footprint_insert_new)
next
  case (Some d)
  have "saturating_add (saturating_sub (mt_size m) (payload_size d)) (length v) =
      footprint (bt_insert (mt_map m) k (Put v))"
    using assms footprint_insert_old [OF Some, of "Put v"] footprint_ge [OF Some]
    by (intro sat_replace) (simp_all add: mt_ok_def)
  then show ?thesis using assms Some
    by (simp add: mt_ok_def bt_insert_sorted mt_put_def bt_get_map_of)
qed

lemma mt_ok_put_vector:
  assumes "mt_ok m" and "footprint (mt_map (mt_put_vector k v m)) \<le> USIZE_MAX"
  shows "mt_ok (mt_put_vector k v m)"
proof (cases "map_of (mt_map m) k")
  case None
  then show ?thesis using assms
    by (simp add: mt_ok_def bt_insert_sorted mt_put_vector_def bt_get_map_of footprint_insert_new)
next
  case (Some d)
  have "saturating_add (saturating_sub (mt_size m) (payload_size d)) (length v) =
      footprint (bt_insert (mt_map m) k (Vector v))"
    using assms footprint_insert_old [OF Some, of "Vector v"] footprint_ge [OF Some]
    by (intro sat_replace) (simp_all add: mt_ok_def)
  then show ?thesis using assms Some
    by (simp add: mt_ok_def bt_insert_sorted mt_put_vector_def bt_get_map_of)
qed

lemma mt_ok_delete:
  assumes "mt_ok m"
  shows "mt_ok (mt_delete k m)"
proof (cases "map_of (mt_map m) k")
  case None
  then show ?thesis using assms
    by (simp add: mt_ok_def bt_insert_sorted mt_delete_def bt_get_map_of footprint_insert_new)
next
  case (Some d)
  have "saturating_sub (mt_size m) (payload_size d) =
      footprint (bt_insert (mt_map m) k Tombstone)"
    using assms footprint_insert_old [OF Some, of Tombstone] footprint_ge [OF Some]
    by (simp add: mt_ok_def saturating_sub_def)
  then show ?thesis using assms Some
    by (simp add: mt_ok_def bt_insert_sorted mt_delete_def bt_get_map_of)
qed


section \<open>Properties\<close>

text \<open>A memtable is a map: after a write, a lookup of the key sees that write (a vector reads
  back as its bytes, a delete as a tombstone) and every other key reads as before.\<close>

theorem memtable_lookup_after_write:
  "mt_get (mt_put k v m) k' = (if k' = k then Found v else mt_get m k') \<and>
   mt_get (mt_put_vector k v m) k' = (if k' = k then Found v else mt_get m k') \<and>
   mt_get (mt_delete k m) k' = (if k' = k then Deleted else mt_get m k') \<and>
   mt_get mt_new k' = Missing"
  by (simp add: mt_get_abs)

text \<open>A sequence of writes, newest last.\<close>

fun memtable_writes :: "(bytes \<times> entry) list \<Rightarrow> memtable \<Rightarrow> memtable" where
  "memtable_writes [] m = m"
| "memtable_writes ((k, Put v) # ws) m = memtable_writes ws (mt_put k v m)"
| "memtable_writes ((k, Vector v) # ws) m = memtable_writes ws (mt_put_vector k v m)"
| "memtable_writes ((k, Tombstone) # ws) m = memtable_writes ws (mt_delete k m)"

lemma footprint_insert_le: "footprint (bt_insert xs k e) \<le> footprint xs + length k + payload_size e"
  by (induction xs k e rule: bt_insert.induct) (auto simp: footprint_def)

lemma memtable_writes_ok:
  "mt_ok m \<Longrightarrow> footprint (mt_map m) + footprint ws \<le> USIZE_MAX \<Longrightarrow> mt_ok (memtable_writes ws m)"
proof (induction ws m rule: memtable_writes.induct)
  case (1 m)
  then show ?case by simp
next
  case (2 k v ws m)
  then show ?case
    using footprint_insert_le [of "mt_map m" k "Put v"] mt_ok_put [of m k v]
    by (simp add: footprint_def)
next
  case (3 k v ws m)
  then show ?case
    using footprint_insert_le [of "mt_map m" k "Vector v"] mt_ok_put_vector [of m k v]
    by (simp add: footprint_def)
next
  case (4 k ws m)
  then show ?case
    using footprint_insert_le [of "mt_map m" k Tombstone] mt_ok_delete [of m k]
    by (simp add: footprint_def)
qed

text \<open>C34: The size estimate is exact: along every sequence of writes whose keys and payloads fit in
  \<open>usize\<close> together, it equals the bytes of the keys and payloads the table holds, and the
  iteration order is by strictly ascending key.\<close>

theorem memtable_size_exact:
  assumes "footprint ws \<le> USIZE_MAX"
  shows "approximate_size (memtable_writes ws mt_new) = footprint (mt_iter (memtable_writes ws mt_new)) \<and>
    ksorted (mt_iter (memtable_writes ws mt_new))"
  using memtable_writes_ok [OF mt_ok_new, of ws] assms
  by (simp add: footprint_def mt_ok_def approximate_size_def mt_iter_def)

theorem memtable_size_exact_witness:
  "approximate_size (memtable_writes [([1], Put [2, 3]), ([1], Vector [4]), ([2], Tombstone)] mt_new) = 3"
  using memtable_size_exact [of "[([1], Put [2, 3]), ([1], Vector [4]), ([2], Tombstone)]"]
  by (simp add: footprint_def USIZE_MAX_def mt_iter_def)

end
