(* ===== verification/Replay.thy ===== *)
theory Replay
  imports Wal_Reader Memtable
begin

text \<open>
  Replaying a log into a memtable (\<open>replay_wal\<close> of \<^verbatim>\<open>src/src/engine.rs\<close>), and what the log
  guarantees: everything appended is replayed in order, a torn tail is dropped, and every
  other damage is reported. The last section shows what the code does not do: nobody removes
  a torn tail, so the next append lands behind it.
\<close>

section \<open>Replay\<close>

definition apply_record :: "wal_record \<Rightarrow> memtable \<Rightarrow> memtable" where
  "apply_record r m =
     (case rec_kind r of
        record_kind.Put \<Rightarrow> mt_put (rec_key r) (rec_value r) m
      | record_kind.Vector \<Rightarrow> mt_put_vector (rec_key r) (rec_value r) m
      | record_kind.Delete \<Rightarrow> mt_delete (rec_key r) m)"

lemma next_record_decreases:
  assumes "(Inr (Some r), rd', s') = next_record crc rd s"
  shows "rd_file_len rd' - rd_offset rd' < rd_file_len rd - rd_offset rd"
  using next_record_progress [OF assms [symmetric]] by simp

function replay_loop ::
    "(bytes \<Rightarrow> u32) \<Rightarrow> wal_reader \<Rightarrow> memtable \<Rightarrow> fs \<Rightarrow> (error + unit) \<times> memtable \<times> fs" where
  "replay_loop crc rd m s =
     (case next_record crc rd s of
        (Inl e, rd', s') \<Rightarrow> (Inl e, m, s')
      | (Inr None, rd', s') \<Rightarrow> (Inr (), m, s')
      | (Inr (Some r), rd', s') \<Rightarrow> replay_loop crc rd' (apply_record r m) s')"
  by pat_completeness auto
termination
  by (relation "measure (\<lambda>(crc, rd, m, s). rd_file_len rd - rd_offset rd)")
     (auto dest: next_record_decreases)

declare replay_loop.simps [simp del]

definition replay_wal ::
    "(bytes \<Rightarrow> u32) \<Rightarrow> fname \<Rightarrow> memtable \<Rightarrow> fs \<Rightarrow> (error + unit) \<times> memtable \<times> fs" where
  "replay_wal crc path m s =
     (case wal_reader_open path s of
        (Inl e, s) \<Rightarrow> (Inl e, m, s)
      | (Inr rd, s) \<Rightarrow> replay_loop crc rd m s)"

section \<open>Replay is the meaning of the log\<close>

definition replay_all :: "wal_record list \<Rightarrow> memtable \<Rightarrow> memtable" where
  "replay_all rs m = fold apply_record rs m"

lemma replay_all_simps [simp]:
  "replay_all [] m = m"
  "replay_all (r # rs) m = replay_all rs (apply_record r m)"
  "replay_all (rs @ rs') m = replay_all rs' (replay_all rs m)"
  by (simp_all add: replay_all_def)

fun end_result :: "log_end \<Rightarrow> error + unit" where
  "end_result Clean = Inr ()"
| "end_result (Bad e) = Inl (error_of_decode e)"

lemma replay_loop_parse:
  assumes "reader_on rd bs s"
  shows "replay_loop crc rd m s =
    (end_result (snd (parse_log crc bs)), replay_all (fst (parse_log crc bs)) m, s)"
  using assms
proof (induction crc bs arbitrary: rd m rule: parse_log.induct)
  case (1 crc bs)
  note step = next_record_refines [OF "1.prems", of crc]
  show ?case
  proof (cases "decode crc bs")
    case (Inl e)
    show ?thesis
    proof (cases "\<exists>a b. e = Truncated a b")
      case True
      with Inl step show ?thesis
        by (subst replay_loop.simps, subst (1 2) parse_log.simps) auto
    next
      case False
      then have "snd (parse_log crc bs) = Bad e" "fst (parse_log crc bs) = []"
        using Inl by (subst parse_log.simps, cases e, auto)+
      moreover obtain rd' where "next_record crc rd s = (Inl (error_of_decode e), rd', s)"
        using Inl step False by (cases e) auto
      ultimately show ?thesis by (subst replay_loop.simps) simp
    qed
  next
    case (Inr p)
    obtain r n where p: "p = (r, n)" by (cases p)
    obtain rd' where nxt: "next_record crc rd s = (Inr (Some r), rd', s)"
        and on: "reader_on rd' (drop n bs) s"
      using step Inr p by auto
    have "replay_loop crc rd m s = replay_loop crc rd' (apply_record r m) s"
      using nxt by (subst replay_loop.simps) simp
    also have "\<dots> = (end_result (snd (parse_log crc (drop n bs))),
        replay_all (fst (parse_log crc (drop n bs))) (apply_record r m), s)"
      using "1.IH" [OF Inr p [symmetric] on] .
    also have "\<dots> = (end_result (snd (parse_log crc bs)), replay_all (fst (parse_log crc bs)) m, s)"
      using Inr p by (subst (3 4) parse_log.simps) (simp add: case_prod_unfold Let_def)
    finally show ?thesis .
  qed
qed

lemma wal_reader_open_ok [no_fault]:
  assumes "plan s = []" and "bt_get (names s) path = Some h" and "content s h = wal_header @ bs"
  shows "wal_reader_open path s =
    (Inr \<lparr>rd_file = h, rd_file_len = 12 + length bs, rd_offset = 12, rd_done = False,
       rd_scratch = []\<rparr>, s)"
proof -
  have "subslice 0 12 (wal_header @ bs) = wal_header"
    by (simp add: subslice_0)
  then show ?thesis
    using assms
    by (simp add: wal_reader_open_def no_fault)
       (simp add: wal_header_def subslice_0 subslice_append_right subslice_all)
qed

lemma replay_wal_parse:
  assumes "plan s = []" and "bt_get (names s) path = Some h" and "content s h = wal_header @ bs"
  shows "replay_wal crc path m s =
    (end_result (snd (parse_log crc bs)), replay_all (fst (parse_log crc bs)) m, s)"
proof -
  have "reader_on \<lparr>rd_file = h, rd_file_len = 12 + length bs, rd_offset = 12, rd_done = False,
      rd_scratch = []\<rparr> bs s"
    using assms by (simp add: reader_on_def)
  from replay_loop_parse [OF this] show ?thesis
    by (simp add: replay_wal_def wal_reader_open_ok [OF assms])
qed

lemma parse_log_complete:
  assumes "\<forall>r \<in> set rs. valid_record r" and "valid_record t" and "n < length (frame crc t)"
  shows "parse_log crc (concat (map (frame crc) rs) @ take n (frame crc t)) = (rs, Clean)"
  using assms by (simp add: parse_log_frames parse_log_torn)

lemma replay_wal_log:
  assumes "plan s = []" and "bt_get (names s) path = Some h"
    and "content s h = log_bytes crc rs" and "\<forall>r \<in> set rs. valid_record r"
  shows "replay_wal crc path m s = (Inr (), replay_all rs m, s)"
  using replay_wal_parse [OF assms(1,2), of "concat (map (frame crc) rs)" crc m]
    parse_log_frames [OF assms(4), of crc "[]"] assms(3)
  by (simp add: log_bytes_def)

text \<open>A replayed table is a well-formed memtable, and its entries are the log's, newest last.\<close>

fun record_entry :: "wal_record \<Rightarrow> entry" where
  "record_entry r = (case rec_kind r of
      record_kind.Put \<Rightarrow> Put (rec_value r)
    | record_kind.Vector \<Rightarrow> Vector (rec_value r)
    | record_kind.Delete \<Rightarrow> Tombstone)"

lemma mt_map_apply_record: "mt_map (apply_record r m) = bt_insert (mt_map m) (rec_key r) (record_entry r)"
  by (simp add: apply_record_def split: record_kind.splits)

lemma mt_map_replay_all:
  "mt_map (replay_all rs m) = bt.insert_all (mt_map m) (map (\<lambda>r. (rec_key r, record_entry r)) rs)"
proof (induction rs arbitrary: m)
  case Nil
  then show ?case by (simp add: bt.insert_all_def)
next
  case (Cons r rs)
  then show ?case
    by (simp add: bt.insert_all_def mt_map_apply_record del: record_entry.simps)
qed


section \<open>Properties\<close>

text \<open>C28: Replaying a log applies exactly the records appended, in order; if the log ends in any
  proper prefix of a further record, as a crash during an append leaves it, that prefix is dropped
  and nothing else.\<close>

theorem replay_drops_only_the_torn_tail:
  assumes "plan s = []" and "bt_get (names s) path = Some h"
    and "content s h = log_bytes crc rs @ take n (frame crc t)"
    and "\<forall>r \<in> set rs. valid_record r" and "valid_record t" and "n < length (frame crc t)"
  shows "replay_wal crc path m s = (Inr (), replay_all rs m, s)"
  using replay_wal_parse [OF assms(1,2), of "concat (map (frame crc) rs) @ take n (frame crc t)" crc m]
    parse_log_complete [OF assms(4,5,6)] assms(3)
  by (simp add: log_bytes_def)

theorem replay_drops_only_the_torn_tail_witness:
  "let r = \<lparr>rec_kind = record_kind.Put, rec_key = [1], rec_value = [2]\<rparr>;
       s = empty_fs\<lparr>names := [(''wal.log'', 0)],
             content := (\<lambda>_. log_bytes (\<lambda>_. 7) [r] @ take 5 (frame (\<lambda>_. 7) r))\<rparr>
   in replay_wal (\<lambda>_. 7) ''wal.log'' mt_new s = (Inr (), mt_put [1] [2] mt_new, s)"
  unfolding Let_def
  by (subst replay_drops_only_the_torn_tail [where h = 0
        and rs = "[\<lparr>rec_kind = record_kind.Put, rec_key = [1], rec_value = [2]\<rparr>]"
        and t = "\<lparr>rec_kind = record_kind.Put, rec_key = [1], rec_value = [2]\<rparr>" and n = 5])
     (simp_all add: empty_fs_def valid_record_def apply_record_def)

text \<open>Damage that is not a torn tail is reported: if what follows the intact records does not
  decode for another reason than being cut short, replay fails with that reason, after applying
  the intact records.\<close>

theorem replay_reports_damage:
  assumes "plan s = []" and "bt_get (names s) path = Some h"
    and "content s h = log_bytes crc rs @ bad" and "\<forall>r \<in> set rs. valid_record r"
    and "decode crc bad = Inl e" and "\<forall>a b. e \<noteq> Truncated a b"
  shows "replay_wal crc path m s = (Inl (error_of_decode e), replay_all rs m, s)"
proof -
  have "parse_log crc bad = ([], Bad e)"
    using assms(5,6) by (subst parse_log.simps) (cases e; simp)
  then have "parse_log crc (concat (map (frame crc) rs) @ bad) = (rs, Bad e)"
    using assms(4) by (simp add: parse_log_frames)
  then show ?thesis
    using replay_wal_parse [OF assms(1,2), of "concat (map (frame crc) rs) @ bad" crc m] assms(3)
    by (simp add: log_bytes_def)
qed

theorem replay_reports_damage_witness:
  "let s = empty_fs\<lparr>names := [(''wal.log'', 0)],
        content := (\<lambda>_. log_bytes (\<lambda>_. 7) [] @ replicate 13 0)\<rparr>
   in replay_wal (\<lambda>_. 7) ''wal.log'' mt_new s = (Inl (error_of_decode EmptyKey), mt_new, s)"
proof -
  have "decode (\<lambda>_. 7) (replicate 13 0) = Inl EmptyKey"
    by (simp add: decode_def Let_def subslice_def u32_from_le_def numeral_eq_Suc)
  then show ?thesis
    unfolding Let_def
    by (subst replay_reports_damage [where h = 0 and rs = "[]" and e = EmptyKey and bad = "replicate 13 0"])
       (simp_all add: empty_fs_def)
qed

text \<open>After replay a lookup sees the newest record of its key: the last put, vector or delete
  in the log decides.\<close>

theorem replay_newest_record_wins:
  "mt_get (replay_all rs mt_new) ky =
     lookup_of (map_of (rev (map (\<lambda>r. (rec_key r, record_entry r)) rs)) ky)"
  using bt.get_insert_all [of "[]" "map (\<lambda>r. (rec_key r, record_entry r)) rs" ky]
  by (simp add: mt_get_abs mt_abs_def mt_map_replay_all bt_get_map_of del: record_entry.simps
      split: option.splits)

section \<open>A torn tail is never removed\<close>

text \<open>
  The decoder trusts the length fields of a header before the checksum can be verified; a buffer
  shorter than they promise is truncated.
\<close>

lemma decode_short:
  assumes "valid_record r" and "13 \<le> n" and "n + length bs < length (frame crc r)"
  shows "\<exists>a b. decode crc (take n (frame crc r) @ bs) = Inl (Truncated a b)"
proof -
  let ?buf = "take n (frame crc r) @ bs"
  have n: "n < length (frame crc r)" using assms(3) by simp
  have torn: "decode crc (take 13 (frame crc r)) = Inl (Truncated (length (frame crc r)) 13)"
    using decode_torn [OF assms(1), of 13 crc] le_less_trans [OF assms(2) n] by (simp del: length_frame)
  have "take 13 ?buf = take 13 (frame crc r)" using assms(2) n by (simp add: min_def)
  then have same: "decode crc (take 13 ?buf) = Inl (Truncated (length (frame crc r)) 13)"
    using torn by (simp only:)
  have "13 \<le> length ?buf" using assms(2) n by simp
  from decode_take13 [OF this, of crc] same assms(3) n show ?thesis
    by (auto split: if_splits)
qed

text \<open>C38: Finding. Opening the log does not remove a torn tail, so the next record is appended behind
  it. If the two together are shorter than the torn record claims to be, the new record is
  acknowledged and synced, and yet every later replay succeeds without it.\<close>

theorem append_after_torn_tail_is_lost:
  assumes "plan s = []" and "bt_get (names s) WAL = Some h"
    and "content s h = log_bytes crc rs @ take n (frame crc t)"
    and "\<forall>r \<in> set rs. valid_record r" and "valid_record t" and "13 \<le> n"
    and "valid_record r" and "n + length (frame crc r) < length (frame crc t)"
  shows "replay_wal crc WAL mt_new s = (Inr (), replay_all rs mt_new, s) \<and>
    (\<exists>w w' s1 s2. wal_open WAL s = (Inr w, s) \<and>
       wal_append crc (rec_kind r) (rec_key r) (rec_value r) w s = (Inr (), w', s1) \<and>
       wal_sync w' s1 = (Inr (), s2) \<and>
       replay_wal crc WAL mt_new s2 = (Inr (), replay_all rs mt_new, s2))"
proof -
  let ?w = "\<lparr>w_file = h, w_scratch = []\<rparr>" and ?f = "frame crc r"
  define s1 where "s1 = s\<lparr>content := (content s)(h := content s h @ ?f)\<rparr>"
  define s2 where "s2 = s1\<lparr>stable := (stable s1)(h := content s1 h)\<rparr>"
  have r: "\<lparr>rec_kind = rec_kind r, rec_key = rec_key r, rec_value = rec_value r\<rparr> = r" by simp
  have "replay_wal crc WAL mt_new s = (Inr (), replay_all rs mt_new, s)"
    using replay_wal_parse [OF assms(1,2), of "concat (map (frame crc) rs) @ take n (frame crc t)" crc mt_new]
      parse_log_complete [OF assms(4,5), of n crc] assms(3,8)
    by (simp add: log_bytes_def)
  moreover have "wal_open WAL s = (Inr ?w, s)"
    using assms(1-3) by (intro wal_open_old) simp_all
  moreover have "wal_append crc (rec_kind r) (rec_key r) (rec_value r) ?w s = (Inr (), ?w\<lparr>w_scratch := ?f\<rparr>, s1)"
    using wal_append_ok [OF assms(1), of "rec_kind r" "rec_key r" "rec_value r" crc ?w] assms(7)
    unfolding r by (simp add: s1_def)
  moreover have "wal_sync (?w\<lparr>w_scratch := ?f\<rparr>) s1 = (Inr (), s2)"
    using assms(1) by (simp add: wal_sync_ok s1_def s2_def)
  moreover have "replay_wal crc WAL mt_new s2 = (Inr (), replay_all rs mt_new, s2)"
  proof -
    obtain a b where "decode crc (take n (frame crc t) @ ?f) = Inl (Truncated a b)"
      using decode_short [OF assms(5,6), of ?f crc] assms(8) by blast
    then have "parse_log crc (take n (frame crc t) @ ?f) = ([], Clean)"
      by (subst parse_log.simps) simp
    then have "parse_log crc (concat (map (frame crc) rs) @ take n (frame crc t) @ ?f) = (rs, Clean)"
      using assms(4) by (simp add: parse_log_frames)
    moreover have "content s2 h = wal_header @ concat (map (frame crc) rs) @ take n (frame crc t) @ ?f"
      by (simp add: s2_def s1_def assms(3) log_bytes_def)
    ultimately show ?thesis
      using replay_wal_parse [of s2 WAL h _ crc mt_new] assms(1,2) by (simp add: s2_def s1_def)
  qed
  ultimately show ?thesis by blast
qed

theorem append_after_torn_tail_is_lost_witness:
  "let t = \<lparr>rec_kind = record_kind.Put, rec_key = [1], rec_value = replicate 30 0\<rparr>;
       s = empty_fs\<lparr>names := [(''wal.log'', 0)],
             content := (\<lambda>_. log_bytes (\<lambda>_. 7) [] @ take 20 (frame (\<lambda>_. 7) t))\<rparr>
   in \<exists>w w' s1 s2. wal_open ''wal.log'' s = (Inr w, s) \<and>
        wal_append (\<lambda>_. 7) record_kind.Put [2] [3] w s = (Inr (), w', s1) \<and>
        wal_sync w' s1 = (Inr (), s2) \<and>
        replay_wal (\<lambda>_. 7) ''wal.log'' mt_new s2 = (Inr (), mt_new, s2)"
  unfolding Let_def
  using append_after_torn_tail_is_lost [of
      "empty_fs\<lparr>names := [(''wal.log'', 0)], content := (\<lambda>_. log_bytes (\<lambda>_. 7) [] @ take 20
         (frame (\<lambda>_. 7) \<lparr>rec_kind = record_kind.Put, rec_key = [1], rec_value = replicate 30 0\<rparr>))\<rparr>"
      "''wal.log''" 0 "\<lambda>_. 7" "[]" 20
      "\<lparr>rec_kind = record_kind.Put, rec_key = [1], rec_value = replicate 30 0\<rparr>"
      "\<lparr>rec_kind = record_kind.Put, rec_key = [2], rec_value = [3]\<rparr>"]
  by (simp add: empty_fs_def valid_record_def)

end
