(* ===== verification/Codec.thy ===== *)
theory Codec
  imports Prelude
begin

text \<open>
  The interface between a block of length-prefixed entries and the loops that walk it. The
  encoder writes the entries one after the other; a loop keeps a position and decodes the
  entry there. The locale derives, from the law for a single entry, where each position of a
  walk lies and what is read there. It is interpreted for the entries of data blocks and for
  those of the index block.
\<close>

locale positioned_codec =
  fixes enc :: "'a \<Rightarrow> bytes"
    and view :: "'a \<Rightarrow> 'b"
    and dec :: "bytes \<Rightarrow> nat \<Rightarrow> error + ('b \<times> nat)"
    and valid :: "'a \<Rightarrow> bool"
  assumes enc_nonempty: "enc x \<noteq> []"
    and dec_enc: "valid x \<Longrightarrow>
      dec (pre @ enc x @ post) (length pre) = Inr (view x, length pre + length (enc x))"
begin

definition encs :: "'a list \<Rightarrow> bytes" where
  "encs xs = concat (map enc xs)"

lemma encs_simps:
  "encs [] = []" "encs (x # xs) = enc x @ encs xs" "encs (xs @ ys) = encs xs @ encs ys"
  by (simp_all add: encs_def)

lemma encs_empty: "encs xs = [] \<longleftrightarrow> xs = []"
  using enc_nonempty by (cases xs) (auto simp: encs_def)

text \<open>The start of the entry after the first \<open>i\<close>.\<close>

lemma at_end: "length (encs (xs @ ys)) \<le> length (encs xs) \<longleftrightarrow> ys = []"
  by (simp add: encs_simps encs_empty)

lemma dec_next:
  assumes "valid y"
  shows "dec (encs (xs @ y # ys)) (length (encs xs)) = Inr (view y, length (encs (xs @ [y])))"
  using dec_enc [OF assms, of "encs xs" "encs ys"] by (simp add: encs_simps)

text \<open>A loop that decodes until the end of the block collects every entry.\<close>

lemma walk_all:
  assumes unfold: "\<And>bs p acc. loop bs p acc =
      (if p < length bs
       then case dec bs p of Inl e \<Rightarrow> Inl e | Inr (x, q) \<Rightarrow> loop bs q (acc @ [x])
       else Inr acc)"
    and valid: "\<forall>y \<in> set ys. valid y"
  shows "loop (encs (xs @ ys)) (length (encs xs)) acc = Inr (acc @ map view ys)"
  using valid
proof (induction ys arbitrary: xs acc)
  case Nil
  then show ?case by (subst unfold) simp
next
  case (Cons y ys)
  have "length (encs xs) < length (encs (xs @ y # ys))"
    using at_end [of xs "y # ys"] by simp
  then have "loop (encs (xs @ y # ys)) (length (encs xs)) acc =
      loop (encs (xs @ y # ys)) (length (encs (xs @ [y]))) (acc @ [view y])"
    using dec_next [of y xs ys] Cons.prems by (subst unfold) simp
  with Cons.IH [of "xs @ [y]" "acc @ [view y]"] Cons.prems show ?case by simp
qed

end

end
