(* ===== verification/Bloom.thy ===== *)
theory Bloom
  imports Prelude
begin

unbundle bit_operations_syntax

text \<open>
  The bloom filter of an SSTable, \<^verbatim>\<open>src/src/sstable/bloom.rs\<close>. The 128-bit digest
  \<^verbatim>\<open>xxh3_128\<close> and the checksum are library functions, the parameters \<open>xxh\<close> and \<open>crc\<close>.
  What matters to a reader is that a filter never denies a key it was given, whatever the
  digest is, and that the encoded filter decodes to itself.
\<close>

section \<open>The filter\<close>

record bloom =
  b_m :: u64
  b_k :: u8
  b_bits :: bytes

definition div_ceil8 :: "nat \<Rightarrow> nat" where
  "div_ceil8 n = (n + 7) div 8"

definition bloom_new :: "nat \<Rightarrow> u32 \<Rightarrow> error + bloom" where
  "bloom_new expected_keys bits_per_key =
     (if bits_per_key = 0 then Inl (Panic ''bits_per_key must be > 0'')
      else
        (let m = (word_of_nat expected_keys :: u64) * ucast bits_per_key;
             m = max m 64;
             k = min 30 (max 1 ((unat bits_per_key * 69) div 100));
             nbytes = div_ceil8 (unat m)
         in Inr \<lparr>b_m = m, b_k = word_of_nat k, b_bits = replicate nbytes 0\<rparr>))"

definition double_hash :: "(bytes \<Rightarrow> 128 word) \<Rightarrow> bytes \<Rightarrow> u64 \<times> u64" where
  "double_hash xxh ky =
     (let digest = xxh ky in (ucast digest, ucast (drop_bit 64 digest)))"

definition synth_index :: "u64 \<Rightarrow> u64 \<Rightarrow> u8 \<Rightarrow> u64 \<Rightarrow> error + u64" where
  "synth_index h1 h2 i m =
     (if m = 0 then Inl (Panic ''remainder with a divisor of zero'')
      else Inr ((h1 + ucast i * h2) mod m))"

definition bit_mask :: "u64 \<Rightarrow> u8" where
  "bit_mask b = push_bit (unat (b mod 8)) 1"

definition set_bit :: "bloom \<Rightarrow> u64 \<Rightarrow> error + bloom" where
  "set_bit f b =
     (let byte = unat (b div 8)
      in if byte < length (b_bits f)
         then Inr (f\<lparr>b_bits := (b_bits f)[byte := b_bits f ! byte OR bit_mask b]\<rparr>)
         else Inl (Panic ''index out of bounds''))"

definition get_bit :: "bloom \<Rightarrow> u64 \<Rightarrow> error + bool" where
  "get_bit f b =
     (let byte = unat (b div 8)
      in if byte < length (b_bits f)
         then Inr ((b_bits f ! byte) AND bit_mask b \<noteq> 0)
         else Inl (Panic ''index out of bounds''))"

fun insert_loop :: "u64 \<Rightarrow> u64 \<Rightarrow> nat list \<Rightarrow> bloom \<Rightarrow> error + bloom" where
  "insert_loop h1 h2 [] f = Inr f"
| "insert_loop h1 h2 (i # is) f =
     (case synth_index h1 h2 (word_of_nat i) (b_m f) of
        Inl e \<Rightarrow> Inl e
      | Inr b \<Rightarrow>
          (case set_bit f b of
             Inl e \<Rightarrow> Inl e
           | Inr f \<Rightarrow> insert_loop h1 h2 is f))"

definition bloom_insert :: "(bytes \<Rightarrow> 128 word) \<Rightarrow> bytes \<Rightarrow> bloom \<Rightarrow> error + bloom" where
  "bloom_insert xxh ky f =
     (let (h1, h2) = double_hash xxh ky in insert_loop h1 h2 [0..<unat (b_k f)] f)"

fun contains_loop :: "u64 \<Rightarrow> u64 \<Rightarrow> nat list \<Rightarrow> bloom \<Rightarrow> error + bool" where
  "contains_loop h1 h2 [] f = Inr True"
| "contains_loop h1 h2 (i # is) f =
     (case synth_index h1 h2 (word_of_nat i) (b_m f) of
        Inl e \<Rightarrow> Inl e
      | Inr b \<Rightarrow>
          (case get_bit f b of
             Inl e \<Rightarrow> Inl e
           | Inr present \<Rightarrow> if \<not> present then Inr False else contains_loop h1 h2 is f))"

definition bloom_contains :: "(bytes \<Rightarrow> 128 word) \<Rightarrow> bytes \<Rightarrow> bloom \<Rightarrow> error + bool" where
  "bloom_contains xxh ky f =
     (let (h1, h2) = double_hash xxh ky in contains_loop h1 h2 [0..<unat (b_k f)] f)"

definition bloom_encoded_len :: "bloom \<Rightarrow> nat" where
  "bloom_encoded_len f = 1 + 8 + length (b_bits f) + 4"

definition bloom_encode :: "(bytes \<Rightarrow> u32) \<Rightarrow> bloom \<Rightarrow> bytes" where
  "bloom_encode crc f =
     (let out = [b_k f] @ u64_to_le (b_m f) @ b_bits f;
          c = crc out
      in out @ u32_to_le c)"

definition bloom_decode :: "(bytes \<Rightarrow> u32) \<Rightarrow> bytes \<Rightarrow> error + bloom" where
  "bloom_decode crc bs =
     (if length bs < 1 + 8 + 4
      then Inl (Corruption ''bloom block too short for header + CRC'')
      else
        (let split = length bs - 4;
             stored_crc = u32_from_le (drop split bs);
             computed_crc = crc (take split bs)
         in if stored_crc \<noteq> computed_crc then Inl (Corruption ''bloom block CRC mismatch'')
            else
              (let k = bs ! 0;
                   m = u64_from_le (subslice 1 9 bs);
                   bit_bytes = subslice 9 split bs;
                   expected_bytes = div_ceil8 (unat m)
               in if length bit_bytes \<noteq> expected_bytes
                  then Inl (Corruption ''bloom bit-array size mismatch'')
                  else if k = 0 then Inl (Corruption ''bloom k = 0'')
                  else Inr \<lparr>b_m = m, b_k = k, b_bits = bit_bytes\<rparr>)))"

section \<open>Well-formed filters\<close>

text \<open>
  A filter the code can query: the array has room for \<open>m\<close> bits, and \<open>m\<close> is not zero, which
  the constructor guarantees by its minimum of 64.
\<close>

definition bloom_ok :: "bloom \<Rightarrow> bool" where
  "bloom_ok f \<longleftrightarrow> b_m f \<noteq> 0 \<and> b_k f \<noteq> 0 \<and> length (b_bits f) = div_ceil8 (unat (b_m f))"

lemma bloom_new_ok:
  assumes "bits_per_key \<noteq> 0"
  shows "\<exists>f. bloom_new n bits_per_key = Inr f \<and> bloom_ok f \<and> 64 \<le> b_m f"
proof -
  define m where "m = max ((word_of_nat n :: u64) * ucast bits_per_key) 64"
  define k where "k = min 30 (max 1 ((unat bits_per_key * 69) div 100))"
  have m: "64 \<le> m" by (simp add: m_def)
  then have "m \<noteq> 0" by auto
  have "1 \<le> k" "k \<le> 30" by (simp_all add: k_def)
  then have "unat (word_of_nat k :: u8) = k"
    by (simp add: unsigned_of_nat take_bit_eq_mod)
  with \<open>1 \<le> k\<close> have "(word_of_nat k :: u8) \<noteq> 0" by auto
  with m \<open>m \<noteq> 0\<close> assms show ?thesis
    unfolding bloom_new_def Let_def m_def k_def by (simp add: bloom_ok_def)
qed

definition bit_at :: "bytes \<Rightarrow> nat \<Rightarrow> bool" where
  "bit_at bs n = bit (bs ! (n div 8)) (n mod 8)"

lemma word8_parts:
  "unat ((b :: u64) div 8) = unat b div 8" "unat (b mod 8) = unat b mod 8"
  by (simp_all add: unat_div_distrib unat_mod_distrib)

lemma bit_mask_eq: "bit_mask b = 2 ^ (unat b mod 8)"
  by (simp add: bit_mask_def word8_parts push_bit_eq_mult)

lemma in_range:
  assumes "bloom_ok f" and "b < b_m f"
  shows "unat b div 8 < length (b_bits f)"
proof -
  have "unat b < unat (b_m f)" using assms(2) by (simp add: word_less_nat_alt)
  then show ?thesis using assms(1) by (simp add: bloom_ok_def div_ceil8_def)
qed

lemma get_bit_ok:
  assumes "bloom_ok f" and "b < b_m f"
  shows "get_bit f b = Inr (bit_at (b_bits f) (unat b))"
  using in_range [OF assms]
  by (simp add: get_bit_def Let_def word8_parts bit_mask_eq bit_at_def and_exp_eq_0_iff_not_bit)

lemma set_bit_ok:
  assumes "bloom_ok f" and "b < b_m f"
  shows "\<exists>f'. set_bit f b = Inr f' \<and> bloom_ok f' \<and> b_m f' = b_m f \<and> b_k f' = b_k f \<and>
    (\<forall>n. bit_at (b_bits f') n \<longleftrightarrow> n = unat b \<or> bit_at (b_bits f) n)"
proof -
  let ?i = "unat b div 8"
  have i: "?i < length (b_bits f)" by (rule in_range [OF assms])
  have "bit_at ((b_bits f)[?i := b_bits f ! ?i OR bit_mask b]) n \<longleftrightarrow>
      n = unat b \<or> bit_at (b_bits f) n" for n
  proof (cases "n div 8 = ?i")
    case True
    have "n mod 8 = unat b mod 8 \<longleftrightarrow> n = unat b"
      using True by (metis div_mult_mod_eq)
    with True i show ?thesis
      by (auto simp: bit_at_def bit_mask_eq bit_or_iff bit_exp_iff)
  next
    case False
    then show ?thesis by (auto simp: bit_at_def)
  qed
  with i assms(1) show ?thesis
    by (simp add: set_bit_def Let_def word8_parts bloom_ok_def)
qed

lemma synth_index_ok:
  assumes "bloom_ok f"
  shows "\<exists>b. synth_index h1 h2 i (b_m f) = Inr b \<and> b < b_m f"
proof -
  have m: "b_m f \<noteq> 0" using assms by (simp add: bloom_ok_def)
  then have "unat (b_m f) > 0" by (simp add: unat_gt_0)
  then have "(h1 + ucast i * h2) mod b_m f < b_m f"
    by (simp add: word_less_nat_alt unat_mod_distrib)
  with m show ?thesis by (simp add: synth_index_def)
qed

section \<open>No false negatives\<close>

text \<open>The positions a key probes depend only on the filter's parameters.\<close>

definition probe :: "u64 \<Rightarrow> u64 \<Rightarrow> u64 \<Rightarrow> nat \<Rightarrow> nat" where
  "probe h1 h2 m i = unat ((h1 + ucast (word_of_nat i :: u8) * h2) mod m)"

lemma insert_loop_ok:
  "bloom_ok f \<Longrightarrow> \<exists>f'. insert_loop h1 h2 is f = Inr f' \<and> bloom_ok f' \<and> b_m f' = b_m f \<and>
     b_k f' = b_k f \<and>
     (\<forall>n. bit_at (b_bits f') n \<longleftrightarrow> n \<in> probe h1 h2 (b_m f) ` set is \<or> bit_at (b_bits f) n)"
proof (induction "is" arbitrary: f)
  case Nil
  then show ?case by simp
next
  case (Cons i "is")
  obtain b where b: "synth_index h1 h2 (word_of_nat i) (b_m f) = Inr b" "b < b_m f"
    using synth_index_ok [OF Cons.prems] by blast
  then have pb: "unat b = probe h1 h2 (b_m f) i"
    by (auto simp: synth_index_def probe_def split: if_splits)
  obtain g where g: "set_bit f b = Inr g" "bloom_ok g" "b_m g = b_m f" "b_k g = b_k f"
      "\<And>n. bit_at (b_bits g) n \<longleftrightarrow> n = unat b \<or> bit_at (b_bits f) n"
    using set_bit_ok [OF Cons.prems b(2)] by blast
  obtain f' where "insert_loop h1 h2 is g = Inr f'" "bloom_ok f'" "b_m f' = b_m g"
      "b_k f' = b_k g"
      "\<And>n. bit_at (b_bits f') n \<longleftrightarrow> n \<in> probe h1 h2 (b_m g) ` set is \<or> bit_at (b_bits g) n"
    using Cons.IH [OF g(2)] by blast
  with b g pb show ?case by auto
qed

lemma contains_loop_ok:
  "bloom_ok f \<Longrightarrow> contains_loop h1 h2 is f =
     Inr (\<forall>i \<in> set is. bit_at (b_bits f) (probe h1 h2 (b_m f) i))"
proof (induction "is")
  case Nil
  then show ?case by simp
next
  case (Cons i "is")
  obtain b where b: "synth_index h1 h2 (word_of_nat i) (b_m f) = Inr b" "b < b_m f"
    using synth_index_ok [OF Cons.prems] by blast
  then have "unat b = probe h1 h2 (b_m f) i"
    by (auto simp: synth_index_def probe_def split: if_splits)
  with b Cons show ?case by (simp add: get_bit_ok)
qed

definition probes :: "(bytes \<Rightarrow> 128 word) \<Rightarrow> bytes \<Rightarrow> bloom \<Rightarrow> nat set" where
  "probes xxh ky f = (let (h1, h2) = double_hash xxh ky
     in probe h1 h2 (b_m f) ` set [0..<unat (b_k f)])"

lemma bloom_insert_ok:
  assumes "bloom_ok f"
  shows "\<exists>f'. bloom_insert xxh ky f = Inr f' \<and> bloom_ok f' \<and> b_m f' = b_m f \<and> b_k f' = b_k f \<and>
     (\<forall>n. bit_at (b_bits f') n \<longleftrightarrow> n \<in> probes xxh ky f \<or> bit_at (b_bits f) n)"
  using insert_loop_ok [OF assms, of "fst (double_hash xxh ky)" "snd (double_hash xxh ky)"
      "[0..<unat (b_k f)]"]
  by (simp add: bloom_insert_def probes_def Let_def case_prod_unfold)

lemma bloom_contains_ok:
  assumes "bloom_ok f"
  shows "bloom_contains xxh ky f = Inr (\<forall>n \<in> probes xxh ky f. bit_at (b_bits f) n)"
  using contains_loop_ok [OF assms]
  by (simp add: bloom_contains_def probes_def Let_def case_prod_unfold)

text \<open>The keys of a filter: those whose every probe is set. Inserting only adds keys.\<close>

definition bloom_has :: "(bytes \<Rightarrow> 128 word) \<Rightarrow> bloom \<Rightarrow> bytes set \<Rightarrow> bool" where
  "bloom_has xxh f K \<longleftrightarrow> bloom_ok f \<and> (\<forall>k \<in> K. bloom_contains xxh k f = Inr True)"

lemma bloom_insert_has:
  assumes "bloom_has xxh f K"
  shows "\<exists>f'. bloom_insert xxh ky f = Inr f' \<and> bloom_has xxh f' (insert ky K)"
proof -
  have ok: "bloom_ok f" using assms by (simp add: bloom_has_def)
  obtain f' where f': "bloom_insert xxh ky f = Inr f'" "bloom_ok f'" "b_m f' = b_m f" "b_k f' = b_k f"
      "\<And>n. bit_at (b_bits f') n \<longleftrightarrow> n \<in> probes xxh ky f \<or> bit_at (b_bits f) n"
    using bloom_insert_ok [OF ok] by blast
  have "probes xxh k f' = probes xxh k f" for k
    by (simp add: probes_def f')
  with assms f' show ?thesis
    by (auto simp: bloom_has_def bloom_contains_ok)
qed

section \<open>Serialization\<close>

lemma length_bloom_encode: "length (bloom_encode crc f) = bloom_encoded_len f"
  by (simp add: bloom_encode_def bloom_encoded_len_def Let_def)

lemma bloom_decode_encode:
  assumes "bloom_ok f"
  shows "bloom_decode crc (bloom_encode crc f) = Inr f"
proof -
  define out where "out = [b_k f] @ u64_to_le (b_m f) @ b_bits f"
  have len: "length out = 9 + length (b_bits f)" by (simp add: out_def)
  have "subslice 1 9 (out @ c) = u64_to_le (b_m f)"
    and "subslice 9 (9 + length (b_bits f)) (out @ c) = b_bits f"
    and "(out @ c) ! 0 = b_k f" for c
    using subslice_mid [of "[b_k f]" 1 "u64_to_le (b_m f)" 9 "b_bits f @ c"]
      subslice_mid [of "[b_k f] @ u64_to_le (b_m f)" 9 "b_bits f" "9 + length (b_bits f)" c]
    by (simp_all add: out_def)
  moreover have "bloom_encode crc f = out @ u32_to_le (crc out)"
    by (simp add: bloom_encode_def out_def Let_def)
  ultimately show ?thesis
    using assms len by (simp add: bloom_decode_def Let_def bloom_ok_def)
qed


section \<open>Properties\<close>

fun bloom_insert_all :: "(bytes \<Rightarrow> 128 word) \<Rightarrow> bytes list \<Rightarrow> bloom \<Rightarrow> error + bloom" where
  "bloom_insert_all xxh [] f = Inr f"
| "bloom_insert_all xxh (k # ks) f =
     (case bloom_insert xxh k f of Inl e \<Rightarrow> Inl e | Inr f \<Rightarrow> bloom_insert_all xxh ks f)"

lemma bloom_insert_all_has:
  "bloom_has xxh f K \<Longrightarrow> \<exists>f'. bloom_insert_all xxh ks f = Inr f' \<and> bloom_has xxh f' (K \<union> set ks)"
proof (induction ks arbitrary: f K)
  case Nil
  then show ?case by simp
next
  case (Cons k ks)
  obtain f1 where f1: "bloom_insert xxh k f = Inr f1" "bloom_has xxh f1 (insert k K)"
    using bloom_insert_has [OF Cons.prems] by blast
  from Cons.IH [OF f1(2)] f1(1) show ?case by auto
qed

text \<open>C32: No false negatives, through storage: a new filter of any size accepts any keys without
  panicking, its encoding decodes to the same filter, and the decoded filter reports every
  inserted key as possibly present, whatever the hash function is.\<close>

theorem bloom_no_false_negatives:
  assumes "bits_per_key \<noteq> 0"
  shows "\<exists>f f'. bloom_new n bits_per_key = Inr f \<and> bloom_insert_all xxh ks f = Inr f' \<and>
    bloom_decode crc (bloom_encode crc f') = Inr f' \<and>
    (\<forall>k \<in> set ks. bloom_contains xxh k f' = Inr True)"
proof -
  obtain f where f: "bloom_new n bits_per_key = Inr f" "bloom_ok f"
    using bloom_new_ok [OF assms] by blast
  then obtain f' where "bloom_insert_all xxh ks f = Inr f'" "bloom_has xxh f' ({} \<union> set ks)"
    using bloom_insert_all_has [of xxh f "{}" ks] by (auto simp: bloom_has_def)
  with f show ?thesis by (auto simp: bloom_has_def bloom_decode_encode)
qed

theorem bloom_no_false_negatives_witness:
  "\<exists>f f'. bloom_new 3 10 = Inr f \<and> bloom_insert_all (\<lambda>_. 5) [[1], [2]] f = Inr f' \<and>
     bloom_contains (\<lambda>_. 5) [2] f' = Inr True"
  using bloom_no_false_negatives [of 10 3 "\<lambda>_. 5" "[[1], [2]]" "\<lambda>_. 0"] by auto

text \<open>C39: Finding. The decoder accepts a filter of zero bits, which the constructor never makes; every
  query of it then divides by zero and panics, instead of the block being reported as corrupt.\<close>

theorem bloom_zero_bits_panics:
  "\<exists>f. bloom_decode crc (bloom_encode crc \<lparr>b_m = 0, b_k = 1, b_bits = []\<rparr>) = Inr f \<and>
     (\<forall>ky. \<exists>msg. bloom_contains xxh ky f = Inl (Panic msg))"
proof -
  let ?f = "\<lparr>b_m = 0, b_k = 1, b_bits = []\<rparr>"
  define out where "out = [1 :: u8] @ u64_to_le 0"
  have enc: "bloom_encode crc ?f = out @ u32_to_le (crc out)"
    by (simp add: bloom_encode_def out_def Let_def)
  have len: "length out = 9" by (simp add: out_def)
  have parts: "subslice 1 9 (out @ c) = u64_to_le 0" "(out @ c) ! 0 = 1" "subslice 9 9 (out @ c) = []" for c
    using subslice_mid [of "[1 :: u8]" 1 "u64_to_le 0" 9 c]
    by (simp_all add: out_def) (simp add: subslice_def)
  have "bloom_decode crc (bloom_encode crc ?f) = Inr ?f"
    unfolding enc using len parts by (simp add: bloom_decode_def Let_def div_ceil8_def)
  moreover have "bloom_contains xxh ky ?f = Inl (Panic ''remainder with a divisor of zero'')" for ky
    by (simp add: bloom_contains_def double_hash_def Let_def synth_index_def)
  ultimately show ?thesis by blast
qed

end
