(* ===== verification/Sst_Format.thy ===== *)
theory Sst_Format
  imports Codec Memtable Bloom
begin

text \<open>
  The layout of an SSTable file (\<^verbatim>\<open>src/src/sstable/mod.rs\<close> and the encoders of
  \<^verbatim>\<open>src/src/sstable/writer.rs\<close>): constants, the encoding of an entry and of an index entry,
  and the parsing of both, which the reader and the iterator share.
\<close>

section \<open>Constants\<close>

definition FOOTER_MAGIC :: bytes where "FOOTER_MAGIC = ascii ''SASTSST2''"
definition FOOTER_LEN :: nat where "FOOTER_LEN = 8 * 4 + 8"
definition DATA_BLOCK_TARGET_SIZE :: nat where "DATA_BLOCK_TARGET_SIZE = 4 * 1024"
definition SST_KIND_PUT :: u8 where "SST_KIND_PUT = 0x01"
definition SST_KIND_DELETE :: u8 where "SST_KIND_DELETE = 0x02"
definition SST_KIND_VECTOR :: u8 where "SST_KIND_VECTOR = 0x03"

lemma length_FOOTER_MAGIC [simp]: "length FOOTER_MAGIC = 8"
  by (simp add: FOOTER_MAGIC_def)

lemma FOOTER_LEN_eq [simp]: "FOOTER_LEN = 40"
  by (simp add: FOOTER_LEN_def)

section \<open>Entries of a data block\<close>

text \<open>\<open>entry_parts\<close> is the kind byte and the value of an entry, as \<^verbatim>\<open>encode_entry\<close> writes them.\<close>

fun entry_parts :: "entry \<Rightarrow> u8 \<times> bytes" where
  "entry_parts (Put v) = (SST_KIND_PUT, v)"
| "entry_parts (Vector v) = (SST_KIND_VECTOR, v)"
| "entry_parts Tombstone = (SST_KIND_DELETE, [])"

definition encoded_entry_size :: "bytes \<Rightarrow> entry \<Rightarrow> nat" where
  "encoded_entry_size ky e =
     (let value_len = (case e of Put v \<Rightarrow> length v | Vector v \<Rightarrow> length v | Tombstone \<Rightarrow> 0)
      in 4 + 4 + 1 + length ky + value_len)"

definition encode_entry :: "bytes \<Rightarrow> entry \<Rightarrow> bytes \<Rightarrow> bytes" where
  "encode_entry ky e out =
     (let (kind_byte, v) = entry_parts e;
          out = out @ u32_to_le (word_of_nat (length ky));
          out = out @ u32_to_le (word_of_nat (length v));
          out = out @ [kind_byte];
          out = out @ ky
      in out @ v)"

text \<open>
  The fields of the entry at position \<open>p\<close> of a block: key, value, kind byte and the position
  of the next entry. This is the parse that \<^verbatim>\<open>scan_block_for_key\<close> and
  \<^verbatim>\<open>decode_entry_at_pos\<close> have in common.
\<close>

definition entry_fields_at :: "bytes \<Rightarrow> nat \<Rightarrow> error + ((bytes \<times> bytes \<times> u8) \<times> nat)" where
  "entry_fields_at block p =
     (if p + 9 > length block
      then Inl (Corruption ''truncated entry header in data block'')
      else
        (let key_len = unat (u32_from_le (subslice p (p + 4) block));
             value_len = unat (u32_from_le (subslice (p + 4) (p + 8) block));
             kind = block ! (p + 8);
             body_start = p + 9;
             body_end = body_start + key_len + value_len
         in if body_end > length block
            then Inl (Corruption ''truncated entry payload in data block'')
            else Inr ((subslice body_start (body_start + key_len) block,
                       subslice (body_start + key_len) body_end block, kind), body_end)))"

section \<open>Entries of the index block\<close>

record index_entry =
  ie_first_key :: bytes
  ie_offset :: u64
  ie_length :: u32

definition encode_index_entry :: "index_entry \<Rightarrow> bytes \<Rightarrow> bytes" where
  "encode_index_entry ie out =
     (let out = out @ u32_to_le (word_of_nat (length (ie_first_key ie)));
          out = out @ ie_first_key ie;
          out = out @ u64_to_le (ie_offset ie)
      in out @ u32_to_le (ie_length ie))"

definition index_entry_at :: "bytes \<Rightarrow> nat \<Rightarrow> error + (index_entry \<times> nat)" where
  "index_entry_at payload p =
     (if p + 4 > length payload
      then Inl (Corruption ''truncated index entry: key_len header'')
      else
        (let key_len = unat (u32_from_le (subslice p (p + 4) payload));
             p = p + 4
         in if p + key_len + 8 + 4 > length payload
            then Inl (Corruption ''truncated index entry: key or offsets'')
            else
              (let ky = subslice p (p + key_len) payload;
                   p = p + key_len;
                   offset = u64_from_le (subslice p (p + 8) payload);
                   p = p + 8;
                   len = u32_from_le (subslice p (p + 4) payload);
                   p = p + 4
               in Inr (\<lparr>ie_first_key = ky, ie_offset = offset, ie_length = len\<rparr>, p))))"

section \<open>Encode and parse agree\<close>

definition entry_enc :: "bytes \<times> entry \<Rightarrow> bytes" where
  "entry_enc ke = encode_entry (fst ke) (snd ke) []"

definition entry_view :: "bytes \<times> entry \<Rightarrow> bytes \<times> bytes \<times> u8" where
  "entry_view ke = (fst ke, snd (entry_parts (snd ke)), fst (entry_parts (snd ke)))"

definition fits :: "bytes \<times> entry \<Rightarrow> bool" where
  "fits ke \<longleftrightarrow> encoded_entry_size (fst ke) (snd ke) + 4 < 2 ^ 32"

definition index_enc :: "index_entry \<Rightarrow> bytes" where
  "index_enc ie = encode_index_entry ie []"

definition index_fits :: "index_entry \<Rightarrow> bool" where
  "index_fits ie \<longleftrightarrow> length (ie_first_key ie) < 2 ^ 32"

lemma encode_entry_append: "encode_entry ky e out = out @ entry_enc (ky, e)"
  by (simp add: encode_entry_def entry_enc_def Let_def case_prod_unfold)

lemma encode_index_entry_append: "encode_index_entry ie out = out @ index_enc ie"
  by (simp add: encode_index_entry_def index_enc_def)

lemma snd_entry_parts: "length (snd (entry_parts e)) = payload_size e"
  by (cases e) auto

lemma length_entry_enc: "length (entry_enc (ky, e)) = 9 + length ky + payload_size e"
  by (simp add: entry_enc_def encode_entry_def Let_def case_prod_unfold snd_entry_parts)

lemma encoded_entry_size_eq: "encoded_entry_size ky e = length (entry_enc (ky, e))"
  by (cases e) (simp_all add: encoded_entry_size_def length_entry_enc)

text \<open>The parse of an entry, from the bytes at its field positions.\<close>

lemma entry_fields_atI:
  assumes "subslice p (p + 4) B = u32_to_le (word_of_nat kl)" and "kl < 2 ^ 32"
    and "subslice (p + 4) (p + 8) B = u32_to_le (word_of_nat vl)" and "vl < 2 ^ 32"
    and "p + 9 + kl + vl \<le> length B"
  shows "entry_fields_at B p =
    Inr ((subslice (p + 9) (p + 9 + kl) B, subslice (p + 9 + kl) (p + 9 + kl + vl) B, B ! (p + 8)),
         p + 9 + kl + vl)"
proof -
  have kl: "unat (u32_from_le (subslice p (p + 4) B)) = kl"
    and vl: "unat (u32_from_le (subslice (p + 4) (p + 8) B)) = vl"
    using assms by (simp_all add: unat_u32_of_nat)
  show ?thesis
    unfolding entry_fields_at_def Let_def kl vl using assms(5) by (simp only: if_False if_not_P not_less)
qed

lemma entry_fields_at_enc:
  assumes "fits ke"
  shows "entry_fields_at (pre @ entry_enc ke @ post) (length pre) =
    Inr (entry_view ke, length pre + length (entry_enc ke))"
proof -
  obtain ky e where ke: "ke = (ky, e)" by (cases ke)
  define v where "v = snd (entry_parts e)"
  define kb where "kb = fst (entry_parts e)"
  define n where "n = length pre"
  let ?kl = "u32_to_le (word_of_nat (length ky))" and ?vl = "u32_to_le (word_of_nat (length v))"
  define B where "B = pre @ ?kl @ ?vl @ [kb] @ ky @ v @ post"
  have enc: "entry_enc ke = ?kl @ ?vl @ [kb] @ ky @ v"
    by (simp add: ke entry_enc_def encode_entry_def Let_def case_prod_unfold v_def kb_def)
  have small: "length ky < 2 ^ 32" "length v < 2 ^ 32"
    using assms by (simp_all add: fits_def ke encoded_entry_size_eq length_entry_enc v_def
        snd_entry_parts)
  have f1: "subslice n (n + 4) B = ?kl"
    unfolding B_def by (rule subslice_mid) (simp_all add: n_def)
  have f2: "subslice (n + 4) (n + 8) B = ?vl"
    unfolding B_def append_assoc [of pre ?kl, symmetric] by (rule subslice_mid) (simp_all add: n_def)
  have f3: "B ! (n + 8) = kb"
    unfolding B_def by (simp add: nth_append n_def)
  have f4: "subslice (n + 9) (n + 9 + length ky) B = ky"
    using subslice_mid [of "pre @ ?kl @ ?vl @ [kb]" "n + 9" ky _ "v @ post"]
    by (simp add: B_def n_def)
  have f5: "subslice (n + 9 + length ky) (n + 9 + length ky + length v) B = v"
    using subslice_mid [of "pre @ ?kl @ ?vl @ [kb] @ ky" "n + 9 + length ky" v _ post]
    by (simp add: B_def n_def)
  have len: "n + 9 + length ky + length v \<le> length B" by (simp add: B_def n_def)
  have "entry_fields_at B n = Inr ((ky, v, kb), n + 9 + length ky + length v)"
    unfolding entry_fields_atI [OF f1 small(1) f2 small(2) len] f3 f4 f5 ..
  moreover have "B = pre @ entry_enc ke @ post" by (simp add: B_def enc)
  moreover have "length (entry_enc ke) = 9 + length ky + length v" by (simp add: enc)
  ultimately show ?thesis
    by (simp add: n_def entry_view_def ke v_def kb_def add.assoc)
qed

lemma index_entry_atI:
  assumes "subslice p (p + 4) B = u32_to_le (word_of_nat kl)" and "kl < 2 ^ 32"
    and "p + 4 + kl + 8 + 4 \<le> length B"
  shows "index_entry_at B p =
    Inr (\<lparr>ie_first_key = subslice (p + 4) (p + 4 + kl) B,
      ie_offset = u64_from_le (subslice (p + 4 + kl) (p + 4 + kl + 8) B),
      ie_length = u32_from_le (subslice (p + 4 + kl + 8) (p + 4 + kl + 8 + 4) B)\<rparr>,
      p + 4 + kl + 8 + 4)"
proof -
  have kl: "unat (u32_from_le (subslice p (p + 4) B)) = kl"
    using assms by (simp_all add: unat_u32_of_nat)
  show ?thesis
    unfolding index_entry_at_def Let_def kl using assms(3) by (simp only: if_not_P not_less)
qed

lemma index_entry_at_enc:
  assumes "index_fits ie"
  shows "index_entry_at (pre @ index_enc ie @ post) (length pre) =
    Inr (ie, length pre + length (index_enc ie))"
proof -
  define ky where "ky = ie_first_key ie"
  define n where "n = length pre"
  let ?kl = "u32_to_le (word_of_nat (length ky))"
  let ?off = "u64_to_le (ie_offset ie)" and ?len = "u32_to_le (ie_length ie)"
  define B where "B = pre @ ?kl @ ky @ ?off @ ?len @ post"
  have enc: "index_enc ie = ?kl @ ky @ ?off @ ?len"
    by (simp add: index_enc_def encode_index_entry_def Let_def ky_def)
  have small: "length ky < 2 ^ 32"
    using assms by (simp add: index_fits_def ky_def)
  have f1: "subslice n (n + 4) B = ?kl"
    unfolding B_def by (rule subslice_mid) (simp_all add: n_def)
  have f2: "subslice (n + 4) (n + 4 + length ky) B = ky"
    unfolding B_def append_assoc [of pre ?kl, symmetric] by (rule subslice_mid) (simp_all add: n_def)
  have f3: "subslice (n + 4 + length ky) (n + 4 + length ky + 8) B = ?off"
    using subslice_mid [of "pre @ ?kl @ ky" "n + 4 + length ky" ?off _ "?len @ post"]
    by (simp add: B_def n_def)
  have f4: "subslice (n + 4 + length ky + 8) (n + 4 + length ky + 8 + 4) B = ?len"
    using subslice_mid [of "pre @ ?kl @ ky @ ?off" "n + 4 + length ky + 8" ?len _ post]
    by (simp add: B_def n_def)
  have len: "n + 4 + length ky + 8 + 4 \<le> length B" by (simp add: B_def n_def)
  have "index_entry_at B n = Inr (ie, n + 4 + length ky + 8 + 4)"
    unfolding index_entry_atI [OF f1 small len] f2 f3 f4 by (simp add: ky_def)
  moreover have "B = pre @ index_enc ie @ post" by (simp add: B_def enc)
  moreover have "length (index_enc ie) = 16 + length ky" by (simp add: enc)
  ultimately show ?thesis by (simp add: n_def add.assoc)
qed

lemma entry_enc_nonempty: "entry_enc x \<noteq> []"
  by (cases x) (simp add: length_entry_enc flip: length_greater_0_conv)

lemma index_enc_nonempty: "index_enc x \<noteq> []"
  by (simp add: index_enc_def encode_index_entry_def Let_def flip: length_greater_0_conv)

interpretation data_codec: positioned_codec entry_enc entry_view entry_fields_at fits
  by unfold_locales (rule entry_enc_nonempty, rule entry_fields_at_enc)

interpretation index_codec: positioned_codec index_enc "\<lambda>ie. ie" index_entry_at index_fits
  by unfold_locales (rule index_enc_nonempty, rule index_entry_at_enc)

end
