(* ===== verification/Sst_Writer.thy ===== *)
theory Sst_Writer
  imports Sst_Format Fs
begin

text \<open>
  The SSTable writer, \<^verbatim>\<open>src/src/sstable/writer.rs\<close>. Entries are buffered into a data block;
  a block that would outgrow the target size is flushed with its checksum and recorded in the
  index; \<open>sst_finish\<close> appends the bloom block, the index block and the footer. The second
  half states what is in the file: \<open>sst_image\<close> is the file of a list of blocks, and
  \<open>sst_file\<close> says that a byte string is the table of a given list of entries.
\<close>

section \<open>The writer\<close>

record sst_writer =
  sw_file :: nat
  sw_block :: bytes
  sw_first_key :: "bytes option"
  sw_index :: "index_entry list"
  sw_next_offset :: u64
  sw_last_key :: "bytes option"
  sw_bloom :: "bloom option"

definition sst_create :: "fname \<Rightarrow> nat \<Rightarrow> u32 \<Rightarrow> fs \<Rightarrow> (error + sst_writer) \<times> fs" where
  "sst_create path expected_keys bloom_bits_per_key s =
     (case open_append path s of
        (Inl e, s) \<Rightarrow> (Inl e, s)
      | (Inr h, s) \<Rightarrow>
          (case file_is_empty h s of
             (Inl e, s) \<Rightarrow> (Inl e, s)
           | (Inr is_new, s) \<Rightarrow>
               if \<not> is_new
               then (Inl (InvalidArgument ''SSTable file already exists and is non-empty''), s)
               else
                 (case (if bloom_bits_per_key > 0
                        then map_sum id Some (bloom_new expected_keys bloom_bits_per_key)
                        else Inr None) of
                    Inl e \<Rightarrow> (Inl e, s)
                  | Inr bf \<Rightarrow>
                      (Inr \<lparr>sw_file = h, sw_block = [], sw_first_key = None, sw_index = [],
                         sw_next_offset = 0, sw_last_key = None, sw_bloom = bf\<rparr>, s))))"

definition flush_current_block ::
  "(bytes \<Rightarrow> u32) \<Rightarrow> sst_writer \<Rightarrow> fs \<Rightarrow> (error + unit) \<times> sst_writer \<times> fs" where
  "flush_current_block crc w s =
     (let c = crc (sw_block w);
          w = w\<lparr>sw_block := sw_block w @ u32_to_le c\<rparr>;
          block_offset = sw_next_offset w;
          block_length = (word_of_nat (length (sw_block w)) :: u32)
      in case append_file (sw_file w) (sw_block w) s of
           (Inl e, s) \<Rightarrow> (Inl e, w, s)
         | (Inr _, s) \<Rightarrow>
             (let w = w\<lparr>sw_next_offset := sw_next_offset w + ucast block_length\<rparr>
              in case sw_first_key w of
                   None \<Rightarrow> (Inl (Panic ''flushing a block must have a first key''), w, s)
                 | Some fk \<Rightarrow>
                     (Inr (), w\<lparr>sw_first_key := None,
                        sw_index := sw_index w @
                          [\<lparr>ie_first_key = fk, ie_offset = block_offset, ie_length = block_length\<rparr>],
                        sw_block := []\<rparr>, s)))"

definition sst_add ::
  "(bytes \<Rightarrow> u32) \<Rightarrow> (bytes \<Rightarrow> 128 word) \<Rightarrow> bytes \<Rightarrow> entry \<Rightarrow> sst_writer \<Rightarrow> fs \<Rightarrow>
     (error + unit) \<times> sst_writer \<times> fs" where
  "sst_add crc xxh ky e w s =
     (if ky = [] then (Inl (InvalidArgument ''empty key''), w, s)
      else if (case sw_last_key w of Some prev \<Rightarrow> ky \<le> prev | None \<Rightarrow> False)
      then (Inl (InvalidArgument ''keys must be strictly increasing''), w, s)
      else
        (case (if sw_block w \<noteq> [] \<and>
                  length (sw_block w) + encoded_entry_size ky e > DATA_BLOCK_TARGET_SIZE
               then flush_current_block crc w s else (Inr (), w, s)) of
           (Inl err, w, s) \<Rightarrow> (Inl err, w, s)
         | (Inr _, w, s) \<Rightarrow>
             (let w = (if sw_first_key w = None then w\<lparr>sw_first_key := Some ky\<rparr> else w);
                  w = w\<lparr>sw_block := encode_entry ky e (sw_block w), sw_last_key := Some ky\<rparr>
              in case sw_bloom w of
                   None \<Rightarrow> (Inr (), w, s)
                 | Some bf \<Rightarrow>
                     (case bloom_insert xxh ky bf of
                        Inl err \<Rightarrow> (Inl err, w, s)
                      | Inr bf \<Rightarrow> (Inr (), w\<lparr>sw_bloom := Some bf\<rparr>, s)))))"

fun encode_index_entries :: "index_entry list \<Rightarrow> bytes \<Rightarrow> bytes" where
  "encode_index_entries [] out = out"
| "encode_index_entries (ie # ies) out = encode_index_entries ies (encode_index_entry ie out)"

text \<open>\<^verbatim>\<open>finish\<close> consumes the writer; \<open>finish_index\<close> is its part after the bloom block.\<close>

definition finish_index ::
  "(bytes \<Rightarrow> u32) \<Rightarrow> u64 \<Rightarrow> u64 \<Rightarrow> sst_writer \<Rightarrow> fs \<Rightarrow> (error + unit) \<times> fs" where
  "finish_index crc bloom_offset bloom_length w s =
     (let index_offset = sw_next_offset w;
          index_block = encode_index_entries (sw_index w) [];
          index_crc = crc index_block;
          index_block = index_block @ u32_to_le index_crc;
          index_length = (word_of_nat (length index_block) :: u64)
      in case append_file (sw_file w) index_block s of
           (Inl e, s) \<Rightarrow> (Inl e, s)
         | (Inr _, s) \<Rightarrow>
             (let footer = u64_to_le index_offset @ u64_to_le index_length @
                    u64_to_le bloom_offset @ u64_to_le bloom_length @ FOOTER_MAGIC
              in case append_file (sw_file w) footer s of
                   (Inl e, s) \<Rightarrow> (Inl e, s)
                 | (Inr _, s) \<Rightarrow> sync_file (sw_file w) s))"

definition sst_finish :: "(bytes \<Rightarrow> u32) \<Rightarrow> sst_writer \<Rightarrow> fs \<Rightarrow> (error + unit) \<times> fs" where
  "sst_finish crc w s =
     (case (if sw_block w \<noteq> [] then flush_current_block crc w s else (Inr (), w, s)) of
        (Inl e, w, s) \<Rightarrow> (Inl e, s)
      | (Inr _, w, s) \<Rightarrow>
          (case sw_bloom w of
             None \<Rightarrow> finish_index crc 0 0 w s
           | Some bf \<Rightarrow>
               (let offset = sw_next_offset w;
                    bs = bloom_encode crc bf;
                    len = (word_of_nat (length bs) :: u64)
                in case append_file (sw_file w) bs s of
                     (Inl e, s) \<Rightarrow> (Inl e, s)
                   | (Inr _, s) \<Rightarrow>
                       finish_index crc offset len (w\<lparr>sw_next_offset := sw_next_offset w + len\<rparr>) s)))"

text \<open>The loop over a source of entries that flush and compaction both run.\<close>

fun sst_add_all ::
  "(bytes \<Rightarrow> u32) \<Rightarrow> (bytes \<Rightarrow> 128 word) \<Rightarrow> (bytes \<times> entry) list \<Rightarrow> sst_writer \<Rightarrow> fs \<Rightarrow>
     (error + unit) \<times> sst_writer \<times> fs" where
  "sst_add_all crc xxh [] w s = (Inr (), w, s)"
| "sst_add_all crc xxh ((ky, e) # es) w s =
     (case sst_add crc xxh ky e w s of
        (Inl err, w, s) \<Rightarrow> (Inl err, w, s)
      | (Inr _, w, s) \<Rightarrow> sst_add_all crc xxh es w s)"

section \<open>What the file holds\<close>

definition block_bytes :: "(bytes \<Rightarrow> u32) \<Rightarrow> (bytes \<times> entry) list \<Rightarrow> bytes" where
  "block_bytes crc b = (let p = data_codec.encs b in p @ u32_to_le (crc p))"

definition blocks_bytes :: "(bytes \<Rightarrow> u32) \<Rightarrow> (bytes \<times> entry) list list \<Rightarrow> bytes" where
  "blocks_bytes crc bss = concat (map (block_bytes crc) bss)"

fun index_from :: "(bytes \<Rightarrow> u32) \<Rightarrow> nat \<Rightarrow> (bytes \<times> entry) list list \<Rightarrow> index_entry list" where
  "index_from crc off [] = []"
| "index_from crc off (b # bss) =
     \<lparr>ie_first_key = fst (hd b), ie_offset = word_of_nat off,
       ie_length = word_of_nat (length (block_bytes crc b))\<rparr>
     # index_from crc (off + length (block_bytes crc b)) bss"

definition index_bytes :: "(bytes \<Rightarrow> u32) \<Rightarrow> (bytes \<times> entry) list list \<Rightarrow> bytes" where
  "index_bytes crc bss =
     (let p = index_codec.encs (index_from crc 0 bss) in p @ u32_to_le (crc p))"

definition bloom_bytes :: "(bytes \<Rightarrow> u32) \<Rightarrow> bloom option \<Rightarrow> bytes" where
  "bloom_bytes crc bf = (case bf of None \<Rightarrow> [] | Some f \<Rightarrow> bloom_encode crc f)"

definition sst_footer :: "(bytes \<Rightarrow> u32) \<Rightarrow> (bytes \<times> entry) list list \<Rightarrow> bloom option \<Rightarrow> bytes" where
  "sst_footer crc bss bf =
     (let d = length (blocks_bytes crc bss); bl = length (bloom_bytes crc bf)
      in u64_to_le (word_of_nat (d + bl)) @ u64_to_le (word_of_nat (length (index_bytes crc bss))) @
         u64_to_le (if bf = None then 0 else word_of_nat d) @ u64_to_le (word_of_nat bl) @
         FOOTER_MAGIC)"

definition sst_image :: "(bytes \<Rightarrow> u32) \<Rightarrow> (bytes \<times> entry) list list \<Rightarrow> bloom option \<Rightarrow> bytes" where
  "sst_image crc bss bf =
     blocks_bytes crc bss @ bloom_bytes crc bf @ index_bytes crc bss @ sst_footer crc bss bf"

definition blocks_ok :: "(bytes \<Rightarrow> u32) \<Rightarrow> (bytes \<times> entry) list list \<Rightarrow> bool" where
  "blocks_ok crc bss \<longleftrightarrow>
     (\<forall>b \<in> set bss. b \<noteq> [] \<and> length (block_bytes crc b) < 2 ^ 32) \<and>
     (\<forall>ke \<in> set (concat bss). fits ke)"

definition bloom_covers :: "(bytes \<Rightarrow> 128 word) \<Rightarrow> bloom option \<Rightarrow> bytes set \<Rightarrow> bool" where
  "bloom_covers xxh bf K \<longleftrightarrow> (case bf of None \<Rightarrow> True | Some f \<Rightarrow> bloom_has xxh f K)"

definition sst_file ::
  "(bytes \<Rightarrow> u32) \<Rightarrow> (bytes \<Rightarrow> 128 word) \<Rightarrow> (bytes \<times> entry) list \<Rightarrow> bytes \<Rightarrow> bool" where
  "sst_file crc xxh es bs \<longleftrightarrow>
     (\<exists>bss bf. bs = sst_image crc bss bf \<and> concat bss = es \<and> blocks_ok crc bss \<and>
        bloom_covers xxh bf (fst ` set es)) \<and> ksorted es \<and> length bs < 2 ^ 63"


section \<open>The writer's invariant\<close>

text \<open>
  \<open>writer_on crc xxh s0 w s bss cur\<close>: starting from the file system \<open>s0\<close>, the writer has
  flushed the blocks \<open>bss\<close> and buffers the entries \<open>cur\<close>.
\<close>

definition writer_on ::
  "(bytes \<Rightarrow> u32) \<Rightarrow> (bytes \<Rightarrow> 128 word) \<Rightarrow> fs \<Rightarrow> sst_writer \<Rightarrow> fs \<Rightarrow>
     (bytes \<times> entry) list list \<Rightarrow> (bytes \<times> entry) list \<Rightarrow> bool" where
  "writer_on crc xxh s0 w s bss cur \<longleftrightarrow>
     s = s0\<lparr>content := (content s0)(sw_file w := blocks_bytes crc bss)\<rparr> \<and>
     sw_block w = data_codec.encs cur \<and>
     sw_first_key w = (if cur = [] then None else Some (fst (hd cur))) \<and>
     sw_index w = index_from crc 0 bss \<and>
     sw_next_offset w = word_of_nat (length (blocks_bytes crc bss)) \<and>
     sw_last_key w = (if concat bss @ cur = [] then None else Some (fst (last (concat bss @ cur)))) \<and>
     bloom_covers xxh (sw_bloom w) (fst ` set (concat bss @ cur)) \<and>
     blocks_ok crc bss \<and> (\<forall>ke \<in> set cur. fits ke) \<and> length (sw_block w) + 4 < 2 ^ 32 \<and>
     ksorted (concat bss @ cur)"

lemma blocks_bytes_simps [simp]:
  "blocks_bytes crc [] = []"
  "blocks_bytes crc (b # bss) = block_bytes crc b @ blocks_bytes crc bss"
  "blocks_bytes crc (bss @ bss') = blocks_bytes crc bss @ blocks_bytes crc bss'"
  by (simp_all add: blocks_bytes_def)

lemma length_block_bytes: "length (block_bytes crc b) = length (data_codec.encs b) + 4"
  by (simp add: block_bytes_def Let_def)

lemma index_from_append:
  "index_from crc off (bss @ bss') =
     index_from crc off bss @ index_from crc (off + length (blocks_bytes crc bss)) bss'"
  by (induction bss arbitrary: off) (simp_all add: add.assoc)

lemma flush_current_block_ok:
  assumes w: "writer_on crc xxh s0 w s bss cur" and "cur \<noteq> []" and "plan s0 = []"
  shows "\<exists>w' s'. flush_current_block crc w s = (Inr (), w', s') \<and>
    writer_on crc xxh s0 w' s' (bss @ [cur]) [] \<and> sw_file w' = sw_file w \<and> sw_bloom w' = sw_bloom w"
proof -
  have len: "length (block_bytes crc cur) < 2 ^ 32"
    using w by (auto simp: writer_on_def length_block_bytes)
  have cast: "(ucast (word_of_nat (length (block_bytes crc cur)) :: u32) :: u64) =
      word_of_nat (length (block_bytes crc cur))"
    using len by (simp add: unsigned_ucast_eq word_eq_iff_unsigned unsigned_of_nat take_bit_eq_mod)
  have blk: "sw_block w @ u32_to_le (crc (sw_block w)) = block_bytes crc cur"
    using w by (simp add: writer_on_def block_bytes_def Let_def)
  have "plan s = []" using w assms(3) by (simp add: writer_on_def)
  then have app: "append_file (sw_file w) bs s =
      (Inr (), s\<lparr>content := (content s)(sw_file w := content s (sw_file w) @ bs)\<rparr>)" for bs
    by (rule append_file_ok)
  have fk: "sw_first_key w = Some (fst (hd cur))" using w assms(2) by (simp add: writer_on_def)
  have res: "flush_current_block crc w s =
      (Inr (), w\<lparr>sw_block := [], sw_first_key := None,
         sw_next_offset := sw_next_offset w + word_of_nat (length (block_bytes crc cur)),
         sw_index := sw_index w @ [\<lparr>ie_first_key = fst (hd cur), ie_offset = sw_next_offset w,
           ie_length = word_of_nat (length (block_bytes crc cur))\<rparr>]\<rparr>,
       s\<lparr>content := (content s)(sw_file w := content s (sw_file w) @ block_bytes crc cur)\<rparr>)"
    unfolding flush_current_block_def Let_def blk using fk by (simp add: app cast)
  show ?thesis
    unfolding res using w assms(2) len
    by (auto simp: writer_on_def index_from_append blocks_ok_def data_codec.encs_simps)
qed

lemma sst_add_ok:
  assumes w: "writer_on crc xxh s0 w s bss cur" and "plan s0 = []"
    and ky: "ky \<noteq> []" "fits (ky, e)" "\<forall>k \<in> fst ` set (concat bss @ cur). k < ky"
  shows "\<exists>w' s' bss' cur'. sst_add crc xxh ky e w s = (Inr (), w', s') \<and>
    writer_on crc xxh s0 w' s' bss' cur' \<and> concat bss' @ cur' = concat bss @ cur @ [(ky, e)] \<and>
    sw_file w' = sw_file w \<and> (sw_bloom w' = None \<longleftrightarrow> sw_bloom w = None)"
proof -
  let ?fl = "sw_block w \<noteq> [] \<and>
    length (sw_block w) + encoded_entry_size ky e > DATA_BLOCK_TARGET_SIZE"
  have "\<exists>w1 s1 bss1 cur1. (if ?fl then flush_current_block crc w s else (Inr (), w, s)) =
      (Inr (), w1, s1) \<and> writer_on crc xxh s0 w1 s1 bss1 cur1 \<and> concat bss1 @ cur1 = concat bss @ cur \<and>
      sw_file w1 = sw_file w \<and> sw_bloom w1 = sw_bloom w \<and>
      length (sw_block w1) + encoded_entry_size ky e + 4 < 2 ^ 32"
  proof (cases ?fl)
    case True
    then have "cur \<noteq> []" using w by (auto simp: writer_on_def data_codec.encs_simps)
    from flush_current_block_ok [OF w this assms(2)] obtain w1 s1 where
      1: "flush_current_block crc w s = (Inr (), w1, s1)" "sw_file w1 = sw_file w"
        "sw_bloom w1 = sw_bloom w" and 2: "writer_on crc xxh s0 w1 s1 (bss @ [cur]) []"
      by blast
    have "sw_block w1 = []" using 2 by (simp add: writer_on_def data_codec.encs_simps)
    with ky(2) have "length (sw_block w1) + encoded_entry_size ky e + 4 < 2 ^ 32"
      by (simp add: fits_def)
    with 1 2 True show ?thesis by (intro exI [of _ "bss @ [cur]"] exI) auto
  next
    case False
    then have "length (sw_block w) + encoded_entry_size ky e + 4 < 2 ^ 32"
      using ky(2) by (auto simp: fits_def DATA_BLOCK_TARGET_SIZE_def)
    with False w show ?thesis by (simp only: if_False) blast
  qed
  then obtain w1 s1 bss1 cur1 where
    fl: "(if ?fl then flush_current_block crc w s else (Inr (), w, s)) = (Inr (), w1, s1)"
    and w1: "writer_on crc xxh s0 w1 s1 bss1 cur1" and es: "concat bss1 @ cur1 = concat bss @ cur"
    and same: "sw_file w1 = sw_file w" "sw_bloom w1 = sw_bloom w"
    and room: "length (sw_block w1) + encoded_entry_size ky e + 4 < 2 ^ 32" by blast
  have order: "\<not> (case sw_last_key w of Some prev \<Rightarrow> ky \<le> prev | None \<Rightarrow> False)"
  proof (cases "concat bss @ cur = []")
    case False
    then have "fst (last (concat bss @ cur)) < ky" using ky(3) last_in_set by blast
    with False w show ?thesis by (simp add: writer_on_def)
  qed (use w in \<open>simp add: writer_on_def\<close>)
  have sorted: "ksorted (concat bss1 @ cur1 @ [(ky, e)])"
    using w1 ky(3) unfolding es [symmetric] by (auto simp: writer_on_def sorted_wrt_append)
  define w2 where "w2 = (if sw_first_key w1 = None then w1\<lparr>sw_first_key := Some ky\<rparr> else w1)
    \<lparr>sw_block := encode_entry ky e (sw_block w1), sw_last_key := Some ky\<rparr>"
  have w2: "s1 = s0\<lparr>content := (content s0)(sw_file w2 := blocks_bytes crc bss1)\<rparr>"
      "sw_block w2 = data_codec.encs (cur1 @ [(ky, e)])"
      "sw_first_key w2 = Some (fst (hd (cur1 @ [(ky, e)])))"
      "sw_index w2 = index_from crc 0 bss1"
      "sw_next_offset w2 = word_of_nat (length (blocks_bytes crc bss1))"
      "sw_last_key w2 = Some ky" "sw_file w2 = sw_file w" "sw_bloom w2 = sw_bloom w"
      "length (sw_block w2) + 4 < 2 ^ 32"
    using w1 same room
    by (auto simp: w2_def writer_on_def encode_entry_append data_codec.encs_simps
        encoded_entry_size_eq)
  have add: "sst_add crc xxh ky e w s =
      (case sw_bloom w2 of None \<Rightarrow> (Inr (), w2, s1)
       | Some bf \<Rightarrow> (case bloom_insert xxh ky bf of Inl err \<Rightarrow> (Inl err, w2, s1)
           | Inr bf \<Rightarrow> (Inr (), w2\<lparr>sw_bloom := Some bf\<rparr>, s1)))"
    unfolding sst_add_def fl Let_def w2_def using ky(1) order
    by (cases "sw_first_key w1"; cases "sw_bloom w1") (simp_all split: sum.split)
  have rest: "blocks_ok crc bss1" "\<forall>ke \<in> set (cur1 @ [(ky, e)]). fits ke"
    using w1 ky(2) by (simp_all add: writer_on_def)
  have keys: "bloom_covers xxh (sw_bloom w2) (fst ` set (concat bss1 @ cur1))"
    using w1 same w2 by (simp add: writer_on_def)
  have "\<exists>w'. sst_add crc xxh ky e w s = (Inr (), w', s1) \<and>
    writer_on crc xxh s0 w' s1 bss1 (cur1 @ [(ky, e)]) \<and>
    sw_file w' = sw_file w \<and> (sw_bloom w' = None \<longleftrightarrow> sw_bloom w = None)"
  proof (cases "sw_bloom w2")
    case None
    with w2 rest sorted show ?thesis by (simp add: add writer_on_def bloom_covers_def)
  next
    case (Some bf)
    with keys have "bloom_has xxh bf (fst ` set (concat bss1 @ cur1))"
      by (simp add: bloom_covers_def)
    from bloom_insert_has [OF this, of ky] obtain bf' where
      "bloom_insert xxh ky bf = Inr bf'"
      "bloom_has xxh bf' (insert ky (fst ` set (concat bss1 @ cur1)))" by blast
    with Some w2 rest sorted show ?thesis
      by (simp add: add writer_on_def bloom_covers_def)
  qed
  then show ?thesis using es by (metis append.assoc)
qed


lemma sst_add_all_ok:
  "writer_on crc xxh s0 w s bss cur \<Longrightarrow> plan s0 = [] \<Longrightarrow>
   (\<forall>(ky, e) \<in> set es. ky \<noteq> [] \<and> fits (ky, e)) \<Longrightarrow> ksorted (concat bss @ cur @ es) \<Longrightarrow>
   \<exists>w' s' bss' cur'. sst_add_all crc xxh es w s = (Inr (), w', s') \<and>
     writer_on crc xxh s0 w' s' bss' cur' \<and> concat bss' @ cur' = concat bss @ cur @ es \<and>
     sw_file w' = sw_file w \<and> (sw_bloom w' = None \<longleftrightarrow> sw_bloom w = None)"
proof (induction es arbitrary: w s bss cur)
  case Nil
  then show ?case by auto
next
  case (Cons ke es)
  obtain ky e where ke: "ke = (ky, e)" by (cases ke)
  have "\<forall>k \<in> fst ` set (concat bss @ cur). k < ky"
    using Cons.prems(4) by (auto simp: ke sorted_wrt_append)
  with Cons.prems ke obtain w1 s1 bss1 cur1 where
    1: "sst_add crc xxh ky e w s = (Inr (), w1, s1)" "writer_on crc xxh s0 w1 s1 bss1 cur1"
      "concat bss1 @ cur1 = concat bss @ cur @ [(ky, e)]"
      "sw_file w1 = sw_file w" "sw_bloom w1 = None \<longleftrightarrow> sw_bloom w = None"
    using sst_add_ok [OF Cons.prems(1,2), of ky e] by auto
  have "concat bss1 @ cur1 @ es = concat bss @ cur @ ke # es"
    using 1(3) ke by (metis append.assoc append_Cons append_Nil)
  with Cons.IH [OF 1(2) Cons.prems(2)] Cons.prems(3,4) 1 ke show ?case by auto
qed

section \<open>Creating and finishing\<close>

lemma sst_create_ok:
  assumes "plan s = []" and "bt_get (names s) path = None"
  shows "\<exists>w. sst_create path n b s = (Inr w, s\<lparr>names := bt_insert (names s) path (next_ino s),
      content := (content s)(next_ino s := []), stable := (stable s)(next_ino s := []),
      next_ino := Suc (next_ino s)\<rparr>) \<and>
    sw_file w = next_ino s \<and>
    (\<forall>s0 crc. content s0 (next_ino s) = [] \<longrightarrow> writer_on crc xxh s0 w s0 [] [])"
proof -
  obtain f where f: "b \<noteq> 0 \<Longrightarrow> bloom_new n b = Inr f \<and> bloom_ok f"
    using bloom_new_ok [of b n] by blast
  show ?thesis
    using assms f
    by (auto simp: sst_create_def no_fault writer_on_def blocks_ok_def bloom_covers_def
        bloom_has_def data_codec.encs_simps word_neq_0_conv fun_upd_idem)
qed

lemma encode_index_entries_eq: "encode_index_entries ies out = out @ index_codec.encs ies"
  by (induction ies arbitrary: out)
     (simp_all add: encode_index_entry_append index_codec.encs_simps)

lemma finish_index_ok:
  assumes "plan s = []" and "sw_index w = index_from crc 0 bss"
    and "content s (sw_file w) = blocks_bytes crc bss @ bloom_bytes crc bf"
    and "sw_next_offset w = word_of_nat (length (blocks_bytes crc bss) + length (bloom_bytes crc bf))"
    and "bo = (if bf = None then 0 else word_of_nat (length (blocks_bytes crc bss)))"
    and "bl = word_of_nat (length (bloom_bytes crc bf))"
  shows "finish_index crc bo bl w s = (Inr (),
    s\<lparr>content := (content s)(sw_file w := sst_image crc bss bf),
      stable := (stable s)(sw_file w := sst_image crc bss bf)\<rparr>)"
proof -
  define ib where "ib = index_bytes crc bss"
  have idx: "encode_index_entries (sw_index w) [] @
      u32_to_le (crc (encode_index_entries (sw_index w) [])) = ib"
    by (simp add: ib_def index_bytes_def encode_index_entries_eq assms(2) Let_def)
  have foot: "u64_to_le (sw_next_offset w) @ u64_to_le (word_of_nat (length ib)) @ u64_to_le bo @
      u64_to_le bl @ FOOTER_MAGIC = sst_footer crc bss bf"
    by (simp add: sst_footer_def Let_def ib_def assms(4,5,6))
  show ?thesis
    unfolding finish_index_def Let_def idx foot using assms(1,3)
    by (simp add: no_fault sst_image_def ib_def)
qed

lemma sst_finish_ok:
  assumes w: "writer_on crc xxh s0 w s bss cur" and "plan s0 = []"
  shows "\<exists>bss' bf. sst_finish crc w s = (Inr (),
      s0\<lparr>content := (content s0)(sw_file w := sst_image crc bss' bf),
        stable := (stable s0)(sw_file w := sst_image crc bss' bf)\<rparr>) \<and>
    concat bss' = concat bss @ cur \<and> blocks_ok crc bss' \<and>
    bloom_covers xxh bf (fst ` set (concat bss'))"
proof -
  let ?fl = "sw_block w \<noteq> []"
  have "\<exists>w1 s1 bss1. (if ?fl then flush_current_block crc w s else (Inr (), w, s)) =
      (Inr (), w1, s1) \<and> writer_on crc xxh s0 w1 s1 bss1 [] \<and> concat bss1 = concat bss @ cur \<and>
      sw_file w1 = sw_file w"
  proof (cases "cur = []")
    case True
    then have "\<not> ?fl" using w by (simp add: writer_on_def data_codec.encs_simps)
    with True w show ?thesis by auto
  next
    case False
    then have ?fl using w by (simp add: writer_on_def data_codec.encs_empty)
    from flush_current_block_ok [OF w False assms(2)] obtain w1 s1 where
      "flush_current_block crc w s = (Inr (), w1, s1)" "sw_file w1 = sw_file w"
      "writer_on crc xxh s0 w1 s1 (bss @ [cur]) []" by blast
    with \<open>?fl\<close> show ?thesis by (intro exI [of _ "bss @ [cur]"] exI) auto
  qed
  then obtain w1 s1 bss1 where
    fl: "(if ?fl then flush_current_block crc w s else (Inr (), w, s)) = (Inr (), w1, s1)"
    and w1: "writer_on crc xxh s0 w1 s1 bss1 []" and es: "concat bss1 = concat bss @ cur"
    and same: "sw_file w1 = sw_file w" by blast
  have s1: "s1 = s0\<lparr>content := (content s0)(sw_file w := blocks_bytes crc bss1)\<rparr>"
    and idx: "sw_index w1 = index_from crc 0 bss1"
    and off: "sw_next_offset w1 = word_of_nat (length (blocks_bytes crc bss1))"
    and ok: "blocks_ok crc bss1" "bloom_covers xxh (sw_bloom w1) (fst ` set (concat bss1))"
    using w1 same by (simp_all add: writer_on_def)
  have "sst_finish crc w s = (Inr (),
      s0\<lparr>content := (content s0)(sw_file w := sst_image crc bss1 (sw_bloom w1)),
        stable := (stable s0)(sw_file w := sst_image crc bss1 (sw_bloom w1))\<rparr>)"
  proof (cases "sw_bloom w1")
    case None
    have "finish_index crc 0 0 w1 s1 = (Inr (),
      s1\<lparr>content := (content s1)(sw_file w1 := sst_image crc bss1 None),
        stable := (stable s1)(sw_file w1 := sst_image crc bss1 None)\<rparr>)"
      by (rule finish_index_ok) (simp_all add: s1 same idx off assms(2) bloom_bytes_def)
    with None show ?thesis unfolding sst_finish_def fl by (simp add: s1 same)
  next
    case (Some bf)
    define w2 where "w2 = w1\<lparr>sw_next_offset := sw_next_offset w1 +
      word_of_nat (length (bloom_encode crc bf))\<rparr>"
    define s2 where "s2 = s1\<lparr>content := (content s1)(sw_file w :=
      content s1 (sw_file w) @ bloom_encode crc bf)\<rparr>"
    have "finish_index crc (sw_next_offset w1) (word_of_nat (length (bloom_encode crc bf))) w2 s2 =
      (Inr (), s2\<lparr>content := (content s2)(sw_file w2 := sst_image crc bss1 (Some bf)),
        stable := (stable s2)(sw_file w2 := sst_image crc bss1 (Some bf))\<rparr>)"
      by (rule finish_index_ok)
        (simp_all add: s1 s2_def w2_def same idx off assms(2) bloom_bytes_def)
    with Some show ?thesis
      unfolding sst_finish_def fl
      by (simp add: s1 s2_def w2_def same assms(2) append_file_ok Let_def)
  qed
  with es ok show ?thesis
    by (intro exI [of _ bss1] exI [of _ "sw_bloom w1"] conjI) simp_all
qed

section \<open>The size of a table\<close>

text \<open>
  A bound on the file length from the entries alone: per entry its encoding, a block trailer and
  an index entry. The bloom block is at most \<open>2 ^ 61 + 13\<close> bytes because its bit count is a \<open>u64\<close>.
\<close>

definition table_bound :: "(bytes \<times> entry) list \<Rightarrow> nat" where
  "table_bound es = sum_list (map (\<lambda>(ky, e). 2 * length ky + payload_size e + 29) es)"

lemma table_bound_simps [simp]:
  "table_bound [] = 0"
  "table_bound ((ky, e) # es) = 2 * length ky + payload_size e + 29 + table_bound es"
  "table_bound (es @ es') = table_bound es + table_bound es'"
  by (simp_all add: table_bound_def)

lemma length_index_enc: "length (index_enc ie) = 16 + length (ie_first_key ie)"
  by (simp add: index_enc_def encode_index_entry_def Let_def)

lemma encs_bound: "length (data_codec.encs b) + 20 * length b + sum_list (map (length \<circ> fst) b) \<le> table_bound b"
  by (induction b) (auto simp: data_codec.encs_simps length_entry_enc)

lemma block_bound:
  assumes "b \<noteq> []"
  shows "length (block_bytes crc b) + (16 + length (fst (hd b))) \<le> table_bound b"
proof -
  obtain x b' where b: "b = x # b'" using assms by (cases b) auto
  then show ?thesis using encs_bound [of b] by (simp add: length_block_bytes)
qed

lemma blocks_bound:
  "\<forall>b \<in> set bss. b \<noteq> [] \<Longrightarrow>
   length (blocks_bytes crc bss) + length (index_codec.encs (index_from crc off bss))
     \<le> table_bound (concat bss)"
proof (induction bss arbitrary: off)
  case Nil
  then show ?case by (simp add: index_codec.encs_simps)
next
  case (Cons b bss)
  from Cons.IH [of "off + length (block_bytes crc b)"] Cons.prems block_bound [of b crc]
  show ?case by (simp add: index_codec.encs_simps length_index_enc)
qed

lemma bloom_bytes_bound:
  assumes "bloom_covers xxh bf K"
  shows "length (bloom_bytes crc bf) \<le> 2 ^ 61 + 13"
proof (cases bf)
  case None
  then show ?thesis by (simp add: bloom_bytes_def)
next
  case (Some f)
  have "unat (b_m f) < 2 ^ 64" using unsigned_less [of "b_m f", where ?'a = nat] by simp
  with Some assms show ?thesis
    by (simp add: bloom_bytes_def length_bloom_encode bloom_encoded_len_def bloom_covers_def
        bloom_has_def bloom_ok_def div_ceil8_def)
qed

lemma sst_image_bound:
  assumes "blocks_ok crc bss" and "bloom_covers xxh bf K" and "table_bound (concat bss) < 2 ^ 62"
  shows "length (sst_image crc bss bf) < 2 ^ 63"
proof -
  have "length (blocks_bytes crc bss) + length (index_codec.encs (index_from crc 0 bss))
      \<le> table_bound (concat bss)"
    using assms(1) by (intro blocks_bound) (simp add: blocks_ok_def)
  then show ?thesis
    using assms(3) bloom_bytes_bound [OF assms(2), of crc]
    by (simp add: sst_image_def index_bytes_def sst_footer_def Let_def)
qed

section \<open>Writing a table\<close>

lemma sst_write_ok:
  assumes "plan s = []" and "bt_get (names s) path = None"
    and "\<forall>(ky, e) \<in> set es. ky \<noteq> [] \<and> fits (ky, e)" and "ksorted es"
    and "table_bound es < 2 ^ 62"
  shows "\<exists>w s1 w' s2 bs.
    sst_create path n b s = (Inr w, s1) \<and>
    sst_add_all crc xxh es w s1 = (Inr (), w', s2) \<and>
    sst_finish crc w' s2 = (Inr (), s\<lparr>names := bt_insert (names s) path (next_ino s),
      content := (content s)(next_ino s := bs), stable := (stable s)(next_ino s := bs),
      next_ino := Suc (next_ino s)\<rparr>) \<and>
    sst_file crc xxh es bs"
proof -
  let ?s1 = "s\<lparr>names := bt_insert (names s) path (next_ino s),
      content := (content s)(next_ino s := []), stable := (stable s)(next_ino s := []),
      next_ino := Suc (next_ino s)\<rparr>"
  obtain w where w: "sst_create path n b s = (Inr w, ?s1)" "sw_file w = next_ino s"
    and on: "writer_on crc xxh ?s1 w ?s1 [] []"
    using sst_create_ok [OF assms(1,2), of n b xxh] by fastforce
  have "plan ?s1 = []" using assms(1) by simp
  from sst_add_all_ok [OF on this assms(3)] assms(4) obtain w' s2 bss cur where
    add: "sst_add_all crc xxh es w ?s1 = (Inr (), w', s2)" "concat bss @ cur = es"
      "sw_file w' = next_ino s"
    and on': "writer_on crc xxh ?s1 w' s2 bss cur" using w(2) by auto
  from sst_finish_ok [OF on' \<open>plan ?s1 = []\<close>] add(2) obtain bss' bf where
    fin: "sst_finish crc w' s2 = (Inr (),
      ?s1\<lparr>content := (content ?s1)(sw_file w' := sst_image crc bss' bf),
        stable := (stable ?s1)(sw_file w' := sst_image crc bss' bf)\<rparr>)"
    and ok: "concat bss' = es" "blocks_ok crc bss'" "bloom_covers xxh bf (fst ` set es)" by metis
  have "length (sst_image crc bss' bf) < 2 ^ 63"
    using ok assms(5) by (intro sst_image_bound) simp_all
  with ok assms(4) have "sst_file crc xxh es (sst_image crc bss' bf)"
    unfolding sst_file_def by blast
  moreover have "sst_finish crc w' s2 = (Inr (), s\<lparr>names := bt_insert (names s) path (next_ino s),
      content := (content s)(next_ino s := sst_image crc bss' bf),
      stable := (stable s)(next_ino s := sst_image crc bss' bf),
      next_ino := Suc (next_ino s)\<rparr>)"
    unfolding fin by (simp add: add(3))
  ultimately show ?thesis using w(1) add(1) by blast
qed


section \<open>Properties\<close>

text \<open>The writer enforces its order: an empty key, or a key not greater than the one added last,
  is refused and nothing changes, neither the writer nor any file.\<close>

theorem sst_add_refuses_disorder:
  assumes "ky = [] \<or> (\<exists>prev. sw_last_key w = Some prev \<and> ky \<le> prev)"
  shows "\<exists>msg. sst_add crc xxh ky e w s = (Inl (InvalidArgument msg), w, s)"
  using assms by (cases "ky = []") (auto simp: sst_add_def)

theorem sst_add_refuses_disorder_witness:
  "\<exists>w s. sw_last_key w = Some [5] \<and>
     (\<exists>msg. sst_add (\<lambda>_. 0) (\<lambda>_. 0) [4, 9] (Put []) w s = (Inl (InvalidArgument msg), w, s))"
proof -
  define w where "w = \<lparr>sw_file = 0, sw_block = [], sw_first_key = None, sw_index = [],
    sw_next_offset = 0, sw_last_key = Some [5], sw_bloom = None\<rparr>"
  have "sw_last_key w = Some [5]" "[4, 9] \<le> [5 :: u8]" by (simp_all add: w_def)
  with sst_add_refuses_disorder [of "[4, 9]" w "\<lambda>_. 0" "\<lambda>_. 0" "Put []" empty_fs] show ?thesis
    by blast
qed

end
