(* ===== verification/Sst_Reader.thy ===== *)
theory Sst_Reader
  imports Sst_Writer
begin

text \<open>
  Point lookups in an SSTable, \<^verbatim>\<open>src/src/sstable/reader.rs\<close>: opening a file (footer, index
  and bloom block), the candidate block of a key, and the scan of that block. Opening a table
  the writer produced succeeds, and a lookup in it agrees with the map of its entries.
\<close>

section \<open>The reader\<close>

datatype sst_lookup = SstFound bytes | SstDeleted | SstMissing

record sst_reader =
  sr_file :: nat
  sr_index :: "index_entry list"
  sr_bloom :: "bloom option"

lemma index_entry_at_progress: "index_entry_at payload p = Inr (ie, q) \<Longrightarrow> p < q"
  by (auto simp: index_entry_at_def Let_def split: if_splits)

lemma entry_fields_at_progress: "entry_fields_at block p = Inr (x, q) \<Longrightarrow> p < q"
  by (auto simp: entry_fields_at_def Let_def split: if_splits)

function parse_index_loop :: "bytes \<Rightarrow> nat \<Rightarrow> index_entry list \<Rightarrow> error + index_entry list" where
  "parse_index_loop payload p entries =
     (if p < length payload
      then case index_entry_at payload p of
             Inl e \<Rightarrow> Inl e
           | Inr (ie, q) \<Rightarrow> parse_index_loop payload q (entries @ [ie])
      else Inr entries)"
  by pat_completeness auto
termination
  by (relation "measure (\<lambda>(payload, p, _). length payload - p)")
     (auto dest!: index_entry_at_progress)

declare parse_index_loop.simps [simp del]

definition parse_index_block :: "(bytes \<Rightarrow> u32) \<Rightarrow> bytes \<Rightarrow> error + index_entry list" where
  "parse_index_block crc bs =
     (if length bs < 4 then Inl (Corruption ''index block shorter than CRC trailer'')
      else
        (let split = length bs - 4;
             stored_crc = u32_from_le (drop split bs);
             computed_crc = crc (take split bs)
         in if stored_crc \<noteq> computed_crc then Inl (Corruption ''SSTable index CRC mismatch'')
            else parse_index_loop (take split bs) 0 []))"

definition ISIZE_MAX :: nat where "ISIZE_MAX = 2 ^ 63 - 1"

text \<open>\<^verbatim>\<open>vec![0u8; n]\<close> panics when \<open>n\<close> exceeds \<^verbatim>\<open>isize::MAX\<close>; then the buffer is filled.\<close>

definition read_vec :: "nat \<Rightarrow> u64 \<Rightarrow> nat \<Rightarrow> fs \<Rightarrow> (error + bytes) \<times> fs" where
  "read_vec h off n s =
     (if n > ISIZE_MAX then (Inl (Panic ''capacity overflow''), s) else read_at h (unat off) n s)"

text \<open>The part of \<^verbatim>\<open>open\<close> after the footer has been read.\<close>

definition open_with_footer ::
  "(bytes \<Rightarrow> u32) \<Rightarrow> nat \<Rightarrow> u64 \<Rightarrow> bytes \<Rightarrow> fs \<Rightarrow> (error + sst_reader) \<times> fs" where
  "open_with_footer crc h flen footer s =
     (let index_offset = u64_from_le (subslice 0 8 footer);
          index_length = u64_from_le (subslice 8 16 footer);
          bloom_offset = u64_from_le (subslice 16 24 footer);
          bloom_length = u64_from_le (subslice 24 32 footer);
          magic = subslice 32 40 footer
      in if magic \<noteq> FOOTER_MAGIC then (Inl (Corruption ''SSTable footer magic mismatch''), s)
         else if index_offset + index_length + word_of_nat FOOTER_LEN > flen
         then (Inl (Corruption ''SSTable index bounds out of range''), s)
         else if bloom_length > 0 \<and>
                 bloom_offset + bloom_length + index_length + word_of_nat FOOTER_LEN > flen
         then (Inl (Corruption ''SSTable bloom bounds out of range''), s)
         else
           (case read_vec h index_offset (unat index_length) s of
              (Inl e, s) \<Rightarrow> (Inl e, s)
            | (Inr index_bs, s) \<Rightarrow>
                (case parse_index_block crc index_bs of
                   Inl e \<Rightarrow> (Inl e, s)
                 | Inr index \<Rightarrow>
                     if bloom_length > 0
                     then (case read_vec h bloom_offset (unat bloom_length) s of
                             (Inl e, s) \<Rightarrow> (Inl e, s)
                           | (Inr bloom_bs, s) \<Rightarrow>
                               (case bloom_decode crc bloom_bs of
                                  Inl e \<Rightarrow> (Inl e, s)
                                | Inr bf \<Rightarrow>
                                    (Inr \<lparr>sr_file = h, sr_index = index, sr_bloom = Some bf\<rparr>, s)))
                     else (Inr \<lparr>sr_file = h, sr_index = index, sr_bloom = None\<rparr>, s))))"

definition sst_open :: "(bytes \<Rightarrow> u32) \<Rightarrow> fname \<Rightarrow> fs \<Rightarrow> (error + sst_reader) \<times> fs" where
  "sst_open crc path s =
     (case open_read path s of
        (Inl e, s) \<Rightarrow> (Inl e, s)
      | (Inr h, s) \<Rightarrow>
          (case file_len h s of
             (Inl e, s) \<Rightarrow> (Inl e, s)
           | (Inr n, s) \<Rightarrow>
               (let flen = (word_of_nat n :: u64)
                in if flen < word_of_nat FOOTER_LEN
                   then (Inl (Corruption ''SSTable file shorter than footer''), s)
                   else
                     (case read_at h (unat (flen - word_of_nat FOOTER_LEN)) FOOTER_LEN s of
                        (Inl e, s) \<Rightarrow> (Inl e, s)
                      | (Inr footer, s) \<Rightarrow> open_with_footer crc h flen footer s))))"

text \<open>
  \<^verbatim>\<open>partition_point\<close> is the number of leading entries that satisfy the predicate, for an index
  sorted by first key.
\<close>

definition candidate_block :: "index_entry list \<Rightarrow> bytes \<Rightarrow> nat option" where
  "candidate_block index ky =
     (let p = length (takeWhile (\<lambda>e. ie_first_key e \<le> ky) index)
      in if p = 0 then None else Some (p - 1))"

text \<open>
  Reading the data block of an index entry and verifying its trailer, as \<^verbatim>\<open>get\<close> and
  \<^verbatim>\<open>load_current_block\<close> both do.
\<close>

definition read_block :: "(bytes \<Rightarrow> u32) \<Rightarrow> nat \<Rightarrow> index_entry \<Rightarrow> fs \<Rightarrow> (error + bytes) \<times> fs" where
  "read_block crc h ie s =
     (case read_at h (unat (ie_offset ie)) (unat (ie_length ie)) s of
        (Inl e, s) \<Rightarrow> (Inl e, s)
      | (Inr block_bs, s) \<Rightarrow>
          if length block_bs < 4
          then (Inl (Corruption ''SSTable data block shorter than CRC trailer''), s)
          else
            (let split = length block_bs - 4;
                 stored_crc = u32_from_le (drop split block_bs);
                 computed_crc = crc (take split block_bs)
             in if stored_crc \<noteq> computed_crc
                then (Inl (Corruption ''SSTable data block CRC mismatch''), s)
                else (Inr (take split block_bs), s)))"

function scan_loop :: "bytes \<Rightarrow> bytes \<Rightarrow> nat \<Rightarrow> error + sst_lookup" where
  "scan_loop block target p =
     (if p < length block
      then case entry_fields_at block p of
             Inl e \<Rightarrow> Inl e
           | Inr ((ky, v, kind), q) \<Rightarrow>
               if ky > target then Inr SstMissing
               else if ky = target
               then (if kind = SST_KIND_PUT \<or> kind = SST_KIND_VECTOR then Inr (SstFound v)
                     else if kind = SST_KIND_DELETE then Inr SstDeleted
                     else Inl (Corruption ''unknown SSTable entry kind''))
               else scan_loop block target q
      else Inr SstMissing)"
  by pat_completeness auto
termination
  by (relation "measure (\<lambda>(block, _, p). length block - p)")
     (auto dest!: entry_fields_at_progress)

declare scan_loop.simps [simp del]

definition scan_block_for_key :: "bytes \<Rightarrow> bytes \<Rightarrow> error + sst_lookup" where
  "scan_block_for_key block target = scan_loop block target 0"

definition sst_get ::
  "(bytes \<Rightarrow> u32) \<Rightarrow> (bytes \<Rightarrow> 128 word) \<Rightarrow> sst_reader \<Rightarrow> bytes \<Rightarrow> fs \<Rightarrow> (error + sst_lookup) \<times> fs" where
  "sst_get crc xxh rd ky s =
     (case (case sr_bloom rd of None \<Rightarrow> Inr True | Some bf \<Rightarrow> bloom_contains xxh ky bf) of
        Inl e \<Rightarrow> (Inl e, s)
      | Inr False \<Rightarrow> (Inr SstMissing, s)
      | Inr True \<Rightarrow>
          (case candidate_block (sr_index rd) ky of
             None \<Rightarrow> (Inr SstMissing, s)
           | Some i \<Rightarrow>
               (case read_block crc (sr_file rd) (sr_index rd ! i) s of
                  (Inl e, s) \<Rightarrow> (Inl e, s)
                | (Inr block, s) \<Rightarrow> (scan_block_for_key block ky, s))))"

definition block_count :: "sst_reader \<Rightarrow> nat" where
  "block_count rd = length (sr_index rd)"

section \<open>Opening a table\<close>

text \<open>A reader over a file that holds the table of \<open>es\<close>.\<close>

definition reads_table ::
  "(bytes \<Rightarrow> u32) \<Rightarrow> (bytes \<Rightarrow> 128 word) \<Rightarrow> sst_reader \<Rightarrow> fs \<Rightarrow> (bytes \<times> entry) list \<Rightarrow> bool" where
  "reads_table crc xxh rd s es \<longleftrightarrow>
     (\<exists>bss. content s (sr_file rd) = sst_image crc bss (sr_bloom rd) \<and> concat bss = es \<and>
        blocks_ok crc bss \<and> bloom_covers xxh (sr_bloom rd) (fst ` set es) \<and>
        sr_index rd = index_from crc 0 bss) \<and>
     ksorted es \<and> length (content s (sr_file rd)) < 2 ^ 63"

lemma parse_index_block_ok:
  assumes "blocks_ok crc bss"
  shows "parse_index_block crc (index_bytes crc bss) = Inr (index_from crc 0 bss)"
proof -
  let ?ies = "index_from crc 0 bss"
  have first: "fits (hd b)" if "b \<in> set bss" for b
    using assms that hd_in_set by (fastforce simp: blocks_ok_def)
  have "\<forall>ie \<in> set (index_from crc off bss). index_fits ie" for off
    using first
  proof (induction bss arbitrary: off)
    case (Cons b bss)
    have "fits (hd b)" using Cons.prems by simp
    then have "length (fst (hd b)) < 2 ^ 32"
      by (cases "hd b") (simp add: fits_def encoded_entry_size_eq length_entry_enc)
    with Cons show ?case by (simp add: index_fits_def)
  qed simp
  then have "parse_index_loop (index_codec.encs ([] @ ?ies)) (length (index_codec.encs [])) [] =
      Inr ([] @ map (\<lambda>ie. ie) ?ies)"
    by (intro index_codec.walk_all [where loop = parse_index_loop]) (rule parse_index_loop.simps, blast)
  then have "parse_index_loop (index_codec.encs ?ies) 0 [] = Inr ?ies"
    by (simp add: index_codec.encs_simps)
  then show ?thesis
    by (simp add: parse_index_block_def index_bytes_def Let_def)
qed


lemma unat_len: "n < 2 ^ 63 \<Longrightarrow> unat (word_of_nat n :: u64) = n"
  by (simp add: unat_u64_of_nat)

lemma sst_open_ok:
  assumes tab: "sst_file crc xxh es (content s h)" and path: "bt_get (names s) path = Some h"
    and "plan s = []"
  shows "\<exists>rd. sst_open crc path s = (Inr rd, s) \<and> sr_file rd = h \<and> reads_table crc xxh rd s es"
proof -
  obtain bss bf where img: "content s h = sst_image crc bss bf" and es: "concat bss = es"
    and ok: "blocks_ok crc bss" and bf: "bloom_covers xxh bf (fst ` set es)"
    and sorted: "ksorted es" and small: "length (content s h) < 2 ^ 63"
    using tab by (auto simp: sst_file_def)
  define D where "D = blocks_bytes crc bss"
  define BL where "BL = bloom_bytes crc bf"
  define IX where "IX = index_bytes crc bss"
  define F where "F = sst_footer crc bss bf"
  define flen where "flen = (word_of_nat (length (content s h)) :: u64)"
  have c: "content s h = D @ BL @ IX @ F"
    by (simp add: img sst_image_def D_def BL_def IX_def F_def)
  have F: "F = u64_to_le (word_of_nat (length D + length BL)) @ u64_to_le (word_of_nat (length IX)) @
      u64_to_le (if bf = None then 0 else word_of_nat (length D)) @
      u64_to_le (word_of_nat (length BL)) @ FOOTER_MAGIC"
    by (simp add: F_def sst_footer_def D_def BL_def IX_def Let_def)
  then have lenF: "length F = 40" by simp
  have fields: "u64_from_le (subslice 0 8 F) = word_of_nat (length D + length BL)"
    "u64_from_le (subslice 8 16 F) = word_of_nat (length IX)"
    "u64_from_le (subslice 16 24 F) = (if bf = None then 0 else word_of_nat (length D))"
    "u64_from_le (subslice 24 32 F) = word_of_nat (length BL)"
    "subslice 32 40 F = FOOTER_MAGIC"
    by (simp_all add: F subslice_def)
  have total: "length (content s h) = length D + length BL + length IX + 40"
    by (simp add: c lenF)
  have sums: "word_of_nat (length D + length BL) + word_of_nat (length IX) + word_of_nat FOOTER_LEN = flen"
    "word_of_nat (length D) + word_of_nat (length BL) + word_of_nat (length IX) +
      word_of_nat FOOTER_LEN = flen"
    by (simp_all add: flen_def total)
  have unat40: "unat (flen - word_of_nat FOOTER_LEN) = length D + length BL + length IX"
    "\<not> flen < word_of_nat FOOTER_LEN"
  proof -
    have *: "flen - word_of_nat FOOTER_LEN = word_of_nat (length D + length BL + length IX)"
      by (simp add: flen_def total)
    show "unat (flen - word_of_nat FOOTER_LEN) = length D + length BL + length IX"
      unfolding * by (rule unat_len) (use small total in simp)
    show "\<not> flen < word_of_nat FOOTER_LEN"
      using small unat_len [of "length (content s h)"]
      by (simp add: flen_def word_less_nat_alt total)
  qed
  have rdF: "read_at h (unat (flen - word_of_nat FOOTER_LEN)) FOOTER_LEN s = (Inr F, s)"
    unfolding unat40 using assms(3) subslice_mid_end [of "D @ BL @ IX" _ F, OF refl refl]
    by (simp add: read_at_ok c lenF add.assoc)
  have rdIX: "read_vec h (word_of_nat (length D + length BL)) (unat (word_of_nat (length IX) :: u64)) s =
      (Inr IX, s)"
    using assms(3) small total subslice_mid [of "D @ BL" _ IX _ F, OF refl refl]
    by (simp add: read_vec_def ISIZE_MAX_def unat_len read_at_ok c del: of_nat_add)
  have pIX: "parse_index_block crc IX = Inr (index_from crc 0 bss)"
    unfolding IX_def by (rule parse_index_block_ok [OF ok])
  define rd where "rd = \<lparr>sr_file = h, sr_index = index_from crc 0 bss, sr_bloom = bf\<rparr>"
  have "open_with_footer crc h flen F s = (Inr rd, s)"
  proof (cases bf)
    case None
    then have "BL = []" by (simp add: BL_def bloom_bytes_def)
    with None rdIX pIX sums show ?thesis
      unfolding open_with_footer_def Let_def fields by (simp add: rd_def)
  next
    case (Some f)
    have fok: "bloom_ok f" using bf Some by (simp add: bloom_covers_def bloom_has_def)
    have BL: "BL = bloom_encode crc f" by (simp add: Some BL_def bloom_bytes_def)
    then have pos: "(word_of_nat (length BL) :: u64) > 0"
      using small total unat_len [of "length BL"]
      by (simp add: word_less_nat_alt length_bloom_encode bloom_encoded_len_def)
    have "read_vec h (word_of_nat (length D)) (unat (word_of_nat (length BL) :: u64)) s = (Inr BL, s)"
      using assms(3) small total subslice_mid [of D _ BL _ "IX @ F", OF refl refl]
      by (simp add: read_vec_def ISIZE_MAX_def unat_len read_at_ok c)
    moreover have "bloom_decode crc BL = Inr f"
      unfolding BL by (rule bloom_decode_encode [OF fok])
    ultimately show ?thesis
      unfolding open_with_footer_def Let_def fields
      using Some rdIX pIX sums pos by (simp add: rd_def del: of_nat_add)
  qed
  then have "sst_open crc path s = (Inr rd, s)"
    using assms(3) path rdF unat40(2)
    by (simp add: sst_open_def open_read_old file_len_ok Let_def flip: flen_def)
  moreover have "reads_table crc xxh rd s es"
    unfolding reads_table_def using img es ok bf sorted small by (auto simp: rd_def)
  ultimately show ?thesis by (auto simp: rd_def)
qed

section \<open>Lookups\<close>

text \<open>The candidate block holds every entry that a key can have.\<close>

lemma index_from_keys: "map ie_first_key (index_from crc off bss) = map (fst \<circ> hd) bss"
  by (induction bss arbitrary: off) simp_all

lemma candidate_block_eq:
  "candidate_block (index_from crc 0 bss) ky =
     (let p = length (takeWhile (\<lambda>b. fst (hd b) \<le> ky) bss) in if p = 0 then None else Some (p - 1))"
proof -
  have "length (takeWhile (\<lambda>e. ie_first_key e \<le> ky) (index_from crc off bss)) =
      length (takeWhile (\<lambda>b. fst (hd b) \<le> ky) bss)" for off
    by (induction bss arbitrary: off) simp_all
  then show ?thesis by (simp add: candidate_block_def Let_def)
qed

lemma ksorted_above:
  assumes "ksorted es" and "es \<noteq> []" and "ky < fst (hd es)"
  shows "map_of es ky = None"
  using assms by (cases es) (fastforce simp: map_of_eq_None_iff)+

lemma ksorted_below:
  assumes "ksorted (es @ es')" and "es' \<noteq> []" and "fst (hd es') \<le> ky"
  shows "map_of es ky = None"
proof -
  have "fst ke < ky" if "ke \<in> set es" for ke
  proof -
    have "fst ke < fst (hd es')"
      using assms(1,2) that hd_in_set [of es'] by (auto simp: sorted_wrt_append)
    with assms(3) show ?thesis by simp
  qed
  then show ?thesis by (force simp: map_of_eq_None_iff)
qed

lemma hd_concat: "\<forall>b \<in> set bss. b \<noteq> [] \<Longrightarrow> bss \<noteq> [] \<Longrightarrow> hd (concat bss) = hd (hd bss)"
  by (cases bss) auto

lemma candidate_cases:
  assumes "ksorted (concat bss)" and ne: "\<forall>b \<in> set bss. b \<noteq> []"
  obtains "candidate_block (index_from crc 0 bss) ky = None" "map_of (concat bss) ky = None"
  | pre b post where "bss = pre @ b # post"
      "candidate_block (index_from crc 0 bss) ky = Some (length pre)"
      "map_of (concat bss) ky = map_of b ky"
proof (cases "takeWhile (\<lambda>b. fst (hd b) \<le> ky) bss" rule: rev_cases)
  case Nil
  then have "candidate_block (index_from crc 0 bss) ky = None"
    by (simp add: candidate_block_eq)
  moreover have "map_of (concat bss) ky = None"
  proof (cases bss)
    case (Cons b bs)
    with Nil have "ky < fst (hd b)" by (simp split: if_splits)
    with Cons assms show ?thesis by (intro ksorted_above) (auto simp: hd_concat)
  qed simp
  ultimately show ?thesis by (rule that(1))
next
  case (snoc pre b)
  define post where "post = dropWhile (\<lambda>b. fst (hd b) \<le> ky) bss"
  have bss: "bss = pre @ b # post"
    using takeWhile_dropWhile_id [of "\<lambda>b. fst (hd b) \<le> ky" bss] snoc by (simp add: post_def)
  have b: "fst (hd b) \<le> ky" using snoc set_takeWhileD [of b "\<lambda>b. fst (hd b) \<le> ky" bss] by simp
  have "map_of (concat pre) ky = None"
    using assms b by (intro ksorted_below [of _ "concat (b # post)"]) (auto simp: bss)
  moreover have "map_of (concat post) ky = None"
  proof (cases post)
    case (Cons c cs)
    then have "\<not> fst (hd c) \<le> ky"
      using hd_dropWhile [of "\<lambda>b. fst (hd b) \<le> ky" bss] by (simp add: post_def)
    with Cons assms show ?thesis
      by (intro ksorted_above) (auto simp: bss sorted_wrt_append)
  qed simp
  ultimately have "map_of (concat bss) ky = map_of b ky"
    by (simp add: bss map_add_def split: option.splits)
  with bss snoc show ?thesis
    by (intro that(2) [of pre b post]) (simp_all add: candidate_block_eq Let_def)
qed


lemma index_from_nth:
  "index_from crc off (pre @ b # post) ! length pre =
     \<lparr>ie_first_key = fst (hd b), ie_offset = word_of_nat (off + length (blocks_bytes crc pre)),
       ie_length = word_of_nat (length (block_bytes crc b))\<rparr>"
  by (induction pre arbitrary: off) (simp_all add: add.assoc)

lemma length_index_from [simp]: "length (index_from crc off bss) = length bss"
  by (induction bss arbitrary: off) simp_all

lemma read_block_ok:
  assumes rd: "content s h = sst_image crc (pre @ b # post) bf" "length (content s h) < 2 ^ 63"
    and ok: "blocks_ok crc (pre @ b # post)" and "plan s = []"
  shows "read_block crc h (index_from crc 0 (pre @ b # post) ! length pre) s =
    (Inr (data_codec.encs b), s)"
proof -
  define P where "P = blocks_bytes crc pre"
  define B where "B = block_bytes crc b"
  obtain rest where c: "content s h = P @ B @ rest"
    using rd(1) by (simp add: sst_image_def P_def B_def)
  have "unat (word_of_nat (length P) :: u64) = length P"
    using rd(2) c by (intro unat_len) simp
  moreover have "unat (word_of_nat (length B) :: u32) = length B"
    using ok by (intro unat_u32_of_nat) (simp add: blocks_ok_def B_def)
  moreover have "read_at h (length P) (length B) s = (Inr B, s)"
    using assms(4) subslice_mid [of P _ B _ rest, OF refl refl] by (simp add: read_at_ok c)
  ultimately have "read_at h (unat (word_of_nat (length P) :: u64))
      (unat (word_of_nat (length B) :: u32)) s = (Inr B, s)" by simp
  moreover have "take (length B - 4) B = data_codec.encs b"
    "drop (length B - 4) B = u32_to_le (crc (data_codec.encs b))" "\<not> length B < 4"
    by (simp_all add: B_def block_bytes_def Let_def)
  ultimately show ?thesis
    by (simp add: read_block_def index_from_nth Let_def flip: P_def B_def)
qed

text \<open>The answer of a lookup, from the entry the key is bound to.\<close>

fun sst_lookup_of :: "entry option \<Rightarrow> sst_lookup" where
  "sst_lookup_of None = SstMissing"
| "sst_lookup_of (Some (Put v)) = SstFound v"
| "sst_lookup_of (Some (Vector v)) = SstFound v"
| "sst_lookup_of (Some Tombstone) = SstDeleted"

lemma scan_loop_ok:
  "ksorted ys \<Longrightarrow> \<forall>ke \<in> set ys. fits ke \<Longrightarrow>
   scan_loop (data_codec.encs (xs @ ys)) target (length (data_codec.encs xs)) =
     Inr (sst_lookup_of (map_of ys target))"
proof (induction ys arbitrary: xs)
  case Nil
  then show ?case by (subst scan_loop.simps) simp
next
  case (Cons y ys)
  obtain ky e where y: "y = (ky, e)" by (cases y)
  let ?B = "data_codec.encs (xs @ y # ys)" and ?p = "length (data_codec.encs xs)"
  have "?p < length ?B" using data_codec.at_end [of xs "y # ys"] by simp
  moreover have "entry_fields_at ?B ?p = Inr (entry_view y, length (data_codec.encs (xs @ [y])))"
    using Cons.prems(2) by (intro data_codec.dec_next) simp
  moreover have "scan_loop ?B target (length (data_codec.encs (xs @ [y]))) =
      Inr (sst_lookup_of (map_of ys target))"
    using Cons.IH [of "xs @ [y]"] Cons.prems by simp
  moreover have "map_of ys target = None" if "target < ky"
    using that Cons.prems(1) by (force simp: y map_of_eq_None_iff)
  moreover have "ky < target" if "\<not> target < ky" "ky \<noteq> target"
    using that by simp
  ultimately show ?case
    by (subst scan_loop.simps, cases e)
       (auto simp: y entry_view_def SST_KIND_PUT_def SST_KIND_VECTOR_def SST_KIND_DELETE_def)
qed

lemma sst_get_ok:
  assumes "reads_table crc xxh rd s es" and "plan s = []"
  shows "sst_get crc xxh rd ky s = (Inr (sst_lookup_of (map_of es ky)), s)"
proof -
  obtain bss where img: "content s (sr_file rd) = sst_image crc bss (sr_bloom rd)"
    and es: "concat bss = es" and ok: "blocks_ok crc bss"
    and bf: "bloom_covers xxh (sr_bloom rd) (fst ` set es)"
    and idx: "sr_index rd = index_from crc 0 bss"
    and sorted: "ksorted es" and small: "length (content s (sr_file rd)) < 2 ^ 63"
    using assms(1) by (auto simp: reads_table_def)
  obtain may where may: "(case sr_bloom rd of None \<Rightarrow> Inr True | Some bf \<Rightarrow> bloom_contains xxh ky bf) =
      Inr may" and absent: "\<not> may \<Longrightarrow> map_of es ky = None"
  proof (cases "sr_bloom rd")
    case None
    then show thesis by (intro that [of True]) simp_all
  next
    case (Some f)
    then have "bloom_ok f" and "\<forall>k \<in> fst ` set es. bloom_contains xxh k f = Inr True"
      using bf by (simp_all add: bloom_covers_def bloom_has_def)
    then show thesis
      using Some by (intro that [of "\<forall>n \<in> probes xxh ky f. bit_at (b_bits f) n"])
        (auto simp: bloom_contains_ok map_of_eq_None_iff)
  qed
  have get: "(case candidate_block (sr_index rd) ky of None \<Rightarrow> (Inr SstMissing, s)
      | Some i \<Rightarrow> (case read_block crc (sr_file rd) (sr_index rd ! i) s of
          (Inl e, s) \<Rightarrow> (Inl e, s) | (Inr block, s) \<Rightarrow> (scan_block_for_key block ky, s))) =
      (Inr (sst_lookup_of (map_of es ky)), s)"
  proof -
    have ne: "\<forall>b \<in> set bss. b \<noteq> []" using ok by (simp add: blocks_ok_def)
    show ?thesis
    proof (rule candidate_cases [of bss crc ky])
      show "ksorted (concat bss)" using sorted es by simp
      show "\<forall>b \<in> set bss. b \<noteq> []" by (rule ne)
    next
      assume "candidate_block (index_from crc 0 bss) ky = None" "map_of (concat bss) ky = None"
      then show ?thesis by (simp add: idx es)
    next
      fix pre b post
      assume bss: "bss = pre @ b # post"
        and "candidate_block (index_from crc 0 bss) ky = Some (length pre)"
        and m: "map_of (concat bss) ky = map_of b ky"
      moreover have "read_block crc (sr_file rd) (index_from crc 0 bss ! length pre) s =
          (Inr (data_codec.encs b), s)"
        unfolding bss by (rule read_block_ok) (use img small ok assms(2) bss in simp_all)
      moreover have "ksorted b" "\<forall>ke \<in> set b. fits ke"
        using sorted es ok by (auto simp: bss sorted_wrt_append blocks_ok_def)
      then have "scan_block_for_key (data_codec.encs b) ky = Inr (sst_lookup_of (map_of b ky))"
        using scan_loop_ok [of b "[]" ky]
        by (simp add: scan_block_for_key_def data_codec.encs_simps)
      ultimately show ?thesis by (simp add: idx flip: es)
    qed
  qed
  show ?thesis
    unfolding sst_get_def may by (cases may) (simp_all add: get absent)
qed


lemma reads_table_frame:
  "reads_table crc xxh rd s es \<Longrightarrow> content s' (sr_file rd) = content s (sr_file rd) \<Longrightarrow>
   reads_table crc xxh rd s' es"
  by (simp add: reads_table_def)


section \<open>Properties\<close>

text \<open>C29: A table written is a table read: creating a table, adding sorted entries and finishing
  succeeds, opening the file succeeds, and a lookup of any key in it answers from the map of those
  entries: the value, a deletion, or that the key is missing.\<close>

theorem sst_write_then_get:
  assumes "plan s = []" and "bt_get (names s) path = None" and "ksorted es" and "table_bound es < 2 ^ 62"
    and "\<forall>(ky, e) \<in> set es. ky \<noteq> [] \<and> encoded_entry_size ky e + 4 < 2 ^ 32"
  shows "\<exists>w s1 w' s2 s3 rd. sst_create path n b s = (Inr w, s1) \<and>
    sst_add_all crc xxh es w s1 = (Inr (), w', s2) \<and> sst_finish crc w' s2 = (Inr (), s3) \<and>
    sst_open crc path s3 = (Inr rd, s3) \<and>
    (\<forall>ky. sst_get crc xxh rd ky s3 = (Inr (sst_lookup_of (map_of es ky)), s3))"
proof -
  have "\<forall>(ky, e) \<in> set es. ky \<noteq> [] \<and> fits (ky, e)" using assms(5) by (auto simp: fits_def)
  from sst_write_ok [OF assms(1,2) this assms(3,4), of n b crc xxh] obtain w s1 w' s2 bs where
    wr: "sst_create path n b s = (Inr w, s1)" "sst_add_all crc xxh es w s1 = (Inr (), w', s2)"
    and fin: "sst_finish crc w' s2 = (Inr (), s\<lparr>names := bt_insert (names s) path (next_ino s),
      content := (content s)(next_ino s := bs), stable := (stable s)(next_ino s := bs),
      next_ino := Suc (next_ino s)\<rparr>)" (is "_ = (_, ?s3)")
    and bs: "sst_file crc xxh es bs" by blast
  have "sst_file crc xxh es (content ?s3 (next_ino s))" "bt_get (names ?s3) path = Some (next_ino s)"
    "plan ?s3 = []"
    using bs assms(1) by (simp_all add: bt_get_map_of)
  from sst_open_ok [OF this] obtain rd where rd: "sst_open crc path ?s3 = (Inr rd, ?s3)"
    "reads_table crc xxh rd ?s3 es" by blast
  from sst_get_ok [OF rd(2) \<open>plan ?s3 = []\<close>] wr fin rd(1) show ?thesis by blast
qed

theorem sst_write_then_get_witness:
  "\<exists>w s1 w' s2 s3 rd. sst_create ''t.sst'' 2 10 empty_fs = (Inr w, s1) \<and>
     sst_add_all (\<lambda>_. 7) (\<lambda>_. 9) [([1], Put [5]), ([2], Tombstone)] w s1 = (Inr (), w', s2) \<and>
     sst_finish (\<lambda>_. 7) w' s2 = (Inr (), s3) \<and> sst_open (\<lambda>_. 7) ''t.sst'' s3 = (Inr rd, s3) \<and>
     sst_get (\<lambda>_. 7) (\<lambda>_. 9) rd [1] s3 = (Inr (SstFound [5]), s3) \<and>
     sst_get (\<lambda>_. 7) (\<lambda>_. 9) rd [2] s3 = (Inr SstDeleted, s3) \<and>
     sst_get (\<lambda>_. 7) (\<lambda>_. 9) rd [3] s3 = (Inr SstMissing, s3)"
proof -
  let ?es = "[([1], Put [5]), ([2], Tombstone)] :: (bytes \<times> entry) list"
  have "plan empty_fs = []" "bt_get (names empty_fs) ''t.sst'' = None" by (simp_all add: empty_fs_def)
  moreover have "ksorted ?es" "table_bound ?es < 2 ^ 62"
    "\<forall>(ky, e) \<in> set ?es. ky \<noteq> [] \<and> encoded_entry_size ky e + 4 < 2 ^ 32"
    by (simp_all add: encoded_entry_size_def)
  ultimately obtain w s1 w' s2 s3 rd where r: "sst_create ''t.sst'' 2 10 empty_fs = (Inr w, s1)"
    "sst_add_all (\<lambda>_. 7) (\<lambda>_. 9) ?es w s1 = (Inr (), w', s2)" "sst_finish (\<lambda>_. 7) w' s2 = (Inr (), s3)"
    "sst_open (\<lambda>_. 7) ''t.sst'' s3 = (Inr rd, s3)"
    and get: "\<And>ky. sst_get (\<lambda>_. 7) (\<lambda>_. 9) rd ky s3 = (Inr (sst_lookup_of (map_of ?es ky)), s3)"
    using sst_write_then_get [of empty_fs "''t.sst''" ?es 2 10 "\<lambda>_. 7" "\<lambda>_. 9"] by blast
  from r get [of "[1]"] get [of "[2]"] get [of "[3]"] show ?thesis by auto
qed

text \<open>A file that is shorter than a footer, or does not end in the table magic, is refused as
  corrupt before anything else of it is read.\<close>

theorem sst_open_refuses_foreign_file:
  assumes "plan s = []" and "bt_get (names s) path = Some h" and "length (content s h) < 2 ^ 63"
    and "length (content s h) < 40 \<or> drop (length (content s h) - 8) (content s h) \<noteq> FOOTER_MAGIC"
  shows "\<exists>msg. sst_open crc path s = (Inl (Corruption msg), s)"
proof -
  let ?n = "length (content s h)"
  have n: "unat (word_of_nat ?n :: u64) = ?n" using assms(3) by (rule unat_len)
  show ?thesis
  proof (cases "?n < 40")
    case True
    then have "(word_of_nat ?n :: u64) < word_of_nat FOOTER_LEN" by (simp add: word_less_nat_alt n)
    then show ?thesis using assms(1,2) by (simp add: sst_open_def no_fault Let_def)
  next
    case False
    define F where "F = subslice (?n - 40) ?n (content s h)"
    have "\<not> (word_of_nat ?n :: u64) < word_of_nat FOOTER_LEN" using False by (simp add: word_less_nat_alt n)
    moreover have "unat ((word_of_nat ?n :: u64) - word_of_nat FOOTER_LEN) = ?n - 40"
      using False n by (subst unat_sub) (simp_all add: word_le_nat_alt)
    moreover have "read_at h (?n - 40) 40 s = (Inr F, s)"
      using False assms(1) by (simp add: read_at_ok F_def)
    moreover have "subslice 32 40 F = drop (?n - 8) (content s h)"
      using False by (simp add: F_def subslice_def drop_take)
    then have "open_with_footer crc h fl F s = (Inl (Corruption ''SSTable footer magic mismatch''), s)" for fl
      using assms(4) False by (simp add: open_with_footer_def Let_def)
    ultimately show ?thesis using assms(1,2) by (simp add: sst_open_def no_fault Let_def)
  qed
qed

theorem sst_open_refuses_foreign_file_witness:
  "\<exists>msg. sst_open (\<lambda>_. 7) ''t.sst'' (empty_fs\<lparr>names := [(''t.sst'', 0)], content := \<lambda>_. [1, 2, 3]\<rparr>) =
     (Inl (Corruption msg), empty_fs\<lparr>names := [(''t.sst'', 0)], content := \<lambda>_. [1, 2, 3]\<rparr>)"
  by (rule sst_open_refuses_foreign_file [where h = 0])
     (simp_all add: empty_fs_def)

text \<open>C40: Finding. The bounds of the index are checked with a wrapping sum and the footer has no checksum. A
  footer whose bounds reach past the end of the file, but whose wrapped sum does not, passes the check
  instead of being reported as corruption: the open panics on the allocation of the index block when its length
  exceeds \<^verbatim>\<open>isize::MAX\<close>, and otherwise, given the memory, tries the read and fails with an I/O error. This
  is for every such footer with a non-empty index, at the end of any file.
\<close>

theorem sst_open_wrapping_bounds:
  assumes s: "plan s = []" "bt_get (names s) path = Some h"
    and f: "content s h = pre @ u64_to_le off @ u64_to_le len @ u64_to_le bo @ u64_to_le bl @ FOOTER_MAGIC"
    and size: "length (content s h) \<le> ISIZE_MAX" and len: "len \<noteq> 0"
    and past: "length (content s h) < unat off + unat len + FOOTER_LEN"
    and wraps: "off + len + word_of_nat FOOTER_LEN \<le> word_of_nat (length (content s h))"
    and bloom: "bl = 0 \<or> bo + bl + len + word_of_nat FOOTER_LEN \<le> word_of_nat (length (content s h))"
  shows "sst_open crc path s =
    (Inl (if ISIZE_MAX < unat len then Panic ''capacity overflow'' else Io UnexpectedEof), s)"
proof -
  let ?n = "length (content s h)"
  define F where "F = u64_to_le off @ u64_to_le len @ u64_to_le bo @ u64_to_le bl @ FOOTER_MAGIC"
  have n: "?n = length pre + 40" by (simp add: f)
  have un: "unat (word_of_nat ?n :: u64) = ?n" by (rule unat_len) (use size in \<open>simp add: ISIZE_MAX_def\<close>)
  have fields: "u64_from_le (subslice 0 8 F) = off" "u64_from_le (subslice 8 16 F) = len"
    "u64_from_le (subslice 16 24 F) = bo" "u64_from_le (subslice 24 32 F) = bl" "subslice 32 40 F = FOOTER_MAGIC"
    by (simp_all add: F_def subslice_def)
  have far: "?n < unat off + unat len"
  proof (rule ccontr)
    assume "\<not> ?thesis"
    then have "unat off + unat len \<le> ?n" by simp
    then have "unat (off + len + word_of_nat FOOTER_LEN) = unat off + unat len + 40"
      using size by (simp add: ISIZE_MAX_def unat_word_ariths)
    then show False using wraps past un by (simp add: word_le_nat_alt)
  qed
  have read: "read_vec h off (unat len) s =
      (Inl (if ISIZE_MAX < unat len then Panic ''capacity overflow'' else Io UnexpectedEof), s)"
    using far len s(1) by (simp add: read_vec_def read_at_def no_fault unat_eq_0)
  have "open_with_footer crc h (word_of_nat ?n) F s =
      (Inl (if ISIZE_MAX < unat len then Panic ''capacity overflow'' else Io UnexpectedEof), s)"
    using wraps bloom unfolding open_with_footer_def Let_def fields read by (auto simp: not_less)
  moreover have "\<not> (word_of_nat ?n :: u64) < word_of_nat FOOTER_LEN" using un n by (simp add: word_less_nat_alt)
  moreover have "unat ((word_of_nat ?n :: u64) - word_of_nat FOOTER_LEN) = length pre"
    using un n by (subst unat_sub) (simp_all add: word_le_nat_alt)
  moreover have "read_at h (length pre) 40 s = (Inr F, s)"
    using s(1) n by (simp add: read_at_ok f F_def subslice_def)
  ultimately show ?thesis using s by (simp add: sst_open_def no_fault Let_def)
qed

text \<open>Both ways, with an index length of \<open>2 ^ 64 - 1\<close> and with one of ten bytes.\<close>

theorem sst_open_wrapping_bounds_witness:
  "let t = (\<lambda>off len. empty_fs\<lparr>names := [(''t.sst'', 0)],
        content := \<lambda>_. [1, 2, 3] @ u64_to_le off @ u64_to_le len @ u64_to_le 0 @ u64_to_le 0 @ FOOTER_MAGIC\<rparr>)
   in sst_open (\<lambda>_. 7) ''t.sst'' (t 1 (- 1)) = (Inl (Panic ''capacity overflow''), t 1 (- 1)) \<and>
      sst_open (\<lambda>_. 7) ''t.sst'' (t (- 10) 10) = (Inl (Io UnexpectedEof), t (- 10) 10)"
proof -
  let ?t = "\<lambda>off len. empty_fs\<lparr>names := [(''t.sst'', 0)],
    content := \<lambda>_. [1, 2, 3] @ u64_to_le off @ u64_to_le len @ u64_to_le 0 @ u64_to_le 0 @ FOOTER_MAGIC\<rparr>"
  have big: "unat (- 1 :: u64) = 2 ^ 64 - 1" "unat (- 10 :: u64) = 2 ^ 64 - 10"
    by (simp_all add: unsigned_minus_1_eq_mask mask_eq_exp_minus_1)
  have "sst_open (\<lambda>_. 7) ''t.sst'' (?t 1 (- 1)) =
      (Inl (if ISIZE_MAX < unat (- 1 :: u64) then Panic ''capacity overflow'' else Io UnexpectedEof), ?t 1 (- 1))"
    by (rule sst_open_wrapping_bounds [where h = 0 and pre = "[1, 2, 3]" and off = 1 and bo = 0 and bl = 0])
      (simp_all add: empty_fs_def ISIZE_MAX_def big)
  moreover have "sst_open (\<lambda>_. 7) ''t.sst'' (?t (- 10) 10) =
      (Inl (if ISIZE_MAX < unat (10 :: u64) then Panic ''capacity overflow'' else Io UnexpectedEof), ?t (- 10) 10)"
    by (rule sst_open_wrapping_bounds [where h = 0 and pre = "[1, 2, 3]" and off = "- 10" and bo = 0 and bl = 0])
      (simp_all add: empty_fs_def ISIZE_MAX_def big)
  ultimately show ?thesis by (simp add: Let_def ISIZE_MAX_def big)
qed

end
