(* ===== verification/Sst_Iter.thy ===== *)
theory Sst_Iter
  imports Sst_Reader
begin

text \<open>
  The forward iterator over an SSTable, \<^verbatim>\<open>SsTableIterator\<close> of
  \<^verbatim>\<open>src/src/sstable/reader.rs\<close>. It loads one data block at a time. Over a table the writer
  produced it yields exactly the entries, in order, and then ends.
\<close>

section \<open>The iterator\<close>

record sst_iter =
  it_file :: nat
  it_index :: "index_entry list"
  it_block_idx :: nat
  it_block :: "bytes option"
  it_pos :: nat

definition sst_reader_iter :: "sst_reader \<Rightarrow> sst_iter" where
  "sst_reader_iter rd = \<lparr>it_file = sr_file rd, it_index = sr_index rd, it_block_idx = 0,
     it_block = None, it_pos = 0\<rparr>"

definition load_current_block :: "(bytes \<Rightarrow> u32) \<Rightarrow> sst_iter \<Rightarrow> fs \<Rightarrow> (error + sst_iter) \<times> fs" where
  "load_current_block crc it s =
     (case read_block crc (it_file it) (it_index it ! it_block_idx it) s of
        (Inl e, s) \<Rightarrow> (Inl e, s)
      | (Inr block, s) \<Rightarrow> (Inr (it\<lparr>it_block := Some block, it_pos := 0\<rparr>), s))"

definition decode_entry_at_pos :: "bytes \<Rightarrow> nat \<Rightarrow> error + ((bytes \<times> entry) \<times> nat)" where
  "decode_entry_at_pos block p =
     (case entry_fields_at block p of
        Inl e \<Rightarrow> Inl e
      | Inr ((ky, v, kind), body_end) \<Rightarrow>
          if kind = SST_KIND_PUT then Inr ((ky, Put v), body_end)
          else if kind = SST_KIND_VECTOR then Inr ((ky, Vector v), body_end)
          else if kind = SST_KIND_DELETE then Inr ((ky, Tombstone), body_end)
          else Inl (Corruption ''unknown SSTable entry kind''))"

text \<open>
  One call of \<^verbatim>\<open>next\<close>. The loop repeats when the current block is used up. \<open>iter_in_block\<close>
  is the part of the loop body after a block is present; a \<open>Inr\<close> result continues the loop.
\<close>

definition iter_in_block ::
  "bytes \<Rightarrow> sst_iter \<Rightarrow> ((error + (bytes \<times> entry)) option \<times> sst_iter) + sst_iter" where
  "iter_in_block block it =
     (if it_pos it \<ge> length block
      then Inr (it\<lparr>it_block := None, it_block_idx := it_block_idx it + 1\<rparr>)
      else (case decode_entry_at_pos block (it_pos it) of
              Inl e \<Rightarrow> Inl (Some (Inl e), it)
            | Inr (ke, q) \<Rightarrow> Inl (Some (Inr ke), it\<lparr>it_pos := q\<rparr>)))"

lemma load_current_block_same:
  "load_current_block crc it s = (Inr it', s') \<Longrightarrow>
   it_index it' = it_index it \<and> it_block_idx it' = it_block_idx it \<and> it_block it' \<noteq> None"
  by (auto simp: load_current_block_def split: prod.splits sum.splits)

lemma iter_in_block_continue:
  "iter_in_block block it = Inr it' \<Longrightarrow> it_index it' = it_index it \<and>
     it_block_idx it' = Suc (it_block_idx it) \<and> it_block it' = None"
  by (auto simp: iter_in_block_def split: if_splits sum.splits)

function sst_next ::
  "(bytes \<Rightarrow> u32) \<Rightarrow> sst_iter \<Rightarrow> fs \<Rightarrow> (error + (bytes \<times> entry)) option \<times> sst_iter \<times> fs" where
  "sst_next crc it s =
     (case it_block it of
        Some block \<Rightarrow>
          (case iter_in_block block it of
             Inl (r, it) \<Rightarrow> (r, it, s)
           | Inr it \<Rightarrow> sst_next crc it s)
      | None \<Rightarrow>
          if it_block_idx it \<ge> length (it_index it) then (None, it, s)
          else
            (case load_current_block crc it s of
               (Inl e, s) \<Rightarrow> (Some (Inl e), it\<lparr>it_block_idx := length (it_index it)\<rparr>, s)
             | (Inr it, s) \<Rightarrow>
                 (case iter_in_block (the (it_block it)) it of
                    Inl (r, it) \<Rightarrow> (r, it, s)
                  | Inr it \<Rightarrow> sst_next crc it s)))"
  by pat_completeness auto
termination
proof (relation "measure (\<lambda>(_, it, _).
    2 * (length (it_index it) - it_block_idx it) + (if it_block it = None then 0 else 1))", goal_cases)
  case 1
  show ?case by simp
next
  case 2
  then show ?case by (auto dest!: load_current_block_same [OF sym] iter_in_block_continue)
next
  case 3
  then show ?case by (auto dest!: iter_in_block_continue)
qed

declare sst_next.simps [simp del]

section \<open>What the iterator yields\<close>

text \<open>\<open>iter_on crc it s es\<close>: the iterator still has to yield the entries \<open>es\<close>.\<close>

definition iter_on :: "(bytes \<Rightarrow> u32) \<Rightarrow> sst_iter \<Rightarrow> fs \<Rightarrow> (bytes \<times> entry) list \<Rightarrow> bool" where
  "iter_on crc it s es \<longleftrightarrow>
     plan s = [] \<and>
     (\<exists>bss bf pre post. content s (it_file it) = sst_image crc bss bf \<and>
        length (content s (it_file it)) < 2 ^ 63 \<and> blocks_ok crc bss \<and>
        it_index it = index_from crc 0 bss \<and> it_block_idx it = length pre \<and>
        (it_block it = None \<and> bss = pre @ post \<and> es = concat post \<or>
         (\<exists>xs ys. it_block it = Some (data_codec.encs (xs @ ys)) \<and>
            it_pos it = length (data_codec.encs xs) \<and> bss = pre @ (xs @ ys) # post \<and>
            es = ys @ concat post)))"

lemma sst_reader_iter_on:
  assumes "reads_table crc xxh rd s es" and "plan s = []"
  shows "iter_on crc (sst_reader_iter rd) s es"
proof -
  obtain bss where "content s (sr_file rd) = sst_image crc bss (sr_bloom rd)" "concat bss = es"
    "blocks_ok crc bss" "sr_index rd = index_from crc 0 bss" "length (content s (sr_file rd)) < 2 ^ 63"
    using assms(1) by (auto simp: reads_table_def)
  with assms(2) show ?thesis
    unfolding iter_on_def
    by (intro conjI exI [of _ bss] exI [of _ "sr_bloom rd"] exI [of _ "[]"])
      (auto simp: sst_reader_iter_def)
qed

lemma decode_entry_at_pos_ok:
  assumes "fits (ky, e)"
  shows "decode_entry_at_pos (data_codec.encs (xs @ (ky, e) # ys)) (length (data_codec.encs xs)) =
    Inr ((ky, e), length (data_codec.encs (xs @ [(ky, e)])))"
  using data_codec.dec_next [OF assms, of xs ys]
  by (cases e) (simp_all add: decode_entry_at_pos_def entry_view_def SST_KIND_PUT_def
      SST_KIND_VECTOR_def SST_KIND_DELETE_def)

text \<open>Inside a block: the next entry of the block, or the end of the block.\<close>

lemma iter_in_block_entry:
  assumes "fits ke" and "it_pos it = length (data_codec.encs xs)"
  shows "iter_in_block (data_codec.encs (xs @ ke # ys)) it =
    Inl (Some (Inr ke), it\<lparr>it_pos := length (data_codec.encs (xs @ [ke]))\<rparr>)"
  using assms data_codec.at_end [of xs "ke # ys"] decode_entry_at_pos_ok [of "fst ke" "snd ke" xs ys]
  by (simp add: iter_in_block_def not_le)

lemma iter_in_block_end:
  "it_pos it = length (data_codec.encs xs) \<Longrightarrow>
   iter_in_block (data_codec.encs xs) it =
     Inr (it\<lparr>it_block := None, it_block_idx := it_block_idx it + 1\<rparr>)"
  by (simp add: iter_in_block_def)


text \<open>One step of the iterator: the head of what remains, or the end.\<close>

definition yields ::
  "(bytes \<Rightarrow> u32) \<Rightarrow> sst_iter \<Rightarrow> fs \<Rightarrow> (bytes \<times> entry) list \<Rightarrow>
     (error + (bytes \<times> entry)) option \<times> sst_iter \<times> fs \<Rightarrow> bool" where
  "yields crc it s es r \<longleftrightarrow>
     (\<exists>it'. it_file it' = it_file it \<and>
        (case es of [] \<Rightarrow> r = (None, it', s) \<and> iter_on crc it' s []
         | ke # es' \<Rightarrow> r = (Some (Inr ke), it', s) \<and> iter_on crc it' s es'))"

lemma yields_file: "it_file it' = it_file it \<Longrightarrow> yields crc it' s es r \<Longrightarrow> yields crc it s es r"
  by (simp add: yields_def)

lemma sst_next_between:
  assumes img: "content s (it_file it) = sst_image crc (pre @ post) bf"
      "length (content s (it_file it)) < 2 ^ 63" "blocks_ok crc (pre @ post)"
    and it: "it_index it = index_from crc 0 (pre @ post)" "it_block_idx it = length pre"
      "it_block it = None"
    and "plan s = []"
  shows "yields crc it s (concat post) (sst_next crc it s)"
proof (cases post)
  case Nil
  have "sst_next crc it s = (None, it, s)"
    by (subst sst_next.simps) (simp add: it Nil)
  moreover have "iter_on crc it s []"
    unfolding iter_on_def using assms Nil
    by (intro conjI exI [of _ "pre @ post"] exI [of _ bf] exI [of _ pre] exI [of _ "[]"] disjI1) auto
  ultimately show ?thesis by (simp add: yields_def Nil)
next
  case (Cons b post')
  then have "b \<noteq> []" using img(3) by (simp add: blocks_ok_def)
  then obtain ke ys where b: "b = ke # ys" by (cases b) auto
  have fit: "fits ke" using img(3) by (simp add: Cons b blocks_ok_def)
  have load: "read_block crc (it_file it) (it_index it ! it_block_idx it) s = (Inr (data_codec.encs b), s)"
    unfolding it Cons by (rule read_block_ok) (use assms Cons in simp_all)
  define it1 where "it1 = it\<lparr>it_block := Some (data_codec.encs b), it_pos := 0\<rparr>"
  define it2 where "it2 = it1\<lparr>it_pos := length (data_codec.encs ([] @ [ke]))\<rparr>"
  have "load_current_block crc it s = (Inr it1, s)"
    by (simp add: load_current_block_def load it1_def)
  moreover have "iter_in_block (data_codec.encs b) it1 = Inl (Some (Inr ke), it2)"
    using iter_in_block_entry [OF fit, of it1 "[]" ys]
    by (simp add: it1_def it2_def b data_codec.encs_simps)
  ultimately have "sst_next crc it s = (Some (Inr ke), it2, s)"
    by (subst sst_next.simps) (simp add: it Cons it1_def)
  moreover have "iter_on crc it2 s (ys @ concat post')"
    unfolding iter_on_def using assms
    by (intro conjI exI [of _ "pre @ post"] exI [of _ bf] exI [of _ pre] exI [of _ "post'"] disjI2
        exI [of _ "[ke]"] exI [of _ ys])
      (simp_all add: it1_def it2_def Cons b)
  ultimately show ?thesis
    unfolding yields_def by (intro exI [of _ it2]) (simp add: Cons b it1_def it2_def)
qed

lemma sst_next_ok:
  assumes "iter_on crc it s es"
  shows "yields crc it s es (sst_next crc it s)"
proof -
  obtain bss bf pre post where img: "content s (it_file it) = sst_image crc bss bf"
      "length (content s (it_file it)) < 2 ^ 63" "blocks_ok crc bss"
    and it: "it_index it = index_from crc 0 bss" "it_block_idx it = length pre"
    and at: "it_block it = None \<and> bss = pre @ post \<and> es = concat post \<or>
         (\<exists>xs ys. it_block it = Some (data_codec.encs (xs @ ys)) \<and>
            it_pos it = length (data_codec.encs xs) \<and> bss = pre @ (xs @ ys) # post \<and>
            es = ys @ concat post)"
    and plan: "plan s = []"
    using assms unfolding iter_on_def by blast
  from at show ?thesis
  proof (elim disjE exE conjE)
    assume "it_block it = None" "bss = pre @ post" "es = concat post"
    with sst_next_between [of s it crc pre post bf] img it plan show ?thesis by simp
  next
    fix xs ys
    assume blk: "it_block it = Some (data_codec.encs (xs @ ys))" "it_pos it = length (data_codec.encs xs)"
      and bss: "bss = pre @ (xs @ ys) # post" and es: "es = ys @ concat post"
    show ?thesis
    proof (cases ys)
      case Nil
      define it1 where "it1 = it\<lparr>it_block := None, it_block_idx := it_block_idx it + 1\<rparr>"
      have "sst_next crc it s = sst_next crc it1 s"
        by (subst sst_next.simps) (simp add: blk Nil iter_in_block_end it1_def)
      moreover have "yields crc it1 s (concat post) (sst_next crc it1 s)"
        using sst_next_between [of s it1 crc "pre @ [xs]" post bf] img it plan bss Nil
        by (simp add: it1_def)
      ultimately show ?thesis
        using yields_file [of it1 it] by (simp add: it1_def es Nil)
    next
      case (Cons ke ys')
      have "fits ke" using img(3) by (simp add: bss Cons blocks_ok_def)
      define it1 where "it1 = it\<lparr>it_pos := length (data_codec.encs (xs @ [ke]))\<rparr>"
      have "sst_next crc it s = (Some (Inr ke), it1, s)"
        by (subst sst_next.simps)
          (simp add: blk Cons iter_in_block_entry [OF \<open>fits ke\<close> blk(2)] it1_def)
      moreover have "iter_on crc it1 s (ys' @ concat post)"
        unfolding iter_on_def using img it plan bss Cons blk
        by (intro conjI exI [of _ bss] exI [of _ bf] exI [of _ pre] exI [of _ post] disjI2
            exI [of _ "xs @ [ke]"] exI [of _ ys']) (simp_all add: it1_def)
      ultimately show ?thesis
        unfolding yields_def by (intro exI [of _ it1]) (simp add: es Cons it1_def)
    qed
  qed
qed

text \<open>Only the table's own file matters to an iterator.\<close>

lemma iter_on_frame:
  "iter_on crc it s es \<Longrightarrow> plan s' = [] \<Longrightarrow> content s' (it_file it) = content s (it_file it) \<Longrightarrow>
   iter_on crc it s' es"
  by (simp add: iter_on_def)


section \<open>Properties\<close>

text \<open>The results of \<open>n\<close> consecutive calls of \<^verbatim>\<open>next\<close>.\<close>

fun sst_next_n :: "(bytes \<Rightarrow> u32) \<Rightarrow> nat \<Rightarrow> sst_iter \<Rightarrow> fs \<Rightarrow> (error + (bytes \<times> entry)) option list" where
  "sst_next_n crc 0 it s = []"
| "sst_next_n crc (Suc n) it s =
     (case sst_next crc it s of (r, it', s') \<Rightarrow> r # sst_next_n crc n it' s')"

lemma sst_next_n_end: "iter_on crc it s [] \<Longrightarrow> sst_next_n crc k it s = replicate k None"
proof (induction k arbitrary: it)
  case 0
  then show ?case by simp
next
  case (Suc k)
  from sst_next_ok [OF Suc.prems] obtain it' where "sst_next crc it s = (None, it', s)" "iter_on crc it' s []"
    by (auto simp: yields_def)
  with Suc.IH show ?case by simp
qed

lemma sst_next_n_all:
  "iter_on crc it s es \<Longrightarrow>
   sst_next_n crc (length es + k) it s = map (\<lambda>ke. Some (Inr ke)) es @ replicate k None"
proof (induction es arbitrary: it)
  case Nil
  then show ?case using sst_next_n_end by simp
next
  case (Cons ke es)
  from sst_next_ok [OF Cons.prems] obtain it' where
    "sst_next crc it s = (Some (Inr ke), it', s)" "iter_on crc it' s es"
    by (auto simp: yields_def)
  with Cons.IH show ?case by simp
qed

text \<open>C30: Iterating over an opened table yields exactly its entries, in key order and with their
  kinds, across all of its blocks, and then ends for good.\<close>

theorem sst_iteration_complete:
  assumes "sst_file crc xxh es (content s h)" and "bt_get (names s) path = Some h" and "plan s = []"
  shows "\<exists>rd. sst_open crc path s = (Inr rd, s) \<and>
    sst_next_n crc (length es + k) (sst_reader_iter rd) s = map (\<lambda>ke. Some (Inr ke)) es @ replicate k None"
proof -
  from sst_open_ok [OF assms] obtain rd where "sst_open crc path s = (Inr rd, s)" "reads_table crc xxh rd s es"
    by blast
  with sst_next_n_all [OF sst_reader_iter_on [OF this(2) assms(3)]] show ?thesis by blast
qed

theorem sst_iteration_complete_witness:
  "\<exists>s rd. sst_open (\<lambda>_. 7) ''t.sst'' s = (Inr rd, s) \<and>
     sst_next_n (\<lambda>_. 7) 3 (sst_reader_iter rd) s = [Some (Inr ([1], Put [5])), Some (Inr ([2], Tombstone)), None]"
proof -
  let ?es = "[([1], Put [5]), ([2], Tombstone)] :: (bytes \<times> entry) list"
  have "plan empty_fs = []" "bt_get (names empty_fs) ''t.sst'' = None" by (simp_all add: empty_fs_def)
  moreover have "ksorted ?es" "table_bound ?es < 2 ^ 62" "\<forall>(ky, e) \<in> set ?es. ky \<noteq> [] \<and> fits (ky, e)"
    by (simp_all add: encoded_entry_size_def fits_def)
  ultimately obtain bs where bs: "sst_file (\<lambda>_. 7) (\<lambda>_. 9) ?es bs"
    using sst_write_ok [of empty_fs "''t.sst''" ?es] by blast
  let ?s = "empty_fs\<lparr>names := [(''t.sst'', 0)], content := \<lambda>_. bs\<rparr>"
  have "sst_file (\<lambda>_. 7) (\<lambda>_. 9) ?es (content ?s 0)" "bt_get (names ?s) ''t.sst'' = Some 0" "plan ?s = []"
    using bs by (simp_all add: empty_fs_def)
  from sst_iteration_complete [OF this, of 1] show ?thesis
    by (intro exI [of _ ?s]) (simp add: numeral_eq_Suc)
qed

text \<open>A block that cannot be loaded ends the iteration: the error is returned once, and every
  later call, whatever the file system then does, returns the end.\<close>

theorem sst_iteration_stops_after_load_error:
  assumes "it_block it = None" and "it_block_idx it < length (it_index it)"
    and "load_current_block crc it s = (Inl e, s')"
  shows "\<exists>it'. sst_next crc it s = (Some (Inl e), it', s') \<and> (\<forall>s. sst_next crc it' s = (None, it', s))"
  using assms by (subst sst_next.simps) (auto simp: sst_next.simps)

theorem sst_iteration_stops_after_load_error_witness:
  "let it = \<lparr>it_file = 0, it_index = [\<lparr>ie_first_key = [1], ie_offset = 0, ie_length = 9\<rparr>], it_block_idx = 0,
        it_block = None, it_pos = 0\<rparr>
   in \<exists>it'. sst_next (\<lambda>_. 7) it empty_fs = (Some (Inl (Io UnexpectedEof)), it', empty_fs)"
  unfolding Let_def
  using sst_iteration_stops_after_load_error [of
      "\<lparr>it_file = 0, it_index = [\<lparr>ie_first_key = [1], ie_offset = 0, ie_length = 9\<rparr>], it_block_idx = 0,
        it_block = None, it_pos = 0\<rparr>" "\<lambda>_. 7" empty_fs "Io UnexpectedEof" empty_fs]
  by (auto simp: load_current_block_def read_block_def read_at_def take_outcome.simps empty_fs_def)

end
