(* ===== verification/Heap.thy ===== *)
theory Heap
  imports Prelude "HOL-Library.Multiset"
begin

text \<open>
  The binary heap of the standard library, as its documentation states it: \<^verbatim>\<open>pop\<close> and \<^verbatim>\<open>peek\<close>
  give a greatest element, and the order of \<^verbatim>\<open>into_vec\<close> is arbitrary. A heap is the list of its
  elements; of several greatest elements the first is taken. \<open>higher x y\<close> says that \<open>x\<close> is
  strictly greater than \<open>y\<close>. The merge and the two heaps of a graph search are instances.
\<close>

section \<open>Operations\<close>

fun heap_max :: "('a \<Rightarrow> 'a \<Rightarrow> bool) \<Rightarrow> 'a \<Rightarrow> 'a list \<Rightarrow> 'a" where
  "heap_max higher x [] = x"
| "heap_max higher x (y # ys) = heap_max higher (if higher y x then y else x) ys"

fun heap_peek :: "('a \<Rightarrow> 'a \<Rightarrow> bool) \<Rightarrow> 'a list \<Rightarrow> 'a option" where
  "heap_peek higher [] = None"
| "heap_peek higher (x # xs) = Some (heap_max higher x xs)"

fun heap_pop :: "('a \<Rightarrow> 'a \<Rightarrow> bool) \<Rightarrow> 'a list \<Rightarrow> ('a \<times> 'a list) option" where
  "heap_pop higher [] = None"
| "heap_pop higher (x # xs) = (let t = heap_max higher x xs in Some (t, remove1 t (x # xs)))"

lemma heap_max_in: "heap_max higher x xs \<in> set (x # xs)"
  by (induction higher x xs rule: heap_max.induct) auto

lemma heap_peek_in: "heap_peek higher xs = Some x \<Longrightarrow> x \<in> set xs"
  by (cases xs) (use heap_max_in [of higher] in \<open>force+\<close>)

lemma heap_peek_None [simp]: "heap_peek higher xs = None \<longleftrightarrow> xs = []"
  by (cases xs) auto

lemma heap_pop_Some:
  "heap_pop higher xs = Some (t, rest) \<Longrightarrow>
   heap_peek higher xs = Some t \<and> t \<in> set xs \<and> rest = remove1 t xs"
proof (cases xs)
  case (Cons x ys)
  assume "heap_pop higher xs = Some (t, rest)"
  then have "t = heap_max higher x ys" "rest = remove1 t xs" by (auto simp: Cons Let_def)
  with heap_max_in [of higher x ys] show ?thesis by (simp add: Cons)
qed simp

lemma heap_pop_None [simp]: "heap_pop higher xs = None \<longleftrightarrow> xs = []"
  by (cases xs) (auto simp: Let_def)

lemma heap_pop_mset: "heap_pop higher xs = Some (t, rest) \<Longrightarrow> mset xs = add_mset t (mset rest)"
  using heap_pop_Some by fastforce

lemma heap_pop_length: "heap_pop higher xs = Some (t, rest) \<Longrightarrow> length xs = Suc (length rest)"
  using heap_pop_mset [of higher xs t rest] by (metis size_add_mset size_mset)

section \<open>The order of a heap\<close>

text \<open>
  What a heap needs of its order: that it is a strict weak order on the elements it holds. Elements
  outside \<open>ok\<close> (such as candidates at a distance that is not a number) are not promised anything.
\<close>

locale heap_order =
  fixes higher :: "'a \<Rightarrow> 'a \<Rightarrow> bool" and ok :: "'a \<Rightarrow> bool"
  assumes higher_asym: "ok x \<Longrightarrow> ok y \<Longrightarrow> higher x y \<Longrightarrow> \<not> higher y x"
    and not_higher_trans:
      "ok x \<Longrightarrow> ok y \<Longrightarrow> ok z \<Longrightarrow> \<not> higher x y \<Longrightarrow> \<not> higher y z \<Longrightarrow> \<not> higher x z"
begin

lemma max_top: "\<forall>z \<in> set (x # xs). ok z \<Longrightarrow> y \<in> set (x # xs) \<Longrightarrow> \<not> higher y (heap_max higher x xs)"
proof (induction xs arbitrary: x y)
  case Nil
  then show ?case using higher_asym by auto
next
  case (Cons z zs)
  let ?m = "if higher z x then z else x"
  have ok: "ok x" "ok z" "ok ?m" "\<forall>u \<in> set (?m # zs). ok u" using Cons.prems(1) by auto
  have top: "\<not> higher u (heap_max higher ?m zs)" if "u \<in> set (?m # zs)" for u
    using Cons.IH [OF ok(4) that] .
  have okt: "ok (heap_max higher ?m zs)" using heap_max_in [of higher ?m zs] ok(4) by blast
  have "\<not> higher u (heap_max higher ?m zs)" if u: "u = x \<or> u = z" for u
  proof (rule not_higher_trans [OF _ ok(3) okt])
    show "ok u" using u ok by auto
    show "\<not> higher u ?m"
      using u higher_asym [OF ok(2,1)] higher_asym [OF ok(1,1)] higher_asym [OF ok(2,2)]
      by (cases "higher z x") auto
    show "\<not> higher ?m (heap_max higher ?m zs)" by (rule top) simp
  qed
  with top Cons.prems(2) show ?case by auto
qed

lemma peek_top: "heap_peek higher xs = Some t \<Longrightarrow> \<forall>z \<in> set xs. ok z \<Longrightarrow> y \<in> set xs \<Longrightarrow> \<not> higher y t"
  using max_top by (cases xs) auto

lemma pop_top: "heap_pop higher xs = Some (t, rest) \<Longrightarrow> \<forall>z \<in> set xs. ok z \<Longrightarrow> y \<in> set xs \<Longrightarrow> \<not> higher y t"
  using heap_pop_Some peek_top by metis

lemma pop_cases:
  assumes "\<forall>z \<in> set xs. ok z"
  obtains "xs = []" "heap_pop higher xs = None"
  | t where "heap_pop higher xs = Some (t, remove1 t xs)" "t \<in> set xs" "\<And>y. y \<in> set xs \<Longrightarrow> \<not> higher y t"
proof (cases "heap_pop higher xs")
  case None
  then show ?thesis using that(1) by simp
next
  case (Some p)
  then obtain t rest where p: "heap_pop higher xs = Some (t, rest)" by (cases p) auto
  from heap_pop_Some [OF this] pop_top [OF this assms] show ?thesis using that(2) p by blast
qed

end

end
