(* ===== verification/Merge.thy ===== *)
theory Merge
  imports Sst_Iter Heap
begin

text \<open>
  The k-way merge of \<^verbatim>\<open>src/src/sstable/merge.rs\<close>. The sources are trait objects, so the
  definitions take the source's \<^verbatim>\<open>next\<close> as the argument \<open>nxt\<close>; what the merge relies on is
  the locale \<open>entry_source\<close>, which the SSTable iterator is shown to satisfy. The binary heap is
  a list from which the greatest node is taken. Draining stale duplicates ends only if the
  sources do, so the loop is a partial function whose value \<open>None\<close> is not returning; the
  lemmas show that it returns.
\<close>

section \<open>The heap\<close>

record heap_entry =
  he_key :: bytes
  he_entry :: entry
  he_source :: nat
  he_seq :: u64

text \<open>\<^verbatim>\<open>cmp\<close>: \<open>x\<close> is strictly greater than \<open>y\<close> when its key is smaller, or its sequence is larger.\<close>

definition he_above :: "heap_entry \<Rightarrow> heap_entry \<Rightarrow> bool" where
  "he_above x y \<longleftrightarrow>
     (if he_key y = he_key x then he_seq x > he_seq y else he_key y > he_key x)"

section \<open>The iterator\<close>

type_synonym entry_item = "(error + (bytes \<times> entry)) option"

record 'it merging =
  mg_sources :: "'it list"
  mg_heap :: "heap_entry list"
  mg_seqs :: "u64 list"
  mg_pending :: "error option"
  mg_poisoned :: bool

fun merge_prime ::
  "('it \<Rightarrow> fs \<Rightarrow> entry_item \<times> 'it \<times> fs) \<Rightarrow> (u64 \<times> 'it) list \<Rightarrow> 'it merging \<Rightarrow> fs \<Rightarrow>
     (error + 'it merging) \<times> fs" where
  "merge_prime nxt [] mg s = (Inr mg, s)"
| "merge_prime nxt ((q, it) # srcs) mg s =
     (let idx = length (mg_sources mg);
          mg = mg\<lparr>mg_seqs := mg_seqs mg @ [q]\<rparr>
      in case nxt it s of
           (None, it, s) \<Rightarrow> merge_prime nxt srcs (mg\<lparr>mg_sources := mg_sources mg @ [it]\<rparr>) s
         | (Some (Inl e), it, s) \<Rightarrow> (Inl e, s)
         | (Some (Inr (ky, e)), it, s) \<Rightarrow>
             merge_prime nxt srcs
               (mg\<lparr>mg_heap := \<lparr>he_key = ky, he_entry = e, he_source = idx, he_seq = mg_seqs mg ! idx\<rparr>
                     # mg_heap mg,
                   mg_sources := mg_sources mg @ [it]\<rparr>) s)"

definition merge_new ::
  "('it \<Rightarrow> fs \<Rightarrow> entry_item \<times> 'it \<times> fs) \<Rightarrow> (u64 \<times> 'it) list \<Rightarrow> fs \<Rightarrow>
     (error + 'it merging) \<times> fs" where
  "merge_new nxt srcs s =
     merge_prime nxt srcs
       \<lparr>mg_sources = [], mg_heap = [], mg_seqs = [], mg_pending = None, mg_poisoned = False\<rparr> s"

definition merge_refill ::
  "('it \<Rightarrow> fs \<Rightarrow> entry_item \<times> 'it \<times> fs) \<Rightarrow> nat \<Rightarrow> 'it merging \<Rightarrow> fs \<Rightarrow>
     (error + unit) \<times> 'it merging \<times> fs" where
  "merge_refill nxt idx mg s =
     (case nxt (mg_sources mg ! idx) s of
        (r, it, s) \<Rightarrow>
          (let mg = mg\<lparr>mg_sources := (mg_sources mg)[idx := it]\<rparr>
           in case r of
                None \<Rightarrow> (Inr (), mg, s)
              | Some (Inl e) \<Rightarrow> (Inl e, mg, s)
              | Some (Inr (ky, e)) \<Rightarrow>
                  (Inr (), mg\<lparr>mg_heap := \<lparr>he_key = ky, he_entry = e, he_source = idx,
                     he_seq = mg_seqs mg ! idx\<rparr> # mg_heap mg\<rparr>, s)))"

definition queue_error :: "error \<Rightarrow> 'it merging \<Rightarrow> 'it merging" where
  "queue_error e mg = (if mg_pending mg = None then mg\<lparr>mg_pending := Some e\<rparr> else mg)"

partial_function (option) merge_drain ::
  "('it \<Rightarrow> fs \<Rightarrow> entry_item \<times> 'it \<times> fs) \<Rightarrow> bytes \<Rightarrow> 'it merging \<Rightarrow> fs \<Rightarrow> ('it merging \<times> fs) option"
where
  "merge_drain nxt ky mg s =
     (case heap_pop he_above (mg_heap mg) of
        None \<Rightarrow> Some (mg, s)
      | Some (tp, rest) \<Rightarrow>
          if he_key tp \<noteq> ky then Some (mg, s)
          else
            (case merge_refill nxt (he_source tp) (mg\<lparr>mg_heap := rest\<rparr>) s of
               (Inl e, mg, s) \<Rightarrow> Some (queue_error e mg, s)
             | (Inr _, mg, s) \<Rightarrow> merge_drain nxt ky mg s))"

definition merge_next ::
  "('it \<Rightarrow> fs \<Rightarrow> entry_item \<times> 'it \<times> fs) \<Rightarrow> 'it merging \<Rightarrow> fs \<Rightarrow>
     (entry_item \<times> 'it merging \<times> fs) option" where
  "merge_next nxt mg s =
     (if mg_poisoned mg then Some (None, mg, s)
      else
        (case mg_pending mg of
           Some e \<Rightarrow> Some (Some (Inl e), mg\<lparr>mg_pending := None, mg_poisoned := True\<rparr>, s)
         | None \<Rightarrow>
             (case heap_pop he_above (mg_heap mg) of
                None \<Rightarrow> Some (None, mg, s)
              | Some (winner, rest) \<Rightarrow>
                  (case merge_drain nxt (he_key winner) (mg\<lparr>mg_heap := rest\<rparr>) s of
                     None \<Rightarrow> None
                   | Some (mg, s) \<Rightarrow>
                       (case merge_refill nxt (he_source winner) mg s of
                          (r, mg, s) \<Rightarrow>
                            (let mg = (case r of Inl e \<Rightarrow> queue_error e mg | Inr _ \<Rightarrow> mg)
                             in Some (Some (Inr (he_key winner, he_entry winner)), mg, s)))))))"

section \<open>What the merge relies on\<close>

text \<open>
  A source in state \<open>it\<close> still has to yield a list; a step yields its head, and only the file
  it reads matters.
\<close>

locale entry_source =
  fixes nxt :: "'it \<Rightarrow> fs \<Rightarrow> entry_item \<times> 'it \<times> fs"
    and on :: "'it \<Rightarrow> fs \<Rightarrow> (bytes \<times> entry) list \<Rightarrow> bool"
    and reads :: "'it \<Rightarrow> nat"
  assumes next_end: "on it s [] \<Longrightarrow> \<exists>it'. nxt it s = (None, it', s) \<and> on it' s [] \<and> reads it' = reads it"
    and next_entry: "on it s (x # xs) \<Longrightarrow>
      \<exists>it'. nxt it s = (Some (Inr x), it', s) \<and> on it' s xs \<and> reads it' = reads it"
    and on_frame: "on it s xs \<Longrightarrow> plan s' = [] \<Longrightarrow> content s' (reads it) = content s (reads it) \<Longrightarrow>
      on it s' xs"

interpretation sst_source: entry_source "sst_next crc" "iter_on crc" it_file for crc
proof
  fix it s
  assume "iter_on crc it s []"
  from sst_next_ok [OF this]
  show "\<exists>it'. sst_next crc it s = (None, it', s) \<and> iter_on crc it' s [] \<and> it_file it' = it_file it"
    by (auto simp: yields_def)
next
  fix it s x xs
  assume "iter_on crc it s (x # xs)"
  from sst_next_ok [OF this]
  show "\<exists>it'. sst_next crc it s = (Some (Inr x), it', s) \<and> iter_on crc it' s xs \<and>
      it_file it' = it_file it"
    by (auto simp: yields_def)
qed (rule iter_on_frame)

section \<open>The greatest node\<close>

interpretation merge_heap: heap_order he_above "\<lambda>_. True"
  by unfold_locales (auto simp: he_above_def split: if_splits)

lemmas merge_pop_cases = merge_heap.pop_cases [OF ballI, OF TrueI]

section \<open>The specification: newest wins\<close>

text \<open>
  The result of merging sources: sorted by key, and each key bound to the entry of the source
  with the highest sequence number that holds it.
\<close>

definition newest_at :: "(u64 \<times> (bytes \<times> entry) list) list \<Rightarrow> bytes \<Rightarrow> entry \<Rightarrow> bool" where
  "newest_at ss ky e \<longleftrightarrow>
     (\<exists>(q, xs) \<in> set ss. map_of xs ky = Some e \<and>
        (\<forall>(q', xs') \<in> set ss. map_of xs' ky \<noteq> None \<longrightarrow> q' \<le> q))"

definition merged :: "(u64 \<times> (bytes \<times> entry) list) list \<Rightarrow> (bytes \<times> entry) list \<Rightarrow> bool" where
  "merged ss es \<longleftrightarrow> ksorted es \<and> (\<forall>ky e. map_of es ky = Some e \<longleftrightarrow> newest_at ss ky e)"

fun drop_key :: "bytes \<Rightarrow> (bytes \<times> entry) list \<Rightarrow> (bytes \<times> entry) list" where
  "drop_key ky [] = []"
| "drop_key ky ((a, e) # xs) = (if a = ky then xs else (a, e) # xs)"

lemma drop_key_sorted: "ksorted xs \<Longrightarrow> ksorted (drop_key ky xs)"
  by (cases xs) auto

lemma set_drop_key: "set (drop_key ky xs) \<subseteq> set xs"
  by (cases xs) (auto split: if_splits)

lemma map_of_drop_key:
  assumes "ksorted xs" and "\<forall>x \<in> set xs. ky \<le> fst x"
  shows "map_of (drop_key ky xs) = (map_of xs)(ky := None)"
proof (cases xs)
  case (Cons x xs')
  obtain a e where x: "x = (a, e)" by (cases x)
  have above: "\<forall>y \<in> set xs'. a < fst y" using assms(1) by (auto simp: Cons x)
  have "map_of xs ky = None" if "a \<noteq> ky"
    using that assms(2) above unfolding map_of_eq_None_iff Cons x by fastforce
  moreover have "map_of xs' a = None" using above by (force simp: map_of_eq_None_iff)
  ultimately show ?thesis by (auto simp: Cons x fun_eq_iff)
qed simp

lemma drop_key_above: "ksorted ((ky, e) # xs) \<Longrightarrow> drop_key ky xs = xs"
  by (cases xs) auto

lemma drop_key_id: "xs = [] \<or> fst (hd xs) \<noteq> ky \<Longrightarrow> drop_key ky xs = xs"
  by (cases xs) auto

text \<open>A key at which a sorted list that starts no lower is bound is its first key.\<close>

lemma bound_is_head:
  assumes "ksorted xs" and "xs \<noteq> [] \<longrightarrow> ky \<le> fst (hd xs)" and "map_of xs ky = Some e"
  shows "xs = (ky, e) # tl xs"
proof (cases xs)
  case (Cons x xs')
  obtain a e' where x: "x = (a, e')" by (cases x)
  have "ky \<in> fst ` set xs" using assms(3) by (metis domI dom_map_of_conv_image_fst)
  then have "ky = a" using assms(1,2) by (fastforce simp: Cons x)
  with assms(3) show ?thesis by (simp add: Cons x)
qed (use assms in simp)

lemma bex_zip:
  "length qs = length xs \<Longrightarrow> (\<exists>p \<in> set (zip qs xs). P p) \<longleftrightarrow> (\<exists>i < length xs. P (qs ! i, xs ! i))"
  by (auto simp: set_zip)

lemma ball_zip:
  "length qs = length xs \<Longrightarrow> (\<forall>p \<in> set (zip qs xs). P p) \<longleftrightarrow> (\<forall>i < length xs. P (qs ! i, xs ! i))"
  by (auto simp: set_zip)

lemma newest_at_zip:
  "length qs = length full \<Longrightarrow> newest_at (zip qs full) k v \<longleftrightarrow>
     (\<exists>i < length full. map_of (full ! i) k = Some v \<and>
        (\<forall>j < length full. map_of (full ! j) k \<noteq> None \<longrightarrow> qs ! j \<le> qs ! i))"
  unfolding newest_at_def by (simp only: bex_zip ball_zip prod.case)

lemma merged_step:
  assumes m: "merged (zip qs full) es" and q: "distinct qs" "length qs = length full"
    and sorted: "\<forall>xs \<in> set full. ksorted xs"
    and w: "w < length full" "full ! w = (ky, e) # r"
    and least: "\<forall>i < length full. full ! i \<noteq> [] \<longrightarrow> ky \<le> fst (hd (full ! i))"
    and new: "\<forall>i < length full. full ! i \<noteq> [] \<longrightarrow> fst (hd (full ! i)) = ky \<longrightarrow> qs ! i \<le> qs ! w"
  shows "\<exists>es'. es = (ky, e) # es' \<and> merged (zip qs (map (drop_key ky) full)) es'"
proof -
  have low: "\<forall>x \<in> set (full ! i). ky \<le> fst x" if "i < length full" for i
  proof (cases "full ! i")
    case (Cons x xs)
    have "ksorted (full ! i)" using sorted that by simp
    moreover have "ky \<le> fst x" using least that Cons by auto
    ultimately show ?thesis using Cons by auto
  qed simp
  have es: "ksorted es" and es_at: "map_of es k = Some v \<longleftrightarrow> newest_at (zip qs full) k v" for k v
    using m by (auto simp: merged_def)
  have "map_of es ky = Some e"
  proof -
    have "qs ! j \<le> qs ! w" if "j < length full" and bound: "map_of (full ! j) ky \<noteq> None" for j
    proof -
      obtain v where v: "map_of (full ! j) ky = Some v" using bound by auto
      have "full ! j = (ky, v) # tl (full ! j)"
        using sorted least that(1) by (intro bound_is_head [OF _ _ v]) auto
      then have "full ! j \<noteq> []" "fst (hd (full ! j)) = ky" by (metis list.distinct(1), metis fst_conv list.sel(1))
      then show ?thesis using new that(1) by blast
    qed
    then show ?thesis using w q(2) by (auto simp: es_at newest_at_zip)
  qed
  moreover have "es \<noteq> [] \<longrightarrow> ky \<le> fst (hd es)"
  proof
    assume "es \<noteq> []"
    then obtain k v es' where "es = (k, v) # es'" by (metis list.exhaust prod.exhaust)
    then have "newest_at (zip qs full) k v" by (simp flip: es_at)
    then obtain i where "i < length full" "map_of (full ! i) k = Some v" using newest_at_zip q(2) by metis
    with low [of i] have "ky \<le> k" by (fastforce dest: map_of_SomeD)
    then show "ky \<le> fst (hd es)" by (simp add: \<open>es = (k, v) # es'\<close>)
  qed
  ultimately have hd: "es = (ky, e) # tl es" by (intro bound_is_head [OF es])
  have "merged (zip qs (map (drop_key ky) full)) (tl es)"
    unfolding merged_def
  proof (intro conjI allI)
    have "ksorted ((ky, e) # tl es)" using es hd by simp
    then show "ksorted (tl es)" by simp
    fix k v
    have drop: "map_of (drop_key ky (full ! i)) = (map_of (full ! i))(ky := None)" if "i < length full" for i
      using sorted low that by (simp add: map_of_drop_key)
    have "map_of (tl es) ky = None"
      using \<open>ksorted ((ky, e) # tl es)\<close> by (force simp: map_of_eq_None_iff)
    then have "map_of (tl es) k = ((map_of es)(ky := None)) k"
      using arg_cong [OF hd, of map_of] by (auto simp: fun_eq_iff)
    then show "map_of (tl es) k = Some v \<longleftrightarrow> newest_at (zip qs (map (drop_key ky) full)) k v"
      using q(2) by (cases "k = ky") (simp_all add: newest_at_zip es_at drop cong: conj_cong)
  qed
  with hd show ?thesis by blast
qed


section \<open>The merge meets its specification\<close>

definition node_of :: "u64 list \<Rightarrow> (bytes \<times> entry) list list \<Rightarrow> nat \<Rightarrow> heap_entry" where
  "node_of qs full i = \<lparr>he_key = fst (hd (full ! i)), he_entry = snd (hd (full ! i)),
     he_source = i, he_seq = qs ! i\<rparr>"

context entry_source
begin

text \<open>
  The invariant: source \<open>i\<close> still has to contribute \<open>full ! i\<close>, the first of which is in the
  heap unless \<open>i\<close> is in \<open>P\<close>, the sources that wait for a refill. The sources read the files \<open>R\<close>.
\<close>

definition merge_on ::
  "nat set \<Rightarrow> 'it merging \<Rightarrow> fs \<Rightarrow> (bytes \<times> entry) list list \<Rightarrow> nat set \<Rightarrow> bool" where
  "merge_on R mg s full P \<longleftrightarrow>
     length (mg_sources mg) = length full \<and> length (mg_seqs mg) = length full \<and>
     distinct (mg_seqs mg) \<and> mg_pending mg = None \<and> \<not> mg_poisoned mg \<and>
     (\<forall>xs \<in> set full. ksorted xs) \<and>
     (\<forall>i < length full. reads (mg_sources mg ! i) \<in> R) \<and>
     (\<forall>i < length full. on (mg_sources mg ! i) s (if i \<in> P then full ! i else tl (full ! i))) \<and>
     distinct (mg_heap mg) \<and>
     set (mg_heap mg) = node_of (mg_seqs mg) full ` {i. i < length full \<and> i \<notin> P \<and> full ! i \<noteq> []}"

lemma merge_on_pop:
  assumes m: "merge_on R mg s full P" and t: "t \<in> set (mg_heap mg)"
  shows "\<exists>i. he_source t = i \<and> i < length full \<and> i \<notin> P \<and>
    full ! i = (he_key t, he_entry t) # tl (full ! i) \<and> he_seq t = mg_seqs mg ! i \<and>
    merge_on R (mg\<lparr>mg_heap := remove1 t (mg_heap mg)\<rparr>) s (full[i := tl (full ! i)]) (insert i P)"
proof -
  obtain i where i: "i < length full" "i \<notin> P" "full ! i \<noteq> []" and t_def: "t = node_of (mg_seqs mg) full i"
    using m t by (auto simp: merge_on_def)
  let ?full = "full[i := tl (full ! i)]"
  have other: "node_of (mg_seqs mg) ?full j = node_of (mg_seqs mg) full j" if "j \<noteq> i" for j
    using that by (simp add: node_of_def)
  have src: "node_of (mg_seqs mg) full j = t \<longleftrightarrow> j = i" for j
    by (auto simp: t_def node_of_def)
  have "set (remove1 t (mg_heap mg)) = set (mg_heap mg) - {t}"
    using m by (simp add: merge_on_def)
  also have "\<dots> = node_of (mg_seqs mg) full ` ({j. j < length full \<and> j \<notin> P \<and> full ! j \<noteq> []} - {i})"
    using m src by (auto simp: merge_on_def)
  also have "\<dots> = node_of (mg_seqs mg) ?full ` {j. j < length ?full \<and> j \<notin> insert i P \<and> ?full ! j \<noteq> []}"
    by (rule image_cong) (auto simp: other)
  finally have heap: "set (remove1 t (mg_heap mg)) =
      node_of (mg_seqs mg) ?full ` {j. j < length ?full \<and> j \<notin> insert i P \<and> ?full ! j \<noteq> []}" .
  have "\<forall>xs \<in> set ?full. ksorted xs"
  proof
    fix xs assume "xs \<in> set ?full"
    then have "xs \<in> set full \<or> xs = tl (full ! i)" using set_update_subset_insert by fastforce
    moreover have "ksorted (full ! i)" using m i by (simp add: merge_on_def)
    then have "ksorted (tl (full ! i))" by (cases "full ! i") auto
    ultimately show "ksorted xs" using m by (auto simp: merge_on_def)
  qed
  moreover have "on (mg_sources mg ! j) s (if j \<in> insert i P then ?full ! j else tl (?full ! j))"
    if "j < length full" for j
    using m that i by (cases "j = i") (auto simp: merge_on_def)
  ultimately have "merge_on R (mg\<lparr>mg_heap := remove1 t (mg_heap mg)\<rparr>) s ?full (insert i P)"
    using m heap by (simp add: merge_on_def)
  with i t_def show ?thesis by (auto simp: node_of_def)
qed

lemma merge_on_refill:
  assumes m: "merge_on R mg s full P" and i: "i < length full" "i \<in> P"
  shows "\<exists>mg'. merge_refill nxt i mg s = (Inr (), mg', s) \<and> merge_on R mg' s full (P - {i}) \<and>
    mg_seqs mg' = mg_seqs mg"
proof -
  have on: "on (mg_sources mg ! i) s (full ! i)" using m i by (auto simp: merge_on_def)
  have upd: "on ((mg_sources mg)[i := it'] ! j) s (if j \<in> P - {i} then full ! j else tl (full ! j))"
    if "on it' s (tl (full ! i))" "j < length full" for it' j
    using m i that by (cases "j = i") (auto simp: merge_on_def)
  have rds: "reads ((mg_sources mg)[i := it'] ! j) \<in> R"
    if "reads it' = reads (mg_sources mg ! i)" "j < length full" for it' j
    using m i that by (cases "j = i") (auto simp: merge_on_def)
  show ?thesis
  proof (cases "full ! i")
    case Nil
    with on next_end obtain it' where it': "nxt (mg_sources mg ! i) s = (None, it', s)" "on it' s []"
      "reads it' = reads (mg_sources mg ! i)"
      by fastforce
    have "{j. j < length full \<and> j \<notin> P \<and> full ! j \<noteq> []} =
        {j. j < length full \<and> j \<notin> P - {i} \<and> full ! j \<noteq> []}" using Nil by auto
    with m i it' upd rds Nil show ?thesis
      by (simp add: merge_refill_def Let_def merge_on_def)
  next
    case (Cons x xs)
    obtain k e where x: "x = (k, e)" by (cases x)
    obtain it' where it': "nxt (mg_sources mg ! i) s = (Some (Inr x), it', s)" "on it' s xs"
      "reads it' = reads (mg_sources mg ! i)"
      using next_entry [of "mg_sources mg ! i" s x xs] on Cons by auto
    let ?t = "node_of (mg_seqs mg) full i"
    have "{j. j < length full \<and> j \<notin> P - {i} \<and> full ! j \<noteq> []} =
        insert i {j. j < length full \<and> j \<notin> P \<and> full ! j \<noteq> []}" using Cons i by auto
    then have heap: "set (?t # mg_heap mg) =
        node_of (mg_seqs mg) full ` {j. j < length full \<and> j \<notin> P - {i} \<and> full ! j \<noteq> []}"
      using m by (simp add: merge_on_def)
    have "?t \<notin> set (mg_heap mg)"
      using m i by (auto simp: merge_on_def node_of_def)
    then have "merge_on R (mg\<lparr>mg_sources := (mg_sources mg)[i := it'],
        mg_heap := ?t # mg_heap mg\<rparr>) s full (P - {i})"
      using m upd [of it'] rds [of it'] it' heap Cons by (simp add: merge_on_def)
    moreover have "?t = \<lparr>he_key = k, he_entry = e, he_source = i, he_seq = mg_seqs mg ! i\<rparr>"
      by (simp add: node_of_def Cons x)
    ultimately show ?thesis
      using it' by (simp add: merge_refill_def Let_def x)
  qed
qed

text \<open>Draining removes the key from every source but the winner's, and returns.\<close>

lemma merge_drain_ok:
  assumes "merge_on R mg s full {w}" and "w < length full"
    and "\<forall>i < length full. i \<noteq> w \<longrightarrow> full ! i \<noteq> [] \<longrightarrow> ky \<le> fst (hd (full ! i))"
  shows "\<exists>mg' full'. merge_drain nxt ky mg s = Some (mg', s) \<and> merge_on R mg' s full' {w} \<and>
    mg_seqs mg' = mg_seqs mg \<and> length full' = length full \<and> full' ! w = full ! w \<and>
    (\<forall>i < length full. i \<noteq> w \<longrightarrow> full' ! i = drop_key ky (full ! i))"
  using assms
proof (induction full arbitrary: mg rule: measure_induct_rule [of "\<lambda>full. sum_list (map length full)"])
  case (less full)
  note m = less.prems(1) and w = less.prems(2) and low = less.prems(3)
  show ?case
  proof (cases rule: merge_pop_cases [of "mg_heap mg"])
    case 1
    then have "\<forall>i < length full. i \<noteq> w \<longrightarrow> full ! i = []" using m by (auto simp: merge_on_def)
    with 1 m show ?thesis
      by (intro exI [of _ mg] exI [of _ full]) (subst merge_drain.simps, simp)
  next
    case (2 t)
    from merge_on_pop [OF m 2(2)] obtain i where i: "he_source t = i" "i < length full" "i \<noteq> w"
      "full ! i = (he_key t, he_entry t) # tl (full ! i)"
      and m1: "merge_on R (mg\<lparr>mg_heap := remove1 t (mg_heap mg)\<rparr>) s (full[i := tl (full ! i)]) {i, w}"
      by auto
    show ?thesis
    proof (cases "he_key t = ky")
      case False
      have "ky < he_key t"
        using False low i by (metis fst_conv list.distinct(1) list.sel(1) order_le_less)
      have "full ! j = [] \<or> fst (hd (full ! j)) \<noteq> ky" if "j < length full" "j \<noteq> w" for j
      proof (cases "full ! j = []")
        case False
        then have "node_of (mg_seqs mg) full j \<in> set (mg_heap mg)"
          using m that by (auto simp: merge_on_def)
        from 2(3) [OF this] \<open>ky < he_key t\<close> have "fst (hd (full ! j)) \<noteq> ky"
          by (auto simp: he_above_def node_of_def split: if_splits)
        then show ?thesis ..
      qed simp
      with False 2 m show ?thesis
        by (intro exI [of _ mg] exI [of _ full]) (subst merge_drain.simps, simp add: drop_key_id)
    next
      case True
      define full1 where "full1 = full[i := tl (full ! i)]"
      from merge_on_refill [OF m1, of i] i obtain mg1 where
        ref: "merge_refill nxt i (mg\<lparr>mg_heap := remove1 t (mg_heap mg)\<rparr>) s = (Inr (), mg1, s)"
        and m2: "merge_on R mg1 s full1 {w}" and qs: "mg_seqs mg1 = mg_seqs mg"
        by (auto simp: full1_def)
      have "sum_list (map length full1) < sum_list (map length full)"
      proof -
        have "sum_list (map length full1) =
            sum_list (map length full) + length (tl (full ! i)) - length (full ! i)"
          using i(2) by (simp add: full1_def map_update sum_list_update)
        moreover have "length (full ! i) = Suc (length (tl (full ! i)))" by (metis i(4) length_Cons)
        moreover have "length (full ! i) \<le> sum_list (map length full)"
          using i(2) elem_le_sum_list [of i "map length full"] by simp
        ultimately have "sum_list (map length full1) < sum_list (map length full)" by linarith
        then show ?thesis by simp
      qed
      moreover have sorted: "ksorted (full ! j)" if "j < length full" for j
        using m that by (simp add: merge_on_def)
      have "ky \<le> fst (hd (full1 ! j))" if j: "j < length full1" "j \<noteq> w" "full1 ! j \<noteq> []" for j
      proof (cases "j = i")
        case True
        have "ksorted ((he_key t, he_entry t) # tl (full ! i))" using sorted i by metis
        moreover have "hd (tl (full ! i)) \<in> set (tl (full ! i))"
          using j True i(2) by (intro hd_in_set) (simp add: full1_def)
        ultimately have "he_key t < fst (hd (tl (full ! i)))" by simp
        with True show ?thesis using \<open>he_key t = ky\<close> i(2) by (simp add: full1_def)
      qed (use j low in \<open>auto simp: full1_def\<close>)
      ultimately obtain mg' full' where
        rest: "merge_drain nxt ky mg1 s = Some (mg', s)" "merge_on R mg' s full' {w}"
          "mg_seqs mg' = mg_seqs mg1" "length full' = length full1" "full' ! w = full1 ! w"
        and rest_drop: "\<And>j. j < length full1 \<Longrightarrow> j \<noteq> w \<Longrightarrow> full' ! j = drop_key ky (full1 ! j)"
        using less.IH [of full1 mg1] m2 w by (auto simp: full1_def)
      have "full' ! j = drop_key ky (full ! j)" if "j < length full" "j \<noteq> w" for j
      proof (cases "j = i")
        case True
        have "ksorted ((ky, he_entry t) # tl (full ! i))" "full ! i = (ky, he_entry t) # tl (full ! i)"
          using sorted i \<open>he_key t = ky\<close> by metis+
        then have "drop_key ky (tl (full ! i)) = drop_key ky (full ! i)"
          by (metis drop_key.simps(2) drop_key_above)
        with rest_drop [of j] True that show ?thesis by (simp add: full1_def)
      qed (use rest_drop [of j] that in \<open>simp add: full1_def\<close>)
      moreover have "merge_drain nxt ky mg s = Some (mg', s)"
        using 2(1) True ref rest(1) i(1) by (subst merge_drain.simps) simp
      ultimately show ?thesis
        using rest qs i(3) by (intro exI [of _ mg'] exI [of _ full']) (auto simp: full1_def)
    qed
  qed
qed

lemma merge_next_ok:
  assumes m: "merge_on R mg s full {}" and es: "merged (zip (mg_seqs mg) full) es"
  shows "case es of
      [] \<Rightarrow> merge_next nxt mg s = Some (None, mg, s)
    | x # es' \<Rightarrow> \<exists>mg' full'. merge_next nxt mg s = Some (Some (Inr x), mg', s) \<and>
        merge_on R mg' s full' {} \<and> merged (zip (mg_seqs mg') full') es'"
proof -
  note md = m [unfolded merge_on_def]
  show ?thesis
  proof (cases rule: merge_pop_cases [of "mg_heap mg"])
    case 1
    then have empty: "\<forall>i < length full. full ! i = []" using md by auto
    have "es = []"
    proof (cases es)
      case (Cons x es')
      then have "newest_at (zip (mg_seqs mg) full) (fst x) (snd x)"
        using es [unfolded merged_def, THEN conjunct2, rule_format, of "fst x" "snd x"]
        by (simp add: Cons)
      with empty md show ?thesis by (auto simp: newest_at_zip)
    qed
    with 1 md show ?thesis by (simp add: merge_next_def)
  next
    case (2 t)
    define ky where "ky = he_key t"
    define full1 where "full1 = full[he_source t := tl (full ! he_source t)]"
    from merge_on_pop [OF m 2(2)] obtain w where w: "he_source t = w" "w < length full"
      and fw: "full ! w = (ky, he_entry t) # tl (full ! w)" and seq: "he_seq t = mg_seqs mg ! w"
      and m1: "merge_on R (mg\<lparr>mg_heap := remove1 t (mg_heap mg)\<rparr>) s full1 {w}"
      by (auto simp: ky_def full1_def)
    have top: "\<not> he_above (node_of (mg_seqs mg) full i) t" if "i < length full" "full ! i \<noteq> []" for i
      using md that by (intro 2(3)) auto
    have least: "\<forall>i < length full. full ! i \<noteq> [] \<longrightarrow> ky \<le> fst (hd (full ! i))"
      using top by (fastforce simp: he_above_def node_of_def ky_def split: if_splits)
    have new: "\<forall>i < length full. full ! i \<noteq> [] \<longrightarrow> fst (hd (full ! i)) = ky \<longrightarrow>
        mg_seqs mg ! i \<le> mg_seqs mg ! w"
      using top by (fastforce simp: he_above_def node_of_def ky_def seq split: if_splits)
    obtain es' where es': "es = (ky, he_entry t) # es'"
      and rest: "merged (zip (mg_seqs mg) (map (drop_key ky) full)) es'"
      using merged_step [OF es _ _ _ w(2) fw least new] md by auto
    have "\<forall>i < length full1. i \<noteq> w \<longrightarrow> full1 ! i \<noteq> [] \<longrightarrow> ky \<le> fst (hd (full1 ! i))"
      using least by (simp add: full1_def w(1))
    from merge_drain_ok [OF m1 _ this] w obtain mg2 full2 where
      drain: "merge_drain nxt ky (mg\<lparr>mg_heap := remove1 t (mg_heap mg)\<rparr>) s = Some (mg2, s)"
      and m2: "merge_on R mg2 s full2 {w}" "mg_seqs mg2 = mg_seqs mg" "length full2 = length full1"
        "full2 ! w = full1 ! w"
        "\<forall>i < length full1. i \<noteq> w \<longrightarrow> full2 ! i = drop_key ky (full1 ! i)"
      by (auto simp: full1_def)
    have full2: "full2 = map (drop_key ky) full"
    proof (rule nth_equalityI)
      show "length full2 = length (map (drop_key ky) full)" using m2(3) by (simp add: full1_def)
      have "drop_key ky (full ! w) = tl (full ! w)" by (subst fw) simp
      then show "full2 ! i = map (drop_key ky) full ! i" if "i < length full2" for i
        using that m2(3,4,5) w by (cases "i = w") (auto simp: full1_def)
    qed
    from merge_on_refill [OF m2(1), of w] m2(3) w obtain mg' where
      ref: "merge_refill nxt w mg2 s = (Inr (), mg', s)" "merge_on R mg' s full2 {}"
        "mg_seqs mg' = mg_seqs mg2"
      by (auto simp: full1_def)
    have "merge_next nxt mg s = Some (Some (Inr (ky, he_entry t)), mg', s)"
      using md 2(1) drain ref(1) w(1) by (simp add: merge_next_def ky_def)
    with es' rest ref m2(2) full2 show ?thesis by auto
  qed
qed

lemma merge_on_frame:
  assumes m: "merge_on R mg s full P" and "plan s' = []" and "\<forall>h \<in> R. content s' h = content s h"
  shows "merge_on R mg s' full P"
proof -
  have "on (mg_sources mg ! i) s' (if i \<in> P then full ! i else tl (full ! i))"
    if "i < length full" for i
  proof (rule on_frame)
    show "on (mg_sources mg ! i) s (if i \<in> P then full ! i else tl (full ! i))"
      using m that unfolding merge_on_def by blast
    have "reads (mg_sources mg ! i) \<in> R" using m that unfolding merge_on_def by blast
    with assms(3) show "content s' (reads (mg_sources mg ! i)) = content s (reads (mg_sources mg ! i))"
      by blast
  qed (rule assms(2))
  with m show ?thesis unfolding merge_on_def by blast
qed

lemma merge_prime_ok:
  assumes "merge_on R mg s full0 {}" and "list_all2 (\<lambda>(q, it) xs. on it s xs \<and> reads it \<in> R) srcs full"
    and "distinct (mg_seqs mg @ map fst srcs)" and "\<forall>xs \<in> set full. ksorted xs"
  shows "\<exists>mg'. merge_prime nxt srcs mg s = (Inr mg', s) \<and> merge_on R mg' s (full0 @ full) {} \<and>
    mg_seqs mg' = mg_seqs mg @ map fst srcs"
  using assms
proof (induction srcs arbitrary: mg full0 full)
  case Nil
  then show ?case by simp
next
  case (Cons src srcs)
  obtain q it where src: "src = (q, it)" by (cases src)
  obtain xs full' where full: "full = xs # full'" and it: "on it s xs" "reads it \<in> R"
    and rest: "list_all2 (\<lambda>(q, it) xs. on it s xs \<and> reads it \<in> R) srcs full'"
    using Cons.prems(2) by (auto simp: src list_all2_Cons1)
  note m = Cons.prems(1) [unfolded merge_on_def]
  let ?qs = "mg_seqs mg @ [q]" and ?n = "length full0" and ?full0 = "full0 @ [xs]"
  have same: "node_of ?qs ?full0 i = node_of (mg_seqs mg) full0 i" if "i < ?n" for i
    using that m by (simp add: node_of_def nth_append)
  have heap: "set (mg_heap mg) = node_of ?qs ?full0 ` {i. i < ?n \<and> full0 ! i \<noteq> []}"
    using m same by (auto intro!: image_cong)
  have step: "\<exists>mg'. merge_prime nxt srcs mg1 s = (Inr mg', s) \<and> merge_on R mg' s (full0 @ full) {} \<and>
      mg_seqs mg' = mg_seqs mg @ map fst (src # srcs)"
    if "merge_on R mg1 s ?full0 {}" "mg_seqs mg1 = ?qs" for mg1
    using Cons.IH [OF that(1) rest] that(2) Cons.prems(3,4) by (simp add: full src)
  show ?case
  proof (cases xs)
    case Nil
    with next_end [of it s] it obtain it' where
      nx: "nxt it s = (None, it', s)" "on it' s []" "reads it' = reads it" by auto
    have "{i. i < Suc ?n \<and> ?full0 ! i \<noteq> []} = {i. i < ?n \<and> full0 ! i \<noteq> []}"
      using Nil by (auto simp: nth_append less_Suc_eq)
    then have "merge_on R (mg\<lparr>mg_seqs := ?qs, mg_sources := mg_sources mg @ [it']\<rparr>) s ?full0 {}"
      using m heap nx it Nil Cons.prems(3,4)
      by (auto simp: merge_on_def src full nth_append less_Suc_eq)
    with step show ?thesis using nx by (simp add: src)
  next
    case (Cons x xs')
    obtain k e where x: "x = (k, e)" by (cases x)
    obtain it' where nx: "nxt it s = (Some (Inr x), it', s)" "on it' s xs'" "reads it' = reads it"
      using next_entry [of it s x xs'] it Cons by auto
    let ?t = "node_of ?qs ?full0 ?n"
    have "{i. i < Suc ?n \<and> ?full0 ! i \<noteq> []} = insert ?n {i. i < ?n \<and> full0 ! i \<noteq> []}"
      using Cons by (auto simp: nth_append less_Suc_eq)
    then have heap': "insert ?t (set (mg_heap mg)) =
        node_of ?qs ?full0 ` {i. i < Suc ?n \<and> ?full0 ! i \<noteq> []}"
      using heap by simp
    have new: "?t \<notin> set (mg_heap mg)" unfolding heap by (auto simp: node_of_def)
    have "merge_on R (mg\<lparr>mg_seqs := ?qs, mg_heap := ?t # mg_heap mg,
        mg_sources := mg_sources mg @ [it']\<rparr>) s ?full0 {}"
      using m heap' new nx it Cons Cons.prems(3,4)
      by (auto simp: merge_on_def src full nth_append less_Suc_eq)
    moreover have "?t = \<lparr>he_key = k, he_entry = e, he_source = length (mg_sources mg), he_seq = q\<rparr>"
      using m by (simp add: node_of_def nth_append Cons x)
    ultimately show ?thesis
      using step nx m by (simp add: src x Let_def nth_append)
  qed
qed

lemma merge_new_ok:
  assumes "list_all2 (\<lambda>(q, it) xs. on it s xs \<and> reads it \<in> R) srcs full"
    and "distinct (map fst srcs)" and "\<forall>xs \<in> set full. ksorted xs"
  shows "\<exists>mg. merge_new nxt srcs s = (Inr mg, s) \<and> merge_on R mg s full {} \<and> mg_seqs mg = map fst srcs"
  unfolding merge_new_def
  using merge_prime_ok [of R _ s "[]" srcs full] assms by (auto simp: merge_on_def)

end


section \<open>Properties\<close>

text \<open>An error found while refilling the heap is not lost and does not cost an entry that was
  already decoded: it is returned by the next call, and every call after that ends the merge.\<close>

theorem merge_error_surfaces_once:
  assumes "mg_pending mg = Some e" and "\<not> mg_poisoned mg"
  shows "\<exists>mg'. merge_next nxt mg s = Some (Some (Inl e), mg', s) \<and>
    (\<forall>s'. merge_next nxt mg' s' = Some (None, mg', s'))"
  using assms by (simp add: merge_next_def)

theorem merge_error_surfaces_once_witness:
  "\<exists>mg mg'. mg_pending mg = Some Closed \<and>
     merge_next (sst_next (\<lambda>_. 7)) mg empty_fs = Some (Some (Inl Closed), mg', empty_fs) \<and>
     merge_next (sst_next (\<lambda>_. 7)) mg' empty_fs = Some (None, mg', empty_fs)"
proof -
  define mg where "mg = \<lparr>mg_sources = [] :: sst_iter list, mg_heap = [], mg_seqs = [],
    mg_pending = Some Closed, mg_poisoned = False\<rparr>"
  have "mg_pending mg = Some Closed" "\<not> mg_poisoned mg" by (simp_all add: mg_def)
  with merge_error_surfaces_once [OF this, of "sst_next (\<lambda>_. 7)" empty_fs] show ?thesis by blast
qed

end
