(* ===== verification/Filenames.thy ===== *)
theory Filenames
  imports Text
begin

text \<open>
  The names of the engine's files (\<^verbatim>\<open>src/src/engine.rs\<close>) and their parsers. A file name is the
  last component of a path; \<open>file_stem\<close> and \<open>extension\<close> are those of \<^verbatim>\<open>std::path::Path\<close>.
\<close>

section \<open>Paths\<close>

definition rsplit_dot :: "string \<Rightarrow> (string \<times> string) option" where
  "rsplit_dot s =
     (let ext = takeWhile (\<lambda>c. c \<noteq> CHR ''.'') (rev s)
      in if length ext = length s then None
         else Some (rev (drop (Suc (length ext)) (rev s)), rev ext))"

definition file_stem :: "string \<Rightarrow> string" where
  "file_stem s = (case rsplit_dot s of None \<Rightarrow> s | Some (b, a) \<Rightarrow> if b = [] then s else b)"

definition extension :: "string \<Rightarrow> string option" where
  "extension s = (case rsplit_dot s of None \<Rightarrow> None | Some (b, a) \<Rightarrow> if b = [] then None else Some a)"

fun strip_prefix :: "string \<Rightarrow> string \<Rightarrow> string option" where
  "strip_prefix [] s = Some s"
| "strip_prefix (c # cs) [] = None"
| "strip_prefix (c # cs) (d # ds) = (if c = d then strip_prefix cs ds else None)"

definition split_once :: "char \<Rightarrow> string \<Rightarrow> (string \<times> string) option" where
  "split_once c s =
     (let l = takeWhile (\<lambda>d. d \<noteq> c) s
      in if length l = length s then None else Some (l, drop (Suc (length l)) s))"

section \<open>The engine's names\<close>

definition WAL_FILENAME :: string where "WAL_FILENAME = ''wal.log''"
definition SST_EXT :: string where "SST_EXT = ''sst''"
definition TMP_SUFFIX :: string where "TMP_SUFFIX = ''.tmp''"

definition sst_filename :: "nat \<Rightarrow> u64 \<Rightarrow> string" where
  "sst_filename level fid =
     ''sst_L'' @ dec_string level @ ''_'' @ pad_left 6 (dec_string (unat fid)) @ ''.'' @ SST_EXT"

definition snapshot_filename :: "u64 \<Rightarrow> string" where
  "snapshot_filename fid = ''hnsw_'' @ pad_left 6 (dec_string (unat fid)) @ ''.idx''"

definition parse_u64 :: "string \<Rightarrow> u64 option" where
  "parse_u64 s = map_option word_of_nat (parse_uint (2 ^ 64 - 1) s)"

definition parse_snapshot_filename :: "string \<Rightarrow> u64 option" where
  "parse_snapshot_filename path =
     (let stem = file_stem path
      in case strip_prefix ''hnsw_'' stem of None \<Rightarrow> None | Some rest \<Rightarrow> parse_u64 rest)"

definition parse_sst_filename :: "string \<Rightarrow> (nat \<times> u64) option" where
  "parse_sst_filename path =
     (let stem = file_stem path
      in case strip_prefix ''sst_L'' stem of
           None \<Rightarrow> None
         | Some rest \<Rightarrow>
             (case split_once (CHR ''_'') rest of
                None \<Rightarrow> None
              | Some (level_str, id_str) \<Rightarrow>
                  (case parse_uint 255 level_str of
                     None \<Rightarrow> None
                   | Some level \<Rightarrow>
                       (case parse_u64 id_str of None \<Rightarrow> None | Some fid \<Rightarrow> Some (level, fid)))))"

section \<open>Splitting what was joined\<close>

lemma takeWhile_stop: "c \<notin> set a \<Longrightarrow> takeWhile (\<lambda>d. d \<noteq> c) (a @ c # b) = a"
  by (induction a) auto

lemma rsplit_dot_join:
  assumes "CHR ''.'' \<notin> set a"
  shows "rsplit_dot (b @ ''.'' @ a) = Some (b, a)"
proof -
  have "takeWhile (\<lambda>c. c \<noteq> CHR ''.'') (rev (b @ ''.'' @ a)) = rev a"
    using assms by (simp add: takeWhile_stop)
  then show ?thesis by (simp add: rsplit_dot_def Let_def)
qed

lemma file_stem_join: "CHR ''.'' \<notin> set a \<Longrightarrow> b \<noteq> [] \<Longrightarrow> file_stem (b @ ''.'' @ a) = b"
  by (simp add: file_stem_def rsplit_dot_join del: append.simps)

lemma extension_join: "CHR ''.'' \<notin> set a \<Longrightarrow> b \<noteq> [] \<Longrightarrow> extension (b @ ''.'' @ a) = Some a"
  by (simp add: extension_def rsplit_dot_join del: append.simps)

lemma strip_prefix_append: "strip_prefix p (p @ s) = Some s"
  by (induction p) auto

lemma strip_prefix_Some: "strip_prefix p s = Some r \<Longrightarrow> s = p @ r"
  by (induction p s rule: strip_prefix.induct) (auto split: if_splits)

lemma split_once_join: "c \<notin> set a \<Longrightarrow> split_once c (a @ c # b) = Some (a, b)"
proof -
  assume "c \<notin> set a"
  then have "takeWhile (\<lambda>d. d \<noteq> c) (a @ c # b) = a"
    by (rule takeWhile_stop)
  then show ?thesis by (simp add: split_once_def Let_def)
qed

lemma dec_string_chars: "c \<in> set (dec_string n) \<Longrightarrow> 48 \<le> (of_char c :: nat) \<and> (of_char c :: nat) \<le> 57"
  using pad_dec_chars [of c 0 n] by (simp add: pad_left_def)

lemma not_in_dec: "\<not> (48 \<le> (of_char c :: nat) \<and> (of_char c :: nat) \<le> 57) \<Longrightarrow>
    c \<notin> set (dec_string n) \<and> c \<notin> set (pad_left w (dec_string n))"
  using dec_string_chars pad_dec_chars by blast

lemma parse_u64_pad: "parse_u64 (pad_left 6 (dec_string (unat fid))) = Some fid"
proof -
  have "unat fid \<le> 2 ^ 64 - 1" using unsigned_less [of fid, where ?'a = nat] by simp
  then show ?thesis by (simp add: parse_u64_def parse_pad_dec)
qed

section \<open>Round trips and distinctness\<close>

lemma parse_sst_sst:
  assumes "level \<le> 255"
  shows "parse_sst_filename (sst_filename level fid) = Some (level, fid)"
proof -
  let ?b = "''sst_L'' @ dec_string level @ ''_'' @ pad_left 6 (dec_string (unat fid))"
  have "file_stem (?b @ ''.'' @ SST_EXT) = ?b"
    by (rule file_stem_join) (simp_all add: SST_EXT_def)
  then have stem: "file_stem (sst_filename level fid) = ?b"
    by (simp add: sst_filename_def)
  have "CHR ''_'' \<notin> set (dec_string level)" by (rule not_in_dec [THEN conjunct1]) simp
  then have "split_once (CHR ''_'') (dec_string level @ ''_'' @ pad_left 6 (dec_string (unat fid))) =
      Some (dec_string level, pad_left 6 (dec_string (unat fid)))"
    by (simp add: split_once_join)
  then show ?thesis
    using assms parse_dec [of level 255]
    by (simp only: parse_sst_filename_def stem Let_def strip_prefix_append) (simp add: parse_u64_pad)
qed

lemma parse_snapshot_snapshot: "parse_snapshot_filename (snapshot_filename fid) = Some fid"
proof -
  let ?b = "''hnsw_'' @ pad_left 6 (dec_string (unat fid))"
  have "file_stem (?b @ ''.'' @ ''idx'') = ?b"
    by (rule file_stem_join) simp_all
  then have stem: "file_stem (snapshot_filename fid) = ?b"
    by (simp add: snapshot_filename_def)
  show ?thesis
    by (simp only: parse_snapshot_filename_def stem Let_def strip_prefix_append)
       (simp add: parse_u64_pad)
qed

lemma extension_sst: "extension (sst_filename level fid) = Some SST_EXT"
  using extension_join [of SST_EXT "''sst_L'' @ dec_string level @ ''_'' @ pad_left 6 (dec_string (unat fid))"]
  by (simp add: sst_filename_def SST_EXT_def)

lemma extension_snapshot: "extension (snapshot_filename fid) = Some ''idx''"
  using extension_join [of "''idx''" "''hnsw_'' @ pad_left 6 (dec_string (unat fid))"]
  by (simp add: snapshot_filename_def)

lemma extension_wal: "extension WAL_FILENAME = Some ''log''"
  by (simp add: extension_def rsplit_dot_def WAL_FILENAME_def Let_def)

lemma extension_tmp: "s \<noteq> [] \<Longrightarrow> extension (s @ TMP_SUFFIX) = Some ''tmp''"
  using extension_join [of "''tmp''" s] by (simp add: TMP_SUFFIX_def)

lemma sst_filename_inject [simp]:
  "l \<le> 255 \<Longrightarrow> l' \<le> 255 \<Longrightarrow> sst_filename l i = sst_filename l' i' \<longleftrightarrow> l = l' \<and> i = i'"
  using parse_sst_sst by (metis Pair_inject option.inject)

lemma snapshot_filename_inject [simp]: "snapshot_filename i = snapshot_filename i' \<longleftrightarrow> i = i'"
  using parse_snapshot_snapshot by (metis option.inject)

lemma filename_nonempty [simp]: "sst_filename l i \<noteq> []" "snapshot_filename i \<noteq> []"
  by (simp_all add: sst_filename_def snapshot_filename_def)

text \<open>Names of different kinds have different extensions.\<close>

lemma filenames_distinct [simp]:
  "sst_filename l i \<noteq> WAL_FILENAME" "WAL_FILENAME \<noteq> sst_filename l i"
  "sst_filename l i \<noteq> snapshot_filename j" "snapshot_filename j \<noteq> sst_filename l i"
  "snapshot_filename j \<noteq> WAL_FILENAME" "WAL_FILENAME \<noteq> snapshot_filename j"
  "s \<noteq> [] \<Longrightarrow> s @ TMP_SUFFIX \<noteq> WAL_FILENAME" "s \<noteq> [] \<Longrightarrow> WAL_FILENAME \<noteq> s @ TMP_SUFFIX"
  "s \<noteq> [] \<Longrightarrow> s @ TMP_SUFFIX \<noteq> sst_filename l i" "s \<noteq> [] \<Longrightarrow> sst_filename l i \<noteq> s @ TMP_SUFFIX"
  "s \<noteq> [] \<Longrightarrow> s @ TMP_SUFFIX \<noteq> snapshot_filename j" "s \<noteq> [] \<Longrightarrow> snapshot_filename j \<noteq> s @ TMP_SUFFIX"
  using extension_sst [of l i] extension_snapshot [of j] extension_wal extension_tmp [of s]
  by (auto simp: SST_EXT_def)


section \<open>Properties\<close>

text \<open>File names round trip: the name of a table or a snapshot parses back to its level and id,
  for every 64-bit id, and the discovery can tell the kinds of files apart by their extension.\<close>

theorem filenames_round_trip:
  "parse_sst_filename (sst_filename 0 i) = Some (0, i) \<and>
   parse_sst_filename (sst_filename 1 i) = Some (1, i) \<and>
   parse_snapshot_filename (snapshot_filename i) = Some i \<and>
   extension (sst_filename l i) = Some SST_EXT \<and>
   extension (sst_filename l i @ TMP_SUFFIX) = Some ''tmp'' \<and>
   extension (snapshot_filename i) = Some ''idx'' \<and> extension WAL_FILENAME = Some ''log''"
  by (simp add: parse_sst_sst parse_snapshot_snapshot extension_sst extension_tmp extension_snapshot
      extension_wal)

end
