(* ===== verification/Engine.thy ===== *)
theory Engine
  imports Replay Merge Filenames
begin

text \<open>
  The storage engine's state and the operations of \<^verbatim>\<open>EngineInner\<close>, \<^verbatim>\<open>src/src/engine.rs\<close>:
  lookup, flush, compaction, and the part of each write that runs under the engine lock. A
  function that runs the merge may, for arbitrary sources, not return; its result is an option,
  and \<open>None\<close> is not returning.
\<close>

section \<open>State\<close>

record options =
  op_memtable_max_size_bytes :: nat
  op_l0_compaction_trigger :: nat
  op_bloom_bits_per_key :: u32

record sstable_entry =
  se_id :: u64
  se_reader :: sst_reader

record level_state =
  lv_l0 :: "sstable_entry list"
  lv_l1 :: "sstable_entry list"

definition levels_total :: "level_state \<Rightarrow> nat" where
  "levels_total lv = length (lv_l0 lv) + length (lv_l1 lv)"

record engine =
  en_writer :: wal_writer
  en_memtable :: memtable
  en_levels :: level_state
  en_next_sst_id :: u64
  en_closed :: bool

section \<open>Lookup\<close>

fun get_tables ::
  "(bytes \<Rightarrow> u32) \<Rightarrow> (bytes \<Rightarrow> 128 word) \<Rightarrow> sstable_entry list \<Rightarrow> bytes \<Rightarrow> fs \<Rightarrow>
     (error + sst_lookup) \<times> fs" where
  "get_tables crc xxh [] ky s = (Inr SstMissing, s)"
| "get_tables crc xxh (t # ts) ky s =
     (case sst_get crc xxh (se_reader t) ky s of
        (Inl err, s) \<Rightarrow> (Inl err, s)
      | (Inr (SstFound v), s) \<Rightarrow> (Inr (SstFound v), s)
      | (Inr SstDeleted, s) \<Rightarrow> (Inr SstDeleted, s)
      | (Inr SstMissing, s) \<Rightarrow> get_tables crc xxh ts ky s)"

definition engine_get ::
  "(bytes \<Rightarrow> u32) \<Rightarrow> (bytes \<Rightarrow> 128 word) \<Rightarrow> bytes \<Rightarrow> engine \<Rightarrow> fs \<Rightarrow> (error + bytes option) \<times> fs" where
  "engine_get crc xxh ky e s =
     (if en_closed e then (Inl Closed, s)
      else
        (case mt_get (en_memtable e) ky of
           Found v \<Rightarrow> (Inr (Some v), s)
         | Deleted \<Rightarrow> (Inr None, s)
         | Missing \<Rightarrow>
             (case get_tables crc xxh (lv_l0 (en_levels e)) ky s of
                (Inl err, s) \<Rightarrow> (Inl err, s)
              | (Inr (SstFound v), s) \<Rightarrow> (Inr (Some v), s)
              | (Inr SstDeleted, s) \<Rightarrow> (Inr None, s)
              | (Inr SstMissing, s) \<Rightarrow>
                  (case get_tables crc xxh (lv_l1 (en_levels e)) ky s of
                     (Inl err, s) \<Rightarrow> (Inl err, s)
                   | (Inr (SstFound v), s) \<Rightarrow> (Inr (Some v), s)
                   | (Inr SstDeleted, s) \<Rightarrow> (Inr None, s)
                   | (Inr SstMissing, s) \<Rightarrow> (Inr None, s)))))"

section \<open>Flush\<close>

text \<open>The block of \<^verbatim>\<open>flush_inner\<close> that writes the table to the temporary file.\<close>

definition write_table ::
  "(bytes \<Rightarrow> u32) \<Rightarrow> (bytes \<Rightarrow> 128 word) \<Rightarrow> options \<Rightarrow> fname \<Rightarrow> memtable \<Rightarrow> fs \<Rightarrow> (error + unit) \<times> fs" where
  "write_table crc xxh opts tmp m s =
     (case sst_create tmp (mt_len m) (op_bloom_bits_per_key opts) s of
        (Inl err, s) \<Rightarrow> (Inl err, s)
      | (Inr w, s) \<Rightarrow>
          (case sst_add_all crc xxh (mt_iter m) w s of
             (Inl err, w, s) \<Rightarrow> (Inl err, s)
           | (Inr _, w, s) \<Rightarrow> sst_finish crc w s))"

text \<open>The publication of a finished temporary file: rename, directory sync, open for reading.\<close>

definition publish ::
  "(bytes \<Rightarrow> u32) \<Rightarrow> fname \<Rightarrow> fname \<Rightarrow> fs \<Rightarrow> (error + sst_reader) \<times> fs" where
  "publish crc tmp path s =
     (case rename_file tmp path s of
        (Inl err, s) \<Rightarrow> (Inl err, s)
      | (Inr _, s) \<Rightarrow>
          (case sync_dir s of
             (Inl err, s) \<Rightarrow> (Inl err, s)
           | (Inr _, s) \<Rightarrow> sst_open crc path s))"

definition rotate_wal :: "fs \<Rightarrow> (error + wal_writer) \<times> fs" where
  "rotate_wal s =
     (case remove_file WAL_FILENAME s of
        (Inl err, s) \<Rightarrow> (Inl err, s)
      | (Inr _, s) \<Rightarrow> wal_open WAL_FILENAME s)"

definition flush_inner ::
  "(bytes \<Rightarrow> u32) \<Rightarrow> (bytes \<Rightarrow> 128 word) \<Rightarrow> options \<Rightarrow> engine \<Rightarrow> fs \<Rightarrow> (error + unit) \<times> engine \<times> fs" where
  "flush_inner crc xxh opts e s =
     (if mt_is_empty (en_memtable e)
      then (case wal_sync (en_writer e) s of
              (Inl err, s) \<Rightarrow> (Inl err, e, s)
            | (Inr _, s) \<Rightarrow> (Inr (), e, s))
      else
        (let sid = en_next_sst_id e;
             sst_path = sst_filename 0 sid;
             tmp_path = sst_path @ TMP_SUFFIX
         in case write_table crc xxh opts tmp_path (en_memtable e) s of
              (Inl err, s) \<Rightarrow> (Inl err, e, s)
            | (Inr _, s) \<Rightarrow>
                (case publish crc tmp_path sst_path s of
                   (Inl err, s) \<Rightarrow> (Inl err, e, s)
                 | (Inr rd, s) \<Rightarrow>
                     (let lv = en_levels e;
                          e = e\<lparr>en_levels := lv\<lparr>lv_l0 := \<lparr>se_id = sid, se_reader = rd\<rparr> # lv_l0 lv\<rparr>,
                                en_next_sst_id := sid + 1\<rparr>
                      in case rotate_wal s of
                           (Inl err, s) \<Rightarrow> (Inl err, e, s)
                         | (Inr w, s) \<Rightarrow>
                             (Inr (), e\<lparr>en_writer := w, en_memtable := mt_new\<rparr>, s)))))"

definition maybe_auto_flush ::
  "(bytes \<Rightarrow> u32) \<Rightarrow> (bytes \<Rightarrow> 128 word) \<Rightarrow> options \<Rightarrow> engine \<Rightarrow> fs \<Rightarrow> (error + unit) \<times> engine \<times> fs" where
  "maybe_auto_flush crc xxh opts e s =
     (if approximate_size (en_memtable e) \<ge> op_memtable_max_size_bytes opts
      then flush_inner crc xxh opts e s else (Inr (), e, s))"

section \<open>Compaction\<close>

partial_function (option) compact_loop ::
  "('it \<Rightarrow> fs \<Rightarrow> entry_item \<times> 'it \<times> fs) \<Rightarrow> (bytes \<Rightarrow> u32) \<Rightarrow> (bytes \<Rightarrow> 128 word) \<Rightarrow> 'it merging \<Rightarrow>
     sst_writer \<Rightarrow> bool \<Rightarrow> fs \<Rightarrow> ((error + bool) \<times> sst_writer \<times> fs) option" where
  "compact_loop nxt crc xxh mg w wrote_any s =
     (case merge_next nxt mg s of
        None \<Rightarrow> None
      | Some (None, mg, s) \<Rightarrow> Some (Inr wrote_any, w, s)
      | Some (Some (Inl err), mg, s) \<Rightarrow> Some (Inl err, w, s)
      | Some (Some (Inr (ky, e)), mg, s) \<Rightarrow>
          if e = Tombstone then compact_loop nxt crc xxh mg w wrote_any s
          else
            (case sst_add crc xxh ky e w s of
               (Inl err, w, s) \<Rightarrow> Some (Inl err, w, s)
             | (Inr _, w, s) \<Rightarrow> compact_loop nxt crc xxh mg w True s))"

text \<open>The two ways to finish: install the new table as the only one, or drop everything.\<close>

definition compact_install ::
  "(bytes \<Rightarrow> u32) \<Rightarrow> fname \<Rightarrow> fname \<Rightarrow> sst_writer \<Rightarrow> engine \<Rightarrow> fs \<Rightarrow> (error + unit) \<times> engine \<times> fs" where
  "compact_install crc tmp_path sst_path w e s =
     (case sst_finish crc w s of
        (Inl err, s) \<Rightarrow> (Inl err, e, s)
      | (Inr _, s) \<Rightarrow>
          (case publish crc tmp_path sst_path s of
             (Inl err, s) \<Rightarrow> (Inl err, e, s)
           | (Inr rd, s) \<Rightarrow>
               (let new_id = en_next_sst_id e
                in (Inr (), e\<lparr>en_next_sst_id := new_id + 1,
                      en_levels := \<lparr>lv_l0 = [], lv_l1 = [\<lparr>se_id = new_id, se_reader = rd\<rparr>]\<rparr>\<rparr>, s))))"

definition compact_discard :: "fname \<Rightarrow> engine \<Rightarrow> fs \<Rightarrow> engine \<times> fs" where
  "compact_discard tmp_path e s =
     (let s = snd (remove_file tmp_path s)
      in (e\<lparr>en_next_sst_id := en_next_sst_id e + 1, en_levels := \<lparr>lv_l0 = [], lv_l1 = []\<rparr>\<rparr>, s))"

fun remove_all :: "fname list \<Rightarrow> fs \<Rightarrow> fs" where
  "remove_all [] s = s"
| "remove_all (p # ps) s = remove_all ps (snd (remove_file p s))"

definition input_paths :: "u64 list \<Rightarrow> fname list" where
  "input_paths ids = concat (map (\<lambda>sid. map (\<lambda>level. sst_filename level sid) [0, 1]) ids)"

definition compact_l0_l1 ::
  "(bytes \<Rightarrow> u32) \<Rightarrow> (bytes \<Rightarrow> 128 word) \<Rightarrow> options \<Rightarrow> engine \<Rightarrow> fs \<Rightarrow>
     ((error + unit) \<times> engine \<times> fs) option" where
  "compact_l0_l1 crc xxh opts e s =
     (let lv = en_levels e;
          tables = lv_l1 lv @ lv_l0 lv;
          input_ids = map se_id tables;
          sources = map (\<lambda>t. (se_id t, sst_reader_iter (se_reader t))) tables;
          sst_path = sst_filename 1 (en_next_sst_id e);
          tmp_path = sst_path @ TMP_SUFFIX;
          expected_keys = sum_list (map (\<lambda>t. block_count (se_reader t) * 256) (lv_l0 lv @ lv_l1 lv))
      in case merge_new (sst_next crc) sources s of
           (Inl err, s) \<Rightarrow> Some (Inl err, e, s)
         | (Inr mg, s) \<Rightarrow>
             (case sst_create tmp_path expected_keys (op_bloom_bits_per_key opts) s of
                (Inl err, s) \<Rightarrow> Some (Inl err, e, s)
              | (Inr w, s) \<Rightarrow>
                  (case compact_loop (sst_next crc) crc xxh mg w False s of
                     None \<Rightarrow> None
                   | Some (Inl err, w, s) \<Rightarrow> Some (Inl err, e, s)
                   | Some (Inr wrote_any, w, s) \<Rightarrow>
                       (case (if wrote_any then compact_install crc tmp_path sst_path w e s
                              else (Inr (), compact_discard tmp_path e s)) of
                          (Inl err, e, s) \<Rightarrow> Some (Inl err, e, s)
                        | (Inr _, e, s) \<Rightarrow>
                            Some (Inr (), e, snd (sync_dir (remove_all (input_paths input_ids) s)))))))"

definition maybe_compact ::
  "(bytes \<Rightarrow> u32) \<Rightarrow> (bytes \<Rightarrow> 128 word) \<Rightarrow> options \<Rightarrow> engine \<Rightarrow> fs \<Rightarrow>
     ((error + unit) \<times> engine \<times> fs) option" where
  "maybe_compact crc xxh opts e s =
     (if length (lv_l0 (en_levels e)) < op_l0_compaction_trigger opts then Some (Inr (), e, s)
      else compact_l0_l1 crc xxh opts e s)"

section \<open>Writes under the engine lock\<close>

text \<open>
  The end of every locked write: automatic flush, compaction, and the next table id if it moved.
\<close>

definition after_write ::
  "(bytes \<Rightarrow> u32) \<Rightarrow> (bytes \<Rightarrow> 128 word) \<Rightarrow> options \<Rightarrow> engine \<Rightarrow> fs \<Rightarrow>
     ((error + u64 option) \<times> engine \<times> fs) option" where
  "after_write crc xxh opts e s =
     (let before = en_next_sst_id e
      in case maybe_auto_flush crc xxh opts e s of
           (Inl err, e, s) \<Rightarrow> Some (Inl err, e, s)
         | (Inr _, e, s) \<Rightarrow>
             (case maybe_compact crc xxh opts e s of
                None \<Rightarrow> None
              | Some (Inl err, e, s) \<Rightarrow> Some (Inl err, e, s)
              | Some (Inr _, e, s) \<Rightarrow>
                  Some (Inr (if before \<noteq> en_next_sst_id e then Some (en_next_sst_id e) else None), e, s)))"

definition lsm_write ::
  "(bytes \<Rightarrow> u32) \<Rightarrow> (bytes \<Rightarrow> 128 word) \<Rightarrow> options \<Rightarrow> record_kind \<Rightarrow> bytes \<Rightarrow> bytes \<Rightarrow>
     (memtable \<Rightarrow> memtable) \<Rightarrow> engine \<Rightarrow> fs \<Rightarrow> ((error + u64 option) \<times> engine \<times> fs) option" where
  "lsm_write crc xxh opts k ky v upd e s =
     (if en_closed e then Some (Inl Closed, e, s)
      else
        (case wal_append crc k ky v (en_writer e) s of
           (Inl err, w, s) \<Rightarrow> Some (Inl err, e\<lparr>en_writer := w\<rparr>, s)
         | (Inr _, w, s) \<Rightarrow>
             (case wal_sync w s of
                (Inl err, s) \<Rightarrow> Some (Inl err, e\<lparr>en_writer := w\<rparr>, s)
              | (Inr _, s) \<Rightarrow>
                  after_write crc xxh opts
                    (e\<lparr>en_writer := w, en_memtable := upd (en_memtable e)\<rparr>) s)))"

definition lsm_put ::
  "(bytes \<Rightarrow> u32) \<Rightarrow> (bytes \<Rightarrow> 128 word) \<Rightarrow> options \<Rightarrow> bytes \<Rightarrow> bytes \<Rightarrow> engine \<Rightarrow> fs \<Rightarrow>
     ((error + u64 option) \<times> engine \<times> fs) option" where
  "lsm_put crc xxh opts ky v e s =
     lsm_write crc xxh opts record_kind.Put ky v (mt_put ky v) e s"

definition lsm_put_vector ::
  "(bytes \<Rightarrow> u32) \<Rightarrow> (bytes \<Rightarrow> 128 word) \<Rightarrow> options \<Rightarrow> bytes \<Rightarrow> bytes \<Rightarrow> engine \<Rightarrow> fs \<Rightarrow>
     ((error + u64 option) \<times> engine \<times> fs) option" where
  "lsm_put_vector crc xxh opts ky v e s =
     lsm_write crc xxh opts record_kind.Vector ky v (mt_put_vector ky v) e s"

definition lsm_delete ::
  "(bytes \<Rightarrow> u32) \<Rightarrow> (bytes \<Rightarrow> 128 word) \<Rightarrow> options \<Rightarrow> bytes \<Rightarrow> engine \<Rightarrow> fs \<Rightarrow>
     ((error + u64 option) \<times> engine \<times> fs) option" where
  "lsm_delete crc xxh opts ky e s =
     lsm_write crc xxh opts record_kind.Delete ky [] (mt_delete ky) e s"

definition lsm_flush ::
  "(bytes \<Rightarrow> u32) \<Rightarrow> (bytes \<Rightarrow> 128 word) \<Rightarrow> options \<Rightarrow> engine \<Rightarrow> fs \<Rightarrow>
     ((error + u64 option) \<times> engine \<times> fs) option" where
  "lsm_flush crc xxh opts e s =
     (if en_closed e then Some (Inl Closed, e, s)
      else
        (let before = en_next_sst_id e
         in case flush_inner crc xxh opts e s of
              (Inl err, e, s) \<Rightarrow> Some (Inl err, e, s)
            | (Inr _, e, s) \<Rightarrow>
                (case maybe_compact crc xxh opts e s of
                   None \<Rightarrow> None
                 | Some (Inl err, e, s) \<Rightarrow> Some (Inl err, e, s)
                 | Some (Inr _, e, s) \<Rightarrow>
                     Some (Inr (if before \<noteq> en_next_sst_id e then Some (en_next_sst_id e) else None),
                           e, s))))"

definition engine_close :: "engine \<Rightarrow> fs \<Rightarrow> (error + unit) \<times> engine \<times> fs" where
  "engine_close e s =
     (if en_closed e then (Inr (), e, s)
      else
        (case wal_sync (en_writer e) s of
           (Inl err, s) \<Rightarrow> (Inl err, e, s)
         | (Inr _, s) \<Rightarrow> (Inr (), e\<lparr>en_closed := True\<rparr>, s)))"

definition sstable_count :: "engine \<Rightarrow> nat" where
  "sstable_count e = levels_total (en_levels e)"

definition level_counts :: "engine \<Rightarrow> nat \<times> nat" where
  "level_counts e = (length (lv_l0 (en_levels e)), length (lv_l1 (en_levels e)))"

definition memtable_len :: "engine \<Rightarrow> nat" where
  "memtable_len e = mt_len (en_memtable e)"

end
