(* ===== verification/Engine_Inv.thy ===== *)
theory Engine_Inv
  imports Engine
begin

text \<open>
  The engine's invariant and its abstraction. The engine stands for a map from keys to values:
  the newest of memtable, L0 (newest first) and L1 that mentions a key decides, and a tombstone
  hides the key. \<open>engine_on\<close> ties the state to the entries of its tables and the records of its
  log.
\<close>

section \<open>The map of a stack of layers\<close>

fun visible :: "entry option \<Rightarrow> bytes option" where
  "visible None = None"
| "visible (Some Tombstone) = None"
| "visible (Some (Put v)) = Some v"
| "visible (Some (Vector v)) = Some v"

text \<open>The entry that stands for a key, if it is not a tombstone; \<open>visible\<close> is its value.\<close>

fun shown :: "entry option \<Rightarrow> entry option" where
  "shown (Some Tombstone) = None"
| "shown x = x"

lemma visible_shown [simp]: "visible (shown x) = visible x"
  by (cases x rule: shown.cases) simp_all

lemma shown_shown [simp]: "shown (shown x) = shown x"
  by (cases x rule: shown.cases) simp_all

definition lsm_ents :: "memtable \<Rightarrow> (bytes \<times> entry) list list \<Rightarrow> bytes \<Rightarrow> entry option" where
  "lsm_ents m ts ky = shown (map_of (mt_map m @ concat ts) ky)"

definition lsm_map :: "memtable \<Rightarrow> (bytes \<times> entry) list list \<Rightarrow> bytes \<Rightarrow> bytes option" where
  "lsm_map m ts ky = visible (map_of (mt_map m @ concat ts) ky)"

lemma lsm_map_mem: "map_of (mt_map m) ky = Some e \<Longrightarrow> lsm_map m ts ky = visible (Some e)"
  by (simp add: lsm_map_def map_add_def)

lemma lsm_map_put [simp]:
  "lsm_map (mt_put k v m) ts = (lsm_map m ts)(k \<mapsto> v)"
  "lsm_map (mt_put_vector k v m) ts = (lsm_map m ts)(k \<mapsto> v)"
  "lsm_map (mt_delete k m) ts = (lsm_map m ts)(k := None)"
  by (auto simp: lsm_map_def map_add_def fun_eq_iff)

lemma lsm_map_ents: "lsm_map m ts ky = visible (lsm_ents m ts ky)"
  by (simp add: lsm_map_def lsm_ents_def)

lemma lsm_ents_flush: "lsm_ents mt_new (mt_map m # ts) = lsm_ents m ts"
  by (auto simp: lsm_ents_def fun_eq_iff)

lemma lsm_map_flush: "lsm_map mt_new (mt_map m # ts) = lsm_map m ts"
  by (auto simp: lsm_map_def fun_eq_iff)

section \<open>The invariant\<close>

definition entries_ok :: "(bytes \<times> entry) list \<Rightarrow> bool" where
  "entries_ok es \<longleftrightarrow> (\<forall>(ky, e) \<in> set es. ky \<noteq> [] \<and> fits (ky, e))"

definition table_on ::
  "(bytes \<Rightarrow> u32) \<Rightarrow> (bytes \<Rightarrow> 128 word) \<Rightarrow> fs \<Rightarrow> nat \<Rightarrow> sstable_entry \<Rightarrow> (bytes \<times> entry) list \<Rightarrow> bool" where
  "table_on crc xxh s level t es \<longleftrightarrow>
     reads_table crc xxh (se_reader t) s es \<and> entries_ok es \<and>
     bt_get (names s) (sst_filename level (se_id t)) = Some (sr_file (se_reader t))"

definition dir_ok :: "level_state \<Rightarrow> fs \<Rightarrow> bool" where
  "dir_ok lv s \<longleftrightarrow>
     (\<forall>p. bt_get (names s) p \<noteq> None \<longrightarrow> p = WAL_FILENAME \<or>
        p \<in> sst_filename 0 ` se_id ` set (lv_l0 lv) \<or> p \<in> sst_filename 1 ` se_id ` set (lv_l1 lv) \<or>
        p \<in> range snapshot_filename)"

definition levels_on ::
  "(bytes \<Rightarrow> u32) \<Rightarrow> (bytes \<Rightarrow> 128 word) \<Rightarrow> level_state \<Rightarrow> u64 \<Rightarrow> fs \<Rightarrow>
     (bytes \<times> entry) list list \<Rightarrow> (bytes \<times> entry) list list \<Rightarrow> bool" where
  "levels_on crc xxh lv next_id s ts0 ts1 \<longleftrightarrow>
     list_all2 (table_on crc xxh s 0) (lv_l0 lv) ts0 \<and>
     list_all2 (table_on crc xxh s 1) (lv_l1 lv) ts1 \<and> length (lv_l1 lv) \<le> 1 \<and>
     sorted_wrt (\<lambda>t u. se_id u < se_id t) (lv_l0 lv @ lv_l1 lv) \<and>
     (\<forall>t \<in> set (lv_l0 lv @ lv_l1 lv). se_id t < next_id)"

definition wal_on :: "(bytes \<Rightarrow> u32) \<Rightarrow> wal_writer \<Rightarrow> fs \<Rightarrow> wal_record list \<Rightarrow> bool" where
  "wal_on crc w s rs \<longleftrightarrow>
     bt_get (names s) WAL_FILENAME = Some (w_file w) \<and> content s (w_file w) = log_bytes crc rs \<and>
     (\<forall>r \<in> set rs. valid_record r)"

definition load :: "memtable \<Rightarrow> (bytes \<times> entry) list list \<Rightarrow> nat" where
  "load m ts = table_bound (mt_map m) + sum_list (map table_bound ts)"

text \<open>
  A state is durable when everything a process sees is on stable storage: every file is synced, and
  the directory is, up to snapshots, whose removal the code does not sync.
\<close>

definition durable :: "fs \<Rightarrow> bool" where
  "durable s \<longleftrightarrow> fs_ok (s\<lparr>names := stable_names s\<rparr>) \<and>
     (\<forall>p. p \<notin> range snapshot_filename \<longrightarrow> bt_get (stable_names s) p = bt_get (names s) p) \<and>
     (\<forall>p h. bt_get (names s) p = Some h \<longrightarrow> stable s h = content s h)"

lemma fs_ok_stable [simp]: "fs_ok (s\<lparr>stable := f, names := ns\<rparr>) = fs_ok (s\<lparr>names := ns\<rparr>)"
  by (simp add: fs_ok_def)

lemma durable_synced:
  "fs_ok s \<Longrightarrow> stable_names s = names s \<Longrightarrow> (\<And>p h. bt_get (names s) p = Some h \<Longrightarrow> stable s h = content s h) \<Longrightarrow>
   durable s"
  by (simp add: durable_def)

definition engine_on ::
  "(bytes \<Rightarrow> u32) \<Rightarrow> (bytes \<Rightarrow> 128 word) \<Rightarrow> engine \<Rightarrow> fs \<Rightarrow>
     (bytes \<times> entry) list list \<Rightarrow> (bytes \<times> entry) list list \<Rightarrow> wal_record list \<Rightarrow> bool" where
  "engine_on crc xxh e s ts0 ts1 rs \<longleftrightarrow>
     plan s = [] \<and> fs_ok s \<and> durable s \<and> dir_ok (en_levels e) s \<and>
     levels_on crc xxh (en_levels e) (en_next_sst_id e) s ts0 ts1 \<and>
     wal_on crc (en_writer e) s rs \<and> en_memtable e = replay_all rs mt_new"

text \<open>The abstraction: an open engine with a map, a bound on its data, and a bound on its ids.\<close>

definition engine_rep ::
  "(bytes \<Rightarrow> u32) \<Rightarrow> (bytes \<Rightarrow> 128 word) \<Rightarrow> engine \<Rightarrow> fs \<Rightarrow> (bytes \<Rightarrow> bytes option) \<Rightarrow> nat \<Rightarrow> nat \<Rightarrow> bool" where
  "engine_rep crc xxh e s m N I \<longleftrightarrow>
     (\<exists>ts0 ts1 rs. engine_on crc xxh e s ts0 ts1 rs \<and> m = lsm_map (en_memtable e) (ts0 @ ts1) \<and>
        load (en_memtable e) (ts0 @ ts1) \<le> N) \<and> unat (en_next_sst_id e) \<le> I \<and> \<not> en_closed e"

section \<open>The memtable of a log\<close>

lemma record_fits: "valid_record r \<Longrightarrow> rec_key r \<noteq> [] \<and> fits (rec_key r, record_entry r)"
  by (auto simp: valid_record_def fits_def encoded_entry_size_eq length_entry_enc
      split: record_kind.splits)

lemma replay_entries:
  assumes "\<forall>r \<in> set rs. valid_record r"
  shows "ksorted (mt_map (replay_all rs mt_new)) \<and> entries_ok (mt_map (replay_all rs mt_new))"
  using assms
proof (induction rs rule: rev_induct)
  case Nil
  then show ?case by (simp add: entries_ok_def)
next
  case (snoc r rs)
  then have "rec_key r \<noteq> [] \<and> fits (rec_key r, record_entry r)" by (intro record_fits) simp
  with snoc set_bt_insert [of "mt_map (replay_all rs mt_new)" "rec_key r" "record_entry r"]
  show ?case
    by (auto simp: mt_map_apply_record bt_insert_sorted entries_ok_def simp del: record_entry.simps)
qed

lemma table_bound_insert: "table_bound (bt_insert xs k e) \<le> table_bound xs + (2 * length k + payload_size e + 29)"
  by (induction xs k e rule: bt_insert.induct) auto

section \<open>Lookup\<close>

lemma get_tables_ok:
  assumes "list_all2 (table_on crc xxh s l) ts tss" and "plan s = []"
  shows "get_tables crc xxh ts ky s = (Inr (sst_lookup_of (map_of (concat tss) ky)), s)"
  using assms
proof (induction ts tss rule: list_all2_induct)
  case Nil
  then show ?case by simp
next
  case (Cons t ts es tss)
  then have "sst_get crc xxh (se_reader t) ky s = (Inr (sst_lookup_of (map_of es ky)), s)"
    by (intro sst_get_ok) (simp_all add: table_on_def)
  with Cons show ?case
    by (cases "map_of es ky" rule: visible.cases) (auto simp: map_add_def)
qed

lemma engine_get_ok:
  assumes "engine_on crc xxh e s ts0 ts1 rs" and "\<not> en_closed e"
  shows "engine_get crc xxh ky e s = (Inr (lsm_map (en_memtable e) (ts0 @ ts1) ky), s)"
proof -
  have "get_tables crc xxh (lv_l0 (en_levels e)) ky s = (Inr (sst_lookup_of (map_of (concat ts0) ky)), s)"
    "get_tables crc xxh (lv_l1 (en_levels e)) ky s = (Inr (sst_lookup_of (map_of (concat ts1) ky)), s)"
    using assms(1) by (auto simp: engine_on_def levels_on_def intro: get_tables_ok)
  moreover have "lsm_map (en_memtable e) (ts0 @ ts1) ky =
      (case map_of (mt_map (en_memtable e)) ky of Some x \<Rightarrow> visible (Some x)
       | None \<Rightarrow> (case map_of (concat ts0) ky of Some x \<Rightarrow> visible (Some x)
           | None \<Rightarrow> visible (map_of (concat ts1) ky)))"
    by (simp add: lsm_map_def map_add_def split: option.splits)
  moreover obtain x y z where "map_of (mt_map (en_memtable e)) ky = x" "map_of (concat ts0) ky = y"
    "map_of (concat ts1) ky = z" by blast
  ultimately show ?thesis
    using assms(2)
    by (cases x rule: visible.cases; cases y rule: visible.cases; cases z rule: visible.cases)
       (simp_all add: engine_get_def mt_get_abs mt_abs_def)
qed


section \<open>Frame rules\<close>

text \<open>\<open>keeps_tables s s'\<close>: every table file of \<open>s\<close> is still there, unchanged, in \<open>s'\<close>.\<close>

definition keeps_tables :: "fs \<Rightarrow> fs \<Rightarrow> bool" where
  "keeps_tables s s' \<longleftrightarrow>
     (\<forall>l i h. bt_get (names s) (sst_filename l i) = Some h \<longrightarrow>
        bt_get (names s') (sst_filename l i) = Some h \<and> content s' h = content s h)"

text \<open>
  \<open>keeps_snapshots s s'\<close>: the snapshot files of \<open>s'\<close> are those of \<open>s\<close>, unchanged. What of their names is on
  stable storage may have been synced in between, but is otherwise unchanged too.
\<close>

definition keeps_snapshots :: "fs \<Rightarrow> fs \<Rightarrow> bool" where
  "keeps_snapshots s s' \<longleftrightarrow>
     (\<forall>i. bt_get (names s') (snapshot_filename i) = bt_get (names s) (snapshot_filename i) \<and>
        (\<forall>h. bt_get (names s) (snapshot_filename i) = Some h \<longrightarrow> content s' h = content s h) \<and>
        (bt_get (stable_names s') (snapshot_filename i) = bt_get (stable_names s) (snapshot_filename i) \<or>
         bt_get (stable_names s') (snapshot_filename i) = bt_get (names s) (snapshot_filename i)))"

lemma keeps_snapshots_refl: "keeps_snapshots s s"
  by (simp add: keeps_snapshots_def)

lemma keeps_snapshots_trans: "keeps_snapshots s s' \<Longrightarrow> keeps_snapshots s' s'' \<Longrightarrow> keeps_snapshots s s''"
  unfolding keeps_snapshots_def by metis

lemma table_on_frame: "keeps_tables s s' \<Longrightarrow> table_on crc xxh s l t es \<Longrightarrow> table_on crc xxh s' l t es"
  by (auto simp: table_on_def keeps_tables_def intro: reads_table_frame)

lemma levels_on_frame:
  "keeps_tables s s' \<Longrightarrow> levels_on crc xxh lv i s ts0 ts1 \<Longrightarrow> levels_on crc xxh lv i s' ts0 ts1"
  by (auto simp: levels_on_def intro: list_all2_mono table_on_frame)

text \<open>What an engine needs of a later state: its own files as they were, and everything on stable storage.\<close>

lemma engine_on_frame:
  assumes e: "engine_on crc xxh e s ts0 ts1 rs"
    and s': "plan s' = []" "fs_ok s'" "durable s'"
    and same: "\<And>p. p \<notin> range snapshot_filename \<Longrightarrow> bt_get (names s') p = bt_get (names s) p"
      "\<And>p h. bt_get (names s) p = Some h \<Longrightarrow> content s' h = content s h"
  shows "engine_on crc xxh e s' ts0 ts1 rs"
proof -
  have notin: "sst_filename l i \<notin> range snapshot_filename" "WAL_FILENAME \<notin> range snapshot_filename" for l i by auto
  have "keeps_tables s s'" using same notin by (simp add: keeps_tables_def)
  then have "levels_on crc xxh (en_levels e) (en_next_sst_id e) s' ts0 ts1"
    by (rule levels_on_frame) (use e in \<open>simp add: engine_on_def\<close>)
  moreover have "wal_on crc (en_writer e) s' rs"
    using e same(1) [OF notin(2)] same(2) [of WAL_FILENAME "w_file (en_writer e)"]
    by (simp add: engine_on_def wal_on_def)
  moreover have "dir_ok (en_levels e) s'"
    using e same(1) unfolding engine_on_def dir_ok_def by metis
  ultimately show ?thesis using e s' by (simp add: engine_on_def)
qed

lemma wal_append_engine:
  assumes e: "engine_on crc xxh e s ts0 ts1 rs" and r: "valid_record r"
    and e': "en_writer e' = en_writer e\<lparr>w_scratch := b\<rparr>" "en_levels e' = en_levels e"
      "en_next_sst_id e' = en_next_sst_id e" "en_memtable e' = apply_record r (en_memtable e)"
    and s': "names s' = names s" "next_ino s' = next_ino s" "plan s' = []"
      "content s' = (content s)(w_file (en_writer e) := content s (w_file (en_writer e)) @ frame crc r)"
      "stable_names s' = stable_names s"
      "stable s' = (stable s)(w_file (en_writer e) := content s' (w_file (en_writer e)))"
  shows "engine_on crc xxh e' s' ts0 ts1 (rs @ [r])" and "keeps_snapshots s s'"
proof -
  have ok: "fs_ok s" and wal: "bt_get (names s) WAL_FILENAME = Some (w_file (en_writer e))"
    using e by (simp_all add: engine_on_def wal_on_def)
  have "keeps_tables s s'"
    unfolding keeps_tables_def
  proof (intro allI impI conjI)
    fix l i h
    assume g: "bt_get (names s) (sst_filename l i) = Some h"
    then show "bt_get (names s') (sst_filename l i) = Some h" by (simp add: s')
    have "w_file (en_writer e) \<noteq> h" using fs_ok_inj [OF ok wal g] by simp
    then show "content s' h = content s h" by (simp add: s')
  qed
  then have "levels_on crc xxh (en_levels e) (en_next_sst_id e) s' ts0 ts1"
    by (rule levels_on_frame) (use e in \<open>simp add: engine_on_def\<close>)
  moreover have "fs_ok s'" by (rule fs_ok_same [OF ok s'(1,2)])
  moreover have "durable s'"
    using e s' by (auto simp: engine_on_def durable_def fs_ok_def)
  ultimately show "engine_on crc xxh e' s' ts0 ts1 (rs @ [r])"
    using e r e' s'(1-4) by (simp add: engine_on_def dir_ok_def wal_on_def log_bytes_snoc)
  show "keeps_snapshots s s'"
    unfolding keeps_snapshots_def
  proof (intro allI conjI impI)
    fix i h
    show "bt_get (names s') (snapshot_filename i) = bt_get (names s) (snapshot_filename i)" by (simp add: s')
    assume "bt_get (names s) (snapshot_filename i) = Some h"
    from fs_ok_inj [OF ok wal this] show "content s' h = content s h" by (simp add: s')
  qed (simp add: s')
qed

section \<open>Flush\<close>

lemma fs_rename_fresh:
  assumes "fs_ok s" and "bt_get (names s) tmp = None"
  shows "bt_insert (bt_remove (bt_insert (names s) tmp h) tmp) path h = bt_insert (names s) path h"
  using assms by (simp add: bt_remove_insert fs_ok_sorted bt_get_map_of)

text \<open>Writing a table under a temporary name and publishing it.\<close>

lemma write_publish_ok:
  assumes s: "plan s = []" "fs_ok s" and tmp: "bt_get (names s) tmp = None" "tmp \<noteq> path"
    and s1: "s1 = s\<lparr>names := bt_insert (names s) tmp (next_ino s),
      content := (content s)(next_ino s := bs), stable := (stable s)(next_ino s := bs),
      next_ino := Suc (next_ino s)\<rparr>"
    and tab: "sst_file crc xxh es bs" and es: "entries_ok es"
  shows "\<exists>rd s2. publish crc tmp path s1 = (Inr rd, s2) \<and> plan s2 = [] \<and>
    names s2 = bt_insert (names s) path (next_ino s) \<and> stable_names s2 = names s2 \<and> content s2 = (content s)(next_ino s := bs) \<and>
    next_ino s2 = Suc (next_ino s) \<and> fs_ok s2 \<and> (durable s \<longrightarrow> durable s2) \<and>
    (\<forall>l t. path = sst_filename l (se_id t) \<longrightarrow> se_reader t = rd \<longrightarrow> table_on crc xxh s2 l t es)"
proof -
  define s2 where "s2 = s1\<lparr>names := bt_insert (names s) path (next_ino s),
    stable_names := bt_insert (names s) path (next_ino s)\<rparr>"
  have f: "plan s1 = []" "bt_get (names s1) tmp = Some (next_ino s)"
    using s by (simp_all add: s1 bt_get_map_of)
  have names2: "names s2 = bt_insert (names s) path (next_ino s)" by (simp add: s2_def)
  have p2: "bt_get (names s2) path = Some (next_ino s)" by (simp add: names2 bt_get_map_of)
  have ok2: "fs_ok s2" by (rule fs_ok_fresh [OF s(2) names2]) (simp add: s2_def s1)
  have "sst_file crc xxh es (content s2 (next_ino s))" "plan s2 = []"
    using tab s by (simp_all add: s2_def s1)
  from sst_open_ok [OF this(1) p2 this(2)] obtain rd where
    rd: "sst_open crc path s2 = (Inr rd, s2)" "sr_file rd = next_ino s" "reads_table crc xxh rd s2 es"
    by blast
  have "rename_file tmp path s1 = (Inr (), s1\<lparr>names := bt_insert (names s) path (next_ino s)\<rparr>)"
    using f fs_rename_fresh [OF s(2) tmp(1)] by (simp add: rename_file_ok s1)
  then have "publish crc tmp path s1 = (Inr rd, s2)"
    using f rd(1) by (simp add: publish_def sync_dir_ok s2_def)
  moreover have "table_on crc xxh s2 l t es" if "path = sst_filename l (se_id t)" "se_reader t = rd" for l t
    using that rd p2 es by (simp add: table_on_def)
  moreover have "durable s2" if "durable s"
    using that fs_ok_names_less [OF s(2)]
    by (intro durable_synced [OF ok2]) (auto simp: durable_def s2_def s1 bt_get_map_of split: if_splits)
  ultimately show ?thesis
    using ok2 s by (intro exI [of _ rd] exI [of _ s2]) (simp add: s2_def s1)
qed

lemma write_table_ok:
  assumes "plan s = []" and "bt_get (names s) tmp = None" and "ksorted (mt_map m)"
    and "entries_ok (mt_map m)" and "table_bound (mt_map m) < 2 ^ 62"
  shows "\<exists>bs. write_table crc xxh opts tmp m s =
      (Inr (), s\<lparr>names := bt_insert (names s) tmp (next_ino s),
        content := (content s)(next_ino s := bs), stable := (stable s)(next_ino s := bs),
        next_ino := Suc (next_ino s)\<rparr>) \<and> sst_file crc xxh (mt_map m) bs"
  using sst_write_ok [OF assms(1,2) _ assms(3,5), of "mt_len m" "op_bloom_bits_per_key opts" crc xxh]
    assms(4)
  by (auto simp: write_table_def mt_iter_def entries_ok_def)

lemma dir_ok_fresh:
  assumes "dir_ok lv s" and "levels_on crc xxh lv i s ts0 ts1" and "i \<le> j" and "l \<le> 1"
  shows "bt_get (names s) (sst_filename l j) = None"
    and "bt_get (names s) (sst_filename l j @ TMP_SUFFIX) = None"
proof -
  have "j \<notin> se_id ` set (lv_l0 lv)" "j \<notin> se_id ` set (lv_l1 lv)"
    using assms(2,3) by (force simp: levels_on_def)+
  then show "bt_get (names s) (sst_filename l j) = None"
    using assms(1,4) unfolding dir_ok_def by (cases "l = 0") fastforce+
  show "bt_get (names s) (sst_filename l j @ TMP_SUFFIX) = None"
    using assms(1) unfolding dir_ok_def by (metis (no_types, lifting) filename_nonempty(1)
        filenames_distinct(7,9,11) imageE)
qed


text \<open>The state after a flush: one more L0 table, an empty memtable and an empty log.\<close>

lemma rotate_wal_ok:
  assumes "plan s = []" and "fs_ok s" and "bt_get (names s) WAL_FILENAME = Some h"
  shows "\<exists>w s'. rotate_wal s = (Inr w, s') \<and> plan s' = [] \<and> fs_ok s' \<and> keeps_tables s s' \<and>
    keeps_snapshots s s' \<and> (durable s \<longrightarrow> durable s') \<and> wal_on crc w s' [] \<and> (\<forall>p. p \<noteq> WAL_FILENAME \<longrightarrow> bt_get (names s') p = bt_get (names s) p)"
proof -
  define s1 where "s1 = s\<lparr>names := bt_remove (names s) WAL_FILENAME\<rparr>"
  have ok1: "fs_ok s1" by (rule fs_ok_remove [OF assms(2)]) (simp_all add: s1_def)
  have none: "bt_get (names s1) WAL_FILENAME = None" "plan s1 = []"
    using assms by (simp_all add: s1_def bt_get_map_of fs_ok_sorted)
  have rot: "rotate_wal s = wal_open WAL_FILENAME s1"
    using assms by (simp add: rotate_wal_def remove_file_ok s1_def)
  have keep: "keeps_tables s (snd (wal_open WAL_FILENAME s1))"
    using assms(2) none unfolding wal_open_new [OF none(2,1)] keeps_tables_def
    by (auto simp: s1_def bt_get_map_of fs_ok_sorted dest: fs_ok_names_less [unfolded bt_get_map_of])
  have snap: "keeps_snapshots s (snd (wal_open WAL_FILENAME s1))"
    using assms(2) none unfolding wal_open_new [OF none(2,1)] keeps_snapshots_def
    by (auto simp: s1_def bt_get_map_of fs_ok_sorted dest: fs_ok_names_less [unfolded bt_get_map_of])
  have dur: "durable (snd (wal_open WAL_FILENAME s1))" if "durable s"
    unfolding wal_open_new [OF none(2,1)] snd_conv
  proof (rule durable_synced, goal_cases)
    case 1
    show ?case by (rule fs_ok_fresh [OF ok1]) simp_all
  next
    case (3 p h)
    with that assms(2) show ?case
      by (auto simp: durable_def s1_def bt_get_map_of fs_ok_sorted
          dest: fs_ok_names_less [unfolded bt_get_map_of] split: if_splits)
  qed simp
  show ?thesis
    unfolding rot using keep snap dur unfolding wal_open_new [OF none(2,1)]
    using none fs_ok_fresh [OF ok1]
    by (auto simp: wal_on_def log_bytes_Nil s1_def bt_get_map_of assms(2) fs_ok_sorted)
qed

lemma rotate_wal_on:
  assumes e: "engine_on crc xxh e s ts0 ts1 rs"
  shows "\<exists>w s'. rotate_wal s = (Inr w, s') \<and> keeps_snapshots s s' \<and>
    engine_on crc xxh (e\<lparr>en_writer := w, en_memtable := mt_new\<rparr>) s' ts0 ts1 []"
proof -
  have st: "plan s = []" "fs_ok s" "durable s" and dir: "dir_ok (en_levels e) s"
    and lv: "levels_on crc xxh (en_levels e) (en_next_sst_id e) s ts0 ts1"
    and wal: "bt_get (names s) WAL_FILENAME = Some (w_file (en_writer e))"
    using e by (simp_all add: engine_on_def wal_on_def)
  from rotate_wal_ok [OF st(1,2) wal, of crc] obtain w s' where
    rot: "rotate_wal s = (Inr w, s')" and s': "plan s' = []" "fs_ok s'" "keeps_tables s s'"
      "wal_on crc w s' []" "\<And>p. p \<noteq> WAL_FILENAME \<Longrightarrow> bt_get (names s') p = bt_get (names s) p"
      "durable s'" "keeps_snapshots s s'" using st(3) by blast
  have "dir_ok (en_levels e) s'"
    using dir s'(5) unfolding dir_ok_def by metis
  moreover have "levels_on crc xxh (en_levels e) (en_next_sst_id e) s' ts0 ts1" by (rule levels_on_frame [OF s'(3) lv])
  ultimately have "engine_on crc xxh (e\<lparr>en_writer := w, en_memtable := mt_new\<rparr>) s' ts0 ts1 []"
    using s'(1,2,4,6) by (simp add: engine_on_def)
  with rot s'(7) show ?thesis by blast
qed

text \<open>The first half of a flush: the table is on disk, log and memtable are not yet reset.\<close>

definition with_table :: "sst_reader \<Rightarrow> engine \<Rightarrow> engine" where
  "with_table rd e = e\<lparr>en_levels := en_levels e\<lparr>lv_l0 := \<lparr>se_id = en_next_sst_id e, se_reader = rd\<rparr> # lv_l0 (en_levels e)\<rparr>,
     en_next_sst_id := en_next_sst_id e + 1\<rparr>"

lemma with_table_simps [simp]:
  "en_writer (with_table rd e) = en_writer e" "en_memtable (with_table rd e) = en_memtable e"
  "en_next_sst_id (with_table rd e) = en_next_sst_id e + 1" "en_closed (with_table rd e) = en_closed e"
  "lv_l0 (en_levels (with_table rd e)) = \<lparr>se_id = en_next_sst_id e, se_reader = rd\<rparr> # lv_l0 (en_levels e)"
  "lv_l1 (en_levels (with_table rd e)) = lv_l1 (en_levels e)"
  by (simp_all add: with_table_def)

lemma flush_inner_steps:
  "\<not> mt_is_empty (en_memtable e) \<Longrightarrow> flush_inner crc xxh opts e s =
     (let path = sst_filename 0 (en_next_sst_id e)
      in case write_table crc xxh opts (path @ TMP_SUFFIX) (en_memtable e) s of
           (Inl err, s) \<Rightarrow> (Inl err, e, s)
         | (Inr _, s) \<Rightarrow>
             (case publish crc (path @ TMP_SUFFIX) path s of
                (Inl err, s) \<Rightarrow> (Inl err, e, s)
              | (Inr rd, s) \<Rightarrow>
                  (case rotate_wal s of
                     (Inl err, s) \<Rightarrow> (Inl err, with_table rd e, s)
                   | (Inr w, s) \<Rightarrow> (Inr (), (with_table rd e)\<lparr>en_writer := w, en_memtable := mt_new\<rparr>, s))))"
  by (simp add: flush_inner_def with_table_def Let_def split: prod.split sum.split)

lemma flush_published:
  assumes e: "engine_on crc xxh e s ts0 ts1 rs" and size: "table_bound (mt_map (en_memtable e)) < 2 ^ 62"
    and ids: "unat (en_next_sst_id e) + 1 < 2 ^ 64"
  shows "\<exists>rd s1 s2. write_table crc xxh opts (sst_filename 0 (en_next_sst_id e) @ TMP_SUFFIX) (en_memtable e) s = (Inr (), s1) \<and>
    publish crc (sst_filename 0 (en_next_sst_id e) @ TMP_SUFFIX) (sst_filename 0 (en_next_sst_id e)) s1 = (Inr rd, s2) \<and>
    engine_on crc xxh (with_table rd e) s2 (mt_map (en_memtable e) # ts0) ts1 rs \<and> keeps_snapshots s s2"
proof -
  let ?m = "mt_map (en_memtable e)" and ?i = "en_next_sst_id e" and ?lv = "en_levels e"
  let ?path = "sst_filename 0 ?i" and ?tmp = "sst_filename 0 ?i @ TMP_SUFFIX"
  have st: "plan s = []" "fs_ok s" and dur: "durable s" and dir: "dir_ok ?lv s"
    and lv: "levels_on crc xxh ?lv ?i s ts0 ts1" and wal: "wal_on crc (en_writer e) s rs"
    and mem: "en_memtable e = replay_all rs mt_new"
    using e by (simp_all add: engine_on_def)
  have m: "ksorted ?m" "entries_ok ?m"
    using replay_entries [of rs] wal by (simp_all add: mem wal_on_def)
  note fresh = dir_ok_fresh [OF dir lv order_refl, of 0, simplified]
  obtain bs where wr: "write_table crc xxh opts ?tmp (en_memtable e) s = (Inr (),
      s\<lparr>names := bt_insert (names s) ?tmp (next_ino s), content := (content s)(next_ino s := bs),
        stable := (stable s)(next_ino s := bs), next_ino := Suc (next_ino s)\<rparr>)"
    and tab: "sst_file crc xxh ?m bs"
    using write_table_ok [OF st(1) fresh(2) m size] by blast
  have "?tmp \<noteq> ?path" by (simp add: TMP_SUFFIX_def)
  from write_publish_ok [OF st fresh(2) this refl tab m(2)] obtain rd s2 where
    pub: "publish crc ?tmp ?path (snd (write_table crc xxh opts ?tmp (en_memtable e) s)) = (Inr rd, s2)"
    and s2: "plan s2 = []" "names s2 = bt_insert (names s) ?path (next_ino s)"
      "content s2 = (content s)(next_ino s := bs)" "fs_ok s2" "durable s2" "stable_names s2 = names s2"
    and new: "\<And>l t. ?path = sst_filename l (se_id t) \<Longrightarrow> se_reader t = rd \<Longrightarrow> table_on crc xxh s2 l t ?m"
    unfolding wr snd_conv using dur by blast
  have keep2: "keeps_tables s s2"
    unfolding keeps_tables_def s2(2,3) using fresh(1) fs_ok_names_less [OF st(2)]
    by (fastforce simp: bt_get_map_of)
  have up: "unat (?i + 1) = unat ?i + 1"
    using ids by (simp add: unat_word_ariths)
  have less: "?i < ?i + 1" and mono: "a < ?i \<Longrightarrow> a < ?i + 1" for a
    by (simp_all add: word_less_nat_alt up)
  let ?e = "with_table rd e"
  have lv2: "levels_on crc xxh (en_levels ?e) (?i + 1) s2 (?m # ts0) ts1"
    using levels_on_frame [OF keep2 lv] less mono new [of 0 "\<lparr>se_id = ?i, se_reader = rd\<rparr>"]
    by (auto simp: levels_on_def)
  have "dir_ok (en_levels ?e) s2"
    unfolding dir_ok_def
  proof (intro allI impI)
    fix p
    assume p: "bt_get (names s2) p \<noteq> None"
    show "p = WAL_FILENAME \<or> p \<in> sst_filename 0 ` se_id ` set (lv_l0 (en_levels ?e)) \<or>
        p \<in> sst_filename 1 ` se_id ` set (lv_l1 (en_levels ?e)) \<or> p \<in> range snapshot_filename"
    proof (cases "p = ?path")
      case False
      then have "bt_get (names s) p \<noteq> None" using p by (simp add: s2 bt_get_map_of)
      with dir show ?thesis unfolding dir_ok_def by simp blast
    qed simp
  qed
  moreover have "wal_on crc (en_writer e) s2 rs"
    using wal fs_ok_names_less [OF st(2)] by (fastforce simp: wal_on_def s2 bt_get_map_of)
  ultimately have "engine_on crc xxh ?e s2 (?m # ts0) ts1 rs"
    using lv2 s2 mem by (simp add: engine_on_def)
  moreover have "keeps_snapshots s s2"
    unfolding keeps_snapshots_def s2(6,2,3) using fs_ok_names_less [OF st(2)] by (fastforce simp: bt_get_map_of)
  ultimately show ?thesis using wr pub by simp
qed

lemma flush_inner_ok:
  assumes e: "engine_on crc xxh e s ts0 ts1 rs" and size: "table_bound (mt_map (en_memtable e)) < 2 ^ 62"
    and ids: "unat (en_next_sst_id e) + 1 < 2 ^ 64"
  shows "if mt_is_empty (en_memtable e)
    then \<exists>s'. flush_inner crc xxh opts e s = (Inr (), e, s') \<and> engine_on crc xxh e s' ts0 ts1 rs \<and>
      keeps_snapshots s s'
    else \<exists>e' s'. flush_inner crc xxh opts e s = (Inr (), e', s') \<and>
      engine_on crc xxh e' s' (mt_map (en_memtable e) # ts0) ts1 [] \<and> keeps_snapshots s s' \<and>
      en_memtable e' = mt_new \<and> en_next_sst_id e' = en_next_sst_id e + 1 \<and> en_closed e' = en_closed e"
proof (cases "mt_is_empty (en_memtable e)")
  case True
  have "engine_on crc xxh e (s\<lparr>stable := (stable s)(w_file (en_writer e) := content s (w_file (en_writer e)))\<rparr>)
      ts0 ts1 rs"
    using e fs_ok_same [of s "s\<lparr>stable := _\<rparr>"] levels_on_frame [of s "s\<lparr>stable := _\<rparr>"]
    by (simp add: engine_on_def dir_ok_def wal_on_def keeps_tables_def durable_def)
  with True e show ?thesis
    by (simp add: flush_inner_def wal_sync_ok engine_on_def keeps_snapshots_def)
next
  case False
  from flush_published [OF e size ids, of opts] obtain rd s1 s2 where
    1: "write_table crc xxh opts (sst_filename 0 (en_next_sst_id e) @ TMP_SUFFIX) (en_memtable e) s = (Inr (), s1)"
      "publish crc (sst_filename 0 (en_next_sst_id e) @ TMP_SUFFIX) (sst_filename 0 (en_next_sst_id e)) s1 = (Inr rd, s2)"
      "engine_on crc xxh (with_table rd e) s2 (mt_map (en_memtable e) # ts0) ts1 rs" "keeps_snapshots s s2" by blast
  from rotate_wal_on [OF 1(3)] obtain w s3 where
    2: "rotate_wal s2 = (Inr w, s3)" "keeps_snapshots s2 s3"
      "engine_on crc xxh ((with_table rd e)\<lparr>en_writer := w, en_memtable := mt_new\<rparr>) s3 (mt_map (en_memtable e) # ts0) ts1 []"
    by blast
  let ?e = "(with_table rd e)\<lparr>en_writer := w, en_memtable := mt_new\<rparr>"
  have "flush_inner crc xxh opts e s = (Inr (), ?e, s3)"
    unfolding flush_inner_steps [OF False] using 1(1,2) 2(1) by (simp add: Let_def)
  moreover have "keeps_snapshots s s3" using 1(4) 2(2) by (rule keeps_snapshots_trans)
  ultimately show ?thesis using 2(3) False by simp
qed

end
