(* ===== verification/Compaction.thy ===== *)
theory Compaction
  imports Engine_Inv
begin

text \<open>
  Compaction (\<^verbatim>\<open>compact_l0_l1\<close> of \<^verbatim>\<open>src/src/engine.rs\<close>): the merge of all tables, written to
  one new table without tombstones, leaves the engine's map unchanged.
\<close>

section \<open>Merging the levels\<close>

text \<open>With ids in descending order, the newest source that holds a key is the first one.\<close>

lemma newest_at_Cons:
  assumes "\<forall>(q', xs') \<in> set ss. q' < q"
  shows "newest_at ((q, xs) # ss) ky e \<longleftrightarrow>
    (case map_of xs ky of Some e' \<Rightarrow> e' = e | None \<Rightarrow> newest_at ss ky e)"
proof (cases "map_of xs ky")
  case None
  then show ?thesis unfolding newest_at_def by (auto split: prod.splits)
next
  case (Some v)
  have "\<not> q \<le> q'" if "(q', xs') \<in> set ss" for q' xs'
    using assms that by auto
  moreover have "q' \<le> q" if "(q', xs') \<in> set ss" for q' xs'
    using assms that by fastforce
  ultimately show ?thesis
    using Some unfolding newest_at_def by (auto split: prod.splits)
qed

lemma newest_layers:
  "length qs = length xss \<Longrightarrow> sorted_wrt (\<lambda>a b. b < a) qs \<Longrightarrow>
   newest_at (zip qs xss) ky e \<longleftrightarrow> map_of (concat xss) ky = Some e"
proof (induction qs xss rule: list_induct2)
  case Nil
  then show ?case by (simp add: newest_at_def)
next
  case (Cons q qs xs xss)
  have "\<forall>(q', xs') \<in> set (zip qs xss). q' < q"
    using Cons.prems by (auto dest: set_zip_leftD)
  then show ?case
    using Cons by (simp add: newest_at_Cons map_add_def split: option.splits)
qed

definition layers_merge :: "(bytes \<times> entry) list list \<Rightarrow> (bytes \<times> entry) list" where
  "layers_merge xss = bt.insert_all [] (concat (rev xss))"

lemma map_of_rev_layers:
  "\<forall>xs \<in> set xss. ksorted xs \<Longrightarrow> map_of (rev (concat (rev xss))) = map_of (concat xss)"
proof (induction xss)
  case (Cons xs xss)
  have "map_of (rev xs) = map_of xs"
    using Cons.prems by (intro map_of_inject_set [THEN iffD2]) (auto simp: ksorted_distinct simp flip: rev_map)
  with Cons show ?case by simp
qed simp

lemma layers_merge_ok:
  assumes "\<forall>xs \<in> set xss. ksorted xs"
  shows "ksorted (layers_merge xss)" and "map_of (layers_merge xss) = map_of (concat xss)"
proof -
  show "ksorted (layers_merge xss)"
    unfolding layers_merge_def by (rule bt.wf_insert_all) simp
  have "map_of (layers_merge xss) k = map_of (rev (concat (rev xss))) k" for k
    using bt.get_insert_all [of "[]" "concat (rev xss)" k]
    by (simp add: layers_merge_def bt_get_map_of split: option.splits)
  then show "map_of (layers_merge xss) = map_of (concat xss)"
    using map_of_rev_layers [OF assms] by (simp add: fun_eq_iff)
qed

lemma insert_all_entries:
  "entries_ok xs \<Longrightarrow> entries_ok ys \<Longrightarrow> entries_ok (bt.insert_all xs ys)"
proof (induction ys arbitrary: xs)
  case Nil
  then show ?case by (simp add: bt.insert_all_def)
next
  case (Cons y ys)
  obtain k e where y: "y = (k, e)" by (cases y)
  have "entries_ok (bt_insert xs k e)"
    using Cons.prems set_bt_insert [of xs k e] by (auto simp: entries_ok_def y)
  moreover have "entries_ok ys" using Cons.prems by (simp add: entries_ok_def)
  ultimately show ?case using Cons.IH [of "bt_insert xs k e"] by (simp add: bt.insert_all_def y)
qed

lemma insert_all_bound: "table_bound (bt.insert_all xs ys) \<le> table_bound xs + table_bound ys"
proof (induction ys arbitrary: xs)
  case Nil
  then show ?case by (simp add: bt.insert_all_def)
next
  case (Cons y ys)
  obtain k e where y: "y = (k, e)" by (cases y)
  from Cons.IH [of "bt_insert xs k e"] table_bound_insert [of xs k e] show ?case
    by (simp add: bt.insert_all_def y)
qed

lemma table_bound_concat: "table_bound (concat (rev xss)) = sum_list (map table_bound xss)"
  by (induction xss) simp_all

lemma layers_merge_bound: "table_bound (layers_merge xss) \<le> sum_list (map table_bound xss)"
  using insert_all_bound [of "[]" "concat (rev xss)"] by (simp add: layers_merge_def table_bound_concat)

lemma layers_merge_entries: "\<forall>xs \<in> set xss. entries_ok xs \<Longrightarrow> entries_ok (layers_merge xss)"
  unfolding layers_merge_def by (rule insert_all_entries) (auto simp: entries_ok_def)

section \<open>Dropping tombstones\<close>

definition live :: "(bytes \<times> entry) list \<Rightarrow> (bytes \<times> entry) list" where
  "live es = [ke \<leftarrow> es. snd ke \<noteq> Tombstone]"

lemma live_ok:
  assumes "ksorted es"
  shows "ksorted (live es)" and "shown (map_of (live es) ky) = shown (map_of es ky)"
proof -
  show "ksorted (live es)" using assms by (induction es) (auto simp: live_def)
  show "shown (map_of (live es) ky) = shown (map_of es ky)"
    using assms
  proof (induction es)
    case (Cons x es)
    obtain k e where x: "x = (k, e)" by (cases x)
    have "map_of (live es) k = None"
      using Cons.prems by (force simp: x live_def map_of_eq_None_iff)
    with Cons show ?case by (cases e) (auto simp: x live_def)
  qed (simp add: live_def)
qed

lemma live_bound: "table_bound (live es) \<le> table_bound es"
  by (induction es) (auto simp: live_def)

lemma live_entries: "entries_ok es \<Longrightarrow> entries_ok (live es)"
  by (auto simp: entries_ok_def live_def)

lemma live_eq_Nil: "ksorted es \<Longrightarrow> live es = [] \<Longrightarrow> shown (map_of es ky) = None"
  using live_ok(2) [of es ky] by simp

section \<open>The loop\<close>

context entry_source
begin

lemma compact_loop_ok:
  assumes "merge_on R mg s full {}" and "merged (zip (mg_seqs mg) full) es"
    and "writer_on crc xxh s0 w s bss cur" and "plan s0 = []" and "sw_file w \<notin> R"
    and "entries_ok es" and "ksorted (concat bss @ cur @ live es)"
  shows "\<exists>w' s' bss' cur'. compact_loop nxt crc xxh mg w b s = Some (Inr (b \<or> live es \<noteq> []), w', s') \<and>
    writer_on crc xxh s0 w' s' bss' cur' \<and> concat bss' @ cur' = concat bss @ cur @ live es \<and>
    sw_file w' = sw_file w"
  using assms
proof (induction es arbitrary: mg full w s bss cur b)
  case Nil
  then show ?case
    using merge_next_ok [OF Nil(1,2)] by (subst compact_loop.simps) (auto simp: live_def)
next
  case (Cons x es)
  obtain ky e where x: "x = (ky, e)" by (cases x)
  from merge_next_ok [OF Cons.prems(1,2)] obtain mg1 full1 where
    nx: "merge_next nxt mg s = Some (Some (Inr (ky, e)), mg1, s)"
    and m1: "merge_on R mg1 s full1 {}" "merged (zip (mg_seqs mg1) full1) es" by (auto simp: x)
  have ok: "entries_ok es" "ky \<noteq> []" "fits (ky, e)" using Cons.prems(6) by (simp_all add: x entries_ok_def)
  show ?case
  proof (cases "e = Tombstone")
    case True
    then have "live (x # es) = live es" by (simp add: live_def x)
    with Cons.IH [OF m1 Cons.prems(3-5) ok(1)] Cons.prems(7) True nx show ?thesis
      by (subst compact_loop.simps) simp
  next
    case False
    then have live: "live (x # es) = (ky, e) # live es" by (simp add: live_def x)
    have "\<forall>k \<in> fst ` set (concat bss @ cur). k < ky"
      using Cons.prems(7) by (auto simp: live sorted_wrt_append)
    from sst_add_ok [OF Cons.prems(3,4) ok(2,3) this] obtain w1 s1 bss1 cur1 where
      add: "sst_add crc xxh ky e w s = (Inr (), w1, s1)"
      and w1: "writer_on crc xxh s0 w1 s1 bss1 cur1" "concat bss1 @ cur1 = concat bss @ cur @ [(ky, e)]"
        "sw_file w1 = sw_file w" by blast
    have "plan s1 = []" "\<forall>h \<in> R. content s1 h = content s h"
      using w1 Cons.prems(3-5) by (auto simp: writer_on_def)
    from merge_on_frame [OF m1(1) this] have m: "merge_on R mg1 s1 full1 {}" .
    have es1: "concat bss1 @ cur1 @ live es = concat bss @ cur @ live (x # es)"
      using w1(2) unfolding live by (metis append.assoc append_Cons append_Nil)
    have "sw_file w1 \<notin> R" "ksorted (concat bss1 @ cur1 @ live es)"
      using Cons.prems(5,7) w1(3) es1 by simp_all
    from Cons.IH [OF m m1(2) w1(1) Cons.prems(4) this(1) ok(1) this(2), of True] w1(3) es1 obtain w' s' bss' cur'
      where "compact_loop nxt crc xxh mg1 w1 True s1 = Some (Inr True, w', s')"
        "writer_on crc xxh s0 w' s' bss' cur'" "concat bss' @ cur' = concat bss @ cur @ live (x # es)"
        "sw_file w' = sw_file w" by auto
    with nx add False live show ?thesis
      by (subst compact_loop.simps) (auto simp del: concat_append)
  qed
qed

end


section \<open>Removing the inputs\<close>

lemma remove_all_state:
  "plan s = [] \<Longrightarrow> remove_all ps s = s\<lparr>names := foldl bt_remove (names s) ps\<rparr>"
  by (induction ps arbitrary: s) (simp_all add: remove_file_state)

lemma foldl_remove:
  "ksorted ns \<Longrightarrow> ksorted (foldl bt_remove ns ps) \<and>
     map_of (foldl bt_remove ns ps) = map_of ns |` (- set ps)"
  by (induction ps arbitrary: ns) (auto simp: bt_remove_sorted restrict_map_def fun_eq_iff)

lemma fs_ok_remove_all:
  assumes "fs_ok s" and "names s' = foldl bt_remove (names s) ps" and "next_ino s' = next_ino s"
  shows "fs_ok s'"
  using assms foldl_remove [of "names s" ps]
  by (auto simp: fs_ok_def bt_get_map_of restrict_map_def split: if_splits)

lemma input_paths_set: "set (input_paths ids) = (\<Union>i \<in> set ids. {sst_filename 0 i, sst_filename 1 i})"
  by (auto simp: input_paths_def)

section \<open>Compaction keeps the map\<close>

lemma table_iter_ok:
  assumes "table_on crc xxh s l t es" and "plan s = []"
  shows "iter_on crc (sst_reader_iter (se_reader t)) s es"
  using assms by (intro sst_reader_iter_on [where xxh = xxh]) (simp_all add: table_on_def)

lemma tables_props:
  "list_all2 (table_on crc xxh s l) ts tss \<Longrightarrow> (\<forall>es \<in> set tss. ksorted es \<and> entries_ok es)"
  by (auto simp: list_all2_conv_all_nth in_set_conv_nth table_on_def reads_table_def)

lemma tables_names:
  "list_all2 (table_on crc xxh s l) ts tss \<Longrightarrow> t \<in> set ts \<Longrightarrow>
   bt_get (names s) (sst_filename l (se_id t)) = Some (sr_file (se_reader t))"
  by (auto simp: list_all2_conv_all_nth in_set_conv_nth table_on_def)

lemma distinct_desc: "sorted_wrt (\<lambda>a b. b < a) (qs :: u64 list) \<Longrightarrow> distinct qs"
  by (induction qs) auto

text \<open>The sources of a compaction: every table of both levels, L1 first.\<close>

lemma compact_sources:
  assumes lv: "levels_on crc xxh lv i s ts0 ts1" and s: "plan s = []" "fs_ok s"
  defines "tables \<equiv> lv_l1 lv @ lv_l0 lv"
  defines "R \<equiv> (\<lambda>t. sr_file (se_reader t)) ` set tables"
  shows "\<exists>mg. merge_new (sst_next crc) (map (\<lambda>t. (se_id t, sst_reader_iter (se_reader t))) tables) s = (Inr mg, s) \<and>
      sst_source.merge_on crc R mg s (ts1 @ ts0) {} \<and>
      merged (zip (mg_seqs mg) (ts1 @ ts0)) (layers_merge (ts0 @ ts1))"
    and "\<forall>h \<in> R. h < next_ino s"
proof -
  let ?srcs = "map (\<lambda>t. (se_id t, sst_reader_iter (se_reader t))) tables"
  have l: "list_all2 (table_on crc xxh s 0) (lv_l0 lv) ts0" "list_all2 (table_on crc xxh s 1) (lv_l1 lv) ts1"
    and desc: "sorted_wrt (\<lambda>t u. se_id u < se_id t) (lv_l0 lv @ lv_l1 lv)"
    using lv by (simp_all add: levels_on_def)
  have "list_all2 (\<lambda>t es. iter_on crc (sst_reader_iter (se_reader t)) s es) tables (ts1 @ ts0)"
    unfolding tables_def
    using l by (intro list_all2_appendI) (auto intro: list_all2_mono table_iter_ok s)
  then have srcs: "list_all2 (\<lambda>(q, it) xs. iter_on crc it s xs \<and> it_file it \<in> R) ?srcs (ts1 @ ts0)"
    by (auto simp: list_all2_conv_all_nth sst_reader_iter_def R_def)
  have desc_ids: "sorted_wrt (\<lambda>a b. b < a) (map se_id (lv_l0 lv @ lv_l1 lv))"
    using desc by (simp only: sorted_wrt_map)
  then have dist: "distinct (map fst ?srcs)"
  proof -
    have "distinct (map se_id (lv_l0 lv @ lv_l1 lv))"
      by (rule distinct_desc [OF desc_ids])
    then show ?thesis by (auto simp: tables_def comp_def)
  qed
  have props: "\<forall>xs \<in> set (ts1 @ ts0). ksorted xs" using l tables_props by fastforce
  then have props': "\<forall>xs \<in> set (ts0 @ ts1). ksorted xs" by auto
  note lm = layers_merge_ok [OF props']
  from sst_source.merge_new_ok [OF srcs dist props] obtain mg where
    mg: "merge_new (sst_next crc) ?srcs s = (Inr mg, s)"
      "sst_source.merge_on crc R mg s (ts1 @ ts0) {}" "mg_seqs mg = map fst ?srcs" by blast
  have len: "length ts0 = length (lv_l0 lv)" "length ts1 = length (lv_l1 lv)"
    using l by (auto dest: list_all2_lengthD)
  have "newest_at (zip (mg_seqs mg) (ts1 @ ts0)) k e \<longleftrightarrow> map_of (layers_merge (ts0 @ ts1)) k = Some e" for k e
  proof -
    have "set (zip (mg_seqs mg) (ts1 @ ts0)) = set (zip (map se_id (lv_l0 lv @ lv_l1 lv)) (ts0 @ ts1))"
      using len by (auto simp: mg(3) tables_def comp_def)
    then have "newest_at (zip (mg_seqs mg) (ts1 @ ts0)) k e \<longleftrightarrow>
        newest_at (zip (map se_id (lv_l0 lv @ lv_l1 lv)) (ts0 @ ts1)) k e"
      by (simp add: newest_at_def)
    also have "\<dots> \<longleftrightarrow> map_of (concat (ts0 @ ts1)) k = Some e"
      using len desc_ids by (intro newest_layers) simp_all
    finally show ?thesis by (simp only: lm(2))
  qed
  then have "merged (zip (mg_seqs mg) (ts1 @ ts0)) (layers_merge (ts0 @ ts1))"
    using lm(1) by (simp add: merged_def)
  with mg show "\<exists>mg. merge_new (sst_next crc) ?srcs s = (Inr mg, s) \<and>
      sst_source.merge_on crc R mg s (ts1 @ ts0) {} \<and>
      merged (zip (mg_seqs mg) (ts1 @ ts0)) (layers_merge (ts0 @ ts1))" by blast
  show "\<forall>h \<in> R. h < next_ino s"
    using tables_names [OF l(1)] tables_names [OF l(2)] fs_ok_names_less [OF s(2)]
    unfolding R_def tables_def by auto
qed


lemma bt_insert_old: "ksorted ns \<Longrightarrow> map_of ns p = None \<Longrightarrow> bt_remove (bt_insert ns p h) p = ns"
  by (rule bt_remove_insert)

text \<open>
  The end of a compaction: the new levels are in place at \<open>s2\<close> and the inputs are deleted. What
  remains is the new table if there is one, the log and the snapshots.
\<close>

lemma compact_cleanup:
  assumes s: "fs_ok s" "dir_ok lv s" and lv: "levels_on crc xxh lv i s ts0 ts1"
    and s2: "plan s2 = []" "fs_ok s2" "\<And>p. p \<noteq> sst_filename 1 i \<Longrightarrow> bt_get (names s2) p = bt_get (names s) p"
      "\<forall>p h. bt_get (names s) p = Some h \<longrightarrow> content s2 h = content s h"
      "\<forall>p h. bt_get (names s2) p = Some h \<longrightarrow> stable s2 h = content s2 h"
    and wal: "wal_on crc w s rs"
    and new: "list_all2 (table_on crc xxh s2 1) ts1' es1" "length ts1' \<le> 1" "\<forall>t \<in> set ts1'. se_id t = i"
    and some: "ts1' = [] \<longrightarrow> bt_get (names s2) (sst_filename 1 i) = None"
    and i: "i < j"
  defines "s3 \<equiv> snd (sync_dir (remove_all (input_paths (map se_id (lv_l1 lv @ lv_l0 lv))) s2))"
  shows "levels_on crc xxh \<lparr>lv_l0 = [], lv_l1 = ts1'\<rparr> j s3 [] es1 \<and>
    dir_ok \<lparr>lv_l0 = [], lv_l1 = ts1'\<rparr> s3 \<and> fs_ok s3 \<and> durable s3 \<and> plan s3 = [] \<and> wal_on crc w s3 rs \<and>
    keeps_snapshots s s3"
proof -
  define ps where "ps = input_paths (map se_id (lv_l1 lv @ lv_l0 lv))"
  have s3: "s3 = s2\<lparr>names := foldl bt_remove (names s2) ps, stable_names := foldl bt_remove (names s2) ps\<rparr>"
    using s2(1) unfolding s3_def ps_def [symmetric] by (simp add: remove_all_state sync_dir_ok)
  have get3: "bt_get (names s3) p = (if p \<in> set ps then None else bt_get (names s2) p)" for p
    using foldl_remove [of "names s2" ps] s2(2) by (simp add: s3 bt_get_map_of fs_ok_sorted restrict_map_def)
  have stable3: "stable_names s3 = names s3" by (simp add: s3)
  have old: "se_id t < i" if "t \<in> set (lv_l0 lv) \<union> set (lv_l1 lv)" for t
    using lv that by (auto simp: levels_on_def)
  have paths: "p \<in> set ps \<longleftrightarrow> (\<exists>t \<in> set (lv_l0 lv) \<union> set (lv_l1 lv). p = sst_filename 0 (se_id t) \<or> p = sst_filename 1 (se_id t))" for p
    by (auto simp: input_paths_set ps_def)
  have i_new: "sst_filename 1 i \<notin> set ps"
  proof
    assume "sst_filename 1 i \<in> set ps"
    then obtain t where "t \<in> set (lv_l0 lv) \<union> set (lv_l1 lv)" "se_id t = i" by (auto simp: paths)
    with old [of t] show False by simp
  qed
  have ok3: "fs_ok s3" by (rule fs_ok_remove_all [OF s2(2), of _ ps]) (simp_all add: s3)
  have "table_on crc xxh s3 1 t es" if "t \<in> set ts1'" "table_on crc xxh s2 1 t es" for t es
    using that new(3) i_new unfolding table_on_def get3
    by (auto simp: s3 intro: reads_table_frame)
  then have lv3: "list_all2 (table_on crc xxh s3 1) ts1' es1"
    using new(1) by (auto simp: list_all2_conv_all_nth)
  have "dir_ok \<lparr>lv_l0 = [], lv_l1 = ts1'\<rparr> s3"
    unfolding dir_ok_def
  proof (intro allI impI)
    fix p
    assume "bt_get (names s3) p \<noteq> None"
    then have p: "p \<notin> set ps" "bt_get (names s2) p \<noteq> None" by (auto simp: get3 split: if_splits)
    show "p = WAL_FILENAME \<or> p \<in> sst_filename 0 ` se_id ` set (lv_l0 \<lparr>lv_l0 = [], lv_l1 = ts1'\<rparr>) \<or>
        p \<in> sst_filename 1 ` se_id ` set (lv_l1 \<lparr>lv_l0 = [], lv_l1 = ts1'\<rparr>) \<or> p \<in> range snapshot_filename"
    proof (cases "p = sst_filename 1 i")
      case True
      then obtain t where "t \<in> set ts1'" using some p by (cases ts1') auto
      with True new(3) show ?thesis by auto
    next
      case False
      then have "bt_get (names s) p \<noteq> None" using p(2) s2(3) by simp
      then have "p = WAL_FILENAME \<or> p \<in> range snapshot_filename"
        using s(2) p(1) unfolding dir_ok_def paths by blast
      then show ?thesis by blast
    qed
  qed
  moreover have "wal_on crc w s3 rs"
  proof -
    have "WAL_FILENAME \<notin> set ps" by (simp add: paths)
    then show ?thesis using wal s2(3,4) unfolding wal_on_def get3 by (auto simp: s3)
  qed
  moreover have "plan s3 = []" by (simp add: s3 s2(1))
  moreover have "levels_on crc xxh \<lparr>lv_l0 = [], lv_l1 = ts1'\<rparr> j s3 [] es1"
    using lv3 new(2,3) i by (cases ts1') (auto simp: levels_on_def)
  moreover have "durable s3"
  proof (rule durable_synced [OF ok3])
    fix p h
    assume "bt_get (names s3) p = Some h"
    then have "bt_get (names s2) p = Some h" by (simp add: get3 split: if_splits)
    then show "stable s3 h = content s3 h" using s2(5) by (simp add: s3)
  qed (simp add: s3)
  moreover have "snapshot_filename k \<notin> set ps" for k by (simp add: paths)
  then have "keeps_snapshots s s3"
    unfolding keeps_snapshots_def stable3 get3 using s2(3,4) by (auto simp: s3)
  ultimately show ?thesis using ok3 by blast
qed


text \<open>What a compaction writes: the live entries of the merge of all levels.\<close>

definition compacted :: "(bytes \<times> entry) list list \<Rightarrow> (bytes \<times> entry) list list" where
  "compacted ts = (let es = live (layers_merge ts) in if es = [] then [] else [es])"

lemma compacted_bound: "sum_list (map table_bound (compacted ts)) \<le> sum_list (map table_bound ts)"
  using live_bound [of "layers_merge ts"] layers_merge_bound [of ts]
  by (simp add: compacted_def Let_def)

lemma compacted_shown:
  assumes "\<forall>xs \<in> set ts. ksorted xs"
  shows "shown (map_of (concat (compacted ts)) ky) = shown (map_of (concat ts) ky)"
proof -
  have "concat (compacted ts) = live (layers_merge ts)"
    by (simp add: compacted_def Let_def)
  then show ?thesis using layers_merge_ok [OF assms] live_ok(2) by simp
qed

lemma lsm_ents_compacted:
  assumes "\<forall>xs \<in> set ts. ksorted xs"
  shows "lsm_ents m (compacted ts) = lsm_ents m ts"
  using compacted_shown [OF assms]
  by (auto simp: lsm_ents_def map_add_def fun_eq_iff split: option.splits)

lemma compact_l0_l1_ok:
  assumes e: "engine_on crc xxh e s ts0 ts1 rs"
    and size: "sum_list (map table_bound (ts0 @ ts1)) < 2 ^ 62"
    and ids: "unat (en_next_sst_id e) + 1 < 2 ^ 64"
  shows "\<exists>e' s'. compact_l0_l1 crc xxh opts e s = Some (Inr (), e', s') \<and>
    engine_on crc xxh e' s' [] (compacted (ts0 @ ts1)) rs \<and> keeps_snapshots s s' \<and> en_memtable e' = en_memtable e \<and>
    en_next_sst_id e' = en_next_sst_id e + 1 \<and> en_closed e' = en_closed e"
proof -
  let ?i = "en_next_sst_id e" and ?lv = "en_levels e"
  let ?path = "sst_filename 1 ?i" and ?tmp = "sst_filename 1 ?i @ TMP_SUFFIX"
  let ?es = "layers_merge (ts0 @ ts1)"
  have st: "plan s = []" "fs_ok s" and dur: "durable s" and dir: "dir_ok ?lv s"
    and lv: "levels_on crc xxh ?lv ?i s ts0 ts1" and wal: "wal_on crc (en_writer e) s rs"
    using e by (simp_all add: engine_on_def)
  have "\<forall>xs \<in> set (ts0 @ ts1). ksorted xs \<and> entries_ok xs"
    using lv tables_props unfolding levels_on_def by fastforce
  then have props: "\<forall>xs \<in> set (ts0 @ ts1). ksorted xs" "\<forall>xs \<in> set (ts0 @ ts1). entries_ok xs" by auto
  note es = layers_merge_ok(1) [OF props(1)] and es_ok = layers_merge_entries [OF props(2)]
  note fresh = dir_ok_fresh [OF dir lv order_refl order_refl]
  define R where "R = (\<lambda>t. sr_file (se_reader t)) ` set (lv_l1 ?lv @ lv_l0 ?lv)"
  from compact_sources [OF lv st] obtain mg where
    new: "merge_new (sst_next crc) (map (\<lambda>t. (se_id t, sst_reader_iter (se_reader t))) (lv_l1 ?lv @ lv_l0 ?lv)) s =
      (Inr mg, s)"
    and mg: "sst_source.merge_on crc R mg s (ts1 @ ts0) {}" "merged (zip (mg_seqs mg) (ts1 @ ts0)) ?es"
    and R: "\<forall>h \<in> R. h < next_ino s" unfolding R_def by blast
  let ?s1 = "s\<lparr>names := bt_insert (names s) ?tmp (next_ino s), content := (content s)(next_ino s := []),
    stable := (stable s)(next_ino s := []), next_ino := Suc (next_ino s)\<rparr>"
  define n where "n = sum_list (map (\<lambda>t. block_count (se_reader t) * 256) (lv_l0 ?lv @ lv_l1 ?lv))"
  obtain w where w: "sst_create ?tmp n (op_bloom_bits_per_key opts) s = (Inr w, ?s1)"
      "sw_file w = next_ino s" "writer_on crc xxh ?s1 w ?s1 [] []"
    using sst_create_ok [OF st(1) fresh(2), of n "op_bloom_bits_per_key opts" xxh] by fastforce
  have mg1: "sst_source.merge_on crc R mg ?s1 (ts1 @ ts0) {}"
    using R by (intro sst_source.merge_on_frame [OF mg(1)]) (auto simp: st)
  have "sw_file w \<notin> R" using R w(2) by auto
  have "plan ?s1 = []" "ksorted (concat [] @ [] @ live ?es)" using st live_ok(1) [OF es] by simp_all
  from sst_source.compact_loop_ok [OF mg1 mg(2) w(3) this(1) \<open>sw_file w \<notin> R\<close> es_ok this(2), of False]
  obtain w2 s2 bss cur where
    loop: "compact_loop (sst_next crc) crc xxh mg w False ?s1 = Some (Inr (live ?es \<noteq> []), w2, s2)"
    and w2: "writer_on crc xxh ?s1 w2 s2 bss cur" "concat bss @ cur = live ?es" "sw_file w2 = next_ino s"
    using w(2) by auto
  define inputs where "inputs = input_paths (map se_id (lv_l1 ?lv @ lv_l0 ?lv))"
  have run: "compact_l0_l1 crc xxh opts e s =
      (case (if live ?es \<noteq> [] then compact_install crc ?tmp ?path w2 e s2
             else (Inr (), compact_discard ?tmp e s2)) of
         (Inl err, e, s) \<Rightarrow> Some (Inl err, e, s)
       | (Inr _, e, s) \<Rightarrow> Some (Inr (), e, snd (sync_dir (remove_all inputs s))))"
    using new w(1) loop unfolding compact_l0_l1_def Let_def n_def inputs_def by simp
  have up: "unat (?i + 1) = unat ?i + 1"
    using ids by (simp add: unat_word_ariths)
  then have less: "?i < ?i + 1" by (simp add: word_less_nat_alt)
  have live_small: "table_bound (live ?es) < 2 ^ 62"
    using live_bound [of ?es] layers_merge_bound [of "ts0 @ ts1"] size by linarith
  show ?thesis
  proof (cases "live ?es = []")
    case True
    then have "writer_on crc xxh ?s1 w2 s2 [] []" and s2: "s2 = ?s1"
    proof -
      have bss: "bss = []" "cur = []" 
        using w2(1,2) True by (auto simp: writer_on_def blocks_ok_def)
      then show "writer_on crc xxh ?s1 w2 s2 [] []" "s2 = ?s1"
        using w2 by (auto simp: writer_on_def)
    qed
    let ?s3 = "s2\<lparr>names := bt_remove (names s2) ?tmp\<rparr>"
    let ?e' = "e\<lparr>en_next_sst_id := ?i + 1, en_levels := \<lparr>lv_l0 = [], lv_l1 = []\<rparr>\<rparr>"
    have names3: "names ?s3 = names s"
      using st fresh(2) by (simp add: s2 bt_insert_old fs_ok_sorted bt_get_map_of)
    have disc: "compact_discard ?tmp e s2 = (?e', ?s3)"
      using st by (simp add: compact_discard_def remove_file_state s2)
    have "fs_ok ?s3" using st(2) names3 by (auto simp: fs_ok_def s2 intro: less_SucI)
    moreover have "\<forall>p h. bt_get (names s) p = Some h \<longrightarrow> content ?s3 h = content s h"
      using fs_ok_names_less [OF st(2)] by (fastforce simp: s2)
    moreover have "\<forall>p h. bt_get (names ?s3) p = Some h \<longrightarrow> stable ?s3 h = content ?s3 h"
      unfolding names3 using fs_ok_names_less [OF st(2)] dur by (fastforce simp: s2 durable_def)
    ultimately have "levels_on crc xxh \<lparr>lv_l0 = [], lv_l1 = []\<rparr> (?i + 1) (snd (sync_dir (remove_all inputs ?s3))) [] [] \<and>
      dir_ok \<lparr>lv_l0 = [], lv_l1 = []\<rparr> (snd (sync_dir (remove_all inputs ?s3))) \<and>
      fs_ok (snd (sync_dir (remove_all inputs ?s3))) \<and> durable (snd (sync_dir (remove_all inputs ?s3))) \<and> plan (snd (sync_dir (remove_all inputs ?s3))) = [] \<and>
      wal_on crc (en_writer e) (snd (sync_dir (remove_all inputs ?s3))) rs \<and>
      keeps_snapshots s (snd (sync_dir (remove_all inputs ?s3)))"
      unfolding inputs_def using fresh(1) names3
      by (intro compact_cleanup [OF st(2) dir lv]) (simp_all add: wal less st s2)
    with e run True disc show ?thesis
      by (simp add: engine_on_def compacted_def Let_def)
  next
    case False
    from sst_finish_ok [OF w2(1) \<open>plan ?s1 = []\<close>] w2 obtain bss' bf where
      fin: "sst_finish crc w2 s2 = (Inr (),
        ?s1\<lparr>content := (content ?s1)(next_ino s := sst_image crc bss' bf),
          stable := (stable ?s1)(next_ino s := sst_image crc bss' bf)\<rparr>)"
      and blk: "concat bss' = live ?es" "blocks_ok crc bss'" "bloom_covers xxh bf (fst ` set (concat bss'))"
      by metis
    have "length (sst_image crc bss' bf) < 2 ^ 63"
      using blk live_small by (intro sst_image_bound) simp_all
    with blk live_ok(1) [OF es] have tab: "sst_file crc xxh (live ?es) (sst_image crc bss' bf)"
      unfolding sst_file_def by metis
    let ?bs = "sst_image crc bss' bf"
    have fin': "sst_finish crc w2 s2 = (Inr (), s\<lparr>names := bt_insert (names s) ?tmp (next_ino s),
      content := (content s)(next_ino s := ?bs), stable := (stable s)(next_ino s := ?bs),
      next_ino := Suc (next_ino s)\<rparr>)" unfolding fin by simp
    have "?tmp \<noteq> ?path" by (simp add: TMP_SUFFIX_def)
    from write_publish_ok [OF st fresh(2) this refl tab live_entries [OF es_ok]] obtain rd s3 where
      pub: "publish crc ?tmp ?path (snd (sst_finish crc w2 s2)) = (Inr rd, s3)"
      and s3: "plan s3 = []" "names s3 = bt_insert (names s) ?path (next_ino s)"
        "content s3 = (content s)(next_ino s := ?bs)" "fs_ok s3" "durable s3"
      and tabon: "\<And>l t. ?path = sst_filename l (se_id t) \<Longrightarrow> se_reader t = rd \<Longrightarrow> table_on crc xxh s3 l t (live ?es)"
      unfolding fin' snd_conv using dur by blast
    let ?t = "\<lparr>se_id = ?i, se_reader = rd\<rparr>"
    let ?e' = "e\<lparr>en_next_sst_id := ?i + 1, en_levels := \<lparr>lv_l0 = [], lv_l1 = [?t]\<rparr>\<rparr>"
    have inst: "compact_install crc ?tmp ?path w2 e s2 = (Inr (), ?e', s3)"
      using pub by (simp add: compact_install_def fin' Let_def)
    have "\<forall>p h. bt_get (names s) p = Some h \<longrightarrow> content s3 h = content s h"
      using fs_ok_names_less [OF st(2)] by (fastforce simp: s3)
    then have "levels_on crc xxh \<lparr>lv_l0 = [], lv_l1 = [?t]\<rparr> (?i + 1) (snd (sync_dir (remove_all inputs s3))) [] [live ?es] \<and>
      dir_ok \<lparr>lv_l0 = [], lv_l1 = [?t]\<rparr> (snd (sync_dir (remove_all inputs s3))) \<and>
      fs_ok (snd (sync_dir (remove_all inputs s3))) \<and> durable (snd (sync_dir (remove_all inputs s3))) \<and> plan (snd (sync_dir (remove_all inputs s3))) = [] \<and>
      wal_on crc (en_writer e) (snd (sync_dir (remove_all inputs s3))) rs \<and>
      keeps_snapshots s (snd (sync_dir (remove_all inputs s3)))"
      unfolding inputs_def using tabon [of 1 ?t] s3(5) [unfolded durable_def]
      by (intro compact_cleanup [OF st(2) dir lv]) (simp_all add: wal less s3 bt_get_map_of)
    with e run False inst show ?thesis
      by (simp add: engine_on_def compacted_def Let_def)
  qed
qed


section \<open>Properties\<close>

text \<open>The results of \<open>n\<close> consecutive calls of the merge.\<close>

fun merge_next_n ::
  "('it \<Rightarrow> fs \<Rightarrow> entry_item \<times> 'it \<times> fs) \<Rightarrow> nat \<Rightarrow> 'it merging \<Rightarrow> fs \<Rightarrow> entry_item list option" where
  "merge_next_n nxt 0 mg s = Some []"
| "merge_next_n nxt (Suc n) mg s =
     (case merge_next nxt mg s of
        None \<Rightarrow> None
      | Some (r, mg, s) \<Rightarrow> map_option ((#) r) (merge_next_n nxt n mg s))"

context entry_source
begin

lemma merge_next_n_ok:
  "merge_on R mg s full {} \<Longrightarrow> merged (zip (mg_seqs mg) full) es \<Longrightarrow>
   merge_next_n nxt (length es + k) mg s = Some (map (\<lambda>ke. Some (Inr ke)) es @ replicate k None)"
proof (induction es arbitrary: mg full)
  case Nil
  have "merge_next nxt mg s = Some (None, mg, s)" using merge_next_ok [OF Nil] by simp
  then have "merge_next_n nxt k mg s = Some (replicate k None)" by (induction k) simp_all
  then show ?case by simp
next
  case (Cons x es)
  from merge_next_ok [OF Cons.prems] Cons.IH show ?case by fastforce
qed

end

lemma newest_at_set: "set ss = set ss' \<Longrightarrow> newest_at ss ky e = newest_at ss' ky e"
  by (simp add: newest_at_def)

lemma merged_exists:
  assumes "distinct qs" and "length qs = length full" and sorted: "\<forall>xs \<in> set full. ksorted xs"
  shows "\<exists>es. merged (zip qs full) es"
proof -
  define ss where "ss = rev (sort_key fst (zip qs full))"
  have set: "set ss = set (zip qs full)" by (simp add: ss_def)
  have "distinct (map fst (sort_key fst (zip qs full)))"
    using assms(1,2) by (simp add: distinct_map distinct_sort distinct_zipI1 inj_on_def)
      (metis (no_types, lifting) in_set_zip nth_eq_iff_index_eq prod.collapse prod.inject)
  then have "sorted_wrt (<) (map fst (sort_key fst (zip qs full)))"
    by (simp add: strict_sorted_iff)
  then have desc: "sorted_wrt (\<lambda>a b. b < a) (map fst ss)"
    by (simp add: ss_def rev_map [symmetric] sorted_wrt_rev)
  have zip: "ss = zip (map fst ss) (map snd ss)" by (simp add: zip_map_fst_snd)
  have k: "\<forall>xs \<in> set (map snd ss). ksorted xs"
    using sorted set by (auto dest: set_zip_rightD)
  have "merged (zip qs full) (layers_merge (map snd ss))"
    unfolding merged_def
  proof (intro conjI allI)
    show "ksorted (layers_merge (map snd ss))" by (rule layers_merge_ok(1) [OF k])
    fix ky e
    have "newest_at (zip qs full) ky e \<longleftrightarrow> newest_at (zip (map fst ss) (map snd ss)) ky e"
      using newest_at_set [OF set] zip by simp
    also have "\<dots> \<longleftrightarrow> map_of (concat (map snd ss)) ky = Some e"
      using desc by (intro newest_layers) simp_all
    finally show "map_of (layers_merge (map snd ss)) ky = Some e \<longleftrightarrow> newest_at (zip qs full) ky e"
      unfolding layers_merge_ok(2) [OF k] by simp
  qed
  then show ?thesis by blast
qed

text \<open>C31: The merge of any number of open tables with distinct sequence numbers returns, and yields
  every key of any of them exactly once, in strictly ascending order, with the entry of the table
  whose sequence number is highest among those that hold the key; then it ends.\<close>

theorem merge_newest_wins:
  assumes "list_all2 (\<lambda>rd es. reads_table crc xxh rd s es) rds full" and "plan s = []"
    and "distinct qs" and "length qs = length rds"
  shows "\<exists>mg es. merge_new (sst_next crc) (zip qs (map sst_reader_iter rds)) s = (Inr mg, s) \<and>
    merge_next_n (sst_next crc) (length es + k) mg s = Some (map (\<lambda>ke. Some (Inr ke)) es @ replicate k None) \<and>
    ksorted es \<and> (\<forall>ky e. map_of es ky = Some e \<longleftrightarrow> newest_at (zip qs full) ky e)"
proof -
  have len: "length full = length rds" using assms(1) by (simp add: list_all2_lengthD)
  have it: "iter_on crc (sst_reader_iter (rds ! i)) s (full ! i)" if "i < length rds" for i
    using assms(1,2) that by (intro sst_reader_iter_on [where xxh = xxh]) (simp_all add: list_all2_conv_all_nth)
  have srcs: "list_all2 (\<lambda>(q, it) xs. iter_on crc it s xs \<and> it_file it \<in> UNIV)
      (zip qs (map sst_reader_iter rds)) full"
    using it len assms(4) by (auto simp: list_all2_conv_all_nth)
  have sorted: "\<forall>xs \<in> set full. ksorted xs"
    using assms(1) by (auto simp: list_all2_conv_all_nth in_set_conv_nth reads_table_def)
  have "distinct (map fst (zip qs (map sst_reader_iter rds)))" using assms(3,4) by simp
  from sst_source.merge_new_ok [OF srcs this sorted] obtain mg where
    new: "merge_new (sst_next crc) (zip qs (map sst_reader_iter rds)) s = (Inr mg, s)"
    and mg: "sst_source.merge_on crc UNIV mg s full {}" "mg_seqs mg = qs"
    using assms(4) by auto
  obtain es where es: "merged (zip (mg_seqs mg) full) es"
    using merged_exists [OF assms(3) _ sorted] len assms(4) mg(2) by auto
  from sst_source.merge_next_n_ok [OF mg(1) es] new es mg(2) show ?thesis
    unfolding merged_def by blast
qed


theorem merge_newest_wins_witness:
  "\<exists>s rd1 rd2 mg. merge_new (sst_next (\<lambda>_. 7)) [(4, sst_reader_iter rd1), (6, sst_reader_iter rd2)] s = (Inr mg, s) \<and>
     merge_next_n (sst_next (\<lambda>_. 7)) 3 mg s =
       Some [Some (Inr ([1], Tombstone)), Some (Inr ([2], Put [6])), None]"
proof -
  let ?es1 = "[([1], Put [5]), ([2], Put [6])] :: (bytes \<times> entry) list"
  let ?es2 = "[([1], Tombstone)] :: (bytes \<times> entry) list"
  have e: "plan empty_fs = []" "bt_get (names empty_fs) ''t.sst'' = None" by (simp_all add: empty_fs_def)
  have "\<exists>bs. sst_file (\<lambda>_. 7) (\<lambda>_. 9) ?es1 bs"
    using sst_write_ok [OF e, of ?es1] by (simp add: encoded_entry_size_def fits_def) blast
  moreover have "\<exists>bs. sst_file (\<lambda>_. 7) (\<lambda>_. 9) ?es2 bs"
    using sst_write_ok [OF e, of ?es2] by (simp add: encoded_entry_size_def fits_def) blast
  ultimately obtain bs1 bs2 where bs: "sst_file (\<lambda>_. 7) (\<lambda>_. 9) ?es1 bs1" "sst_file (\<lambda>_. 7) (\<lambda>_. 9) ?es2 bs2"
    by blast
  let ?s = "empty_fs\<lparr>names := [(''a'', 0), (''b'', 1)], content := (\<lambda>h. if h = 0 then bs1 else bs2)\<rparr>"
  have p: "plan ?s = []" by (simp add: empty_fs_def)
  have t: "sst_file (\<lambda>_. 7) (\<lambda>_. 9) ?es1 (content ?s 0)" "bt_get (names ?s) ''a'' = Some 0"
    "sst_file (\<lambda>_. 7) (\<lambda>_. 9) ?es2 (content ?s 1)" "bt_get (names ?s) ''b'' = Some 1"
    using bs by simp_all
  from sst_open_ok [OF t(1,2) p] sst_open_ok [OF t(3,4) p] obtain rd1 rd2 where
    "reads_table (\<lambda>_. 7) (\<lambda>_. 9) rd1 ?s ?es1" "reads_table (\<lambda>_. 7) (\<lambda>_. 9) rd2 ?s ?es2" by blast
  then have "list_all2 (\<lambda>rd es. reads_table (\<lambda>_. 7) (\<lambda>_. 9) rd ?s es) [rd1, rd2] [?es1, ?es2]" by simp
  from merge_newest_wins [OF this p, of "[4, 6]" 1] obtain mg es where
    mg: "merge_new (sst_next (\<lambda>_. 7)) [(4, sst_reader_iter rd1), (6, sst_reader_iter rd2)] ?s = (Inr mg, ?s)"
      "merge_next_n (sst_next (\<lambda>_. 7)) (length es + 1) mg ?s = Some (map (\<lambda>ke. Some (Inr ke)) es @ [None])"
    and es: "ksorted es" "\<forall>ky e. map_of es ky = Some e \<longleftrightarrow> newest_at [(4, ?es1), (6, ?es2)] ky e"
    by auto
  have "map_of es = map_of [([1], Tombstone), ([2], Put [6])]"
  proof
    fix ky
    have "map_of es ky = Some e \<longleftrightarrow> map_of [([1], Tombstone), ([2], Put [6])] ky = Some e" for e
      using es(2) by (auto simp: newest_at_def split: if_splits)
    then show "map_of es ky = map_of [([1], Tombstone), ([2], Put [6])] ky"
      by (metis option.exhaust)
  qed
  then have "es = [([1], Tombstone), ([2], Put [6])]" by (intro ksorted_ext [OF es(1)]) simp_all
  with mg show ?thesis by (auto simp: numeral_eq_Suc)
qed

end
