(* ===== verification/Engine_Ops.thy ===== *)
theory Engine_Ops
  imports Compaction
begin

text \<open>
  The engine's operations refine a map. Each lemma starts from an engine that represents a map
  \<open>m\<close> and states the result of an operation and the map represented afterwards. Without I/O
  faults, and as long as the data stays below \<open>2 ^ 62\<close> bytes and the ids below \<open>2 ^ 64\<close>, every
  operation returns.
\<close>

section \<open>Flush and compaction keep the map\<close>

lemma load_flush: "load mt_new (mt_map m # ts) = load m ts"
  by (simp add: load_def)

text \<open>
  The engine with the entries of its tables, newest table first. \<open>evolves k\<close> relates an engine to a
  later one with the same map: it allocated at most \<open>k\<close> ids, left the snapshots alone, and unless it
  allocated an id it is the same engine with the same tables.
\<close>

definition engine_at ::
  "(bytes \<Rightarrow> u32) \<Rightarrow> (bytes \<Rightarrow> 128 word) \<Rightarrow> engine \<Rightarrow> fs \<Rightarrow> (bytes \<times> entry) list list \<Rightarrow> bool" where
  "engine_at crc xxh e s ts \<longleftrightarrow> (\<exists>ts0 ts1 rs. engine_on crc xxh e s ts0 ts1 rs \<and> ts = ts0 @ ts1)"

definition evolves ::
  "(bytes \<Rightarrow> u32) \<Rightarrow> (bytes \<Rightarrow> 128 word) \<Rightarrow> nat \<Rightarrow> engine \<Rightarrow> fs \<Rightarrow> (bytes \<times> entry) list list \<Rightarrow>
     engine \<Rightarrow> fs \<Rightarrow> (bytes \<times> entry) list list \<Rightarrow> bool" where
  "evolves crc xxh k e s ts e' s' ts' \<longleftrightarrow>
     engine_at crc xxh e' s' ts' \<and> lsm_ents (en_memtable e') ts' = lsm_ents (en_memtable e) ts \<and>
     load (en_memtable e') ts' \<le> load (en_memtable e) ts \<and> keeps_snapshots s s' \<and>
     en_closed e' = en_closed e \<and> unat (en_next_sst_id e) \<le> unat (en_next_sst_id e') \<and>
     unat (en_next_sst_id e') \<le> unat (en_next_sst_id e) + k \<and>
     (en_next_sst_id e' = en_next_sst_id e \<longrightarrow> e' = e \<and> ts' = ts)"

lemma evolves_refl: "engine_at crc xxh e s ts \<Longrightarrow> evolves crc xxh k e s ts e s ts"
  by (simp add: evolves_def keeps_snapshots_refl)

lemma evolves_trans:
  assumes "evolves crc xxh k e s ts e1 s1 ts1" and "evolves crc xxh l e1 s1 ts1 e2 s2 ts2"
  shows "evolves crc xxh (k + l) e s ts e2 s2 ts2"
proof -
  have "en_next_sst_id e1 = en_next_sst_id e" if "en_next_sst_id e2 = en_next_sst_id e"
    using assms that unfolding evolves_def by (metis le_antisym word_unat_eq_iff)
  then show ?thesis
    using assms keeps_snapshots_trans unfolding evolves_def by auto
qed

lemma engine_rep_at:
  "engine_rep crc xxh e s m N I \<longleftrightarrow>
     (\<exists>ts. engine_at crc xxh e s ts \<and> m = lsm_map (en_memtable e) ts \<and> load (en_memtable e) ts \<le> N) \<and>
     unat (en_next_sst_id e) \<le> I \<and> \<not> en_closed e"
  unfolding engine_rep_def engine_at_def by auto

lemma evolves_rep:
  assumes "evolves crc xxh k e s ts e' s' ts'" and "m = lsm_map (en_memtable e) ts"
    and "load (en_memtable e) ts \<le> N" and "unat (en_next_sst_id e) \<le> I" and "\<not> en_closed e"
  shows "engine_rep crc xxh e' s' m N (I + k)"
proof -
  have "m = lsm_map (en_memtable e') ts'"
    using assms(1,2) by (simp add: evolves_def lsm_map_ents fun_eq_iff)
  then show ?thesis using assms unfolding engine_rep_at evolves_def by auto
qed

lemma flush_evolves:
  assumes e: "engine_at crc xxh e s ts" and N: "load (en_memtable e) ts < 2 ^ 62"
    and I: "unat (en_next_sst_id e) + 1 < 2 ^ 64"
  shows "\<exists>e' s' ts'. flush_inner crc xxh opts e s = (Inr (), e', s') \<and> evolves crc xxh 1 e s ts e' s' ts' \<and>
    mt_is_empty (en_memtable e')"
proof -
  obtain ts0 ts1 rs where on: "engine_on crc xxh e s ts0 ts1 rs" and ts: "ts = ts0 @ ts1"
    using e by (auto simp: engine_at_def)
  have b: "table_bound (mt_map (en_memtable e)) < 2 ^ 62" using N by (simp add: load_def)
  note fl = flush_inner_ok [OF on b I, of opts]
  show ?thesis
  proof (cases "mt_is_empty (en_memtable e)")
    case True
    then obtain s' where "flush_inner crc xxh opts e s = (Inr (), e, s')" "engine_on crc xxh e s' ts0 ts1 rs"
      "keeps_snapshots s s'" using fl by auto
    then show ?thesis using True ts unfolding evolves_def engine_at_def by auto
  next
    case False
    then obtain e' s' where res: "flush_inner crc xxh opts e s = (Inr (), e', s')"
      and e': "engine_on crc xxh e' s' (mt_map (en_memtable e) # ts0) ts1 []" "en_memtable e' = mt_new"
        "en_next_sst_id e' = en_next_sst_id e + 1" "en_closed e' = en_closed e" "keeps_snapshots s s'"
      using fl by auto
    have "unat (en_next_sst_id e') = unat (en_next_sst_id e) + 1"
      using I by (simp add: e'(3) unat_word_ariths)
    moreover have "engine_at crc xxh e' s' (mt_map (en_memtable e) # ts)"
      using e'(1) ts unfolding engine_at_def by (metis append_Cons)
    ultimately have "evolves crc xxh 1 e s ts e' s' (mt_map (en_memtable e) # ts)"
      using e' unfolding evolves_def by (auto simp: lsm_ents_flush load_flush)
    moreover have "mt_is_empty (en_memtable e')" by (simp add: e'(2) mt_is_empty_def)
    ultimately show ?thesis using res by blast
  qed
qed

lemma maybe_auto_flush_evolves:
  assumes "engine_at crc xxh e s ts" and "load (en_memtable e) ts < 2 ^ 62"
    and "unat (en_next_sst_id e) + 1 < 2 ^ 64"
  shows "\<exists>e' s' ts'. maybe_auto_flush crc xxh opts e s = (Inr (), e', s') \<and> evolves crc xxh 1 e s ts e' s' ts'"
proof (cases "approximate_size (en_memtable e) \<ge> op_memtable_max_size_bytes opts")
  case True
  with flush_evolves [OF assms, of opts] show ?thesis unfolding maybe_auto_flush_def by auto
next
  case False
  with evolves_refl [OF assms(1)] show ?thesis unfolding maybe_auto_flush_def by auto
qed

lemma compact_evolves:
  assumes e: "engine_at crc xxh e s ts" and N: "load (en_memtable e) ts < 2 ^ 62"
    and I: "unat (en_next_sst_id e) + 1 < 2 ^ 64"
  shows "\<exists>e' s' ts'. compact_l0_l1 crc xxh opts e s = Some (Inr (), e', s') \<and>
    evolves crc xxh 1 e s ts e' s' ts' \<and> lv_l0 (en_levels e') = [] \<and> length (lv_l1 (en_levels e')) \<le> 1"
proof -
  obtain ts0 ts1 rs where on: "engine_on crc xxh e s ts0 ts1 rs" and ts: "ts = ts0 @ ts1"
    using e by (auto simp: engine_at_def)
  have b: "sum_list (map table_bound (ts0 @ ts1)) < 2 ^ 62" using N by (simp add: load_def ts)
  from compact_l0_l1_ok [OF on b I, of opts] obtain e' s' where
    res: "compact_l0_l1 crc xxh opts e s = Some (Inr (), e', s')"
    and e': "engine_on crc xxh e' s' [] (compacted ts) rs" "en_memtable e' = en_memtable e"
      "en_next_sst_id e' = en_next_sst_id e + 1" "en_closed e' = en_closed e" "keeps_snapshots s s'"
    unfolding ts by blast
  have "\<forall>xs \<in> set ts. ksorted xs"
    using on tables_props unfolding engine_on_def levels_on_def ts by fastforce
  then have "lsm_ents (en_memtable e') (compacted ts) = lsm_ents (en_memtable e) ts"
    by (simp add: e'(2) lsm_ents_compacted)
  moreover have "load (en_memtable e') (compacted ts) \<le> load (en_memtable e) ts"
    using compacted_bound [of ts] by (simp add: e'(2) load_def)
  moreover have "unat (en_next_sst_id e') = unat (en_next_sst_id e) + 1"
    using I by (simp add: e'(3) unat_word_ariths)
  moreover have "engine_at crc xxh e' s' (compacted ts)"
    using e'(1) unfolding engine_at_def by fastforce
  ultimately have "evolves crc xxh 1 e s ts e' s' (compacted ts)"
    using e' unfolding evolves_def by auto
  moreover have "lv_l0 (en_levels e') = [] \<and> length (lv_l1 (en_levels e')) \<le> 1"
    using e'(1) by (auto simp: engine_on_def levels_on_def)
  ultimately show ?thesis using res by blast
qed

lemma maybe_compact_evolves:
  assumes "engine_at crc xxh e s ts" and "load (en_memtable e) ts < 2 ^ 62"
    and "unat (en_next_sst_id e) + 1 < 2 ^ 64"
  shows "\<exists>e' s' ts'. maybe_compact crc xxh opts e s = Some (Inr (), e', s') \<and> evolves crc xxh 1 e s ts e' s' ts'"
proof (cases "length (lv_l0 (en_levels e)) < op_l0_compaction_trigger opts")
  case True
  with evolves_refl [OF assms(1)] show ?thesis unfolding maybe_compact_def by auto
next
  case False
  with compact_evolves [OF assms, of opts] show ?thesis unfolding maybe_compact_def by auto
qed

text \<open>What a locked operation reports: the next id if it moved.\<close>

definition moved_id :: "engine \<Rightarrow> engine \<Rightarrow> u64 option" where
  "moved_id e e' = (if en_next_sst_id e \<noteq> en_next_sst_id e' then Some (en_next_sst_id e') else None)"

lemma flush_compact_evolves:
  assumes e: "engine_at crc xxh e s ts" and N: "load (en_memtable e) ts < 2 ^ 62"
    and I: "unat (en_next_sst_id e) + 2 < 2 ^ 64"
    and fl: "\<exists>e' s' ts'. x = (Inr (), e', s') \<and> evolves crc xxh 1 e s ts e' s' ts'"
  shows "\<exists>e1 s1 e' s' ts'. x = (Inr (), e1, s1) \<and> maybe_compact crc xxh opts e1 s1 = Some (Inr (), e', s') \<and>
    evolves crc xxh 2 e s ts e' s' ts'"
proof -
  obtain e1 s1 ts1 where 1: "x = (Inr (), e1, s1)" "evolves crc xxh 1 e s ts e1 s1 ts1"
    using fl by blast
  then have "engine_at crc xxh e1 s1 ts1" "load (en_memtable e1) ts1 < 2 ^ 62" "unat (en_next_sst_id e1) + 1 < 2 ^ 64"
    using N I by (auto simp: evolves_def)
  from maybe_compact_evolves [OF this, of opts] 1 evolves_trans [OF 1(2)] show ?thesis
    by (metis one_add_one)
qed

lemma after_write_evolves:
  assumes "engine_at crc xxh e s ts" and "load (en_memtable e) ts < 2 ^ 62"
    and "unat (en_next_sst_id e) + 2 < 2 ^ 64"
  shows "\<exists>e' s' ts'. after_write crc xxh opts e s = Some (Inr (moved_id e e'), e', s') \<and>
    evolves crc xxh 2 e s ts e' s' ts'"
proof -
  have "unat (en_next_sst_id e) + 1 < 2 ^ 64" using assms(3) by simp
  from flush_compact_evolves [OF assms maybe_auto_flush_evolves [OF assms(1,2) this, of opts], of opts]
  obtain e1 s1 e' s' ts' where "maybe_auto_flush crc xxh opts e s = (Inr (), e1, s1)"
    "maybe_compact crc xxh opts e1 s1 = Some (Inr (), e', s')" "evolves crc xxh 2 e s ts e' s' ts'" by blast
  then show ?thesis
    by (intro exI [of _ e'] exI [of _ s'] exI [of _ ts']) (simp add: after_write_def Let_def moved_id_def)
qed

lemma lsm_flush_evolves:
  assumes "engine_at crc xxh e s ts" and "load (en_memtable e) ts < 2 ^ 62"
    and "unat (en_next_sst_id e) + 2 < 2 ^ 64" and "\<not> en_closed e"
  shows "\<exists>e' s' ts'. lsm_flush crc xxh opts e s = Some (Inr (moved_id e e'), e', s') \<and>
    evolves crc xxh 2 e s ts e' s' ts'"
proof -
  have "unat (en_next_sst_id e) + 1 < 2 ^ 64" using assms(3) by simp
  with flush_evolves [OF assms(1,2) this] have
    "\<exists>e' s' ts'. flush_inner crc xxh opts e s = (Inr (), e', s') \<and> evolves crc xxh 1 e s ts e' s' ts'" by blast
  from flush_compact_evolves [OF assms(1-3) this, of opts] obtain e1 s1 e' s' ts' where
    "flush_inner crc xxh opts e s = (Inr (), e1, s1)"
    "maybe_compact crc xxh opts e1 s1 = Some (Inr (), e', s')" "evolves crc xxh 2 e s ts e' s' ts'" by blast
  then show ?thesis using assms(4)
    by (intro exI [of _ e'] exI [of _ s'] exI [of _ ts']) (simp add: lsm_flush_def Let_def moved_id_def)
qed

lemma engine_rep_mono:
  "engine_rep crc xxh e s m N I \<Longrightarrow> N \<le> N' \<Longrightarrow> I \<le> I' \<Longrightarrow> engine_rep crc xxh e s m N' I'"
  unfolding engine_rep_def
  by (elim conjE exE, intro conjI exI) (assumption | erule (1) order_trans)+

lemma flush_rep:
  assumes e: "engine_rep crc xxh e s m N I" and "N < 2 ^ 62" and "I + 1 < 2 ^ 64"
  shows "\<exists>e' s'. flush_inner crc xxh opts e s = (Inr (), e', s') \<and>
    engine_rep crc xxh e' s' m N (I + 1) \<and> mt_is_empty (en_memtable e')"
proof -
  obtain ts where at: "engine_at crc xxh e s ts" and m: "m = lsm_map (en_memtable e) ts"
    and N: "load (en_memtable e) ts \<le> N" and I: "unat (en_next_sst_id e) \<le> I" "\<not> en_closed e"
    using e by (auto simp: engine_rep_at)
  have "load (en_memtable e) ts < 2 ^ 62" "unat (en_next_sst_id e) + 1 < 2 ^ 64" using N I assms(2,3) by simp_all
  from flush_evolves [OF at this, of opts] evolves_rep [OF _ m N I] show ?thesis by blast
qed

lemma compact_rep:
  assumes e: "engine_rep crc xxh e s m N I" and "N < 2 ^ 62" and "I + 1 < 2 ^ 64"
  shows "\<exists>e' s'. compact_l0_l1 crc xxh opts e s = Some (Inr (), e', s') \<and>
    engine_rep crc xxh e' s' m N (I + 1) \<and> lv_l0 (en_levels e') = [] \<and> length (lv_l1 (en_levels e')) \<le> 1"
proof -
  obtain ts where at: "engine_at crc xxh e s ts" and m: "m = lsm_map (en_memtable e) ts"
    and N: "load (en_memtable e) ts \<le> N" and I: "unat (en_next_sst_id e) \<le> I" "\<not> en_closed e"
    using e by (auto simp: engine_rep_at)
  have "load (en_memtable e) ts < 2 ^ 62" "unat (en_next_sst_id e) + 1 < 2 ^ 64" using N I assms(2,3) by simp_all
  from compact_evolves [OF at this, of opts] evolves_rep [OF _ m N I] show ?thesis by blast
qed

section \<open>Writes\<close>

definition entry_bound :: "bytes \<Rightarrow> entry \<Rightarrow> nat" where
  "entry_bound ky e = 2 * length ky + payload_size e + 29"

lemma load_insert: "mt_map m' = bt_insert (mt_map m) k e \<Longrightarrow> load m' ts \<le> load m ts + entry_bound k e"
  using table_bound_insert [of "mt_map m" k e] by (simp add: load_def entry_bound_def)

text \<open>A write is logged, updates the memtable, and then evolves.\<close>

lemma lsm_write_logged:
  fixes r
  defines "ky \<equiv> rec_key r"
  assumes e: "engine_at crc xxh e s ts" and r: "valid_record r" and o: "\<not> en_closed e"
    and upd: "upd (en_memtable e) = apply_record r (en_memtable e)"
  shows "\<exists>e1 s1. lsm_write crc xxh opts (rec_kind r) ky (rec_value r) upd e s = after_write crc xxh opts e1 s1 \<and>
    engine_at crc xxh e1 s1 ts \<and> en_memtable e1 = upd (en_memtable e) \<and> en_levels e1 = en_levels e \<and>
    en_next_sst_id e1 = en_next_sst_id e \<and> en_closed e1 = en_closed e \<and> keeps_snapshots s s1"
proof -
  obtain ts0 ts1 rs where on: "engine_on crc xxh e s ts0 ts1 rs" and ts: "ts = ts0 @ ts1"
    using e by (auto simp: engine_at_def)
  have r_eq: "\<lparr>rec_kind = rec_kind r, rec_key = ky, rec_value = rec_value r\<rparr> = r" by (simp add: ky_def)
  have plan: "plan s = []" using on by (simp add: engine_on_def)
  let ?w = "en_writer e\<lparr>w_scratch := frame crc r\<rparr>"
  let ?c = "content s (w_file (en_writer e)) @ frame crc r"
  let ?s1 = "s\<lparr>content := (content s)(w_file (en_writer e) := ?c)\<rparr>"
  have app: "wal_append crc (rec_kind r) ky (rec_value r) (en_writer e) s = (Inr (), ?w, ?s1)"
    using wal_append_ok [OF plan, of "rec_kind r" ky "rec_value r" crc "en_writer e"] r by (simp add: r_eq)
  define e1 where "e1 = e\<lparr>en_writer := ?w, en_memtable := upd (en_memtable e)\<rparr>"
  define s2 where "s2 = ?s1\<lparr>stable := (stable ?s1)(w_file ?w := content ?s1 (w_file ?w))\<rparr>"
  have "lsm_write crc xxh opts (rec_kind r) ky (rec_value r) upd e s = after_write crc xxh opts e1 s2"
    using o plan by (simp add: lsm_write_def app wal_sync_ok e1_def s2_def)
  moreover have "engine_on crc xxh e1 s2 ts0 ts1 (rs @ [r])"
    by (rule wal_append_engine [OF on r, of _ "frame crc r"]) (simp_all add: e1_def s2_def upd plan)
  then have "engine_at crc xxh e1 s2 ts" unfolding engine_at_def ts by blast
  moreover have "keeps_snapshots s s2"
    by (rule wal_append_engine(2) [OF on r, of e1 "frame crc r"]) (simp_all add: e1_def s2_def upd plan)
  ultimately show ?thesis by (intro exI [of _ e1] exI [of _ s2]) (simp add: e1_def)
qed

lemma lsm_write_evolves:
  fixes r
  defines "ky \<equiv> rec_key r" and "ent \<equiv> record_entry r"
  assumes e: "engine_at crc xxh e s ts" and r: "valid_record r" and o: "\<not> en_closed e"
    and upd: "upd (en_memtable e) = apply_record r (en_memtable e)"
    and N: "load (en_memtable e) ts + entry_bound ky ent < 2 ^ 62" and I: "unat (en_next_sst_id e) + 2 < 2 ^ 64"
  shows "\<exists>e1 s1 e' s' ts'.
    lsm_write crc xxh opts (rec_kind r) ky (rec_value r) upd e s = Some (Inr (moved_id e1 e'), e', s') \<and>
    mt_map (en_memtable e1) = bt_insert (mt_map (en_memtable e)) ky ent \<and> en_levels e1 = en_levels e \<and>
    en_next_sst_id e1 = en_next_sst_id e \<and> en_closed e1 = en_closed e \<and> keeps_snapshots s s1 \<and>
    evolves crc xxh 2 e1 s1 ts e' s' ts'"
proof -
  from lsm_write_logged [OF e r o, of upd opts, folded ky_def, OF upd] obtain e1 s1 where
    run: "lsm_write crc xxh opts (rec_kind r) ky (rec_value r) upd e s = after_write crc xxh opts e1 s1"
    and e1: "engine_at crc xxh e1 s1 ts" "en_memtable e1 = upd (en_memtable e)" "en_levels e1 = en_levels e"
      "en_next_sst_id e1 = en_next_sst_id e" "en_closed e1 = en_closed e" "keeps_snapshots s s1" by blast
  have mem: "mt_map (en_memtable e1) = bt_insert (mt_map (en_memtable e)) ky ent"
    by (simp add: e1(2) upd mt_map_apply_record ky_def ent_def del: record_entry.simps)
  have "load (en_memtable e1) ts < 2 ^ 62" "unat (en_next_sst_id e1) + 2 < 2 ^ 64"
    using load_insert [OF mem, of ts] N I e1(4) by simp_all
  from after_write_evolves [OF e1(1) this, of opts] obtain e' s' ts' where
    "after_write crc xxh opts e1 s1 = Some (Inr (moved_id e1 e'), e', s')" "evolves crc xxh 2 e1 s1 ts e' s' ts'"
    by blast
  with run mem e1 show ?thesis
    by (intro exI [of _ e1] exI [of _ s1] exI [of _ e'] exI [of _ s'] exI [of _ ts']) simp
qed

text \<open>A write below the thresholds does no more than that.\<close>

lemma lsm_write_quiet:
  assumes "engine_at crc xxh e s ts" and "valid_record r" and "\<not> en_closed e"
    and "upd (en_memtable e) = apply_record r (en_memtable e)"
    and "approximate_size (upd (en_memtable e)) < op_memtable_max_size_bytes opts"
    and "length (lv_l0 (en_levels e)) < op_l0_compaction_trigger opts"
  shows "\<exists>e1 s1. lsm_write crc xxh opts (rec_kind r) (rec_key r) (rec_value r) upd e s = Some (Inr None, e1, s1) \<and>
    engine_at crc xxh e1 s1 ts \<and> en_memtable e1 = upd (en_memtable e) \<and> en_levels e1 = en_levels e \<and>
    en_next_sst_id e1 = en_next_sst_id e \<and> en_closed e1 = en_closed e \<and> keeps_snapshots s s1"
proof -
  from lsm_write_logged [of crc xxh e s ts r upd opts] assms(1-4) obtain e1 s1 where
    1: "lsm_write crc xxh opts (rec_kind r) (rec_key r) (rec_value r) upd e s = after_write crc xxh opts e1 s1"
      "engine_at crc xxh e1 s1 ts" "en_memtable e1 = upd (en_memtable e)" "en_levels e1 = en_levels e"
      "en_next_sst_id e1 = en_next_sst_id e" "en_closed e1 = en_closed e" "keeps_snapshots s s1" by blast
  then have "after_write crc xxh opts e1 s1 = Some (Inr None, e1, s1)"
    using assms(5,6) by (simp add: after_write_def maybe_auto_flush_def maybe_compact_def)
  with 1 show ?thesis by (intro exI [of _ e1] exI [of _ s1]) simp
qed

text \<open>A flush leaves the memtable empty.\<close>

lemma compact_keeps_memtable:
  "maybe_compact crc xxh opts e s = Some (r, e', s') \<Longrightarrow> en_memtable e' = en_memtable e"
  by (auto simp: maybe_compact_def compact_l0_l1_def compact_install_def compact_discard_def Let_def
      split: if_splits option.splits sum.splits prod.splits)

lemma lsm_flush_empties:
  assumes "engine_at crc xxh e s ts" and "load (en_memtable e) ts < 2 ^ 62"
    and "unat (en_next_sst_id e) + 2 < 2 ^ 64" and "\<not> en_closed e"
  shows "\<exists>e' s' ts'. lsm_flush crc xxh opts e s = Some (Inr (moved_id e e'), e', s') \<and>
    evolves crc xxh 2 e s ts e' s' ts' \<and> mt_is_empty (en_memtable e')"
proof -
  have "unat (en_next_sst_id e) + 1 < 2 ^ 64" using assms(3) by simp
  from flush_evolves [OF assms(1,2) this, of opts] obtain e1 s1 ts1 where
    1: "flush_inner crc xxh opts e s = (Inr (), e1, s1)" "evolves crc xxh 1 e s ts e1 s1 ts1"
      "mt_is_empty (en_memtable e1)" by blast
  then have "\<exists>e1 s1 ts1. flush_inner crc xxh opts e s = (Inr (), e1, s1) \<and> evolves crc xxh 1 e s ts e1 s1 ts1" by blast
  from flush_compact_evolves [OF assms(1-3) this, of opts] 1(1) obtain e' s' ts' where
    2: "maybe_compact crc xxh opts e1 s1 = Some (Inr (), e', s')" "evolves crc xxh 2 e s ts e' s' ts'" by auto
  have "lsm_flush crc xxh opts e s = Some (Inr (moved_id e e'), e', s')"
    using assms(4) 1(1) 2(1) by (simp add: lsm_flush_def Let_def moved_id_def)
  with 2(2) 1(3) compact_keeps_memtable [OF 2(1)] show ?thesis
    by (intro exI [of _ e'] exI [of _ s'] exI [of _ ts']) simp
qed

lemma lsm_write_rep:
  fixes r
  defines "ky \<equiv> rec_key r" and "ent \<equiv> record_entry r"
  assumes e: "engine_rep crc xxh e s m N I" and r: "valid_record r"
    and upd: "upd (en_memtable e) = apply_record r (en_memtable e)"
    and m': "m' = m(ky := visible (Some ent))"
    and "N + entry_bound ky ent < 2 ^ 62" and "I + 2 < 2 ^ 64"
  shows "\<exists>x e' s'. lsm_write crc xxh opts (rec_kind r) ky (rec_value r) upd e s = Some (Inr x, e', s') \<and>
    engine_rep crc xxh e' s' m' (N + entry_bound ky ent) (I + 2)"
proof -
  obtain ts where at: "engine_at crc xxh e s ts" and m: "m = lsm_map (en_memtable e) ts"
    and N: "load (en_memtable e) ts \<le> N" and I: "unat (en_next_sst_id e) \<le> I" "\<not> en_closed e"
    using e by (auto simp: engine_rep_at)
  have "load (en_memtable e) ts + entry_bound ky ent < 2 ^ 62" "unat (en_next_sst_id e) + 2 < 2 ^ 64"
    using N I assms(7,8) by simp_all
  from lsm_write_evolves [OF at r I(2), of upd opts, folded ky_def ent_def, OF upd this] obtain e1 s1 e' s' ts' where
    run: "lsm_write crc xxh opts (rec_kind r) ky (rec_value r) upd e s = Some (Inr (moved_id e1 e'), e', s')"
    and mem: "mt_map (en_memtable e1) = bt_insert (mt_map (en_memtable e)) ky ent"
    and e1: "en_next_sst_id e1 = en_next_sst_id e" "en_closed e1 = en_closed e" "evolves crc xxh 2 e1 s1 ts e' s' ts'"
    by blast
  have "m' = lsm_map (en_memtable e1) ts"
    by (auto simp: m' m mem lsm_map_def map_add_def fun_eq_iff)
  moreover have "load (en_memtable e1) ts \<le> N + entry_bound ky ent" using load_insert [OF mem, of ts] N by simp
  ultimately show ?thesis using run evolves_rep [OF e1(3)] e1(1,2) I by metis
qed

definition valid_key :: "bytes \<Rightarrow> bool" where
  "valid_key ky \<longleftrightarrow> ky \<noteq> [] \<and> length ky \<le> unat MAX_KEY_LEN"

definition valid_value :: "bytes \<Rightarrow> bool" where
  "valid_value v \<longleftrightarrow> length v \<le> unat MAX_VALUE_LEN"

lemma lsm_put_rep:
  assumes "engine_rep crc xxh e s m N I" and "valid_key ky" and "valid_value v"
    and "N + entry_bound ky (Put v) < 2 ^ 62" and "I + 2 < 2 ^ 64"
  shows "\<exists>r e' s'. lsm_put crc xxh opts ky v e s = Some (Inr r, e', s') \<and>
    engine_rep crc xxh e' s' (m(ky \<mapsto> v)) (N + entry_bound ky (Put v)) (I + 2)"
  using lsm_write_rep [of crc xxh e s m N I "\<lparr>rec_kind = record_kind.Put, rec_key = ky, rec_value = v\<rparr>" "mt_put ky v"]
    assms
  by (simp add: lsm_put_def valid_record_def valid_key_def valid_value_def apply_record_def)

lemma lsm_put_vector_rep:
  assumes "engine_rep crc xxh e s m N I" and "valid_key ky" and "valid_value v"
    and "N + entry_bound ky (Vector v) < 2 ^ 62" and "I + 2 < 2 ^ 64"
  shows "\<exists>r e' s'. lsm_put_vector crc xxh opts ky v e s = Some (Inr r, e', s') \<and>
    engine_rep crc xxh e' s' (m(ky \<mapsto> v)) (N + entry_bound ky (Vector v)) (I + 2)"
  using lsm_write_rep [of crc xxh e s m N I "\<lparr>rec_kind = record_kind.Vector, rec_key = ky, rec_value = v\<rparr>" "mt_put_vector ky v"]
    assms
  by (simp add: lsm_put_vector_def valid_record_def valid_key_def valid_value_def apply_record_def)

lemma lsm_delete_rep:
  assumes "engine_rep crc xxh e s m N I" and "valid_key ky"
    and "N + entry_bound ky Tombstone < 2 ^ 62" and "I + 2 < 2 ^ 64"
  shows "\<exists>r e' s'. lsm_delete crc xxh opts ky e s = Some (Inr r, e', s') \<and>
    engine_rep crc xxh e' s' (m(ky := None)) (N + entry_bound ky Tombstone) (I + 2)"
  using lsm_write_rep [of crc xxh e s m N I "\<lparr>rec_kind = record_kind.Delete, rec_key = ky, rec_value = []\<rparr>" "mt_delete ky"]
    assms
  by (simp add: lsm_delete_def valid_record_def valid_key_def apply_record_def)

lemma lsm_flush_rep:
  assumes e: "engine_rep crc xxh e s m N I" and "N < 2 ^ 62" and "I + 2 < 2 ^ 64"
  shows "\<exists>r e' s'. lsm_flush crc xxh opts e s = Some (Inr r, e', s') \<and> engine_rep crc xxh e' s' m N (I + 2)"
proof -
  obtain ts where at: "engine_at crc xxh e s ts" and m: "m = lsm_map (en_memtable e) ts"
    and N: "load (en_memtable e) ts \<le> N" and I: "unat (en_next_sst_id e) \<le> I" "\<not> en_closed e"
    using e by (auto simp: engine_rep_at)
  have "load (en_memtable e) ts < 2 ^ 62" "unat (en_next_sst_id e) + 2 < 2 ^ 64" using N I assms(2,3) by simp_all
  from lsm_flush_evolves [OF at this I(2), of opts] evolves_rep [OF _ m N I] show ?thesis by blast
qed

lemma engine_get_rep:
  "engine_rep crc xxh e s m N I \<Longrightarrow> engine_get crc xxh ky e s = (Inr (m ky), s)"
  unfolding engine_rep_def using engine_get_ok by blast

end
