(* ===== verification/Recovery.thy ===== *)
theory Recovery
  imports Engine_Ops
begin

text \<open>
  Opening the engine: discovery of the tables in the directory, replay of the log, and the log
  writer (\<^verbatim>\<open>Engine::open\<close> up to the vector index, \<^verbatim>\<open>discover_sstables\<close> and
  \<^verbatim>\<open>wal_file_exists\<close> of \<^verbatim>\<open>src/src/engine.rs\<close>). Opening a directory that an engine left
  recovers the map the engine stood for.
\<close>

section \<open>Discovery\<close>

record found =
  fd_l0 :: "(u64 \<times> fname) list"
  fd_l1 :: "(u64 \<times> fname) list"
  fd_max :: "u64 option"

text \<open>The loop over the directory: stale temporaries are removed, tables are sorted by level.\<close>

fun discover_scan :: "fname list \<Rightarrow> found \<Rightarrow> fs \<Rightarrow> found \<times> fs" where
  "discover_scan [] f s = (f, s)"
| "discover_scan (path # ps) f s =
     (if extension path = Some ''tmp'' then discover_scan ps f (snd (remove_file path s))
      else if extension path \<noteq> Some SST_EXT then discover_scan ps f s
      else
        (case parse_sst_filename path of
           None \<Rightarrow> discover_scan ps f s
         | Some (level, sid) \<Rightarrow>
             (let f = f\<lparr>fd_max := Some (case fd_max f of None \<Rightarrow> sid | Some m \<Rightarrow> max m sid)\<rparr>
              in if level = 0 then discover_scan ps (f\<lparr>fd_l0 := fd_l0 f @ [(sid, path)]\<rparr>) s
                 else if level = 1 then discover_scan ps (f\<lparr>fd_l1 := fd_l1 f @ [(sid, path)]\<rparr>) s
                 else discover_scan ps f s)))"

text \<open>Of several L1 tables only the newest survives; the others are orphans.\<close>

definition reconcile_l1 :: "(u64 \<times> fname) list \<Rightarrow> fs \<Rightarrow> (u64 \<times> fname) list \<times> fs" where
  "reconcile_l1 l1 s =
     (if length l1 > 1
      then (let sorted = sort_key fst l1
            in ([last sorted], remove_all (map snd (butlast sorted)) s))
      else (l1, s))"

text \<open>L0 tables no newer than the surviving L1 table are orphans of its compaction.\<close>

definition reconcile_l0 ::
  "(u64 \<times> fname) list \<Rightarrow> (u64 \<times> fname) list \<Rightarrow> fs \<Rightarrow> (u64 \<times> fname) list \<times> fs" where
  "reconcile_l0 l1 l0 s =
     (case l1 of
        [] \<Rightarrow> (l0, s)
      | (threshold, _) # _ \<Rightarrow>
          ([p \<leftarrow> l0. \<not> fst p \<le> threshold], remove_all (map snd [p \<leftarrow> l0. fst p \<le> threshold]) s))"

fun open_tables ::
  "(bytes \<Rightarrow> u32) \<Rightarrow> (u64 \<times> fname) list \<Rightarrow> fs \<Rightarrow> (error + sstable_entry list) \<times> fs" where
  "open_tables crc [] s = (Inr [], s)"
| "open_tables crc ((sid, path) # ps) s =
     (case sst_open crc path s of
        (Inl e, s) \<Rightarrow> (Inl e, s)
      | (Inr rd, s) \<Rightarrow>
          (case open_tables crc ps s of
             (Inl e, s) \<Rightarrow> (Inl e, s)
           | (Inr ts, s) \<Rightarrow> (Inr (\<lparr>se_id = sid, se_reader = rd\<rparr> # ts), s)))"

definition discover_sstables :: "(bytes \<Rightarrow> u32) \<Rightarrow> fs \<Rightarrow> (error + level_state \<times> u64) \<times> fs" where
  "discover_sstables crc s =
     (case list_dir s of
        (Inl e, s) \<Rightarrow> (Inl e, s)
      | (Inr paths, s) \<Rightarrow>
          (case discover_scan paths \<lparr>fd_l0 = [], fd_l1 = [], fd_max = None\<rparr> s of
             (f, s) \<Rightarrow>
               (case reconcile_l1 (fd_l1 f) s of
                  (l1, s) \<Rightarrow>
                    (case reconcile_l0 l1 (fd_l0 f) s of
                       (l0, s) \<Rightarrow>
                         (case open_tables crc (sort_key fst l0) s of
                            (Inl e, s) \<Rightarrow> (Inl e, s)
                          | (Inr l0_entries, s) \<Rightarrow>
                              (case open_tables crc (sort_key fst l1) s of
                                 (Inl e, s) \<Rightarrow> (Inl e, s)
                               | (Inr l1_entries, s) \<Rightarrow>
                                   (Inr (\<lparr>lv_l0 = rev l0_entries, lv_l1 = l1_entries\<rparr>,
                                         case fd_max f of None \<Rightarrow> 0 | Some m \<Rightarrow> m + 1), s)))))))"

section \<open>Opening\<close>

definition wal_file_exists :: "fs \<Rightarrow> (error + bool) \<times> fs" where
  "wal_file_exists s =
     (case list_dir s of
        (Inl e, s) \<Rightarrow> (Inl e, s)
      | (Inr entries, s) \<Rightarrow> (Inr (WAL_FILENAME \<in> set entries), s))"

text \<open>\<^verbatim>\<open>Engine::open\<close> without the vector index.\<close>

definition open_inner :: "(bytes \<Rightarrow> u32) \<Rightarrow> fs \<Rightarrow> (error + engine) \<times> fs" where
  "open_inner crc s =
     (case create_dir_all s of
        (Inl e, s) \<Rightarrow> (Inl e, s)
      | (Inr _, s) \<Rightarrow>
          (case discover_sstables crc s of
             (Inl e, s) \<Rightarrow> (Inl e, s)
           | (Inr (lv, next_sst_id), s) \<Rightarrow>
               (case wal_file_exists s of
                  (Inl e, s) \<Rightarrow> (Inl e, s)
                | (Inr present, s) \<Rightarrow>
                    (case (if present then replay_wal crc WAL_FILENAME mt_new s
                           else (Inr (), mt_new, s)) of
                       (Inl e, m, s) \<Rightarrow> (Inl e, s)
                     | (Inr _, m, s) \<Rightarrow>
                         (case wal_open WAL_FILENAME s of
                            (Inl e, s) \<Rightarrow> (Inl e, s)
                          | (Inr w, s) \<Rightarrow>
                              (Inr \<lparr>en_writer = w, en_memtable = m, en_levels = lv,
                                 en_next_sst_id = next_sst_id, en_closed = False\<rparr>, s))))))"

section \<open>Scanning a clean directory\<close>

text \<open>What a scan collects, when there is nothing to remove: the tables of each level.\<close>

definition tables_in :: "nat \<Rightarrow> fname list \<Rightarrow> (u64 \<times> fname) list" where
  "tables_in l ps = concat (map (\<lambda>p. case parse_sst_filename p of
      Some (l', i) \<Rightarrow> if extension p = Some SST_EXT \<and> l' = l then [(i, p)] else []
    | None \<Rightarrow> []) ps)"

definition known_name :: "fname \<Rightarrow> bool" where
  "known_name p \<longleftrightarrow> p = WAL_FILENAME \<or> p \<in> range snapshot_filename \<or>
     p \<in> range (sst_filename 0) \<or> p \<in> range (sst_filename 1)"

lemma known_name_cases:
  assumes "known_name p"
  obtains "extension p \<noteq> Some ''tmp''" "extension p \<noteq> Some SST_EXT" "tables_in l [p] = []"
  | l' i where "p = sst_filename l' i" "l' \<le> 1" "extension p = Some SST_EXT" "parse_sst_filename p = Some (l', i)"
proof -
  show thesis
  proof (cases "extension p = Some SST_EXT")
    case True
    then obtain l' i where "p = sst_filename l' i" "l' \<le> 1"
      using assms by (auto simp: known_name_def extension_wal extension_snapshot SST_EXT_def)
    then show thesis using True by (intro that(2) [of l' i]) (simp_all add: parse_sst_sst)
  next
    case False
    then have "extension p \<noteq> Some ''tmp''"
      using assms by (auto simp: known_name_def extension_wal extension_snapshot extension_sst SST_EXT_def)
    with False show thesis by (intro that(1)) (auto simp: tables_in_def split: option.splits)
  qed
qed

lemma discover_scan_ok:
  "\<forall>p \<in> set ps. known_name p \<Longrightarrow>
   discover_scan ps f s =
     (\<lparr>fd_l0 = fd_l0 f @ tables_in 0 ps, fd_l1 = fd_l1 f @ tables_in 1 ps,
       fd_max = fold (\<lambda>i m. Some (case m of None \<Rightarrow> i | Some m \<Rightarrow> max m i))
         (concat (map (\<lambda>p. map fst (tables_in 0 [p] @ tables_in 1 [p])) ps)) (fd_max f)\<rparr>, s)"
proof (induction ps arbitrary: f)
  case Nil
  then show ?case by (simp add: tables_in_def)
next
  case (Cons p ps)
  have split: "tables_in l (p # ps) = tables_in l [p] @ tables_in l ps" for l
    by (simp add: tables_in_def)
  have "known_name p" using Cons.prems by simp
  then show ?case
  proof (cases rule: known_name_cases [where l = 0])
    case 1
    then have "tables_in l [p] = []" for l by (auto simp: tables_in_def split: option.splits)
    with 1 Cons show ?thesis by (simp add: split)
  next
    case (2 l' i)
    have t: "tables_in l [p] = (if l' = l then [(i, p)] else [])" for l
      using 2(3,4) by (simp add: tables_in_def)
    have "l' = 0 \<or> l' = 1" using 2(2) by auto
    then show ?thesis
      using Cons 2(3,4) by (auto simp: split t SST_EXT_def)
  qed
qed


lemma set_tables_in:
  assumes "\<forall>p \<in> set ps. known_name p" and "l \<le> 1"
  shows "set (tables_in l ps) = (\<lambda>i. (i, sst_filename l i)) ` {i. sst_filename l i \<in> set ps}"
  using assms(1)
proof (induction ps)
  case Nil
  then show ?case by (simp add: tables_in_def)
next
  case (Cons p ps)
  have split: "set (tables_in l (p # ps)) = set (tables_in l [p]) \<union> set (tables_in l ps)"
    by (simp add: tables_in_def)
  have "set (tables_in l [p]) = (\<lambda>i. (i, sst_filename l i)) ` {i. sst_filename l i = p}"
  proof -
    have "known_name p" using Cons.prems by simp
    then show ?thesis
    proof (cases rule: known_name_cases [where l = l])
      case 1
      then have "sst_filename l i \<noteq> p" for i using extension_sst by metis
      with 1 show ?thesis by simp
    next
      case (2 l' i)
      then have "{j. sst_filename l j = p} = (if l' = l then {i} else {})" using assms(2) by auto
      with 2 show ?thesis by (simp add: tables_in_def)
    qed
  qed
  with Cons split show ?case by auto
qed

lemma distinct_tables_in:
  assumes "\<forall>p \<in> set ps. known_name p" and "l \<le> 1" and "distinct ps"
  shows "distinct (map fst (tables_in l ps))"
  using assms(1,3)
proof (induction ps)
  case Nil
  then show ?case by (simp add: tables_in_def)
next
  case (Cons p ps)
  have split: "tables_in l (p # ps) = tables_in l [p] @ tables_in l ps"
    by (simp add: tables_in_def)
  have IH: "distinct (map fst (tables_in l ps))" using Cons by simp
  have ids: "fst ` set (tables_in l ps) = {i. sst_filename l i \<in> set ps}"
    using Cons.prems assms(2) by (simp add: set_tables_in image_image)
  have "known_name p" using Cons.prems by simp
  then show ?case
  proof (cases rule: known_name_cases [where l = l])
    case 1
    with IH show ?thesis by (simp add: split)
  next
    case (2 l' i)
    then have "tables_in l [p] = (if l' = l then [(i, p)] else [])" by (simp add: tables_in_def)
    with IH ids Cons.prems(2) 2(1) show ?thesis unfolding split by auto
  qed
qed

text \<open>The tables of a level, as the directory shows them and as the engine holds them.\<close>

lemma sorted_tables:
  assumes ps: "\<forall>p \<in> set ps. known_name p" "distinct ps" "l \<le> 1"
    and ts: "sorted_wrt (\<lambda>t u. se_id u < se_id t) ts"
    and same: "\<And>i. sst_filename l i \<in> set ps \<longleftrightarrow> i \<in> se_id ` set ts"
  shows "sort_key fst (tables_in l ps) = map (\<lambda>t. (se_id t, sst_filename l (se_id t))) (rev ts)"
proof -
  let ?f = "\<lambda>t. (se_id t, sst_filename l (se_id t))"
  have asc: "sorted_wrt (<) (map fst (map ?f (rev ts)))"
    using ts by (simp add: sorted_wrt_map sorted_wrt_rev comp_def rev_map [symmetric])
  have set: "set (tables_in l ps) = set (map ?f (rev ts))"
    using set_tables_in [OF ps(1,3)] same by (auto simp: image_iff)
  show ?thesis
  proof (rule map_sorted_distinct_set_unique [where f = fst])
    show "inj_on fst (set (sort_key fst (tables_in l ps)) \<union> set (map ?f (rev ts)))"
      using set by (auto simp: inj_on_def)
    show "sorted (map fst (sort_key fst (tables_in l ps)))" by simp
    show "distinct (map fst (sort_key fst (tables_in l ps)))"
      using distinct_tables_in [OF ps(1,3,2)] by (simp add: distinct_map distinct_sort)
    show "sorted (map fst (map ?f (rev ts)))" "distinct (map fst (map ?f (rev ts)))"
      using asc by (auto simp: strict_sorted_imp_sorted strict_sorted_iff)
    show "set (sort_key fst (tables_in l ps)) = set (map ?f (rev ts))" using set by simp
  qed
qed

lemma word_succ_less:
  assumes "(a :: u64) < i"
  shows "a < a + 1" and "a + 1 \<le> i"
proof -
  have "unat a < unat i" using assms by (simp add: word_less_nat_alt)
  moreover have "unat i < 2 ^ 64" using unsigned_less [of i, where ?'a = nat] by simp
  ultimately have "unat (a + 1) = unat a + 1" by (simp add: unat_word_ariths)
  with \<open>unat a < unat i\<close> show "a < a + 1" "a + 1 \<le> i"
    by (simp_all add: word_less_nat_alt word_le_nat_alt)
qed

lemma sort_key_short: "length xs \<le> 1 \<Longrightarrow> sort_key f xs = xs"
  by (cases xs) auto

lemma fold_max:
  "fold (\<lambda>i m. Some (case m of None \<Rightarrow> i | Some m \<Rightarrow> max m (i :: u64))) xs None =
     (if xs = [] then None else Some (Max (set xs)))"
proof -
  have some: "fold (\<lambda>i m. Some (case m of None \<Rightarrow> i | Some m \<Rightarrow> max m (i :: u64))) ys (Some a) =
      Some (fold max ys a)" for ys a
    by (induction ys arbitrary: a) (simp_all add: max.commute)
  have "fold max ys a = Max (set (a # ys))" for ys and a :: u64
    by (rule Max.set_eq_fold [symmetric])
  then show ?thesis by (cases xs) (simp_all add: some)
qed

lemma reads_table_file: "reads_table crc xxh rd s es \<Longrightarrow> sst_file crc xxh es (content s (sr_file rd))"
  unfolding reads_table_def sst_file_def by blast

lemma open_tables_ok:
  "list_all2 (table_on crc xxh s l) ts tss \<Longrightarrow> plan s = [] \<Longrightarrow>
   \<exists>ts'. open_tables crc (map (\<lambda>t. (se_id t, sst_filename l (se_id t))) ts) s = (Inr ts', s) \<and>
     map se_id ts' = map se_id ts \<and> list_all2 (table_on crc xxh s l) ts' tss"
proof (induction ts tss rule: list_all2_induct)
  case Nil
  then show ?case by simp
next
  case (Cons t ts es tss)
  then have t: "sst_file crc xxh es (content s (sr_file (se_reader t)))"
    "bt_get (names s) (sst_filename l (se_id t)) = Some (sr_file (se_reader t))" "entries_ok es"
    by (simp_all add: table_on_def reads_table_file)
  from sst_open_ok [OF t(1,2) Cons.prems] obtain rd where
    "sst_open crc (sst_filename l (se_id t)) s = (Inr rd, s)" "sr_file rd = sr_file (se_reader t)"
    "reads_table crc xxh rd s es" by blast
  with Cons t show ?case by (auto simp: table_on_def)
qed


section \<open>Opening what an engine left\<close>

lemma dir_ok_known: "dir_ok lv s \<Longrightarrow> p \<in> set (map fst (names s)) \<Longrightarrow> known_name p"
proof -
  assume d: "dir_ok lv s" and "p \<in> set (map fst (names s))"
  then have "bt_get (names s) p \<noteq> None" by (simp add: bt_get_map_of map_of_eq_None_iff)
  with d show "known_name p" unfolding dir_ok_def known_name_def by blast
qed

lemma name_present: "p \<in> set (map fst (names s)) \<longleftrightarrow> bt_get (names s) p \<noteq> None"
  by (simp add: bt_get_map_of map_of_eq_None_iff)

lemma level_names:
  assumes dir: "dir_ok lv s" and lv: "levels_on crc xxh lv i s ts0 ts1"
  shows "sst_filename 0 j \<in> set (map fst (names s)) \<longleftrightarrow> j \<in> se_id ` set (lv_l0 lv)"
    and "sst_filename 1 j \<in> set (map fst (names s)) \<longleftrightarrow> j \<in> se_id ` set (lv_l1 lv)"
proof -
  have l: "list_all2 (table_on crc xxh s 0) (lv_l0 lv) ts0" "list_all2 (table_on crc xxh s 1) (lv_l1 lv) ts1"
    using lv by (simp_all add: levels_on_def)
  show "sst_filename 0 j \<in> set (map fst (names s)) \<longleftrightarrow> j \<in> se_id ` set (lv_l0 lv)"
    using dir tables_names [OF l(1)] unfolding name_present dir_ok_def by fastforce
  show "sst_filename 1 j \<in> set (map fst (names s)) \<longleftrightarrow> j \<in> se_id ` set (lv_l1 lv)"
    using dir tables_names [OF l(2)] unfolding name_present dir_ok_def by fastforce
qed

lemma discover_ok:
  assumes s: "plan s = []" "fs_ok s" and dir: "dir_ok lv s" and lv: "levels_on crc xxh lv i s ts0 ts1"
  shows "\<exists>lv' i'. discover_sstables crc s = (Inr (lv', i'), s) \<and> levels_on crc xxh lv' i' s ts0 ts1 \<and>
    dir_ok lv' s \<and> i' \<le> i"
proof -
  define ps where "ps = map fst (names s)"
  let ?f = "\<lambda>l t. (se_id t, sst_filename l (se_id t))"
  have known: "\<forall>p \<in> set ps. known_name p" using dir_ok_known [OF dir] by (auto simp: ps_def)
  have dist: "distinct ps" using s(2) by (simp add: ps_def fs_ok_sorted ksorted_distinct)
  have l: "list_all2 (table_on crc xxh s 0) (lv_l0 lv) ts0" "list_all2 (table_on crc xxh s 1) (lv_l1 lv) ts1"
    and one: "length (lv_l1 lv) \<le> 1"
    and desc: "sorted_wrt (\<lambda>t u. se_id u < se_id t) (lv_l0 lv @ lv_l1 lv)"
    and below: "\<forall>t \<in> set (lv_l0 lv @ lv_l1 lv). se_id t < i"
    using lv by (simp_all add: levels_on_def)
  have desc0: "sorted_wrt (\<lambda>t u. se_id u < se_id t) (lv_l0 lv)"
    and desc1: "sorted_wrt (\<lambda>t u. se_id u < se_id t) (lv_l1 lv)"
    using desc by (simp_all add: sorted_wrt_append)
  note names = level_names [OF dir lv, folded ps_def]
  have t0: "sort_key fst (tables_in 0 ps) = map (?f 0) (rev (lv_l0 lv))"
    by (rule sorted_tables [OF known dist _ desc0 names(1)]) simp
  have "sort_key fst (tables_in 1 ps) = map (?f 1) (rev (lv_l1 lv))"
    by (rule sorted_tables [OF known dist _ desc1 names(2)]) simp
  also have "rev (lv_l1 lv) = lv_l1 lv" using one by (cases "lv_l1 lv") auto
  finally have t1: "sort_key fst (tables_in 1 ps) = map (?f 1) (lv_l1 lv)" .
  from arg_cong [OF this, of length] have "length (tables_in 1 ps) = length (lv_l1 lv)" by simp
  then have "sort_key fst (tables_in 1 ps) = tables_in 1 ps"
    using one by (intro sort_key_short) simp
  then have u1: "tables_in 1 ps = map (?f 1) (lv_l1 lv)" using t1 by simp
  define ids where "ids = concat (map (\<lambda>p. map fst (tables_in 0 [p] @ tables_in 1 [p])) ps)"
  define m where "m = (if ids = [] then None else Some (Max (set ids)))"
  have scan: "discover_scan ps \<lparr>fd_l0 = [], fd_l1 = [], fd_max = None\<rparr> s =
      (\<lparr>fd_l0 = tables_in 0 ps, fd_l1 = tables_in 1 ps, fd_max = m\<rparr>, s)"
    using discover_scan_ok [OF known, of "\<lparr>fd_l0 = [], fd_l1 = [], fd_max = None\<rparr>" s]
    by (simp add: fold_max m_def ids_def)
  have concat_tables: "set (tables_in k ps) = (\<Union>p \<in> set ps. set (tables_in k [p]))" for k
    by (auto simp: tables_in_def)
  have ids: "set ids = se_id ` set (lv_l0 lv @ lv_l1 lv)"
  proof -
    have "set ids = fst ` set (tables_in 0 ps) \<union> fst ` set (tables_in 1 ps)"
      unfolding concat_tables by (auto simp: ids_def)
    also have "\<dots> = fst ` set (sort_key fst (tables_in 0 ps)) \<union> fst ` set (sort_key fst (tables_in 1 ps))"
      by simp
    finally show ?thesis unfolding t0 t1 by (auto simp: image_image)
  qed
  have rec1: "reconcile_l1 (tables_in 1 ps) s = (tables_in 1 ps, s)"
    unfolding reconcile_l1_def u1 using one by simp
  have rec0: "reconcile_l0 (tables_in 1 ps) (tables_in 0 ps) s = (tables_in 0 ps, s)"
  proof (cases "lv_l1 lv")
    case Nil
    then show ?thesis unfolding reconcile_l0_def u1 by simp
  next
    case (Cons t ts)
    have "\<not> fst p \<le> se_id t" if "p \<in> set (tables_in 0 ps)" for p
    proof -
      have "p \<in> set (sort_key fst (tables_in 0 ps))" using that by simp
      then obtain u where "u \<in> set (lv_l0 lv)" "p = ?f 0 u" unfolding t0 by auto
      with desc show ?thesis by (auto simp: sorted_wrt_append Cons)
    qed
    then have "[p \<leftarrow> tables_in 0 ps. \<not> fst p \<le> se_id t] = tables_in 0 ps"
      "[p \<leftarrow> tables_in 0 ps. fst p \<le> se_id t] = []"
      by (auto simp: filter_id_conv filter_empty_conv)
    then show ?thesis unfolding reconcile_l0_def u1 Cons by simp
  qed
  obtain l0' where l0': "open_tables crc (map (?f 0) (rev (lv_l0 lv))) s = (Inr l0', s)"
      "map se_id l0' = map se_id (rev (lv_l0 lv))" "list_all2 (table_on crc xxh s 0) l0' (rev ts0)"
    using open_tables_ok [of crc xxh s 0 "rev (lv_l0 lv)" "rev ts0"] l s by auto
  obtain l1' where l1': "open_tables crc (map (?f 1) (lv_l1 lv)) s = (Inr l1', s)"
      "map se_id l1' = map se_id (lv_l1 lv)" "list_all2 (table_on crc xxh s 1) l1' ts1"
    using open_tables_ok [OF l(2) s(1)] by auto
  define i' where "i' = (case m of None \<Rightarrow> 0 | Some m \<Rightarrow> m + 1)"
  define lv' where "lv' = \<lparr>lv_l0 = rev l0', lv_l1 = l1'\<rparr>"
  have run: "discover_sstables crc s = (Inr (lv', i'), s)"
  proof -
    have "open_tables crc (sort_key fst (tables_in 0 ps)) s = (Inr l0', s)"
      unfolding t0 by (rule l0'(1))
    moreover have "open_tables crc (sort_key fst (tables_in 1 ps)) s = (Inr l1', s)"
      unfolding t1 by (rule l1'(1))
    ultimately show ?thesis
      using s(1) scan rec1 rec0
      by (simp add: discover_sstables_def list_dir_ok lv'_def i'_def flip: ps_def)
  qed
  have ids': "map se_id (lv_l0 lv' @ lv_l1 lv') = map se_id (lv_l0 lv @ lv_l1 lv)"
    using l0'(2) l1'(2) by (simp add: lv'_def rev_map [symmetric])
  have i': "j < i'" if "j \<in> set ids" for j
  proof -
    have ne: "ids \<noteq> []" using that by auto
    then have "Max (set ids) \<in> set ids" by simp
    then have "Max (set ids) < i" using below ids by auto
    then have "Max (set ids) < Max (set ids) + 1" by (rule word_succ_less(1))
    moreover have "j \<le> Max (set ids)" using that by simp
    ultimately have "j < Max (set ids) + 1" using le_less_trans by blast
    moreover have "i' = Max (set ids) + 1" using ne by (simp add: i'_def m_def)
    ultimately show ?thesis by simp
  qed
  have "i' \<le> i"
  proof (cases "ids = []")
    case False
    then have "Max (set ids) \<in> set ids" by simp
    then have "Max (set ids) < i" using below ids by auto
    then show ?thesis using False by (simp add: i'_def m_def word_succ_less(2))
  qed (simp add: i'_def m_def)
  moreover have "levels_on crc xxh lv' i' s ts0 ts1"
    unfolding levels_on_def
  proof (intro conjI)
    show "list_all2 (table_on crc xxh s 0) (lv_l0 lv') ts0"
      using l0'(3) by (simp add: lv'_def list_all2_rev1)
    show "list_all2 (table_on crc xxh s 1) (lv_l1 lv') ts1" using l1'(3) by (simp add: lv'_def)
    show "length (lv_l1 lv') \<le> 1" using one l1'(2) by (metis length_map level_state.select_convs(2) lv'_def)
    have "sorted_wrt (\<lambda>a b. b < a) (map se_id (lv_l0 lv' @ lv_l1 lv'))"
      unfolding ids' using desc by (simp only: sorted_wrt_map)
    then show "sorted_wrt (\<lambda>t u. se_id u < se_id t) (lv_l0 lv' @ lv_l1 lv')" by (simp only: sorted_wrt_map)
    have "se_id ` set (lv_l0 lv' @ lv_l1 lv') = set ids"
      unfolding ids by (metis ids' set_map)
    then show "\<forall>t \<in> set (lv_l0 lv' @ lv_l1 lv'). se_id t < i'" using i' by blast
  qed
  moreover have "dir_ok lv' s"
  proof -
    have "se_id ` set (lv_l0 lv') = se_id ` set (lv_l0 lv)" "se_id ` set (lv_l1 lv') = se_id ` set (lv_l1 lv)"
      using l0'(2) l1'(2) by (simp_all add: lv'_def) (metis set_map set_rev)+
    with dir show ?thesis by (simp add: dir_ok_def)
  qed
  ultimately show ?thesis using run by blast
qed


lemma open_inner_ok:
  assumes e: "engine_on crc xxh e s ts0 ts1 rs"
  shows "\<exists>e'. open_inner crc s = (Inr e', s) \<and> engine_on crc xxh e' s ts0 ts1 rs \<and>
    en_memtable e' = en_memtable e \<and> en_next_sst_id e' \<le> en_next_sst_id e \<and> \<not> en_closed e'"
proof -
  have st: "plan s = []" "fs_ok s" and dur: "durable s" and dir: "dir_ok (en_levels e) s"
    and lv: "levels_on crc xxh (en_levels e) (en_next_sst_id e) s ts0 ts1" and wal: "wal_on crc (en_writer e) s rs"
    and mem: "en_memtable e = replay_all rs mt_new"
    using e by (simp_all add: engine_on_def)
  obtain lv' i' where disc: "discover_sstables crc s = (Inr (lv', i'), s)"
    and lv': "levels_on crc xxh lv' i' s ts0 ts1" "dir_ok lv' s" "i' \<le> en_next_sst_id e"
    using discover_ok [OF st dir lv] by blast
  have w: "bt_get (names s) WAL_FILENAME = Some (w_file (en_writer e))"
      "content s (w_file (en_writer e)) = log_bytes crc rs" "\<forall>r \<in> set rs. valid_record r"
    using wal by (simp_all add: wal_on_def)
  have "WAL_FILENAME \<in> set (map fst (names s))" using w(1) unfolding name_present by simp
  then have ex: "wal_file_exists s = (Inr True, s)"
    using st by (simp add: wal_file_exists_def list_dir_ok)
  have rep: "replay_wal crc WAL_FILENAME mt_new s = (Inr (), replay_all rs mt_new, s)"
    by (rule replay_wal_log [OF st(1) w])
  have wop: "wal_open WAL_FILENAME s = (Inr \<lparr>w_file = w_file (en_writer e), w_scratch = []\<rparr>, s)"
    by (rule wal_open_old [OF st(1) w(1)]) (simp add: w(2))
  define e' where "e' = \<lparr>en_writer = \<lparr>w_file = w_file (en_writer e), w_scratch = []\<rparr>,
    en_memtable = replay_all rs mt_new, en_levels = lv', en_next_sst_id = i', en_closed = False\<rparr>"
  have "open_inner crc s = (Inr e', s)"
    using st by (simp add: open_inner_def create_dir_all_ok disc ex rep wop e'_def)
  moreover have "engine_on crc xxh e' s ts0 ts1 rs"
    using st dur lv' w by (simp add: engine_on_def e'_def wal_on_def)
  ultimately show ?thesis using mem lv'(3) by (auto simp: e'_def)
qed

lemma open_inner_fresh:
  assumes "plan s = []" and "names s = []"
  shows "\<exists>e s'. open_inner crc s = (Inr e, s') \<and> engine_rep crc xxh e s' Map.empty 0 0"
proof -
  define s1 where "s1 = s\<lparr>names := bt_insert (names s) WAL_FILENAME (next_ino s),
    content := (content s)(next_ino s := wal_header), stable := (stable s)(next_ino s := wal_header),
    stable_names := bt_insert (names s) WAL_FILENAME (next_ino s), next_ino := Suc (next_ino s)\<rparr>"
  define e where "e = \<lparr>en_writer = \<lparr>w_file = next_ino s, w_scratch = []\<rparr>, en_memtable = mt_new,
    en_levels = \<lparr>lv_l0 = [], lv_l1 = []\<rparr>, en_next_sst_id = 0, en_closed = False\<rparr>"
  have "bt_get (names s) WAL_FILENAME = None" by (simp add: assms(2))
  then have "wal_open WAL_FILENAME s = (Inr \<lparr>w_file = next_ino s, w_scratch = []\<rparr>, s1)"
    using assms(1) by (simp add: wal_open_new s1_def)
  moreover have "discover_sstables crc s = (Inr (\<lparr>lv_l0 = [], lv_l1 = []\<rparr>, 0), s)"
    using assms by (simp add: discover_sstables_def list_dir_ok reconcile_l1_def reconcile_l0_def)
  moreover have "wal_file_exists s = (Inr False, s)"
    using assms by (simp add: wal_file_exists_def list_dir_ok)
  ultimately have "open_inner crc s = (Inr e, s1)"
    using assms by (simp add: open_inner_def create_dir_all_ok e_def)
  moreover have "engine_on crc xxh e s1 [] [] []"
    using assms by (auto simp: engine_on_def e_def s1_def fs_ok_def dir_ok_def levels_on_def wal_on_def
        durable_def log_bytes_Nil split: if_splits)
  then have "engine_rep crc xxh e s1 Map.empty 0 0"
    unfolding engine_rep_def
    by (intro conjI exI [of _ "[]"] exI [of _ "[] :: wal_record list"])
      (auto simp: e_def lsm_map_def load_def)
  ultimately show ?thesis by blast
qed

lemma engine_close_on:
  assumes e: "engine_on crc xxh e s ts0 ts1 rs" and "\<not> en_closed e"
  shows "\<exists>s'. engine_close e s = (Inr (), e\<lparr>en_closed := True\<rparr>, s') \<and>
    engine_on crc xxh (e\<lparr>en_closed := True\<rparr>) s' ts0 ts1 rs"
proof -
  let ?s' = "s\<lparr>stable := (stable s)(w_file (en_writer e) := content s (w_file (en_writer e)))\<rparr>"
  have "engine_on crc xxh (e\<lparr>en_closed := True\<rparr>) ?s' ts0 ts1 rs"
    using e fs_ok_same [of s ?s'] levels_on_frame [of s ?s']
    by (simp add: engine_on_def dir_ok_def wal_on_def keeps_tables_def durable_def)
  then show ?thesis using e assms(2)
    by (simp add: engine_close_def wal_sync_ok engine_on_def)
qed

text \<open>Closing and opening again: the map is the same.\<close>

lemma reopen_rep:
  assumes "engine_rep crc xxh e s m N I"
  shows "\<exists>e1 s1 e2. engine_close e s = (Inr (), e1, s1) \<and> open_inner crc s1 = (Inr e2, s1) \<and>
    engine_rep crc xxh e2 s1 m N I"
proof -
  obtain ts0 ts1 rs where on: "engine_on crc xxh e s ts0 ts1 rs" and m: "m = lsm_map (en_memtable e) (ts0 @ ts1)"
    and N: "load (en_memtable e) (ts0 @ ts1) \<le> N" and I: "unat (en_next_sst_id e) \<le> I" "\<not> en_closed e"
    using assms by (auto simp: engine_rep_def)
  obtain s1 where s1: "engine_close e s = (Inr (), e\<lparr>en_closed := True\<rparr>, s1)"
      "engine_on crc xxh (e\<lparr>en_closed := True\<rparr>) s1 ts0 ts1 rs"
    using engine_close_on [OF on I(2)] by blast
  from open_inner_ok [OF s1(2)] obtain e2 where e2: "open_inner crc s1 = (Inr e2, s1)"
    "engine_on crc xxh e2 s1 ts0 ts1 rs" "en_memtable e2 = en_memtable e"
    "en_next_sst_id e2 \<le> en_next_sst_id e" "\<not> en_closed e2" by auto
  have "unat (en_next_sst_id e2) \<le> I" using e2(4) I(1) by (simp add: word_le_nat_alt)
  with e2 m N have "engine_rep crc xxh e2 s1 m N I" unfolding engine_rep_def by auto
  with s1 e2 show ?thesis by blast
qed


text \<open>An engine on a fresh directory, for concrete instances.\<close>

lemma fresh_engine: "\<exists>e s. engine_rep (\<lambda>_. 7) (\<lambda>_. 9) e s Map.empty 0 0"
  using open_inner_fresh [of empty_fs "\<lambda>_. 7" "\<lambda>_. 9"] by (auto simp: empty_fs_def)

end
