(* ===== verification/History.thy ===== *)
theory History
  imports Recovery
begin

text \<open>
  Whole runs of the engine. A history is a list of commands, among them closing and opening
  again, and power losses. In a history the power loss destroys everything not yet on stable storage;
  \<open>crashed\<close> relates a state to every one that a power loss may leave. On a fresh
  directory every history answers as the map from keys to values does.
\<close>

section \<open>Power loss\<close>

text \<open>
  A power loss may keep or lose any change that was not synced. Each entry of the directory is the one last
  synced or the one of the moment: a new name may be missing or there, a removed one gone or back, a rename
  done in part. Of each file at least the synced bytes are left, and of the bytes appended since a prefix.
  The directory itself is well-formed; a file is not found under two names.
\<close>

definition crashed :: "fs \<Rightarrow> fs \<Rightarrow> bool" where
  "crashed s s' \<longleftrightarrow>
     plan s' = [] \<and> fs_ok s' \<and>
     (\<forall>p. bt_get (names s') p = bt_get (stable_names s) p \<or> bt_get (names s') p = bt_get (names s) p) \<and>
     stable_names s' = names s' \<and> next_ino s' = next_ino s \<and> stable s' = content s' \<and>
     (\<forall>h. \<exists>n \<ge> length (stable s h). content s' h = take n (content s h))"

lemma crashed_content:
  assumes "crashed s s'" and "stable s h = content s h"
  shows "content s' h = content s h"
proof -
  obtain n where "n \<ge> length (stable s h)" "content s' h = take n (content s h)"
    using assms(1) unfolding crashed_def by blast
  with assms(2) show ?thesis by simp
qed

text \<open>Losing no byte and every unsynced entry is one of the ways to crash.\<close>

lemma crash_possible:
  assumes "fs_ok (s\<lparr>names := stable_names s\<rparr>)"
  shows "crashed s (s\<lparr>names := stable_names s, stable := content s, plan := []\<rparr>)"
proof -
  have "\<exists>n \<ge> length (stable s h). content s h = take n (content s h)" for h
    by (rule exI [of _ "max (length (stable s h)) (length (content s h))"]) simp
  moreover have "fs_ok (s\<lparr>names := stable_names s, stable := content s, plan := []\<rparr>)"
    using assms by (simp add: fs_ok_def)
  ultimately show ?thesis by (simp add: crashed_def)
qed

definition power_loss :: "fs \<Rightarrow> fs" where
  "power_loss s = s\<lparr>names := stable_names s, content := stable s, plan := []\<rparr>"

lemma stable_dir_ok: "durable s \<Longrightarrow> names s' = stable_names s \<Longrightarrow> next_ino s' = next_ino s \<Longrightarrow> fs_ok s'"
  by (rule fs_ok_same [of "s\<lparr>names := stable_names s\<rparr>"]) (simp_all add: durable_def)

lemma crashed_on:
  assumes e: "engine_on crc xxh e s ts0 ts1 rs" and c: "crashed s s'"
  shows "engine_on crc xxh e s' ts0 ts1 rs"
proof (rule engine_on_frame [OF e])
  have d: "durable s" using e by (simp add: engine_on_def)
  show "plan s' = []" using c by (simp add: crashed_def)
  show "fs_ok s'" using c by (simp add: crashed_def)
  then show "durable s'" using c by (intro durable_synced) (simp_all add: crashed_def)
  show "bt_get (names s') p = bt_get (names s) p" if "p \<notin> range snapshot_filename" for p
    using that d c unfolding crashed_def durable_def by metis
  fix p h
  assume "bt_get (names s) p = Some h"
  then have "stable s h = content s h" using d by (simp add: durable_def)
  then show "content s' h = content s h" by (rule crashed_content [OF c])
qed

lemma power_loss_on:
  assumes e: "engine_on crc xxh e s ts0 ts1 rs"
  shows "engine_on crc xxh e (power_loss s) ts0 ts1 rs"
proof (rule engine_on_frame [OF e])
  have d: "durable s" using e by (simp add: engine_on_def)
  then show "fs_ok (power_loss s)" by (rule stable_dir_ok) (simp_all add: power_loss_def)
  then show "durable (power_loss s)" by (rule durable_synced) (simp_all add: power_loss_def)
qed (use e in \<open>simp_all add: power_loss_def engine_on_def durable_def\<close>)

lemma reopen_on:
  assumes "engine_rep crc xxh e s m N I"
    and "\<And>ts0 ts1 rs. engine_on crc xxh e s ts0 ts1 rs \<Longrightarrow> engine_on crc xxh e s' ts0 ts1 rs"
  shows "\<exists>e'. open_inner crc s' = (Inr e', s') \<and> engine_rep crc xxh e' s' m N I"
proof -
  obtain ts0 ts1 rs where on: "engine_on crc xxh e s ts0 ts1 rs" and m: "m = lsm_map (en_memtable e) (ts0 @ ts1)"
    and N: "load (en_memtable e) (ts0 @ ts1) \<le> N" and I: "unat (en_next_sst_id e) \<le> I"
    using assms(1) by (auto simp: engine_rep_def)
  from open_inner_ok [OF assms(2) [OF on]] obtain e' where e': "open_inner crc s' = (Inr e', s')"
    "engine_on crc xxh e' s' ts0 ts1 rs" "en_memtable e' = en_memtable e"
    "en_next_sst_id e' \<le> en_next_sst_id e" "\<not> en_closed e'" by auto
  have "unat (en_next_sst_id e') \<le> I" using e'(4) I by (simp add: word_le_nat_alt)
  with e' m N show ?thesis unfolding engine_rep_def by auto
qed

section \<open>Commands\<close>

datatype command =
    PutCmd bytes bytes
  | VectorCmd bytes bytes
  | DeleteCmd bytes
  | GetCmd bytes
  | FlushCmd
  | ReopenCmd
  | CrashCmd

definition done_with :: "((error + u64 option) \<times> engine \<times> fs) option \<Rightarrow>
    ((error + bytes option) \<times> engine \<times> fs) option" where
  "done_with r = map_option (\<lambda>(x, e, s). (map_sum (\<lambda>y. y) (\<lambda>_. None) x, e, s)) r"

fun run_command ::
  "(bytes \<Rightarrow> u32) \<Rightarrow> (bytes \<Rightarrow> 128 word) \<Rightarrow> options \<Rightarrow> command \<Rightarrow> engine \<Rightarrow> fs \<Rightarrow>
     ((error + bytes option) \<times> engine \<times> fs) option" where
  "run_command crc xxh opts (PutCmd ky v) e s = done_with (lsm_put crc xxh opts ky v e s)"
| "run_command crc xxh opts (VectorCmd ky v) e s = done_with (lsm_put_vector crc xxh opts ky v e s)"
| "run_command crc xxh opts (DeleteCmd ky) e s = done_with (lsm_delete crc xxh opts ky e s)"
| "run_command crc xxh opts (GetCmd ky) e s =
     (case engine_get crc xxh ky e s of (r, s) \<Rightarrow> Some (r, e, s))"
| "run_command crc xxh opts FlushCmd e s = done_with (lsm_flush crc xxh opts e s)"
| "run_command crc xxh opts ReopenCmd e s =
     (case engine_close e s of
        (Inl err, e, s) \<Rightarrow> Some (Inl err, e, s)
      | (Inr _, e, s) \<Rightarrow>
          (case open_inner crc s of
             (Inl err, s) \<Rightarrow> Some (Inl err, e, s)
           | (Inr e, s) \<Rightarrow> Some (Inr None, e, s)))"
| "run_command crc xxh opts CrashCmd e s =
     (case open_inner crc (power_loss s) of
        (Inl err, s) \<Rightarrow> Some (Inl err, e, s)
      | (Inr e, s) \<Rightarrow> Some (Inr None, e, s))"

fun run_commands ::
  "(bytes \<Rightarrow> u32) \<Rightarrow> (bytes \<Rightarrow> 128 word) \<Rightarrow> options \<Rightarrow> command list \<Rightarrow> engine \<Rightarrow> fs \<Rightarrow>
     ((error + bytes option) list \<times> engine \<times> fs) option" where
  "run_commands crc xxh opts [] e s = Some ([], e, s)"
| "run_commands crc xxh opts (c # cs) e s =
     (case run_command crc xxh opts c e s of
        None \<Rightarrow> None
      | Some (r, e, s) \<Rightarrow>
          (case run_commands crc xxh opts cs e s of
             None \<Rightarrow> None
           | Some (rs, e, s) \<Rightarrow> Some (r # rs, e, s)))"

section \<open>The specification\<close>

fun spec_command :: "command \<Rightarrow> (bytes \<Rightarrow> bytes option) \<Rightarrow> bytes option \<times> (bytes \<Rightarrow> bytes option)" where
  "spec_command (PutCmd ky v) m = (None, m(ky \<mapsto> v))"
| "spec_command (VectorCmd ky v) m = (None, m(ky \<mapsto> v))"
| "spec_command (DeleteCmd ky) m = (None, m(ky := None))"
| "spec_command (GetCmd ky) m = (m ky, m)"
| "spec_command FlushCmd m = (None, m)"
| "spec_command ReopenCmd m = (None, m)"
| "spec_command CrashCmd m = (None, m)"

fun spec_commands :: "command list \<Rightarrow> (bytes \<Rightarrow> bytes option) \<Rightarrow> bytes option list" where
  "spec_commands [] m = []"
| "spec_commands (c # cs) m = (let (r, m) = spec_command c m in r # spec_commands cs m)"

fun command_ok :: "command \<Rightarrow> bool" where
  "command_ok (PutCmd ky v) \<longleftrightarrow> valid_key ky \<and> valid_value v"
| "command_ok (VectorCmd ky v) \<longleftrightarrow> valid_key ky \<and> valid_value v"
| "command_ok (DeleteCmd ky) \<longleftrightarrow> valid_key ky"
| "command_ok c \<longleftrightarrow> True"

fun command_bound :: "command \<Rightarrow> nat" where
  "command_bound (PutCmd ky v) = entry_bound ky (Put v)"
| "command_bound (VectorCmd ky v) = entry_bound ky (Vector v)"
| "command_bound (DeleteCmd ky) = entry_bound ky Tombstone"
| "command_bound c = 0"

lemma run_command_rep:
  assumes e: "engine_rep crc xxh e s m N I" and c: "command_ok c"
    and N: "N + command_bound c < 2 ^ 62" and I: "I + 2 < 2 ^ 64"
  shows "\<exists>e' s'. run_command crc xxh opts c e s = Some (Inr (fst (spec_command c m)), e', s') \<and>
    engine_rep crc xxh e' s' (snd (spec_command c m)) (N + command_bound c) (I + 2)"
proof (cases c)
  case (PutCmd ky v)
  with lsm_put_rep [OF e _ _ _ I, of ky v opts] c N show ?thesis by (auto simp: done_with_def)
next
  case (VectorCmd ky v)
  with lsm_put_vector_rep [OF e _ _ _ I, of ky v opts] c N show ?thesis by (auto simp: done_with_def)
next
  case (DeleteCmd ky)
  with lsm_delete_rep [OF e _ _ I, of ky opts] c N show ?thesis by (auto simp: done_with_def)
next
  case (GetCmd ky)
  with engine_get_rep [OF e, of ky] engine_rep_mono [OF e, of N "I + 2"] show ?thesis by simp
next
  case FlushCmd
  with lsm_flush_rep [OF e _ I, of opts] N show ?thesis by (auto simp: done_with_def)
next
  case ReopenCmd
  from reopen_rep [OF e] obtain e1 s1 e2 where "engine_close e s = (Inr (), e1, s1)"
    "open_inner crc s1 = (Inr e2, s1)" "engine_rep crc xxh e2 s1 m N I" by blast
  with ReopenCmd engine_rep_mono [of crc xxh e2 s1 m N I N "I + 2"] show ?thesis by simp
next
  case CrashCmd
  from reopen_on [OF e power_loss_on] obtain e2 where
    "open_inner crc (power_loss s) = (Inr e2, power_loss s)" "engine_rep crc xxh e2 (power_loss s) m N I"
    by blast
  with CrashCmd engine_rep_mono [of crc xxh e2 "power_loss s" m N I N "I + 2"] show ?thesis by simp
qed

lemma run_commands_rep:
  "engine_rep crc xxh e s m N I \<Longrightarrow> \<forall>c \<in> set cs. command_ok c \<Longrightarrow>
   N + sum_list (map command_bound cs) < 2 ^ 62 \<Longrightarrow> I + 2 * length cs < 2 ^ 64 \<Longrightarrow>
   \<exists>e' s'. run_commands crc xxh opts cs e s = Some (map Inr (spec_commands cs m), e', s')"
proof (induction cs arbitrary: e s m N I)
  case Nil
  then show ?case by simp
next
  case (Cons c cs)
  have "command_ok c" "N + command_bound c < 2 ^ 62" "I + 2 < 2 ^ 64" using Cons.prems by simp_all
  from run_command_rep [OF Cons.prems(1) this, of opts] obtain e1 s1 where
    1: "run_command crc xxh opts c e s = Some (Inr (fst (spec_command c m)), e1, s1)"
      "engine_rep crc xxh e1 s1 (snd (spec_command c m)) (N + command_bound c) (I + 2)" by blast
  from Cons.IH [OF 1(2)] Cons.prems obtain e2 s2 where
    "run_commands crc xxh opts cs e1 s1 = Some (map Inr (spec_commands cs (snd (spec_command c m))), e2, s2)"
    by auto
  with 1 show ?case by (simp add: Let_def case_prod_unfold)
qed


section \<open>Instances\<close>

definition small_options :: options where
  "small_options = \<lparr>op_memtable_max_size_bytes = 1, op_l0_compaction_trigger = 2,
     op_bloom_bits_per_key = 10\<rparr>"

end
