(* ===== verification/Ieee.thy ===== *)
theory Ieee
  imports Prelude
begin

text \<open>
  The floating-point arithmetic the code computes with: \<^verbatim>\<open>f32\<close> for vectors and distances, \<^verbatim>\<open>f64\<close>
  for the layer assignment of the graph. A float is its bit pattern. An operation unpacks the
  patterns, computes the exact result, rounds it to nearest with ties to even, and packs it again,
  as IEEE 754 and the language define it; subnormal numbers and signed zeros included. A result
  that is not a number is packed as the canonical quiet pattern, where the language leaves the
  payload open.

  A format has \<open>p\<close> fraction bits and \<open>w\<close> exponent bits. Its finite numbers are the multiples of one
  unit, the least positive subnormal, that fit the fraction; so a finite number is a sign and a
  natural number of units, and one is \<open>2 ^ fscale p w\<close> units.
\<close>

section \<open>Natural-number helpers\<close>

fun ilog2 :: "nat \<Rightarrow> nat" where
  "ilog2 n = (if n < 2 then 0 else Suc (ilog2 (n div 2)))"

fun isqrt :: "nat \<Rightarrow> nat" where
  "isqrt n = (if n = 0 then 0
     else (let r = 2 * isqrt (n div 4) in if (r + 1) * (r + 1) \<le> n then r + 1 else r))"

declare ilog2.simps [simp del] isqrt.simps [simp del]

lemma ilog2_0 [simp]: "ilog2 0 = 0"
  by (simp add: ilog2.simps)

lemma ilog2_bounds: "0 < n \<Longrightarrow> 2 ^ ilog2 n \<le> n \<and> n < 2 ^ Suc (ilog2 n)"
proof (induction n rule: ilog2.induct)
  case (1 n)
  show ?case
  proof (cases "n < 2")
    case True
    then show ?thesis using 1(2) by (simp add: ilog2.simps)
  next
    case False
    then have "2 ^ ilog2 (n div 2) \<le> n div 2 \<and> n div 2 < 2 ^ Suc (ilog2 (n div 2))"
      using 1(1) by simp
    with False show ?thesis by (subst (1 2) ilog2.simps) auto
  qed
qed

lemma ilog2_less: "n < 2 ^ Suc k \<Longrightarrow> ilog2 n \<le> k"
proof (rule ccontr)
  assume n: "n < 2 ^ Suc k" and "\<not> ilog2 n \<le> k"
  then have "Suc k \<le> ilog2 n" by simp
  then have "(2 :: nat) ^ Suc k \<le> 2 ^ ilog2 n" by (rule power_increasing) simp
  moreover have "0 < n" using \<open>Suc k \<le> ilog2 n\<close> by (cases n) simp_all
  ultimately show False using ilog2_bounds [of n] n by simp
qed

lemma ilog2_ge: "2 ^ k \<le> n \<Longrightarrow> k \<le> ilog2 n"
proof (rule ccontr)
  assume n: "2 ^ k \<le> n" and "\<not> k \<le> ilog2 n"
  then have "Suc (ilog2 n) \<le> k" by simp
  then have "(2 :: nat) ^ Suc (ilog2 n) \<le> 2 ^ k" by (rule power_increasing) simp
  moreover have "0 < n" using n by (meson less_le_trans zero_less_numeral zero_less_power)
  ultimately show False using ilog2_bounds [of n] n by simp
qed

lemma ilog2_eq: "2 ^ k \<le> n \<Longrightarrow> n < 2 ^ Suc k \<Longrightarrow> ilog2 n = k"
  using ilog2_less ilog2_ge le_antisym by blast

lemma ilog2_mono: "m \<le> n \<Longrightarrow> ilog2 m \<le> ilog2 n"
proof (cases "m = 0")
  case True
  then show ?thesis by simp
next
  case False
  assume "m \<le> n"
  with False ilog2_bounds [of m] show ?thesis by (intro ilog2_ge) simp
qed

lemma isqrt_bounds: "isqrt n * isqrt n \<le> n \<and> n < Suc (isqrt n) * Suc (isqrt n)"
proof (induction n rule: isqrt.induct)
  case (1 n)
  show ?case
  proof (cases "n = 0")
    case True
    then show ?thesis by (simp add: isqrt.simps)
  next
    case False
    define r where "r = isqrt (n div 4)"
    have "r * r \<le> n div 4 \<and> n div 4 < Suc r * Suc r" using 1 False by (simp add: r_def)
    then have "4 * (r * r) \<le> n" "n < 4 * (Suc r * Suc r)" by linarith+
    then have "2 * r * (2 * r) \<le> n" "n < (2 * r + 2) * (2 * r + 2)" by (simp_all add: algebra_simps)
    with False show ?thesis
      by (subst (1 2 3 4) isqrt.simps) (simp add: r_def [symmetric] Let_def)
  qed
qed

section \<open>Rounding\<close>

definition half_even :: "nat \<Rightarrow> nat \<Rightarrow> nat" where
  "half_even a b =
     (let q = a div b; r = a mod b
      in if 2 * r < b \<or> (2 * r = b \<and> even q) then q else q + 1)"

text \<open>\<open>num / den\<close> units, rounded to a number of units that has at most \<open>p + 1\<close> significant bits.\<close>

definition fround :: "nat \<Rightarrow> nat \<Rightarrow> nat \<Rightarrow> nat" where
  "fround p num den =
     (let k = ilog2 (num div den) - p in half_even num (den * 2 ^ k) * 2 ^ k)"

definition fits_in :: "nat \<Rightarrow> nat \<Rightarrow> bool" where
  "fits_in p n \<longleftrightarrow> 2 ^ (ilog2 n - p) dvd n"


lemma half_even_le:
  assumes "0 < b"
  shows "half_even a b \<le> n \<longleftrightarrow> 2 * a < (2 * n + 1) * b \<or> (2 * a = (2 * n + 1) * b \<and> even n)"
proof -
  define q r where "q = a div b" and "r = a mod b"
  have a: "a = q * b + r" and r: "r < b" using assms by (simp_all add: q_def r_def)
  have h: "half_even a b = (if 2 * r < b \<or> (2 * r = b \<and> even q) then q else q + 1)"
    by (simp add: half_even_def Let_def q_def r_def)
  consider "n < q" | "n = q" | "q < n" by linarith
  then show ?thesis
  proof cases
    case 1
    then have "(2 * n + 2) * b \<le> 2 * q * b" by (intro mult_right_mono) simp_all
    then have "(2 * n + 1) * b < 2 * a" using assms by (simp add: a algebra_simps)
    with 1 show ?thesis by (simp add: h)
  next
    case 2
    have "2 * a = 2 * r + 2 * q * b" by (simp add: a)
    with 2 show ?thesis unfolding h by (auto simp: algebra_simps)
  next
    case 3
    then have "(2 * q + 2) * b \<le> 2 * n * b" by (intro mult_right_mono) simp_all
    then have "2 * a < (2 * n + 1) * b" using r by (simp add: a algebra_simps)
    with 3 show ?thesis by (simp add: h)
  qed
qed

lemma half_even_exact: "0 < b \<Longrightarrow> half_even (q * b) b = q"
  by (simp add: half_even_def)

lemma half_even_mono:
  assumes "0 < b" and "0 < d" and le: "a * d \<le> c * b"
  shows "half_even a b \<le> half_even c d"
proof -
  define n where "n = half_even c d"
  have c: "2 * c < (2 * n + 1) * d \<or> (2 * c = (2 * n + 1) * d \<and> even n)"
    using half_even_le [OF assms(2), of c n] by (simp add: n_def)
  have "2 * a * d \<le> 2 * c * b" using le by simp
  have "2 * a < (2 * n + 1) * b \<or> (2 * a = (2 * n + 1) * b \<and> even n)"
  proof (cases "2 * c = (2 * n + 1) * d")
    case True
    have "2 * a * d \<le> 2 * c * b" by fact
    also have "\<dots> = (2 * n + 1) * b * d" unfolding True by (simp add: algebra_simps)
    finally have "2 * a * d \<le> (2 * n + 1) * b * d" .
    then have "2 * a \<le> (2 * n + 1) * b" using assms(2) by (metis mult_le_cancel2)
    then show ?thesis using c True by auto
  next
    case False
    then have "2 * c * b < (2 * n + 1) * d * b" using c assms(1) by (metis mult_less_cancel2)
    with \<open>2 * a * d \<le> 2 * c * b\<close> have "2 * a * d < (2 * n + 1) * d * b" by (rule le_less_trans)
    then have "2 * a * d < (2 * n + 1) * b * d" by (simp only: mult_ac)
    then have "2 * a < (2 * n + 1) * b" using assms(2) by (metis mult_less_cancel2)
    then show ?thesis by simp
  qed
  then show ?thesis using half_even_le [OF assms(1)] by (simp add: n_def)
qed

lemma fits_in_small: "n < 2 ^ Suc p \<Longrightarrow> fits_in p n"
  using ilog2_less by (simp add: fits_in_def)

lemma fits_in_shift:
  assumes "n \<le> 2 ^ Suc p" shows "fits_in p (n * 2 ^ k)"
proof (cases "n = 0")
  case True
  then show ?thesis by (simp add: fits_in_def)
next
  case False
  have "ilog2 (n * 2 ^ k) - p \<le> k \<or> n = 2 ^ Suc p"
  proof (cases "n = 2 ^ Suc p")
    case False
    then have "n * 2 ^ k < 2 ^ Suc p * 2 ^ k" using assms by simp
    then have "n * 2 ^ k < 2 ^ Suc (p + k)" by (simp add: power_add)
    then show ?thesis using ilog2_less by fastforce
  qed simp
  then show ?thesis
  proof
    assume "ilog2 (n * 2 ^ k) - p \<le> k"
    then show ?thesis by (simp add: fits_in_def dvd_mult le_imp_power_dvd)
  next
    assume n: "n = 2 ^ Suc p"
    then have "n * 2 ^ k = 2 ^ (Suc p + k)" by (simp add: power_add)
    moreover have "ilog2 (2 ^ (Suc p + k)) = Suc p + k" by (rule ilog2_eq) simp_all
    ultimately show ?thesis by (simp add: fits_in_def del: power_Suc add_Suc) (simp add: le_imp_power_dvd)
  qed
qed

lemma div_less_shift: "(0 :: nat) < d \<Longrightarrow> a div d < 2 ^ (s + k) \<Longrightarrow> a < 2 ^ s * (d * 2 ^ k)"
  by (simp add: div_less_iff_less_mult power_add mult_ac)

text \<open>At the chosen scale the quotient is below \<open>2 ^ Suc p\<close>, and at least \<open>2 ^ p\<close> if scaled at all.\<close>

lemma fround_scale:
  assumes "0 < d" and "k = ilog2 (a div d) - p"
  shows "a < 2 ^ Suc p * (d * 2 ^ k)" and "0 < k \<Longrightarrow> 2 ^ p * (d * 2 ^ k) \<le> a"
proof -
  have "a div d < 2 ^ (Suc p + k)"
  proof (cases "a div d = 0")
    case False
    then have "a div d < 2 ^ Suc (ilog2 (a div d))" using ilog2_bounds by blast
    also have "\<dots> \<le> 2 ^ (Suc p + k)" using assms(2) by (intro power_increasing) simp_all
    finally show ?thesis .
  qed simp
  then show "a < 2 ^ Suc p * (d * 2 ^ k)" using div_less_shift [OF assms(1)] by blast
  assume "0 < k"
  then have "ilog2 (a div d) = p + k" using assms(2) by simp
  moreover have "0 < a div d" using \<open>0 < k\<close> assms(2) by (cases "a div d = 0") simp_all
  ultimately have "2 ^ (p + k) \<le> a div d" using ilog2_bounds [of "a div d"] by simp
  then have "2 ^ (p + k) * d \<le> a" using assms(1) by (simp add: less_eq_div_iff_mult_less_eq)
  then show "2 ^ p * (d * 2 ^ k) \<le> a" by (simp add: power_add mult_ac)
qed

lemma half_even_le_power:
  assumes "0 < b" and "a < 2 ^ n * b" shows "half_even a b \<le> 2 ^ n"
proof -
  have "half_even a b \<le> half_even (2 ^ n * 1) 1"
    by (rule half_even_mono) (use assms in simp_all)
  also have "\<dots> = 2 ^ n" by (rule half_even_exact) simp
  finally show ?thesis .
qed

lemma fround_fits: "0 < d \<Longrightarrow> fits_in p (fround p a d)"
  unfolding fround_def Let_def
  by (intro fits_in_shift half_even_le_power fround_scale) (auto intro: fround_scale)

lemma fround_exact: "0 < d \<Longrightarrow> fits_in p n \<Longrightarrow> fround p (n * d) d = n"
proof -
  assume d: "0 < d" and n: "fits_in p n"
  then obtain m where m: "n = m * 2 ^ (ilog2 n - p)" by (auto simp: fits_in_def mult.commute)
  define k where "k = ilog2 n - p"
  have "n * d = m * (d * 2 ^ k)" using m by (simp add: k_def mult_ac)
  moreover have "half_even (m * (d * 2 ^ k)) (d * 2 ^ k) = m" by (rule half_even_exact) (use d in simp)
  ultimately have h: "half_even (n * d) (d * 2 ^ k) = m" by metis
  have "fround p (n * d) d = half_even (n * d) (d * 2 ^ k) * 2 ^ k"
    using d by (simp add: fround_def Let_def k_def)
  then show ?thesis using m unfolding h by (simp flip: k_def)
qed

lemma fround_mono:
  assumes "0 < b" and "0 < d" and le: "a * d \<le> c * b"
  shows "fround p a b \<le> fround p c d"
proof -
  define k l where "k = ilog2 (a div b) - p" and "l = ilog2 (c div d) - p"
  have "a div b \<le> c div d"
  proof -
    have "a div b * b * d \<le> a * d" by simp
    also have "\<dots> \<le> c * b" by (rule le)
    finally have "a div b * d \<le> c" using assms(1) by (simp add: mult.commute mult.left_commute)
    then show ?thesis using assms(2) by (simp add: less_eq_div_iff_mult_less_eq)
  qed
  then have kl: "k \<le> l" using ilog2_mono by (simp add: k_def l_def diff_le_mono)
  show ?thesis
  proof (cases "k = l")
    case True
    have "half_even a (b * 2 ^ l) \<le> half_even c (d * 2 ^ l)"
      by (rule half_even_mono) (use assms in \<open>simp_all add: mult_ac\<close>)
    with True show ?thesis by (simp add: fround_def Let_def flip: k_def l_def)
  next
    case False
    with kl have "0 < l" "Suc k \<le> l" by simp_all
    have "half_even a (b * 2 ^ k) \<le> 2 ^ Suc p"
      by (rule half_even_le_power) (use assms fround_scale(1) [OF assms(1) k_def] in simp_all)
    then have "fround p a b \<le> 2 ^ Suc p * 2 ^ k" by (simp add: fround_def Let_def flip: k_def)
    also have "\<dots> = 2 ^ p * 2 ^ Suc k" by simp
    also have "\<dots> \<le> 2 ^ p * 2 ^ l" using \<open>Suc k \<le> l\<close> by (intro mult_left_mono power_increasing) simp_all
    also have "\<dots> \<le> fround p c d"
    proof -
      have "half_even (2 ^ p) 1 \<le> half_even c (d * 2 ^ l)"
        by (rule half_even_mono) (use assms fround_scale(2) [OF assms(2) l_def \<open>0 < l\<close>] in simp_all)
      then show ?thesis using half_even_exact [of 1 "2 ^ p"] by (simp add: fround_def Let_def flip: l_def)
    qed
    finally show ?thesis .
  qed
qed


section \<open>Numbers and patterns\<close>

text \<open>A number is not a number, an infinity, or a sign with a count of units.\<close>

datatype fnum = FNan | FInf bool | FNum bool nat

definition fscale :: "nat \<Rightarrow> nat \<Rightarrow> nat" where
  "fscale p w = 2 ^ (w - 1) - 2 + p"

text \<open>The least count of units beyond the finite numbers.\<close>

definition fover :: "nat \<Rightarrow> nat \<Rightarrow> nat" where
  "fover p w = 2 ^ (p + 2 ^ w - 2)"

definition finf :: "nat \<Rightarrow> nat \<Rightarrow> nat" where
  "finf p w = (2 ^ w - 1) * 2 ^ p"

definition fmag :: "nat \<Rightarrow> nat \<Rightarrow> nat" where
  "fmag p b = (let e = b div 2 ^ p; f = b mod 2 ^ p
     in if e = 0 then f else (2 ^ p + f) * 2 ^ (e - 1))"

definition fpat :: "nat \<Rightarrow> nat \<Rightarrow> nat" where
  "fpat p n = (let k = ilog2 n - p in k * 2 ^ p + n div 2 ^ k)"

definition unpack :: "nat \<Rightarrow> nat \<Rightarrow> nat \<Rightarrow> fnum" where
  "unpack p w b =
     (let s = b div 2 ^ (p + w) = 1; m = b mod 2 ^ (p + w)
      in if m < finf p w then FNum s (fmag p m) else if m = finf p w then FInf s else FNan)"

fun pack :: "nat \<Rightarrow> nat \<Rightarrow> fnum \<Rightarrow> nat" where
  "pack p w FNan = finf p w + 2 ^ (p - 1)"
| "pack p w (FInf s) = (if s then 2 ^ (p + w) else 0) + finf p w"
| "pack p w (FNum s n) = (if s then 2 ^ (p + w) else 0) + fpat p n"

text \<open>A number of the format, and the arithmetic result nearest to \<open>num / den\<close> units.\<close>

fun fnum_ok :: "nat \<Rightarrow> nat \<Rightarrow> fnum \<Rightarrow> bool" where
  "fnum_ok p w (FNum s n) \<longleftrightarrow> fits_in p n \<and> n < fover p w"
| "fnum_ok p w v \<longleftrightarrow> True"

definition frnd :: "nat \<Rightarrow> nat \<Rightarrow> bool \<Rightarrow> nat \<Rightarrow> nat \<Rightarrow> fnum" where
  "frnd p w s num den =
     (let n = fround p num den in if n < fover p w then FNum s n else FInf s)"

lemma frnd_ok [simp]: "0 < d \<Longrightarrow> fnum_ok p w (frnd p w s a d)"
  by (simp add: frnd_def Let_def fround_fits)

lemma fmag_fits: "fits_in p (fmag p b)"
proof (cases "b div 2 ^ p = 0")
  case True
  have "b mod 2 ^ p < 2 ^ p" by simp
  then have "b mod 2 ^ p < 2 ^ Suc p" by (rule less_le_trans) simp
  with True show ?thesis using fits_in_small by (simp add: fmag_def)
next
  case False
  have "2 ^ p + b mod 2 ^ p \<le> 2 ^ Suc p" by (simp add: less_imp_le)
  then show ?thesis using False fits_in_shift by (simp add: fmag_def Let_def)
qed

lemma fpat_fmag: "fpat p (fmag p b) = b"
proof (cases "b div 2 ^ p = 0")
  case True
  then have b: "b < 2 ^ p" by (simp add: div_eq_0_iff)
  then have "ilog2 b \<le> p" using ilog2_less [of b p] by simp
  with b show ?thesis by (simp add: fmag_def fpat_def)
next
  case False
  define e f where "e = b div 2 ^ p" and "f = b mod 2 ^ p"
  have b: "b = e * 2 ^ p + f" and f: "f < 2 ^ p"
    unfolding e_def f_def by (simp_all only: div_mult_mod_eq) simp
  have mag: "fmag p b = (2 ^ p + f) * 2 ^ (e - 1)" using False by (simp add: fmag_def e_def f_def)
  have "2 ^ (p + (e - 1)) \<le> fmag p b" "fmag p b < 2 ^ Suc (p + (e - 1))"
    using f by (simp_all add: mag power_add)
  then have "ilog2 (fmag p b) - p = e - 1" by (simp add: ilog2_eq)
  moreover have "0 < e" using False by (simp add: e_def)
  ultimately have "fpat p (fmag p b) = (e - 1) * 2 ^ p + (2 ^ p + f)"
    by (simp add: fpat_def Let_def) (simp add: mag)
  also have "\<dots> = b" using \<open>0 < e\<close> by (cases e) (simp_all add: b)
  finally show ?thesis .
qed

lemma fmag_fpat: "fits_in p n \<Longrightarrow> fmag p (fpat p n) = n"
proof (cases "n < 2 ^ p")
  case True
  then have "ilog2 n \<le> p" using ilog2_less [of n p] by simp
  with True show ?thesis by (simp add: fpat_def fmag_def)
next
  case False
  assume fit: "fits_in p n"
  define k where "k = ilog2 n - p"
  have n0: "0 < n" using False by (cases n) simp_all
  have p: "p \<le> ilog2 n" using False by (intro ilog2_ge) simp
  define m where "m = n div 2 ^ k"
  have n: "n = m * 2 ^ k" using fit by (simp add: m_def k_def fits_in_def)
  have "2 ^ (p + k) \<le> n" "n < 2 ^ Suc (p + k)" using ilog2_bounds [OF n0] p by (simp_all add: k_def)
  then have m: "2 ^ p \<le> m" "m < 2 * 2 ^ p" by (simp_all add: n power_add)
  then obtain f where f: "m = 2 ^ p + f" "f < 2 ^ p" by (auto simp: le_iff_add)
  have "fpat p n = (k + 1) * 2 ^ p + f" by (simp add: fpat_def Let_def f flip: k_def m_def)
  moreover have "(c * 2 ^ p + f) div 2 ^ p = c" "(c * 2 ^ p + f) mod 2 ^ p = f" for c
    using f(2) by simp_all
  ultimately have "fmag p (fpat p n) = (2 ^ p + f) * 2 ^ k" by (simp only: fmag_def Let_def) simp
  with n f show ?thesis by simp
qed

lemma fmag_less: "b < finf p w \<Longrightarrow> fmag p b < fover p w"
proof -
  assume b: "b < finf p w"
  define e f where "e = b div 2 ^ p" and "f = b mod 2 ^ p"
  have f: "f < 2 ^ p" by (simp add: f_def)
  have e: "e < 2 ^ w - 1" using b by (simp add: e_def finf_def div_less_iff_less_mult)
  have "fmag p b < 2 ^ (p + e)"
  proof (cases "e = 0")
    case True
    then show ?thesis using f by (simp add: fmag_def e_def f_def)
  next
    case False
    then have "fmag p b = (2 ^ p + f) * 2 ^ (e - 1)" by (simp add: fmag_def e_def f_def)
    also have "\<dots> < (2 ^ p + 2 ^ p) * 2 ^ (e - 1)" using f by simp
    also have "\<dots> = 2 ^ (p + e)" using False by (cases e) (simp_all add: power_add)
    finally show ?thesis .
  qed
  also have "(2 :: nat) ^ (p + e) \<le> fover p w"
    unfolding fover_def using e by (intro power_increasing) simp_all
  finally show ?thesis .
qed

lemma fpat_less: "1 < w \<Longrightarrow> fits_in p n \<Longrightarrow> n < fover p w \<Longrightarrow> fpat p n < finf p w"
proof -
  assume w: "1 < w" and n: "fits_in p n" "n < fover p w"
  have w2: "2 ^ 2 \<le> (2 :: nat) ^ w" using w by (intro power_increasing) simp_all
  define k where "k = ilog2 n - p"
  have ex: "p + 2 ^ w - 2 = Suc (p + 2 ^ w - 3)" using w2 by simp
  have "ilog2 n \<le> p + 2 ^ w - 3" using n(2) unfolding fover_def ex by (rule ilog2_less)
  then have k: "k \<le> 2 ^ w - 3" by (simp add: k_def)
  have "n div 2 ^ k < 2 ^ Suc p"
  proof (cases "n = 0")
    case False
    then have "n < 2 ^ Suc (ilog2 n)" using ilog2_bounds by blast
    also have "(2 :: nat) ^ Suc (ilog2 n) \<le> 2 ^ (Suc p + k)" by (intro power_increasing) (simp_all add: k_def)
    finally show ?thesis by (simp add: power_add div_less_iff_less_mult)
  qed simp
  then have "fpat p n < k * 2 ^ p + 2 * 2 ^ p" by (simp add: fpat_def Let_def flip: k_def)
  also have "\<dots> = (k + 2) * 2 ^ p" by (simp add: algebra_simps)
  also have "\<dots> \<le> finf p w" unfolding finf_def using k w2 by (intro mult_right_mono) simp_all
  finally show ?thesis .
qed

lemma finf_plus: "finf p w + 2 ^ p = 2 ^ (p + w)"
proof -
  have "finf p w + 2 ^ p = (2 ^ w - 1 + 1) * 2 ^ p" unfolding finf_def by (simp only: add_mult_distrib mult_1)
  also have "\<dots> = 2 ^ (p + w)" by (simp add: power_add)
  finally show ?thesis .
qed

lemma finf_less: "finf p w < 2 ^ (p + w)"
  using finf_plus [of p w] by (metis less_add_same_cancel1 zero_less_numeral zero_less_power)

lemma fnan_less: "0 < p \<Longrightarrow> finf p w + 2 ^ (p - 1) < 2 ^ (p + w)"
  using finf_plus [of p w] by (metis add_strict_left_mono diff_less one_less_numeral_iff power_strict_increasing
      semiring_norm(76) zero_less_one)

lemma unpack_ok [simp]: "fnum_ok p w (unpack p w b)"
  by (simp add: unpack_def Let_def fmag_fits fmag_less)

lemma sign_split:
  assumes "m < (q :: nat)"
  shows "((if s then q else 0) + m) div q = (if s then 1 else 0)" and "((if s then q else 0) + m) mod q = m"
  using assms by (auto simp: div_add_self1 split: if_splits)

lemma unpack_pack:
  assumes "0 < p" and "1 < w" and "fnum_ok p w v" shows "unpack p w (pack p w v) = v"
proof (cases v)
  case FNan
  then show ?thesis using fnan_less [OF assms(1), of w] by (simp add: unpack_def Let_def)
next
  case (FInf s)
  then show ?thesis by (simp add: unpack_def Let_def sign_split [OF finf_less])
next
  case (FNum s n)
  have f: "fpat p n < finf p w" using assms FNum by (simp add: fpat_less)
  then have "fpat p n < 2 ^ (p + w)" using finf_less less_trans by blast
  then show ?thesis using assms FNum f by (simp add: unpack_def Let_def fmag_fpat sign_split)
qed

lemma pack_unpack:
  assumes "b < 2 * 2 ^ (p + w)" and "unpack p w b \<noteq> FNan" shows "pack p w (unpack p w b) = b"
proof -
  have d: "b div 2 ^ (p + w) = 0 \<or> b div 2 ^ (p + w) = 1"
    using assms(1) by (metis One_nat_def div_less_iff_less_mult less_2_cases_iff zero_less_numeral zero_less_power)
  have "b div 2 ^ (p + w) * 2 ^ (p + w) + b mod 2 ^ (p + w) = b" by (rule div_mult_mod_eq)
  with d show ?thesis
    using assms(2) by (auto simp: unpack_def Let_def fpat_fmag split: if_splits)
qed

lemma pack_bound: "0 < p \<Longrightarrow> 1 < w \<Longrightarrow> fnum_ok p w v \<Longrightarrow> pack p w v < 2 * 2 ^ (p + w)"
proof (cases v)
  case FNan
  assume "0 < p"
  with FNan fnan_less [of p w] show ?thesis by simp
next
  case (FInf s)
  then show ?thesis using finf_less [of p w] by simp
next
  case (FNum s n)
  assume "1 < w" "fnum_ok p w v"
  then have "fpat p n < finf p w" using FNum by (simp add: fpat_less)
  then have "fpat p n < 2 ^ (p + w)" using finf_less less_trans by blast
  then show ?thesis by (simp add: FNum)
qed


section \<open>Operations\<close>

definition with_sign :: "bool \<Rightarrow> nat \<Rightarrow> int" where
  "with_sign s n = (if s then - int n else int n)"

fun fneg :: "fnum \<Rightarrow> fnum" where
  "fneg FNan = FNan"
| "fneg (FInf s) = FInf (\<not> s)"
| "fneg (FNum s n) = FNum (\<not> s) n"

fun fadd :: "nat \<Rightarrow> nat \<Rightarrow> fnum \<Rightarrow> fnum \<Rightarrow> fnum" where
  "fadd p w FNan y = FNan"
| "fadd p w x FNan = FNan"
| "fadd p w (FInf s) (FInf t) = (if s = t then FInf s else FNan)"
| "fadd p w (FInf s) (FNum t b) = FInf s"
| "fadd p w (FNum s a) (FInf t) = FInf t"
| "fadd p w (FNum s a) (FNum t b) =
     (let v = with_sign s a + with_sign t b
      in if v = 0 then FNum (s \<and> t) 0 else frnd p w (v < 0) (nat \<bar>v\<bar>) 1)"

definition fsub :: "nat \<Rightarrow> nat \<Rightarrow> fnum \<Rightarrow> fnum \<Rightarrow> fnum" where
  "fsub p w x y = fadd p w x (fneg y)"

fun fmul :: "nat \<Rightarrow> nat \<Rightarrow> fnum \<Rightarrow> fnum \<Rightarrow> fnum" where
  "fmul p w FNan y = FNan"
| "fmul p w x FNan = FNan"
| "fmul p w (FInf s) (FInf t) = FInf (s \<noteq> t)"
| "fmul p w (FInf s) (FNum t b) = (if b = 0 then FNan else FInf (s \<noteq> t))"
| "fmul p w (FNum s a) (FInf t) = (if a = 0 then FNan else FInf (s \<noteq> t))"
| "fmul p w (FNum s a) (FNum t b) = frnd p w (s \<noteq> t) (a * b) (2 ^ fscale p w)"

fun fdiv :: "nat \<Rightarrow> nat \<Rightarrow> fnum \<Rightarrow> fnum \<Rightarrow> fnum" where
  "fdiv p w FNan y = FNan"
| "fdiv p w x FNan = FNan"
| "fdiv p w (FInf s) (FInf t) = FNan"
| "fdiv p w (FInf s) (FNum t b) = FInf (s \<noteq> t)"
| "fdiv p w (FNum s a) (FInf t) = FNum (s \<noteq> t) 0"
| "fdiv p w (FNum s a) (FNum t b) =
     (if b = 0 then (if a = 0 then FNan else FInf (s \<noteq> t))
      else frnd p w (s \<noteq> t) (a * 2 ^ fscale p w) b)"

text \<open>
  The root of \<open>n\<close> units is the root of \<open>n * 2 ^ fscale\<close>, in units. It is rounded from its integer
  part and from whether there is more.
\<close>

fun fsqrt :: "nat \<Rightarrow> nat \<Rightarrow> fnum \<Rightarrow> fnum" where
  "fsqrt p w FNan = FNan"
| "fsqrt p w (FInf s) = (if s then FNan else FInf False)"
| "fsqrt p w (FNum s n) =
     (if n = 0 then FNum s 0 else if s then FNan
      else (let m = n * 2 ^ fscale p w; r = isqrt m
            in frnd p w False (2 * r + (if r * r = m then 0 else 1)) 2))"

fun flt :: "fnum \<Rightarrow> fnum \<Rightarrow> bool" where
  "flt FNan y \<longleftrightarrow> False"
| "flt x FNan \<longleftrightarrow> False"
| "flt (FInf s) (FInf t) \<longleftrightarrow> s \<and> \<not> t"
| "flt (FInf s) (FNum t b) \<longleftrightarrow> s"
| "flt (FNum s a) (FInf t) \<longleftrightarrow> \<not> t"
| "flt (FNum s a) (FNum t b) \<longleftrightarrow> with_sign s a < with_sign t b"

fun feq :: "fnum \<Rightarrow> fnum \<Rightarrow> bool" where
  "feq (FInf s) (FInf t) \<longleftrightarrow> s = t"
| "feq (FNum s a) (FNum t b) \<longleftrightarrow> with_sign s a = with_sign t b"
| "feq x y \<longleftrightarrow> False"

text \<open>\<^verbatim>\<open>n as f32\<close> for an unsigned integer.\<close>

definition fof_nat :: "nat \<Rightarrow> nat \<Rightarrow> nat \<Rightarrow> fnum" where
  "fof_nat p w n = frnd p w False (n * 2 ^ fscale p w) 1"

text \<open>\<^verbatim>\<open>round\<close>: to the nearest integer, ties away from zero.\<close>

fun fround_half :: "nat \<Rightarrow> nat \<Rightarrow> fnum \<Rightarrow> fnum" where
  "fround_half p w (FNum s n) =
     frnd p w s ((2 * n + 2 ^ fscale p w) div (2 * 2 ^ fscale p w) * 2 ^ fscale p w) 1"
| "fround_half p w v = v"

text \<open>\<^verbatim>\<open>x.floor() as i64\<close> and \<^verbatim>\<open>x as u8\<close>: casts saturate, and what is not a number becomes zero.\<close>

fun ffloor_i64 :: "nat \<Rightarrow> nat \<Rightarrow> fnum \<Rightarrow> int" where
  "ffloor_i64 p w FNan = 0"
| "ffloor_i64 p w (FInf s) = (if s then - (2 ^ 63) else 2 ^ 63 - 1)"
| "ffloor_i64 p w (FNum s n) = max (- (2 ^ 63)) (min (2 ^ 63 - 1) (with_sign s n div 2 ^ fscale p w))"

fun fto_u8 :: "nat \<Rightarrow> nat \<Rightarrow> fnum \<Rightarrow> u8" where
  "fto_u8 p w FNan = 0"
| "fto_u8 p w (FInf s) = (if s then 0 else 255)"
| "fto_u8 p w (FNum s n) = (if s then 0 else word_of_nat (min 255 (n div 2 ^ fscale p w)))"

text \<open>\<^verbatim>\<open>clamp\<close>: what is not a number passes.\<close>

definition fclamp :: "fnum \<Rightarrow> fnum \<Rightarrow> fnum \<Rightarrow> fnum" where
  "fclamp lo hi x = (if flt x lo then lo else if flt hi x then hi else x)"

fun ffinite :: "fnum \<Rightarrow> bool" where
  "ffinite (FNum s n) \<longleftrightarrow> True"
| "ffinite v \<longleftrightarrow> False"

lemma fneg_ok [simp]: "fnum_ok p w v \<Longrightarrow> fnum_ok p w (fneg v)"
  by (cases v) auto

lemma fits_in_0 [simp]: "fits_in p 0"
  by (simp add: fits_in_def)

lemma fover_pos [simp]: "0 < fover p w"
  by (simp add: fover_def)

lemma fadd_ok [simp]: "fnum_ok p w x \<Longrightarrow> fnum_ok p w y \<Longrightarrow> fnum_ok p w (fadd p w x y)"
  by (cases x; cases y) (auto simp: Let_def)

lemma fsub_ok [simp]: "fnum_ok p w x \<Longrightarrow> fnum_ok p w y \<Longrightarrow> fnum_ok p w (fsub p w x y)"
  by (simp add: fsub_def)

lemma fmul_ok [simp]: "fnum_ok p w (fmul p w x y)"
  by (cases x; cases y) (auto simp: Let_def)

lemma fdiv_ok [simp]: "fnum_ok p w (fdiv p w x y)"
  by (cases x; cases y) (auto simp: Let_def)

lemma fsqrt_ok [simp]: "fnum_ok p w (fsqrt p w x)"
  by (cases x) (auto simp: Let_def)

lemma fround_half_ok [simp]: "fnum_ok p w (fround_half p w x)"
  by (cases x) (auto simp: Let_def)

lemma fof_nat_ok [simp]: "fnum_ok p w (fof_nat p w n)"
  by (simp add: fof_nat_def)

lemma fclamp_ok [simp]: "fnum_ok p w x \<Longrightarrow> fnum_ok p w lo \<Longrightarrow> fnum_ok p w hi \<Longrightarrow> fnum_ok p w (fclamp lo hi x)"
  by (simp add: fclamp_def)

section \<open>Order\<close>

lemma flt_irrefl [simp]: "\<not> flt x x"
  by (cases x) auto

lemma flt_trans: "flt x y \<Longrightarrow> flt y z \<Longrightarrow> flt x z"
  by (cases x; cases y; cases z) auto

lemma flt_asym: "flt x y \<Longrightarrow> \<not> flt y x"
  by (cases x; cases y) auto

text \<open>
  The position of a number in the order. Infinities stand just outside the finite range.
\<close>

fun fkey :: "nat \<Rightarrow> nat \<Rightarrow> fnum \<Rightarrow> int" where
  "fkey p w FNan = 0"
| "fkey p w (FInf s) = with_sign s (fover p w)"
| "fkey p w (FNum s n) = with_sign s n"

lemma flt_fkey:
  assumes "fnum_ok p w x" and "fnum_ok p w y" and "x \<noteq> FNan" and "y \<noteq> FNan"
  shows "flt x y \<longleftrightarrow> fkey p w x < fkey p w y"
proof -
  have "0 < fover p w" by (simp add: fover_def)
  with assms show ?thesis by (cases x; cases y) (auto simp: with_sign_def)
qed

lemma feq_fkey:
  assumes "fnum_ok p w x" and "fnum_ok p w y" and "x \<noteq> FNan" and "y \<noteq> FNan"
  shows "feq x y \<longleftrightarrow> fkey p w x = fkey p w y"
proof -
  have "0 < fover p w" by (simp add: fover_def)
  with assms show ?thesis by (cases x; cases y) (auto simp: with_sign_def)
qed

text \<open>Rounding of a signed count of units.\<close>

definition fsat :: "nat \<Rightarrow> nat \<Rightarrow> nat \<Rightarrow> nat \<Rightarrow> nat" where
  "fsat p w a d = min (fround p a d) (fover p w)"

lemma fkey_frnd: "fkey p w (frnd p w s a d) = with_sign s (fsat p w a d)"
  by (simp add: frnd_def Let_def fsat_def min_def)

lemma fsat_mono: "0 < b \<Longrightarrow> 0 < d \<Longrightarrow> a * d \<le> c * b \<Longrightarrow> fsat p w a b \<le> fsat p w c d"
  unfolding fsat_def by (intro min.mono fround_mono) auto

lemma fround_0 [simp]: "fround p 0 d = 0"
  by (cases "d = 0") (simp_all add: fround_def half_even_def)

lemma fsat_0 [simp]: "fsat p w 0 d = 0"
  by (simp add: fsat_def)

lemma fsat_exact: "0 < d \<Longrightarrow> fits_in p n \<Longrightarrow> n \<le> fover p w \<Longrightarrow> fsat p w (n * d) d = n"
  by (simp add: fsat_def fround_exact)

lemma frnd_not_nan [simp]: "frnd p w s a d \<noteq> FNan" "FNan \<noteq> frnd p w s a d"
  by (simp_all add: frnd_def Let_def)

lemma fkey_fadd:
  "fkey p w (fadd p w (FNum s a) (FNum t b)) =
   with_sign (with_sign s a + with_sign t b < 0) (fsat p w (nat \<bar>with_sign s a + with_sign t b\<bar>) 1)"
  by (simp add: Let_def fkey_frnd) (simp add: with_sign_def)

lemma with_sign_mono:
  assumes "v \<le> u" and f: "\<And>x y. x \<le> y \<Longrightarrow> f x \<le> f y"
  shows "with_sign (v < 0) (f (nat \<bar>v\<bar>)) \<le> with_sign (u < 0) (f (nat \<bar>u\<bar>))"
proof -
  consider "u < 0" | "v < 0" "0 \<le> u" | "0 \<le> v" by linarith
  then show ?thesis
  proof cases
    case 1
    then have "f (nat \<bar>u\<bar>) \<le> f (nat \<bar>v\<bar>)" using assms(1) by (intro f) simp
    with 1 assms(1) show ?thesis by (simp add: with_sign_def)
  next
    case 2
    then show ?thesis by (simp add: with_sign_def)
  next
    case 3
    then have "f (nat \<bar>v\<bar>) \<le> f (nat \<bar>u\<bar>)" using assms(1) by (intro f) simp
    with 3 assms(1) show ?thesis by (simp add: with_sign_def)
  qed
qed

end
