(* ===== verification/F32.thy ===== *)
theory F32
  imports Ieee
begin

text \<open>
  The types \<^verbatim>\<open>f32\<close> and \<^verbatim>\<open>f64\<close>: 32 and 64 bits, with 23 and 52 fraction bits. The stored bytes of
  an \<^verbatim>\<open>f32\<close> are those of its pattern.
\<close>

type_synonym f32 = "32 word"
type_synonym f64 = "64 word"

section \<open>Single precision\<close>

definition unpack32 :: "f32 \<Rightarrow> fnum" where
  "unpack32 x = unpack 23 8 (unat x)"

definition pack32 :: "fnum \<Rightarrow> f32" where
  "pack32 v = word_of_nat (pack 23 8 v)"

definition f32_neg :: "f32 \<Rightarrow> f32" where
  "f32_neg x = pack32 (fneg (unpack32 x))"

definition f32_add :: "f32 \<Rightarrow> f32 \<Rightarrow> f32" where
  "f32_add x y = pack32 (fadd 23 8 (unpack32 x) (unpack32 y))"

definition f32_sub :: "f32 \<Rightarrow> f32 \<Rightarrow> f32" where
  "f32_sub x y = pack32 (fsub 23 8 (unpack32 x) (unpack32 y))"

definition f32_mul :: "f32 \<Rightarrow> f32 \<Rightarrow> f32" where
  "f32_mul x y = pack32 (fmul 23 8 (unpack32 x) (unpack32 y))"

definition f32_div :: "f32 \<Rightarrow> f32 \<Rightarrow> f32" where
  "f32_div x y = pack32 (fdiv 23 8 (unpack32 x) (unpack32 y))"

definition f32_sqrt :: "f32 \<Rightarrow> f32" where
  "f32_sqrt x = pack32 (fsqrt 23 8 (unpack32 x))"

definition f32_round :: "f32 \<Rightarrow> f32" where
  "f32_round x = pack32 (fround_half 23 8 (unpack32 x))"

definition f32_clamp :: "f32 \<Rightarrow> f32 \<Rightarrow> f32 \<Rightarrow> f32" where
  "f32_clamp lo hi x = pack32 (fclamp (unpack32 lo) (unpack32 hi) (unpack32 x))"

definition f32_to_u8 :: "f32 \<Rightarrow> u8" where
  "f32_to_u8 x = fto_u8 23 8 (unpack32 x)"

definition f32_of_nat :: "nat \<Rightarrow> f32" where
  "f32_of_nat n = pack32 (fof_nat 23 8 n)"

definition f32_lt :: "f32 \<Rightarrow> f32 \<Rightarrow> bool" where
  "f32_lt x y \<longleftrightarrow> flt (unpack32 x) (unpack32 y)"

definition f32_eq :: "f32 \<Rightarrow> f32 \<Rightarrow> bool" where
  "f32_eq x y \<longleftrightarrow> feq (unpack32 x) (unpack32 y)"

definition f32_is_finite :: "f32 \<Rightarrow> bool" where
  "f32_is_finite x \<longleftrightarrow> ffinite (unpack32 x)"

definition f32_is_nan :: "f32 \<Rightarrow> bool" where
  "f32_is_nan x \<longleftrightarrow> unpack32 x = FNan"

definition F32_ZERO :: f32 where "F32_ZERO = 0"
definition F32_NEG_ZERO :: f32 where "F32_NEG_ZERO = 0x80000000"
definition F32_ONE :: f32 where "F32_ONE = 0x3F800000"
definition F32_255 :: f32 where "F32_255 = 0x437F0000"
definition F32_INFINITY :: f32 where "F32_INFINITY = 0x7F800000"
definition F32_NEG_INFINITY :: f32 where "F32_NEG_INFINITY = 0xFF800000"

text \<open>\<^verbatim>\<open>iter.sum::<f32>()\<close>, which starts at negative zero.\<close>

definition f32_sum :: "f32 list \<Rightarrow> f32" where
  "f32_sum xs = foldl f32_add F32_NEG_ZERO xs"

lemma unpack32_ok [simp]: "fnum_ok 23 8 (unpack32 x)"
  by (simp add: unpack32_def)

lemma unpack32_pack32 [simp]: "fnum_ok 23 8 v \<Longrightarrow> unpack32 (pack32 v) = v"
proof -
  assume v: "fnum_ok 23 8 v"
  have "pack 23 8 v < 2 * 2 ^ (23 + 8)" by (rule pack_bound) (use v in simp_all)
  then have "unat (pack32 v) = pack 23 8 v" by (simp add: pack32_def unat_u32_of_nat)
  then show ?thesis using v unpack_pack [of 23 8 v] by (simp add: unpack32_def)
qed

lemma pack32_unpack32: "\<not> f32_is_nan x \<Longrightarrow> pack32 (unpack32 x) = x"
proof -
  assume x: "\<not> f32_is_nan x"
  have "unat x < 2 * 2 ^ (23 + 8)" using unsigned_less [of x, where ?'a = nat] by simp
  from pack_unpack [OF this] x show ?thesis
    by (simp add: f32_is_nan_def pack32_def unpack32_def)
qed

lemma f32_unpack [simp]:
  "unpack32 (f32_neg x) = fneg (unpack32 x)"
  "unpack32 (f32_add x y) = fadd 23 8 (unpack32 x) (unpack32 y)"
  "unpack32 (f32_sub x y) = fsub 23 8 (unpack32 x) (unpack32 y)"
  "unpack32 (f32_mul x y) = fmul 23 8 (unpack32 x) (unpack32 y)"
  "unpack32 (f32_div x y) = fdiv 23 8 (unpack32 x) (unpack32 y)"
  "unpack32 (f32_sqrt x) = fsqrt 23 8 (unpack32 x)"
  "unpack32 (f32_round x) = fround_half 23 8 (unpack32 x)"
  "unpack32 (f32_clamp l h x) = fclamp (unpack32 l) (unpack32 h) (unpack32 x)"
  "unpack32 (f32_of_nat n) = fof_nat 23 8 n"
  by (simp_all add: f32_neg_def f32_add_def f32_sub_def f32_mul_def f32_div_def f32_sqrt_def
      f32_round_def f32_clamp_def f32_of_nat_def)

lemma f32_lt_irrefl [simp]: "\<not> f32_lt x x"
  by (simp add: f32_lt_def)

lemma f32_lt_trans: "f32_lt x y \<Longrightarrow> f32_lt y z \<Longrightarrow> f32_lt x z"
  unfolding f32_lt_def by (rule flt_trans)

lemma f32_lt_asym: "f32_lt x y \<Longrightarrow> \<not> f32_lt y x"
  unfolding f32_lt_def by (rule flt_asym)

text \<open>The numbers that are numbers are linearly ordered, up to the sign of zero.\<close>

definition f32_key :: "f32 \<Rightarrow> int" where
  "f32_key x = fkey 23 8 (unpack32 x)"

lemma f32_lt_key: "\<not> f32_is_nan x \<Longrightarrow> \<not> f32_is_nan y \<Longrightarrow> f32_lt x y \<longleftrightarrow> f32_key x < f32_key y"
  by (simp add: f32_lt_def f32_key_def f32_is_nan_def flt_fkey)

lemma f32_eq_key: "\<not> f32_is_nan x \<Longrightarrow> \<not> f32_is_nan y \<Longrightarrow> f32_eq x y \<longleftrightarrow> f32_key x = f32_key y"
  by (simp add: f32_eq_def f32_key_def f32_is_nan_def feq_fkey)

lemma f32_lt_nan: "f32_is_nan x \<or> f32_is_nan y \<Longrightarrow> \<not> f32_lt x y"
  unfolding f32_lt_def f32_is_nan_def by (cases "unpack32 x"; cases "unpack32 y") auto

lemma f32_finite_not_nan: "f32_is_finite x \<Longrightarrow> \<not> f32_is_nan x"
  by (auto simp: f32_is_finite_def f32_is_nan_def)

text \<open>What evaluates a computation on given patterns by simplification.\<close>

lemma unpack32_numeral:
  "unpack32 0 = unpack 23 8 0" "unpack32 1 = unpack 23 8 1"
  "unpack32 (numeral n) = unpack 23 8 (unat (numeral n :: f32))"
  by (simp_all add: unpack32_def)

lemmas float_eval = unpack32_numeral unpack_def pack32_def fmag_def fpat_def finf_def fover_def fscale_def
  frnd_def fround_def half_even_def with_sign_def fsub_def fclamp_def ilog2.simps isqrt.simps Let_def
  F32_ZERO_def F32_NEG_ZERO_def F32_ONE_def F32_255_def F32_INFINITY_def F32_NEG_INFINITY_def

section \<open>Double precision\<close>

definition unpack64 :: "f64 \<Rightarrow> fnum" where
  "unpack64 x = unpack 52 11 (unat x)"

definition pack64 :: "fnum \<Rightarrow> f64" where
  "pack64 v = word_of_nat (pack 52 11 v)"

definition f64_neg :: "f64 \<Rightarrow> f64" where
  "f64_neg x = pack64 (fneg (unpack64 x))"

definition f64_mul :: "f64 \<Rightarrow> f64 \<Rightarrow> f64" where
  "f64_mul x y = pack64 (fmul 52 11 (unpack64 x) (unpack64 y))"

definition f64_div :: "f64 \<Rightarrow> f64 \<Rightarrow> f64" where
  "f64_div x y = pack64 (fdiv 52 11 (unpack64 x) (unpack64 y))"

definition f64_of_nat :: "nat \<Rightarrow> f64" where
  "f64_of_nat n = pack64 (fof_nat 52 11 n)"

definition f64_floor_i64 :: "f64 \<Rightarrow> int" where
  "f64_floor_i64 x = ffloor_i64 52 11 (unpack64 x)"

definition F64_ONE :: f64 where "F64_ONE = 0x3FF0000000000000"

end
