(* ===== verification/Hnsw.thy ===== *)
theory Hnsw
  imports F32 Heap
begin

text \<open>
  The graph of \<^verbatim>\<open>src/src/hnsw/index.rs\<close>: its parameters, nodes and distances, the searches at one
  layer, the neighbour selection, and insertion, deletion and search. An index out of range is
  a panic. Three things are not under \<^verbatim>\<open>src\<close>, or of unspecified precision, and are an argument
  \<open>lib\<close>: the seeding of the random generator, its uniform sample, and the natural logarithm of
  \<^verbatim>\<open>f64\<close>.
\<close>

section \<open>Data\<close>

type_synonym node_id = u32

datatype distance_metric = Cosine | EuclideanSquared | InnerProduct

record hnsw_params =
  hp_metric :: distance_metric
  hp_m :: nat
  hp_m_max_0 :: nat
  hp_ef_construction :: nat
  hp_ef_search :: nat
  hp_dim :: nat
  hp_seed :: u64

definition default_params :: hnsw_params where
  "default_params = (let m = 16 in
     \<lparr>hp_metric = Cosine, hp_m = m, hp_m_max_0 = 2 * m, hp_ef_construction = 100, hp_ef_search = 50,
      hp_dim = 0, hp_seed = 0x00C0FFEEBABE\<rparr>)"

record node =
  nd_vector :: "f32 list"
  nd_neighbors :: "node_id list list"
  nd_deleted :: bool

record entry_point =
  ep_node :: node_id
  ep_level :: u8

record 'r rng_lib =
  rl_seed :: "u64 \<Rightarrow> 'r"
  rl_uniform :: "'r \<Rightarrow> f64 \<times> 'r"
  rl_ln :: "f64 \<Rightarrow> f64"

record 'r hnsw =
  hi_params :: hnsw_params
  hi_metric :: distance_metric
  hi_dim :: nat
  hi_nodes :: "node list"
  hi_entry :: "entry_point option"
  hi_ml :: f64
  hi_rng :: 'r

record candidate =
  cd_id :: node_id
  cd_dist :: f32

definition hnsw_new :: "'r rng_lib \<Rightarrow> hnsw_params \<Rightarrow> 'r hnsw" where
  "hnsw_new lib params =
     \<lparr>hi_params = params, hi_metric = hp_metric params, hi_dim = hp_dim params, hi_nodes = [],
      hi_entry = None, hi_ml = f64_div F64_ONE (rl_ln lib (f64_of_nat (hp_m params))),
      hi_rng = rl_seed lib (hp_seed params)\<rparr>"

definition hnsw_len :: "'r hnsw \<Rightarrow> nat" where
  "hnsw_len g = length (hi_nodes g)"

definition hnsw_is_empty :: "'r hnsw \<Rightarrow> bool" where
  "hnsw_is_empty g \<longleftrightarrow> hi_nodes g = []"

definition is_deleted :: "'r hnsw \<Rightarrow> node_id \<Rightarrow> bool" where
  "is_deleted g nid \<longleftrightarrow> unat nid \<ge> length (hi_nodes g) \<or> nd_deleted (hi_nodes g ! unat nid)"

definition live_len :: "'r hnsw \<Rightarrow> nat" where
  "live_len g = length [nd \<leftarrow> hi_nodes g. \<not> nd_deleted nd]"

section \<open>Distances\<close>

definition distance_cosine :: "f32 list \<Rightarrow> f32 list \<Rightarrow> f32" where
  "distance_cosine a b = f32_sub F32_ONE (f32_sum (map2 f32_mul a b))"

definition distance_euclidean_squared :: "f32 list \<Rightarrow> f32 list \<Rightarrow> f32" where
  "distance_euclidean_squared a b =
     f32_sum (map2 (\<lambda>x y. let d = f32_sub x y in f32_mul d d) a b)"

definition distance_negated_inner_product :: "f32 list \<Rightarrow> f32 list \<Rightarrow> f32" where
  "distance_negated_inner_product a b = f32_neg (f32_sum (map2 f32_mul a b))"

definition distance_for_metric :: "distance_metric \<Rightarrow> f32 list \<Rightarrow> f32 list \<Rightarrow> f32" where
  "distance_for_metric mt a b =
     (case mt of
        Cosine \<Rightarrow> distance_cosine a b
      | EuclideanSquared \<Rightarrow> distance_euclidean_squared a b
      | InnerProduct \<Rightarrow> distance_negated_inner_product a b)"

definition normalize :: "f32 list \<Rightarrow> f32 list option" where
  "normalize v =
     (let norm = f32_sqrt (f32_sum (map (\<lambda>x. f32_mul x x) v))
      in if f32_eq norm F32_ZERO \<or> \<not> f32_is_finite norm then None
         else Some (map (\<lambda>x. f32_div x norm) v))"

definition preprocess_vector :: "distance_metric \<Rightarrow> f32 list \<Rightarrow> f32 list option" where
  "preprocess_vector mt v =
     (case mt of
        Cosine \<Rightarrow> normalize v
      | _ \<Rightarrow> if list_all f32_is_finite v then Some v else None)"

section \<open>Access to the arena\<close>

text \<open>\<^verbatim>\<open>nodes[id]\<close>, \<^verbatim>\<open>nodes[id].neighbors[layer]\<close> and the assignment to the latter.\<close>

definition node_at :: "'r hnsw \<Rightarrow> node_id \<Rightarrow> error + node" where
  "node_at g nid =
     (if unat nid < length (hi_nodes g) then Inr (hi_nodes g ! unat nid)
      else Inl (Panic ''index out of bounds''))"

definition neighbors_at :: "'r hnsw \<Rightarrow> node_id \<Rightarrow> u8 \<Rightarrow> error + node_id list" where
  "neighbors_at g nid layer =
     (case node_at g nid of
        Inl e \<Rightarrow> Inl e
      | Inr nd \<Rightarrow>
          if unat layer < length (nd_neighbors nd) then Inr (nd_neighbors nd ! unat layer)
          else Inl (Panic ''index out of bounds''))"

definition set_neighbors :: "'r hnsw \<Rightarrow> node_id \<Rightarrow> u8 \<Rightarrow> node_id list \<Rightarrow> error + 'r hnsw" where
  "set_neighbors g nid layer ns =
     (case neighbors_at g nid layer of
        Inl e \<Rightarrow> Inl e
      | Inr _ \<Rightarrow>
          (let nd = hi_nodes g ! unat nid;
               nd = nd\<lparr>nd_neighbors := (nd_neighbors nd)[unat layer := ns]\<rparr>
           in Inr (g\<lparr>hi_nodes := (hi_nodes g)[unat nid := nd]\<rparr>)))"

definition push_neighbor :: "'r hnsw \<Rightarrow> node_id \<Rightarrow> u8 \<Rightarrow> node_id \<Rightarrow> error + 'r hnsw" where
  "push_neighbor g nid layer n =
     (case neighbors_at g nid layer of
        Inl e \<Rightarrow> Inl e
      | Inr ns \<Rightarrow> set_neighbors g nid layer (ns @ [n]))"

definition distance :: "'r hnsw \<Rightarrow> f32 list \<Rightarrow> node_id \<Rightarrow> error + f32" where
  "distance g query nid =
     (case node_at g nid of
        Inl e \<Rightarrow> Inl e
      | Inr nd \<Rightarrow> Inr (distance_for_metric (hi_metric g) query (nd_vector nd)))"

section \<open>Searches at one layer\<close>

text \<open>The inner loop of \<^verbatim>\<open>greedy_search_layer\<close>: the best neighbour so far.\<close>

fun greedy_best ::
  "'r hnsw \<Rightarrow> f32 list \<Rightarrow> node_id list \<Rightarrow> node_id \<Rightarrow> f32 \<Rightarrow> error + (node_id \<times> f32)" where
  "greedy_best g query [] best_id best_dist = Inr (best_id, best_dist)"
| "greedy_best g query (n # ns) best_id best_dist =
     (case distance g query n of
        Inl e \<Rightarrow> Inl e
      | Inr d \<Rightarrow>
          if f32_lt d best_dist then greedy_best g query ns n d
          else greedy_best g query ns best_id best_dist)"

lemma greedy_best_less:
  "greedy_best g query ns b d = Inr (b', d') \<Longrightarrow> (b', d') = (b, d) \<or> f32_lt d' d"
  by (induction g query ns b d rule: greedy_best.induct)
     (auto split: sum.splits if_splits dest: f32_lt_trans)

text \<open>
  The distance strictly falls from one round to the next, and there are finitely many floats.
\<close>

function greedy_loop ::
  "'r hnsw \<Rightarrow> f32 list \<Rightarrow> u8 \<Rightarrow> node_id \<Rightarrow> f32 \<Rightarrow> error + node_id" where
  "greedy_loop g query layer current current_dist =
     (case neighbors_at g current layer of
        Inl e \<Rightarrow> Inl e
      | Inr ns \<Rightarrow>
          (case greedy_best g query ns current current_dist of
             Inl e \<Rightarrow> Inl e
           | Inr (best_id, best_dist) \<Rightarrow>
               if best_id = current then Inr current
               else greedy_loop g query layer best_id best_dist))"
  by pat_completeness auto
termination
proof (relation "measure (\<lambda>(g, query, layer, current, d). card {e. f32_lt e d})")
  fix g :: "'r hnsw" and query layer current d ns p best_id best_dist
  assume "greedy_best g query ns current d = Inr p" "(best_id, best_dist) = p" "best_id \<noteq> current"
  then have "f32_lt best_dist d" using greedy_best_less by blast
  then have "{e. f32_lt e best_dist} \<subset> {e. f32_lt e d}"
    using f32_lt_trans f32_lt_irrefl by blast
  then show "((g, query, layer, best_id, best_dist), g, query, layer, current, d)
      \<in> measure (\<lambda>(g, query, layer, current, d). card {e. f32_lt e d})"
    by (simp add: psubset_card_mono)
qed simp

declare greedy_loop.simps [simp del]

definition greedy_search_layer ::
  "'r hnsw \<Rightarrow> f32 list \<Rightarrow> node_id \<Rightarrow> u8 \<Rightarrow> error + node_id" where
  "greedy_search_layer g query start layer =
     (case distance g query start of
        Inl e \<Rightarrow> Inl e
      | Inr d \<Rightarrow> greedy_loop g query layer start d)"

text \<open>
  The two heaps of \<^verbatim>\<open>search_layer\<close>: the greatest of \<open>farther\<close> is the worst result, the greatest of
  \<open>closer\<close> (\<^verbatim>\<open>Reverse\<close>) the closest candidate.
\<close>

definition farther :: "candidate \<Rightarrow> candidate \<Rightarrow> bool" where
  "farther x y \<longleftrightarrow> f32_lt (cd_dist y) (cd_dist x)"

definition closer :: "candidate \<Rightarrow> candidate \<Rightarrow> bool" where
  "closer x y \<longleftrightarrow> f32_lt (cd_dist x) (cd_dist y)"

definition worst_dist :: "candidate list \<Rightarrow> f32" where
  "worst_dist results =
     (case heap_peek farther results of None \<Rightarrow> F32_INFINITY | Some r \<Rightarrow> cd_dist r)"

text \<open>Pushing a result and dropping the worst if there are more than \<open>ef\<close>.\<close>

definition push_bounded :: "nat \<Rightarrow> candidate \<Rightarrow> candidate list \<Rightarrow> candidate list" where
  "push_bounded ef c results =
     (let results = results @ [c]
      in if length results > ef
         then (case heap_pop farther results of None \<Rightarrow> results | Some (_, rest) \<Rightarrow> rest)
         else results)"

fun visit_neighbors ::
  "'r hnsw \<Rightarrow> f32 list \<Rightarrow> nat \<Rightarrow> node_id list \<Rightarrow> node_id set \<Rightarrow> candidate list \<Rightarrow> candidate list \<Rightarrow>
     error + (node_id set \<times> candidate list \<times> candidate list)" where
  "visit_neighbors g query ef [] visited candidates results = Inr (visited, candidates, results)"
| "visit_neighbors g query ef (n # ns) visited candidates results =
     (if n \<in> visited then visit_neighbors g query ef ns visited candidates results
      else
        (case distance g query n of
           Inl e \<Rightarrow> Inl e
         | Inr nd \<Rightarrow>
             (if f32_lt nd (worst_dist results) \<or> length results < ef
              then visit_neighbors g query ef ns (insert n visited)
                     (candidates @ [\<lparr>cd_id = n, cd_dist = nd\<rparr>])
                     (push_bounded ef \<lparr>cd_id = n, cd_dist = nd\<rparr> results)
              else visit_neighbors g query ef ns (insert n visited) candidates results)))"

lemma visit_neighbors_progress:
  "visit_neighbors g query ef ns v cs rs = Inr (v', cs', rs') \<Longrightarrow>
   v \<subset> v' \<or> (v' = v \<and> cs' = cs)"
proof (induction g query ef ns v cs rs rule: visit_neighbors.induct)
  case (2 g query ef n ns v cs rs)
  show ?case
  proof (cases "n \<in> v")
    case True
    with 2 show ?thesis by simp
  next
    case False
    with 2 have "insert n v \<subseteq> v'" by (fastforce split: sum.splits if_splits)
    with False show ?thesis by blast
  qed
qed simp

function search_loop ::
  "'r hnsw \<Rightarrow> f32 list \<Rightarrow> u8 \<Rightarrow> nat \<Rightarrow> node_id set \<Rightarrow> candidate list \<Rightarrow> candidate list \<Rightarrow>
     error + candidate list" where
  "search_loop g query layer ef visited candidates results =
     (case heap_pop closer candidates of
        None \<Rightarrow> Inr results
      | Some (c, candidates) \<Rightarrow>
          if f32_lt (worst_dist results) (cd_dist c) then Inr results
          else
            (case neighbors_at g (cd_id c) layer of
               Inl e \<Rightarrow> Inl e
             | Inr ns \<Rightarrow>
                 (case visit_neighbors g query ef ns visited candidates results of
                    Inl e \<Rightarrow> Inl e
                  | Inr (visited, candidates, results) \<Rightarrow>
                      search_loop g query layer ef visited candidates results)))"
  by pat_completeness auto
termination
proof (relation "(\<lambda>(g, query, layer, ef, visited, candidates, results). card (- visited)) <*mlex*>
    measure (\<lambda>(g, query, layer, ef, visited, candidates, results). length candidates)")
  show "wf ((\<lambda>(g, query, layer, ef, visited, candidates, results). card (- visited)) <*mlex*>
      measure (\<lambda>(g, query, layer, ef, visited, candidates, results). length candidates))"
    by (intro wf_mlex) simp
next
  fix g :: "'r hnsw" and query layer ef and v v' :: "node_id set" and cs cs' cs1 rs rs' c ns p q z
  assume pop: "heap_pop closer cs = Some p" "(c, cs1) = p"
    and "visit_neighbors g query ef ns v cs1 rs = Inr q" "(v', z) = q" "(cs', rs') = z"
  then have "v \<subset> v' \<or> (v' = v \<and> cs' = cs1)" using visit_neighbors_progress by blast
  moreover have "length cs = Suc (length cs1)" using pop heap_pop_length [of closer cs c cs1] by simp
  moreover have "card (- v') < card (- v)" if "v \<subset> v'"
    using that by (intro psubset_card_mono) auto
  ultimately show "((g, query, layer, ef, v', cs', rs'), g, query, layer, ef, v, cs, rs)
      \<in> (\<lambda>(g, query, layer, ef, visited, candidates, results). card (- visited)) <*mlex*>
        measure (\<lambda>(g, query, layer, ef, visited, candidates, results). length candidates)"
    by (cases "v' = v") (auto intro: mlex_less mlex_leq simp del: psubsetI)
qed

declare search_loop.simps [simp del]

definition search_layer ::
  "'r hnsw \<Rightarrow> f32 list \<Rightarrow> node_id \<Rightarrow> u8 \<Rightarrow> nat \<Rightarrow> error + candidate list" where
  "search_layer g query start layer ef =
     (case distance g query start of
        Inl e \<Rightarrow> Inl e
      | Inr start_dist \<Rightarrow>
          (let c = \<lparr>cd_id = start, cd_dist = start_dist\<rparr>
           in search_loop g query layer ef {start} [c] [c]))"


section \<open>Neighbour selection\<close>

text \<open>
  \<^verbatim>\<open>sort_by\<close> on the distances is stable; on distances that are numbers it is the sort by their
  position in the order. What it does with one that is not a number is unspecified.
\<close>

definition sort_candidates :: "candidate list \<Rightarrow> candidate list" where
  "sort_candidates cs = sort_key (\<lambda>c. f32_key (cd_dist c)) cs"

fun admits :: "'r hnsw \<Rightarrow> candidate \<Rightarrow> candidate list \<Rightarrow> error + bool" where
  "admits g cand [] = Inr True"
| "admits g cand (c # cs) =
     (case node_at g (cd_id cand) of
        Inl e \<Rightarrow> Inl e
      | Inr x \<Rightarrow>
          (case node_at g (cd_id c) of
             Inl e \<Rightarrow> Inl e
           | Inr y \<Rightarrow>
               (let d_to_existing = distance_for_metric (hi_metric g) (nd_vector x) (nd_vector y)
                in if f32_lt d_to_existing (cd_dist cand) then Inr False
                   else admits g cand cs)))"

fun select_loop ::
  "'r hnsw \<Rightarrow> nat \<Rightarrow> candidate list \<Rightarrow> candidate list \<Rightarrow> error + candidate list" where
  "select_loop g m [] chosen = Inr chosen"
| "select_loop g m (cand # cands) chosen =
     (if length chosen \<ge> m then Inr chosen
      else
        (case admits g cand chosen of
           Inl e \<Rightarrow> Inl e
         | Inr admit \<Rightarrow>
             select_loop g m cands (if admit then chosen @ [cand] else chosen)))"

definition select_neighbors_heuristic ::
  "'r hnsw \<Rightarrow> candidate list \<Rightarrow> nat \<Rightarrow> error + candidate list" where
  "select_neighbors_heuristic g candidates m = select_loop g m (sort_candidates candidates) []"

fun neighbor_candidates ::
  "'r hnsw \<Rightarrow> f32 list \<Rightarrow> node_id list \<Rightarrow> error + candidate list" where
  "neighbor_candidates g v [] = Inr []"
| "neighbor_candidates g v (n # ns) =
     (case distance g v n of
        Inl e \<Rightarrow> Inl e
      | Inr d \<Rightarrow>
          (case neighbor_candidates g v ns of
             Inl e \<Rightarrow> Inl e
           | Inr cs \<Rightarrow> Inr (\<lparr>cd_id = n, cd_dist = d\<rparr> # cs)))"

definition trim_neighbors :: "'r hnsw \<Rightarrow> node_id \<Rightarrow> u8 \<Rightarrow> nat \<Rightarrow> error + 'r hnsw" where
  "trim_neighbors g nid layer mx =
     (case neighbors_at g nid layer of
        Inl e \<Rightarrow> Inl e
      | Inr neighbors \<Rightarrow>
          if length neighbors \<le> mx then Inr g
          else
            (case neighbor_candidates g (nd_vector (hi_nodes g ! unat nid)) neighbors of
               Inl e \<Rightarrow> Inl e
             | Inr candidates \<Rightarrow>
                 (case select_neighbors_heuristic g candidates mx of
                    Inl e \<Rightarrow> Inl e
                  | Inr kept \<Rightarrow> set_neighbors g nid layer (map cd_id kept))))"

text \<open>An edge pushed onto a node's list, which is trimmed when it is over its cap.\<close>

definition push_and_trim ::
  "'r hnsw \<Rightarrow> node_id \<Rightarrow> u8 \<Rightarrow> nat \<Rightarrow> node_id \<Rightarrow> error + 'r hnsw" where
  "push_and_trim g nid layer m_max n =
     (case push_neighbor g nid layer n of
        Inl e \<Rightarrow> Inl e
      | Inr g \<Rightarrow>
          (case neighbors_at g nid layer of
             Inl e \<Rightarrow> Inl e
           | Inr ns \<Rightarrow>
               if length ns > m_max then trim_neighbors g nid layer m_max else Inr g))"

definition layer_cap :: "'r hnsw \<Rightarrow> u8 \<Rightarrow> nat" where
  "layer_cap g layer = (if layer = 0 then hp_m_max_0 (hi_params g) else hp_m (hi_params g))"

section \<open>Insertion\<close>

text \<open>\<^verbatim>\<open>assign_level\<close>: the layer sample, kept between 0 and 30.\<close>

definition assign_level :: "'r rng_lib \<Rightarrow> 'r hnsw \<Rightarrow> u8 \<times> 'r hnsw" where
  "assign_level lib g =
     (let (r, rng) = rl_uniform lib (hi_rng g);
          level = f64_floor_i64 (f64_mul (f64_neg (rl_ln lib r)) (hi_ml g))
      in (word_of_int (max 0 (min 30 level)), g\<lparr>hi_rng := rng\<rparr>))"

text \<open>Phase 1: greedy descent through the layers of the list.\<close>

fun descend :: "'r hnsw \<Rightarrow> f32 list \<Rightarrow> u8 list \<Rightarrow> node_id \<Rightarrow> error + node_id" where
  "descend g query [] current = Inr current"
| "descend g query (l # ls) current =
     (case greedy_search_layer g query current l of
        Inl e \<Rightarrow> Inl e
      | Inr current \<Rightarrow> descend g query ls current)"

definition layers_down :: "nat \<Rightarrow> nat \<Rightarrow> u8 list" where
  "layers_down lo hi = map word_of_nat (rev [lo..<hi + 1])"

text \<open>\<^verbatim>\<open>min_by\<close>: the first of the closest candidates.\<close>

definition closest :: "candidate list \<Rightarrow> candidate option" where
  "closest cs = heap_peek closer cs"

fun link_back ::
  "'r hnsw \<Rightarrow> node_id \<Rightarrow> u8 \<Rightarrow> nat \<Rightarrow> candidate list \<Rightarrow> error + 'r hnsw" where
  "link_back g nid layer m_max [] = Inr g"
| "link_back g nid layer m_max (cand # cands) =
     (case push_and_trim g (cd_id cand) layer m_max nid of
        Inl e \<Rightarrow> Inl e
      | Inr g \<Rightarrow> link_back g nid layer m_max cands)"

text \<open>The body of phase 2 at one layer, and its loop.\<close>

definition link_layer ::
  "'r hnsw \<Rightarrow> node_id \<Rightarrow> f32 list \<Rightarrow> node_id \<Rightarrow> u8 \<Rightarrow> error + ('r hnsw \<times> node_id)" where
  "link_layer g nid processed ep layer =
     (case search_layer g processed ep layer (hp_ef_construction (hi_params g)) of
        Inl e \<Rightarrow> Inl e
      | Inr candidates \<Rightarrow>
          (let m_max = layer_cap g layer
           in case select_neighbors_heuristic g candidates (hp_m (hi_params g)) of
                Inl e \<Rightarrow> Inl e
              | Inr neighbors \<Rightarrow>
                  (case set_neighbors g nid layer (map cd_id neighbors) of
                     Inl e \<Rightarrow> Inl e
                   | Inr g \<Rightarrow>
                       (case link_back g nid layer m_max neighbors of
                          Inl e \<Rightarrow> Inl e
                        | Inr g \<Rightarrow>
                            Inr (g, case closest candidates of None \<Rightarrow> ep | Some c \<Rightarrow> cd_id c)))))"

fun link_layers ::
  "'r hnsw \<Rightarrow> node_id \<Rightarrow> f32 list \<Rightarrow> node_id \<Rightarrow> u8 list \<Rightarrow> error + 'r hnsw" where
  "link_layers g nid processed ep [] = Inr g"
| "link_layers g nid processed ep (l # ls) =
     (case link_layer g nid processed ep l of
        Inl e \<Rightarrow> Inl e
      | Inr (g, ep) \<Rightarrow> link_layers g nid processed ep ls)"

text \<open>Insertion of a preprocessed vector, after the dimension check.\<close>

definition insert_processed ::
  "'r rng_lib \<Rightarrow> f32 list \<Rightarrow> 'r hnsw \<Rightarrow> (error + node_id) \<times> 'r hnsw" where
  "insert_processed lib processed g =
     (let (level, g) = assign_level lib g;
          nid = word_of_nat (length (hi_nodes g));
          new_node = \<lparr>nd_vector = processed, nd_neighbors = replicate (unat level + 1) [],
                      nd_deleted = False\<rparr>;
          g = g\<lparr>hi_nodes := hi_nodes g @ [new_node]\<rparr>
      in case hi_entry g of
           None \<Rightarrow> (Inr nid, g\<lparr>hi_entry := Some \<lparr>ep_node = nid, ep_level = level\<rparr>\<rparr>)
         | Some entry \<Rightarrow>
             (case descend g processed (layers_down (unat level + 1) (unat (ep_level entry)))
                     (ep_node entry) of
                Inl e \<Rightarrow> (Inl e, g)
              | Inr current \<Rightarrow>
                  (case link_layers g nid processed current
                          (layers_down 0 (unat (min level (ep_level entry)))) of
                     Inl e \<Rightarrow> (Inl e, g)
                   | Inr g \<Rightarrow>
                       (Inr nid,
                        if level > ep_level entry
                        then g\<lparr>hi_entry := Some \<lparr>ep_node = nid, ep_level = level\<rparr>\<rparr> else g))))"

definition hnsw_insert ::
  "'r rng_lib \<Rightarrow> f32 list \<Rightarrow> 'r hnsw \<Rightarrow> (error + node_id) \<times> 'r hnsw" where
  "hnsw_insert lib v g =
     (if hi_dim g = 0 \<and> v = []
      then (Inl (InvalidArgument ''cannot insert zero-dimension vector''), g)
      else if hi_dim g \<noteq> 0 \<and> length v \<noteq> hi_dim g
      then (Inl (InvalidArgument ''vector dimension mismatch''), g)
      else
        (let g = (if hi_dim g = 0 then g\<lparr>hi_dim := length v\<rparr> else g)
         in case preprocess_vector (hi_metric g) v of
              None \<Rightarrow> (Inl (InvalidArgument ''cannot insert invalid vector''), g)
            | Some processed \<Rightarrow> insert_processed lib processed g))"

section \<open>Deletion\<close>

definition search_layer_skipping_deleted ::
  "'r hnsw \<Rightarrow> f32 list \<Rightarrow> node_id \<Rightarrow> u8 \<Rightarrow> nat \<Rightarrow> error + candidate list" where
  "search_layer_skipping_deleted g query start layer ef =
     (case search_layer g query start layer ef of
        Inl e \<Rightarrow> Inl e
      | Inr raw \<Rightarrow> Inr [c \<leftarrow> raw. \<not> nd_deleted (hi_nodes g ! unat (cd_id c))])"

fun wire_both ::
  "'r hnsw \<Rightarrow> node_id \<Rightarrow> u8 \<Rightarrow> nat \<Rightarrow> candidate list \<Rightarrow> error + 'r hnsw" where
  "wire_both g n_id layer m_max [] = Inr g"
| "wire_both g n_id layer m_max (cand # cands) =
     (case push_neighbor g n_id layer (cd_id cand) of
        Inl e \<Rightarrow> Inl e
      | Inr g \<Rightarrow>
          (case push_and_trim g (cd_id cand) layer m_max n_id of
             Inl e \<Rightarrow> Inl e
           | Inr g \<Rightarrow> wire_both g n_id layer m_max cands))"

text \<open>The repair of one neighbour of the deleted node.\<close>

definition repair_neighbor ::
  "'r hnsw \<Rightarrow> node_id \<Rightarrow> u8 \<Rightarrow> nat \<Rightarrow> node_id \<Rightarrow> error + 'r hnsw" where
  "repair_neighbor g deleted_id layer m_max n_id =
     (case neighbors_at g n_id layer of
        Inl e \<Rightarrow> Inl e
      | Inr ns \<Rightarrow>
          (case set_neighbors g n_id layer [x \<leftarrow> ns. x \<noteq> deleted_id] of
             Inl e \<Rightarrow> Inl e
           | Inr g \<Rightarrow>
               (let n_vec = nd_vector (hi_nodes g ! unat n_id)
                in case search_layer_skipping_deleted g n_vec n_id layer
                          (hp_ef_construction (hi_params g)) of
                     Inl e \<Rightarrow> Inl e
                   | Inr raw_candidates \<Rightarrow>
                       (let already_linked = [x \<leftarrow> ns. x \<noteq> deleted_id];
                            novel = [c \<leftarrow> raw_candidates. cd_id c \<noteq> n_id \<and> cd_id c \<notin> set already_linked]
                        in case select_neighbors_heuristic g novel (hp_m (hi_params g)) of
                             Inl e \<Rightarrow> Inl e
                           | Inr chosen \<Rightarrow>
                               (case wire_both g n_id layer m_max chosen of
                                  Inl e \<Rightarrow> Inl e
                                | Inr g \<Rightarrow>
                                    (case neighbors_at g n_id layer of
                                       Inl e \<Rightarrow> Inl e
                                     | Inr ns \<Rightarrow>
                                         if length ns > m_max then trim_neighbors g n_id layer m_max
                                         else Inr g))))))"

fun repair_neighbors ::
  "'r hnsw \<Rightarrow> node_id \<Rightarrow> u8 \<Rightarrow> nat \<Rightarrow> node_id list \<Rightarrow> error + 'r hnsw" where
  "repair_neighbors g deleted_id layer m_max [] = Inr g"
| "repair_neighbors g deleted_id layer m_max (n # ns) =
     (case repair_neighbor g deleted_id layer m_max n of
        Inl e \<Rightarrow> Inl e
      | Inr g \<Rightarrow> repair_neighbors g deleted_id layer m_max ns)"

fun live_only :: "'r hnsw \<Rightarrow> node_id list \<Rightarrow> error + node_id list" where
  "live_only g [] = Inr []"
| "live_only g (n # ns) =
     (case node_at g n of
        Inl e \<Rightarrow> Inl e
      | Inr nd \<Rightarrow>
          (case live_only g ns of
             Inl e \<Rightarrow> Inl e
           | Inr rest \<Rightarrow> Inr (if nd_deleted nd then rest else n # rest)))"

definition repair_layer_after_delete :: "'r hnsw \<Rightarrow> node_id \<Rightarrow> u8 \<Rightarrow> error + 'r hnsw" where
  "repair_layer_after_delete g deleted_id layer =
     (case neighbors_at g deleted_id layer of
        Inl e \<Rightarrow> Inl e
      | Inr ns \<Rightarrow>
          (case live_only g ns of
             Inl e \<Rightarrow> Inl e
           | Inr affected \<Rightarrow> repair_neighbors g deleted_id layer (layer_cap g layer) affected))"

fun repair_layers :: "'r hnsw \<Rightarrow> node_id \<Rightarrow> u8 list \<Rightarrow> error + 'r hnsw" where
  "repair_layers g deleted_id [] = Inr g"
| "repair_layers g deleted_id (l # ls) =
     (case repair_layer_after_delete g deleted_id l of
        Inl e \<Rightarrow> Inl e
      | Inr g \<Rightarrow> repair_layers g deleted_id ls)"

text \<open>
  \<^verbatim>\<open>max_by_key\<close> over the live nodes: the last one of the highest level. A level is the number of
  neighbour lists less one, cast to a byte.
\<close>

definition node_level :: "node \<Rightarrow> u8" where
  "node_level nd = word_of_nat (length (nd_neighbors nd)) - 1"

fun highest_live :: "node list \<Rightarrow> nat \<Rightarrow> entry_point option \<Rightarrow> entry_point option" where
  "highest_live [] i best = best"
| "highest_live (nd # nds) i best =
     highest_live nds (i + 1)
       (if nd_deleted nd then best
        else
          (case best of
             None \<Rightarrow> Some \<lparr>ep_node = word_of_nat i, ep_level = node_level nd\<rparr>
           | Some b \<Rightarrow>
               if node_level nd \<ge> ep_level b
               then Some \<lparr>ep_node = word_of_nat i, ep_level = node_level nd\<rparr> else Some b))"

definition pick_new_entry :: "'r hnsw \<Rightarrow> entry_point option" where
  "pick_new_entry g = highest_live (hi_nodes g) 0 None"

definition mark_deleted :: "'r hnsw \<Rightarrow> node_id \<Rightarrow> 'r hnsw" where
  "mark_deleted g nid =
     g\<lparr>hi_nodes := (hi_nodes g)[unat nid := (hi_nodes g ! unat nid)\<lparr>nd_deleted := True\<rparr>]\<rparr>"

definition hnsw_delete :: "node_id \<Rightarrow> 'r hnsw \<Rightarrow> (error + unit) \<times> 'r hnsw" where
  "hnsw_delete nid g =
     (if unat nid \<ge> length (hi_nodes g)
      then (Inl (InvalidArgument ''delete: id out of range''), g)
      else if nd_deleted (hi_nodes g ! unat nid)
      then (Inl (InvalidArgument ''delete: id is already deleted''), g)
      else
        (let g = mark_deleted g nid;
             deleted_level = node_level (hi_nodes g ! unat nid)
         in case repair_layers g nid (map word_of_nat [0..<unat deleted_level + 1]) of
              Inl e \<Rightarrow> (Inl e, g)
            | Inr g \<Rightarrow>
                (Inr (), if map_option ep_node (hi_entry g) = Some nid
                         then g\<lparr>hi_entry := pick_new_entry g\<rparr> else g)))"

section \<open>Search\<close>

definition hnsw_search :: "'r hnsw \<Rightarrow> f32 list \<Rightarrow> nat \<Rightarrow> error + (node_id \<times> f32) list" where
  "hnsw_search g query k =
     (if hnsw_is_empty g \<or> k = 0 then Inr []
      else
        (case hi_entry g of
           None \<Rightarrow> Inr []
         | Some entry \<Rightarrow>
             if length query \<noteq> hi_dim g
             then Inl (InvalidArgument ''query dimension mismatch'')
             else
               (case preprocess_vector (hi_metric g) query of
                  None \<Rightarrow> Inl (InvalidArgument ''cannot search for invalid query vector'')
                | Some processed \<Rightarrow>
                    (case descend g processed (layers_down 1 (unat (ep_level entry))) (ep_node entry) of
                       Inl e \<Rightarrow> Inl e
                     | Inr current \<Rightarrow>
                         (let ef = max (max (hp_ef_search (hi_params g)) (k * 2)) k
                          in case search_layer g processed current 0 ef of
                               Inl e \<Rightarrow> Inl e
                             | Inr raw \<Rightarrow>
                                 (let live = [c \<leftarrow> raw. \<not> nd_deleted (hi_nodes g ! unat (cd_id c))]
                                  in Inr (map (\<lambda>c. (cd_id c, cd_dist c))
                                       (take k (sort_candidates live)))))))))"

end
