(* ===== verification/Hnsw_Inv.thy ===== *)
theory Hnsw_Inv
  imports Hnsw
begin

text \<open>
  The structural invariant of the graph. Every edge at a layer leads to a node that has that layer,
  no node is its own neighbour, no list is over its cap, and the entry point is a live node of the
  highest live level. Under it no operation can index out of range.
\<close>

section \<open>The graph as a function\<close>

definition nbrs :: "'r hnsw \<Rightarrow> nat \<Rightarrow> nat \<Rightarrow> node_id list" where
  "nbrs g i l = nd_neighbors (hi_nodes g ! i) ! l"

definition levels :: "'r hnsw \<Rightarrow> nat \<Rightarrow> nat" where
  "levels g i = length (nd_neighbors (hi_nodes g ! i))"

definition has_layer :: "'r hnsw \<Rightarrow> nat \<Rightarrow> node_id \<Rightarrow> bool" where
  "has_layer g l n \<longleftrightarrow> unat n < length (hi_nodes g) \<and> l < levels g (unat n)"

text \<open>What a node is apart from its edges.\<close>

definition shape :: "'r hnsw \<Rightarrow> (f32 list \<times> bool \<times> nat) list" where
  "shape g = map (\<lambda>nd. (nd_vector nd, nd_deleted nd, length (nd_neighbors nd))) (hi_nodes g)"

text \<open>\<open>rewired g g'\<close>: the graphs differ in their edges only.\<close>

definition rewired :: "'r hnsw \<Rightarrow> 'r hnsw \<Rightarrow> bool" where
  "rewired g g' \<longleftrightarrow> shape g' = shape g \<and> hi_params g' = hi_params g \<and> hi_metric g' = hi_metric g \<and>
     hi_dim g' = hi_dim g \<and> hi_entry g' = hi_entry g \<and> hi_ml g' = hi_ml g \<and> hi_rng g' = hi_rng g"

lemma rewired_refl [simp]: "rewired g g"
  by (simp add: rewired_def)

lemma rewired_trans: "rewired g g1 \<Longrightarrow> rewired g1 g2 \<Longrightarrow> rewired g g2"
  by (simp add: rewired_def)

lemma rewired_sel:
  assumes "rewired g g'"
  shows "hi_params g' = hi_params g" "hi_metric g' = hi_metric g" "hi_dim g' = hi_dim g"
    "hi_entry g' = hi_entry g" "hi_ml g' = hi_ml g" "hi_rng g' = hi_rng g"
    "length (hi_nodes g') = length (hi_nodes g)"
  using assms by (simp_all only: rewired_def) (auto simp: shape_def dest: map_eq_imp_length_eq)

lemma rewired_node:
  assumes "rewired g g'" and "i < length (hi_nodes g)"
  shows "nd_vector (hi_nodes g' ! i) = nd_vector (hi_nodes g ! i)"
    "nd_deleted (hi_nodes g' ! i) = nd_deleted (hi_nodes g ! i)" "levels g' i = levels g i"
proof -
  have "shape g' ! i = shape g ! i" using assms by (simp add: rewired_def)
  then show "nd_vector (hi_nodes g' ! i) = nd_vector (hi_nodes g ! i)"
    "nd_deleted (hi_nodes g' ! i) = nd_deleted (hi_nodes g ! i)" "levels g' i = levels g i"
    using assms(2) rewired_sel(7) [OF assms(1)] by (simp_all add: shape_def levels_def)
qed

lemma rewired_has_layer: "rewired g g' \<Longrightarrow> has_layer g' l n \<longleftrightarrow> has_layer g l n"
  using rewired_sel(7) [of g g'] rewired_node(3) [of g g'] by (auto simp: has_layer_def)

lemma rewired_cap: "rewired g g' \<Longrightarrow> layer_cap g' l = layer_cap g l"
  by (simp add: layer_cap_def rewired_sel)

section \<open>Access\<close>

lemma node_at_ok: "unat n < length (hi_nodes g) \<Longrightarrow> node_at g n = Inr (hi_nodes g ! unat n)"
  by (simp add: node_at_def)

lemma neighbors_at_ok: "has_layer g (unat l) n \<Longrightarrow> neighbors_at g n l = Inr (nbrs g (unat n) (unat l))"
  by (simp add: neighbors_at_def node_at_ok has_layer_def levels_def nbrs_def)

text \<open>The distance from a query to a node.\<close>

definition dist_to :: "'r hnsw \<Rightarrow> f32 list \<Rightarrow> node_id \<Rightarrow> f32" where
  "dist_to g q n = distance_for_metric (hi_metric g) q (nd_vector (hi_nodes g ! unat n))"

lemma distance_ok: "unat n < length (hi_nodes g) \<Longrightarrow> distance g q n = Inr (dist_to g q n)"
  by (simp add: distance_def node_at_ok dist_to_def)

lemma dist_to_rewired: "rewired g g' \<Longrightarrow> unat n < length (hi_nodes g) \<Longrightarrow> dist_to g' q n = dist_to g q n"
  by (simp add: dist_to_def rewired_sel rewired_node)

lemma set_neighbors_ok:
  assumes "has_layer g (unat l) n"
  obtains g' where "set_neighbors g n l ns = Inr g'" "rewired g g'"
    "\<And>i k. i < length (hi_nodes g) \<Longrightarrow> k < levels g i \<Longrightarrow>
       nbrs g' i k = (if i = unat n \<and> k = unat l then ns else nbrs g i k)"
proof
  let ?nd = "hi_nodes g ! unat n"
  let ?g' = "g\<lparr>hi_nodes := (hi_nodes g)[unat n := ?nd\<lparr>nd_neighbors := (nd_neighbors ?nd)[unat l := ns]\<rparr>]\<rparr>"
  show "set_neighbors g n l ns = Inr ?g'"
    using neighbors_at_ok [OF assms] by (simp add: set_neighbors_def Let_def)
  show "rewired g ?g'"
    using assms by (auto simp: rewired_def shape_def has_layer_def nth_list_update intro!: nth_equalityI)
  show "nbrs ?g' i k = (if i = unat n \<and> k = unat l then ns else nbrs g i k)"
    if "i < length (hi_nodes g)" "k < levels g i" for i k
    using that assms by (auto simp: nbrs_def has_layer_def levels_def nth_list_update)
qed

section \<open>Well-formed edges\<close>

definition edges_ok :: "'r hnsw \<Rightarrow> bool" where
  "edges_ok g \<longleftrightarrow>
     (\<forall>i < length (hi_nodes g). \<forall>l < levels g i. \<forall>n \<in> set (nbrs g i l). has_layer g l n \<and> unat n \<noteq> i)"

text \<open>
  All lists but those in \<open>X\<close> are within their caps. At layer 0 insertion trims to \<^verbatim>\<open>m_max_0\<close> the lists it
  links back from, but gives the new node up to \<^verbatim>\<open>m\<close> neighbours; the code does not require \<^verbatim>\<open>m <= m_max_0\<close>.
\<close>

definition cap :: "'r hnsw \<Rightarrow> nat \<Rightarrow> nat" where
  "cap g l = (if l = 0 then max (hp_m_max_0 (hi_params g)) (hp_m (hi_params g)) else hp_m (hi_params g))"

definition degrees_but :: "(nat \<times> nat) set \<Rightarrow> 'r hnsw \<Rightarrow> bool" where
  "degrees_but X g \<longleftrightarrow>
     (\<forall>i < length (hi_nodes g). \<forall>l < levels g i. (i, l) \<notin> X \<longrightarrow> length (nbrs g i l) \<le> cap g l)"

lemma layer_cap_cap: "layer_cap g l \<le> cap g (unat l)"
  by (simp add: layer_cap_def cap_def unat_eq_0)

text \<open>\<open>closed_at g l S\<close>: the set is closed under the edges of the layer.\<close>

definition closed_at :: "'r hnsw \<Rightarrow> nat \<Rightarrow> node_id set \<Rightarrow> bool" where
  "closed_at g l S \<longleftrightarrow> (\<forall>n \<in> S. has_layer g l n \<and> set (nbrs g (unat n) l) \<subseteq> S)"

lemma closed_all: "edges_ok g \<Longrightarrow> closed_at g l {n. has_layer g l n}"
  by (auto simp: closed_at_def edges_ok_def has_layer_def)

lemma closed_atD:
  assumes "closed_at g (unat l) S" and "n \<in> S"
  shows "has_layer g (unat l) n" "neighbors_at g n l = Inr (nbrs g (unat n) (unat l))"
    "set (nbrs g (unat n) (unat l)) \<subseteq> S" "distance g q n = Inr (dist_to g q n)"
proof -
  show h: "has_layer g (unat l) n" "set (nbrs g (unat n) (unat l)) \<subseteq> S"
    using assms by (auto simp: closed_at_def)
  show "neighbors_at g n l = Inr (nbrs g (unat n) (unat l))" using h(1) by (rule neighbors_at_ok)
  show "distance g q n = Inr (dist_to g q n)" using h(1) by (simp add: has_layer_def distance_ok)
qed

section \<open>Searches at one layer\<close>

lemma greedy_best_ok:
  assumes "\<forall>n \<in> S. unat n < length (hi_nodes g)"
  shows "set ns \<subseteq> S \<Longrightarrow> b \<in> S \<Longrightarrow> \<exists>b' d'. greedy_best g q ns b d = Inr (b', d') \<and> b' \<in> S"
  using assms
proof (induction g q ns b d rule: greedy_best.induct)
  case (2 g q n ns b d)
  then show ?case by (auto simp: distance_ok)
qed simp

lemma greedy_loop_ok:
  "closed_at g (unat l) S \<Longrightarrow> c \<in> S \<Longrightarrow> \<exists>n. greedy_loop g q l c d = Inr n \<and> n \<in> S"
proof (induction g q l c d rule: greedy_loop.induct)
  case (1 g q l c d)
  note at = closed_atD [OF 1(2,3)]
  have "\<forall>n \<in> S. unat n < length (hi_nodes g)" using 1(2) by (auto simp: closed_at_def has_layer_def)
  from greedy_best_ok [OF this at(3) 1(3)] obtain b' d' where
    b: "greedy_best g q (nbrs g (unat c) (unat l)) c d = Inr (b', d')" "b' \<in> S" by blast
  show ?case
  proof (cases "b' = c")
    case True
    then show ?thesis using b 1(3) by (subst greedy_loop.simps) (simp add: at(2))
  next
    case False
    from 1(1) [OF at(2) b(1) refl False 1(2) b(2)] False b(1) show ?thesis
      by (subst greedy_loop.simps) (simp add: at(2))
  qed
qed

lemma greedy_search_layer_ok:
  "closed_at g (unat l) S \<Longrightarrow> c \<in> S \<Longrightarrow> \<exists>n. greedy_search_layer g q c l = Inr n \<and> n \<in> S"
  using closed_atD(4) [of g l S c q] greedy_loop_ok by (simp add: greedy_search_layer_def)

text \<open>What a list of candidates promises: distinct nodes of \<open>S\<close>, at their distances.\<close>

definition candidates_ok :: "'r hnsw \<Rightarrow> f32 list \<Rightarrow> node_id set \<Rightarrow> candidate list \<Rightarrow> bool" where
  "candidates_ok g q S cs \<longleftrightarrow>
     distinct (map cd_id cs) \<and> (\<forall>c \<in> set cs. cd_id c \<in> S \<and> cd_dist c = dist_to g q (cd_id c))"

lemma candidates_ok_Nil [simp]: "candidates_ok g q S []"
  by (simp add: candidates_ok_def)

lemma candidates_ok_filter: "candidates_ok g q S cs \<Longrightarrow> candidates_ok g q S (filter P cs)"
  by (simp add: candidates_ok_def distinct_map_filter)

lemma candidates_ok_mono: "candidates_ok g q S cs \<Longrightarrow> S \<subseteq> S' \<Longrightarrow> candidates_ok g q S' cs"
  by (auto simp: candidates_ok_def)

lemma candidates_ok_snoc:
  "candidates_ok g q S cs \<Longrightarrow> n \<notin> S \<Longrightarrow>
   candidates_ok g q (insert n S) (cs @ [\<lparr>cd_id = n, cd_dist = dist_to g q n\<rparr>])"
  by (auto simp: candidates_ok_def)

lemma candidates_ok_remove1: "candidates_ok g q S cs \<Longrightarrow> candidates_ok g q S (remove1 t cs)"
  using set_remove1_subset [of t cs] by (auto simp: candidates_ok_def distinct_map intro: inj_on_subset)

section \<open>Beam search\<close>

lemma heap_pop_remove1: "heap_pop h xs = Some (t, rest) \<Longrightarrow> rest = remove1 t xs"
  using heap_pop_Some by metis

lemma push_bounded_ok:
  "candidates_ok g q V rs \<Longrightarrow> n \<notin> V \<Longrightarrow>
   candidates_ok g q (insert n V) (push_bounded ef \<lparr>cd_id = n, cd_dist = dist_to g q n\<rparr> rs)"
  using candidates_ok_snoc [of g q V rs n] candidates_ok_remove1
  by (auto simp: push_bounded_def Let_def split: option.split dest!: heap_pop_remove1)

lemma push_bounded_length:
  "length rs \<le> max 1 ef \<Longrightarrow> length (push_bounded ef c rs) \<le> max 1 ef"
  by (auto simp: push_bounded_def Let_def split: option.split dest: heap_pop_length)

text \<open>
  The state of the beam search: candidates and results are visited nodes of the closed set, at
  their distances.
\<close>

definition beam_ok :: "'r hnsw \<Rightarrow> f32 list \<Rightarrow> nat \<Rightarrow> node_id set \<Rightarrow> node_id set \<Rightarrow> candidate list \<Rightarrow> candidate list \<Rightarrow> bool" where
  "beam_ok g q ef S V cs rs \<longleftrightarrow>
     V \<subseteq> S \<and> candidates_ok g q V cs \<and> candidates_ok g q V rs \<and> length rs \<le> max 1 ef"

lemma visit_neighbors_ok:
  assumes "\<forall>n \<in> S. unat n < length (hi_nodes g)"
  shows "set ns \<subseteq> S \<Longrightarrow> beam_ok g q ef S V cs rs \<Longrightarrow>
    \<exists>V' cs' rs'. visit_neighbors g q ef ns V cs rs = Inr (V', cs', rs') \<and> beam_ok g q ef S V' cs' rs'"
  using assms
proof (induction g q ef ns V cs rs rule: visit_neighbors.induct)
  case (2 g q ef n ns V cs rs)
  let ?c = "\<lparr>cd_id = n, cd_dist = dist_to g q n\<rparr>"
  show ?case
  proof (cases "n \<in> V")
    case True
    with 2 show ?thesis by simp
  next
    case False
    have d: "distance g q n = Inr (dist_to g q n)" using 2(4,6) by (simp add: distance_ok)
    have "beam_ok g q ef S (insert n V) (cs @ [?c]) (push_bounded ef ?c rs)"
      "beam_ok g q ef S (insert n V) cs rs"
      using 2(4,5) False push_bounded_ok [of g q V rs n ef] push_bounded_length [of rs ef ?c]
        candidates_ok_snoc [of g q V cs n] candidates_ok_mono [of g q V _ "insert n V"]
      by (auto simp: beam_ok_def)
    with 2(2,3) [OF False d] 2(4,6) False d show ?thesis by simp
  qed
qed simp

lemma search_loop_ok:
  "closed_at g (unat l) S \<Longrightarrow> beam_ok g q ef S V cs rs \<Longrightarrow>
   \<exists>rs'. search_loop g q l ef V cs rs = Inr rs' \<and> candidates_ok g q S rs' \<and> length rs' \<le> max 1 ef"
proof (induction g q l ef V cs rs rule: search_loop.induct)
  case (1 g q l ef V cs rs)
  have rs: "candidates_ok g q S rs \<and> length rs \<le> max 1 ef"
    using 1(3) candidates_ok_mono by (auto simp: beam_ok_def)
  show ?case
  proof (cases "heap_pop closer cs")
    case None
    then show ?thesis using rs by (subst search_loop.simps) simp
  next
    case (Some p)
    then obtain c cs1 where p: "heap_pop closer cs = Some (c, cs1)" by (cases p) auto
    show ?thesis
    proof (cases "f32_lt (worst_dist rs) (cd_dist c)")
      case True
      then show ?thesis using rs by (subst search_loop.simps) (simp add: p)
    next
      case False
      have "c \<in> set cs" using heap_pop_Some [OF p] by simp
      then have "cd_id c \<in> S" using 1(3) by (auto simp: beam_ok_def candidates_ok_def)
      note at = closed_atD [OF 1(2) this]
      have val: "\<forall>n \<in> S. unat n < length (hi_nodes g)" using 1(2) by (auto simp: closed_at_def has_layer_def)
      have "beam_ok g q ef S V cs1 rs"
        using 1(3) heap_pop_remove1 [OF p] by (simp add: beam_ok_def candidates_ok_remove1)
      from visit_neighbors_ok [OF val at(3) this] obtain V' cs' rs' where
        v: "visit_neighbors g q ef (nbrs g (unat (cd_id c)) (unat l)) V cs1 rs = Inr (V', cs', rs')"
          "beam_ok g q ef S V' cs' rs'" by blast
      from 1(1) [OF p refl False at(2) v(1) refl refl 1(2) v(2)] show ?thesis
        by (subst search_loop.simps) (use False in \<open>simp add: p at(2) v(1)\<close>)
    qed
  qed
qed

lemma search_layer_ok:
  assumes "closed_at g (unat l) S" and "s \<in> S"
  shows "\<exists>cs. search_layer g q s l ef = Inr cs \<and> candidates_ok g q S cs \<and> length cs \<le> max 1 ef"
proof -
  have "beam_ok g q ef S {s} [\<lparr>cd_id = s, cd_dist = dist_to g q s\<rparr>] [\<lparr>cd_id = s, cd_dist = dist_to g q s\<rparr>]"
    using assms(2) by (simp add: beam_ok_def candidates_ok_def)
  from search_loop_ok [OF assms(1) this] show ?thesis
    by (simp add: search_layer_def closed_atD(4) [OF assms] Let_def)
qed


section \<open>Neighbour selection\<close>

lemma set_sort_candidates [simp]: "set (sort_candidates cs) = set cs"
  by (simp add: sort_candidates_def)

lemma distinct_sort_candidates [simp]:
  "distinct (map cd_id (sort_candidates cs)) = distinct (map cd_id cs)"
  by (rule mset_eq_imp_distinct_iff) (simp add: sort_candidates_def)

lemma admits_ok:
  "unat (cd_id c) < length (hi_nodes g) \<Longrightarrow> \<forall>d \<in> set cs. unat (cd_id d) < length (hi_nodes g) \<Longrightarrow>
   \<exists>b. admits g c cs = Inr b"
  by (induction g c cs rule: admits.induct) (auto simp: node_at_ok Let_def)

lemma select_loop_ok:
  "\<forall>d \<in> set cands \<union> set chosen. unat (cd_id d) < length (hi_nodes g) \<Longrightarrow>
   \<exists>ds. select_loop g m cands chosen = Inr ds \<and> set ds \<subseteq> set cands \<union> set chosen \<and>
     length ds \<le> max m (length chosen)"
proof (induction g m cands chosen rule: select_loop.induct)
  case (2 g m cand cands chosen)
  show ?case
  proof (cases "m \<le> length chosen")
    case False
    obtain b where b: "admits g cand chosen = Inr b"
      using admits_ok [of cand g chosen] 2(2) by auto
    have "\<forall>d \<in> set cands \<union> set (if b then chosen @ [cand] else chosen). unat (cd_id d) < length (hi_nodes g)"
      using 2(2) by auto
    from 2(1) [OF False b this] obtain ds where
      "select_loop g m cands (if b then chosen @ [cand] else chosen) = Inr ds"
      "set ds \<subseteq> set cands \<union> set (if b then chosen @ [cand] else chosen)"
      "length ds \<le> max m (length (if b then chosen @ [cand] else chosen))" by blast
    with b False show ?thesis by (auto split: if_splits)
  next
    case True
    then show ?thesis by auto
  qed
qed simp

lemma select_ok:
  assumes "\<forall>d \<in> set cs. unat (cd_id d) < length (hi_nodes g)"
  shows "\<exists>ds. select_neighbors_heuristic g cs m = Inr ds \<and> set ds \<subseteq> set cs \<and> length ds \<le> m"
  using select_loop_ok [of "sort_candidates cs" "[]" g m] assms
  by (auto simp: select_neighbors_heuristic_def)

lemma neighbor_candidates_ok:
  "\<forall>n \<in> set ns. unat n < length (hi_nodes g) \<Longrightarrow>
   \<exists>cs. neighbor_candidates g v ns = Inr cs \<and> map cd_id cs = ns"
  by (induction ns) (auto simp: distance_ok)

section \<open>Edits\<close>

text \<open>\<open>linked X g\<close>: edges are well-formed, and lists are within their caps but for those in \<open>X\<close>.\<close>

definition linked :: "(nat \<times> nat) set \<Rightarrow> 'r hnsw \<Rightarrow> bool" where
  "linked X g \<longleftrightarrow> edges_ok g \<and> degrees_but X g"

text \<open>\<open>rewired_at l g g'\<close>: only edges at layer \<open>l\<close> differ.\<close>

definition rewired_at :: "nat \<Rightarrow> 'r hnsw \<Rightarrow> 'r hnsw \<Rightarrow> bool" where
  "rewired_at l g g' \<longleftrightarrow> rewired g g' \<and>
     (\<forall>i < length (hi_nodes g). \<forall>k < levels g i. k \<noteq> l \<longrightarrow> nbrs g' i k = nbrs g i k)"

lemma rewired_at_refl [simp]: "rewired_at l g g"
  by (simp add: rewired_at_def)

lemma rewired_at_trans: "rewired_at l g g1 \<Longrightarrow> rewired_at l g1 g2 \<Longrightarrow> rewired_at l g g2"
  unfolding rewired_at_def
  by (metis rewired_node(3) rewired_sel(7) rewired_trans)

lemma rewired_atD: "rewired_at l g g' \<Longrightarrow> rewired g g'"
  by (simp add: rewired_at_def)

lemma rewired_cap_nat: "rewired g g' \<Longrightarrow> cap g' l = cap g l"
  by (simp add: cap_def rewired_sel)

lemma unat_node_eq [simp]: "unat (m :: node_id) = unat n \<longleftrightarrow> m = n"
  by (simp add: word_unat_eq_iff)

lemma degrees_close:
  assumes "degrees_but X g" and "X \<subseteq> insert (i, l) Y" and "length (nbrs g i l) \<le> cap g l"
  shows "degrees_but Y g"
  unfolding degrees_but_def
proof (intro allI impI)
  fix j k
  assume "j < length (hi_nodes g)" "k < levels g j" "(j, k) \<notin> Y"
  then show "length (nbrs g j k) \<le> cap g k"
    using assms by (cases "(j, k) = (i, l)") (auto simp: degrees_but_def)
qed

lemma set_neighbors_inv:
  assumes g: "linked X g" and n: "has_layer g (unat l) n"
    and ns: "\<forall>m \<in> set ns. has_layer g (unat l) m \<and> m \<noteq> n"
    and len: "length ns \<le> cap g (unat l) \<or> (unat n, unat l) \<in> Y" and X: "X \<subseteq> insert (unat n, unat l) Y"
  shows "\<exists>g'. set_neighbors g n l ns = Inr g' \<and> rewired_at (unat l) g g' \<and> linked Y g' \<and>
    nbrs g' (unat n) (unat l) = ns"
proof -
  from set_neighbors_ok [OF n, of ns] obtain g' where g': "set_neighbors g n l ns = Inr g'" "rewired g g'"
    and nb: "\<And>i k. i < length (hi_nodes g) \<Longrightarrow> k < levels g i \<Longrightarrow>
       nbrs g' i k = (if i = unat n \<and> k = unat l then ns else nbrs g i k)" by blast
  note same = rewired_sel(7) [OF g'(2)] rewired_node(3) [OF g'(2)] rewired_has_layer [OF g'(2)]
    rewired_cap_nat [OF g'(2)]
  have "edges_ok g'"
    using g ns by (auto simp: linked_def edges_ok_def same nb split: if_splits)
  moreover have "degrees_but Y g'"
    using g len X by (auto simp: linked_def degrees_but_def same nb split: if_splits)
  moreover have "rewired_at (unat l) g g'" using g'(2) nb by (simp add: rewired_at_def)
  moreover have "nbrs g' (unat n) (unat l) = ns" using n nb by (simp add: has_layer_def)
  ultimately show ?thesis using g'(1) by (auto simp: linked_def)
qed

lemma inv_edge:
  assumes "linked X g" and "has_layer g l n" and "m \<in> set (nbrs g (unat n) l)"
  shows "has_layer g l m \<and> m \<noteq> n"
  using assms by (auto simp: linked_def edges_ok_def has_layer_def)

lemma trim_neighbors_inv:
  assumes g: "linked X g" and n: "has_layer g (unat l) n" and mx: "mx \<le> cap g (unat l)"
    and X: "X \<subseteq> insert (unat n, unat l) Y"
  shows "\<exists>g'. trim_neighbors g n l mx = Inr g' \<and> rewired_at (unat l) g g' \<and> linked Y g'"
proof (cases "length (nbrs g (unat n) (unat l)) \<le> mx")
  case True
  then have "linked Y g" using g X mx by (auto simp: linked_def elim: degrees_close)
  with True show ?thesis by (simp add: trim_neighbors_def neighbors_at_ok [OF n])
next
  case False
  let ?ns = "nbrs g (unat n) (unat l)" and ?v = "nd_vector (hi_nodes g ! unat n)"
  have val: "\<forall>m \<in> set ?ns. unat m < length (hi_nodes g)"
    using inv_edge [OF g n] by (simp add: has_layer_def)
  from neighbor_candidates_ok [OF this] obtain cs where
    cs: "neighbor_candidates g ?v ?ns = Inr cs" "map cd_id cs = ?ns" by blast
  have ids: "cd_id ` set cs = set ?ns" using cs(2) by (metis set_map)
  then have "\<forall>d \<in> set cs. unat (cd_id d) < length (hi_nodes g)" using val by blast
  from select_ok [OF this] obtain ds where
    ds: "select_neighbors_heuristic g cs mx = Inr ds" "set ds \<subseteq> set cs" "length ds \<le> mx" by blast
  have "\<forall>m \<in> set (map cd_id ds). has_layer g (unat l) m \<and> m \<noteq> n"
    using inv_edge [OF g n] ds(2) ids by auto
  from set_neighbors_inv [OF g n this _ X] ds(3) mx obtain g' where
    "set_neighbors g n l (map cd_id ds) = Inr g'" "rewired_at (unat l) g g'" "linked Y g'" by auto
  with False cs ds show ?thesis by (simp add: trim_neighbors_def neighbors_at_ok [OF n])
qed

lemma push_neighbor_inv:
  assumes g: "linked X g" and n: "has_layer g (unat l) n" and m: "has_layer g (unat l) m" "m \<noteq> n"
  shows "\<exists>g'. push_neighbor g n l m = Inr g' \<and> rewired_at (unat l) g g' \<and>
    linked (insert (unat n, unat l) X) g' \<and> nbrs g' (unat n) (unat l) = nbrs g (unat n) (unat l) @ [m]"
  using set_neighbors_inv [OF g n, of "nbrs g (unat n) (unat l) @ [m]" "insert (unat n, unat l) X"]
    inv_edge [OF g n] m
  by (auto simp: push_neighbor_def neighbors_at_ok [OF n])

lemma push_and_trim_inv:
  assumes g: "linked X g" and n: "has_layer g (unat l) n" and m: "has_layer g (unat l) m" "m \<noteq> n"
    and c: "mx \<le> cap g (unat l)"
  shows "\<exists>g'. push_and_trim g n l mx m = Inr g' \<and> rewired_at (unat l) g g' \<and> linked X g'"
proof -
  from push_neighbor_inv [OF g n m] obtain g1 where
    g1: "push_neighbor g n l m = Inr g1" "rewired_at (unat l) g g1" "linked (insert (unat n, unat l) X) g1"
    by blast
  note r = rewired_atD [OF g1(2)]
  have n1: "has_layer g1 (unat l) n" using n rewired_has_layer [OF r] by simp
  have c1: "mx \<le> cap g1 (unat l)" using c rewired_cap_nat [OF r] by simp
  show ?thesis
  proof (cases "length (nbrs g1 (unat n) (unat l)) > mx")
    case True
    from trim_neighbors_inv [OF g1(3) n1, of mx X] c1 obtain g2 where
      "trim_neighbors g1 n l mx = Inr g2" "rewired_at (unat l) g1 g2" "linked X g2" by auto
    with g1 True rewired_at_trans show ?thesis
      by (fastforce simp: push_and_trim_def neighbors_at_ok [OF n1])
  next
    case False
    then have "linked X g1" using g1(3) c1 by (auto simp: linked_def elim: degrees_close)
    with g1 False show ?thesis by (simp add: push_and_trim_def neighbors_at_ok [OF n1])
  qed
qed

lemma link_back_inv:
  "linked X g \<Longrightarrow> has_layer g (unat l) nid \<Longrightarrow> mx \<le> cap g (unat l) \<Longrightarrow>
   \<forall>c \<in> set cs. has_layer g (unat l) (cd_id c) \<and> cd_id c \<noteq> nid \<Longrightarrow>
   \<exists>g'. link_back g nid l mx cs = Inr g' \<and> rewired_at (unat l) g g' \<and> linked X g'"
proof (induction g nid l mx cs rule: link_back.induct)
  case (2 g nid l mx c cs)
  from push_and_trim_inv [OF 2(2) _ 2(3) _ 2(4), of "cd_id c"] 2(5) obtain g1 where
    g1: "push_and_trim g (cd_id c) l mx nid = Inr g1" "rewired_at (unat l) g g1" "linked X g1" by auto
  note r = rewired_atD [OF g1(2)]
  from 2(1) [OF g1(1,3)] 2(3-5) rewired_has_layer [OF r] rewired_cap_nat [OF r] obtain g2 where
    "link_back g1 nid l mx cs = Inr g2" "rewired_at (unat l) g1 g2" "linked X g2" by auto
  with g1 rewired_at_trans show ?case by fastforce
qed simp

lemma wire_both_inv:
  "linked (insert (unat n, unat l) X) g \<Longrightarrow> has_layer g (unat l) n \<Longrightarrow> mx \<le> cap g (unat l) \<Longrightarrow>
   \<forall>c \<in> set cs. has_layer g (unat l) (cd_id c) \<and> cd_id c \<noteq> n \<Longrightarrow>
   \<exists>g'. wire_both g n l mx cs = Inr g' \<and> rewired_at (unat l) g g' \<and> linked (insert (unat n, unat l) X) g'"
proof (induction g n l mx cs rule: wire_both.induct)
  case (2 g n l mx c cs)
  have c: "has_layer g (unat l) (cd_id c)" "cd_id c \<noteq> n" and n: "n \<noteq> cd_id c"
    and rest: "\<forall>c \<in> set cs. has_layer g (unat l) (cd_id c) \<and> cd_id c \<noteq> n" using 2(5) by auto
  from push_neighbor_inv [OF 2(2,3) c] obtain g1 where
    g1: "push_neighbor g n l (cd_id c) = Inr g1" "rewired_at (unat l) g g1"
      "linked (insert (unat n, unat l) X) g1" by auto
  note r1 = rewired_has_layer [OF rewired_atD [OF g1(2)]] rewired_cap_nat [OF rewired_atD [OF g1(2)]]
  have "has_layer g1 (unat l) (cd_id c)" "has_layer g1 (unat l) n" "mx \<le> cap g1 (unat l)"
    using c(1) 2(3,4) by (simp_all add: r1)
  from push_and_trim_inv [OF g1(3) this(1,2) n this(3)] obtain g2 where
    g2: "push_and_trim g1 (cd_id c) l mx n = Inr g2" "rewired_at (unat l) g1 g2"
      "linked (insert (unat n, unat l) X) g2" by blast
  note r2 = rewired_has_layer [OF rewired_atD [OF g2(2)]] rewired_cap_nat [OF rewired_atD [OF g2(2)]]
  have "has_layer g2 (unat l) n" "mx \<le> cap g2 (unat l)"
    "\<forall>c \<in> set cs. has_layer g2 (unat l) (cd_id c) \<and> cd_id c \<noteq> n"
    using 2(3,4) rest by (simp_all add: r1 r2)
  from 2(1) [OF g1(1) g2(1,3) this] obtain g3 where
    g3: "wire_both g2 n l mx cs = Inr g3" "rewired_at (unat l) g2 g3" "linked (insert (unat n, unat l) X) g3"
    by blast
  have "rewired_at (unat l) g g3"
    using rewired_at_trans [OF g1(2) rewired_at_trans [OF g2(2) g3(2)]] .
  with g1(1) g2(1) g3 show ?case by simp
qed simp

end
