(* ===== verification/Hnsw_Graph.thy ===== *)
theory Hnsw_Graph
  imports Hnsw_Inv
begin

text \<open>
  Insertion, deletion and search on well-formed graphs: what each does to the arena, that the
  invariant survives, and that none of them panics.
\<close>

section \<open>The invariant\<close>

definition live_node :: "'r hnsw \<Rightarrow> nat \<Rightarrow> bool" where
  "live_node g i \<longleftrightarrow> i < length (hi_nodes g) \<and> \<not> nd_deleted (hi_nodes g ! i)"

text \<open>The entry point is a live node of the highest live level.\<close>

definition entry_ok :: "'r hnsw \<Rightarrow> bool" where
  "entry_ok g \<longleftrightarrow>
     (case hi_entry g of
        None \<Rightarrow> \<forall>i. \<not> live_node g i
      | Some e \<Rightarrow>
          live_node g (unat (ep_node e)) \<and> levels g (unat (ep_node e)) = unat (ep_level e) + 1 \<and>
          (\<forall>i. live_node g i \<longrightarrow> levels g i \<le> unat (ep_level e) + 1))"

text \<open>Every node has its levels and a vector of the dimension of the graph.\<close>

definition nodes_ok :: "'r hnsw \<Rightarrow> bool" where
  "nodes_ok g \<longleftrightarrow>
     (\<forall>i < length (hi_nodes g). 1 \<le> levels g i \<and> levels g i \<le> 31 \<and>
        length (nd_vector (hi_nodes g ! i)) = hi_dim g \<and> hi_dim g \<noteq> 0)"

definition graph_ok :: "'r hnsw \<Rightarrow> bool" where
  "graph_ok g \<longleftrightarrow> linked {} g \<and> entry_ok g \<and> nodes_ok g \<and> length (hi_nodes g) \<le> 2 ^ 32"

text \<open>The vectors and the deletion marks, which is what a graph means to its client.\<close>

definition arena :: "'r hnsw \<Rightarrow> (f32 list \<times> bool) list" where
  "arena g = map (\<lambda>nd. (nd_vector nd, nd_deleted nd)) (hi_nodes g)"

lemma rewired_arena: "rewired g g' \<Longrightarrow> arena g' = arena g"
proof -
  assume "rewired g g'"
  then have "map (\<lambda>(v, d, n). (v, d)) (shape g') = map (\<lambda>(v, d, n). (v, d)) (shape g)"
    by (simp add: rewired_def)
  then show ?thesis by (simp add: shape_def arena_def comp_def)
qed

lemma rewired_live: "rewired g g' \<Longrightarrow> live_node g' i = live_node g i"
  using rewired_sel(7) [of g g'] rewired_node(2) [of g g'] by (auto simp: live_node_def)

lemma rewired_entry_ok: "rewired g g' \<Longrightarrow> entry_ok g' = entry_ok g"
  using rewired_node(3) [of g g'] rewired_live [of g g'] rewired_sel(4) [of g g']
  by (auto simp: entry_ok_def live_node_def split: option.split)

lemma rewired_nodes_ok: "rewired g g' \<Longrightarrow> nodes_ok g' = nodes_ok g"
  using rewired_node [of g g'] rewired_sel(3,7) [of g g'] by (auto simp: nodes_ok_def)

lemma rewired_graph_ok: "rewired g g' \<Longrightarrow> graph_ok g \<Longrightarrow> linked {} g' \<Longrightarrow> graph_ok g'"
  using rewired_entry_ok [of g g'] rewired_nodes_ok [of g g'] rewired_sel(1,7) [of g g']
  by (simp add: graph_ok_def)

lemma inv_cong:
  assumes "hi_nodes g' = hi_nodes g" and "hi_params g' = hi_params g"
  shows "linked X g' = linked X g"
  using assms by (simp add: linked_def edges_ok_def degrees_but_def nbrs_def levels_def has_layer_def cap_def)

section \<open>Descending the layers\<close>

lemma layers_down_Suc:
  "lo \<le> Suc hi \<Longrightarrow> layers_down lo (Suc hi) = word_of_nat (Suc hi) # layers_down lo hi"
  by (simp add: layers_down_def)

lemma layers_down_Nil: "hi < lo \<Longrightarrow> layers_down lo hi = []"
  by (simp add: layers_down_def)

lemma layers_down_0: "layers_down 0 0 = [0]"
  by (simp add: layers_down_def)

lemma unat_u8_le: "unat (x :: u8) \<le> 255"
proof -
  have "unat x < 2 ^ 8" using unsigned_less [of x] by simp
  then show ?thesis by simp
qed

lemma unat_layer: "k \<le> 255 \<Longrightarrow> unat (word_of_nat k :: u8) = k"
  by (simp add: unat_of_nat take_bit_nat_eq_self_iff)

text \<open>
  Nodes other than \<open>x\<close> at layer \<open>l\<close>. The sets shrink going up, and a node of one is a start for
  every layer below.
\<close>

definition others :: "'r hnsw \<Rightarrow> node_id option \<Rightarrow> nat \<Rightarrow> node_id set" where
  "others g x l = {n. has_layer g l n \<and> Some n \<noteq> x}"

lemma others_down: "n \<in> others g x l \<Longrightarrow> k \<le> l \<Longrightarrow> n \<in> others g x k"
  by (simp add: others_def has_layer_def)

lemma descend_ok:
  "\<forall>l. closed_at g l (others g x l) \<Longrightarrow> n \<in> others g x hi \<Longrightarrow> hi \<le> 255 \<Longrightarrow>
   \<exists>n'. descend g q (layers_down lo hi) n = Inr n' \<and> n' \<in> others g x (min lo hi)"
proof (induction hi arbitrary: n)
  case 0
  show ?case
  proof (cases "lo = 0")
    case True
    from greedy_search_layer_ok [of g 0 "others g x 0" n q] 0 obtain n' where
      "greedy_search_layer g q n 0 = Inr n'" "n' \<in> others g x 0" by auto
    with True show ?thesis by (simp add: layers_down_0)
  next
    case False
    with 0 show ?thesis by (simp add: layers_down_Nil)
  qed
next
  case (Suc hi)
  show ?case
  proof (cases "lo \<le> Suc hi")
    case True
    let ?l = "word_of_nat (Suc hi) :: u8"
    have l: "unat ?l = Suc hi" using Suc(4) by (rule unat_layer)
    from greedy_search_layer_ok [of g ?l "others g x (Suc hi)" n q] Suc(2,3) obtain n1 where
      n1: "greedy_search_layer g q n ?l = Inr n1" "n1 \<in> others g x (Suc hi)" unfolding l by auto
    have "n1 \<in> others g x hi" using others_down [OF n1(2)] by simp
    from Suc(1) [OF Suc(2) this] Suc(4) obtain n' where
      n': "descend g q (layers_down lo hi) n1 = Inr n'" "n' \<in> others g x (min lo hi)" by auto
    show ?thesis
    proof (cases "lo = Suc hi")
      case True
      then show ?thesis using n1 by (simp add: layers_down_Suc layers_down_Nil)
    next
      case False
      with \<open>lo \<le> Suc hi\<close> n1(1) n' show ?thesis
        by (simp add: layers_down_Suc min_def del: of_nat_Suc)
    qed
  next
    case False
    then show ?thesis using Suc(3) by (simp add: layers_down_Nil)
  qed
qed

section \<open>Linking a new node\<close>

lemma closest_in: "closest cs = Some c \<Longrightarrow> c \<in> set cs"
  unfolding closest_def by (rule heap_peek_in)

lemma link_layer_ok:
  assumes g: "linked {} g" and nid: "has_layer g (unat l) nid"
    and S: "closed_at g (unat l) (others g (Some nid) (unat l))" and ep: "ep \<in> others g (Some nid) (unat l)"
  shows "\<exists>g' ep'. link_layer g nid p ep l = Inr (g', ep') \<and> rewired_at (unat l) g g' \<and> linked {} g' \<and>
    ep' \<in> others g (Some nid) (unat l)"
proof -
  from search_layer_ok [OF S ep] obtain cs where
    cs: "search_layer g p ep l (hp_ef_construction (hi_params g)) = Inr cs"
      "candidates_ok g p (others g (Some nid) (unat l)) cs" by blast
  have ids: "cd_id c \<in> others g (Some nid) (unat l)" if "c \<in> set cs" for c
    using cs(2) that by (auto simp: candidates_ok_def)
  then have "\<forall>d \<in> set cs. unat (cd_id d) < length (hi_nodes g)" by (auto simp: others_def has_layer_def)
  from select_ok [OF this] obtain ds where
    ds: "select_neighbors_heuristic g cs (hp_m (hi_params g)) = Inr ds" "set ds \<subseteq> set cs"
      "length ds \<le> hp_m (hi_params g)" by blast
  have ns: "\<forall>n \<in> set (map cd_id ds). has_layer g (unat l) n \<and> n \<noteq> nid"
    using ds(2) ids by (auto simp: others_def)
  have len: "length (map cd_id ds) \<le> cap g (unat l)" using ds(3) by (auto simp: cap_def)
  from set_neighbors_inv [OF g nid ns, of "{}"] len obtain g1 where
    g1: "set_neighbors g nid l (map cd_id ds) = Inr g1" "rewired_at (unat l) g g1" "linked {} g1" by blast
  note r1 = rewired_atD [OF g1(2)]
  have "has_layer g1 (unat l) nid" "layer_cap g l \<le> cap g1 (unat l)"
    "\<forall>c \<in> set ds. has_layer g1 (unat l) (cd_id c) \<and> cd_id c \<noteq> nid"
    using nid ns by (simp_all add: rewired_has_layer [OF r1] rewired_cap_nat [OF r1] layer_cap_cap)
  from link_back_inv [OF g1(3) this] obtain g2 where
    g2: "link_back g1 nid l (layer_cap g l) ds = Inr g2" "rewired_at (unat l) g1 g2" "linked {} g2" by blast
  have "(case closest cs of None \<Rightarrow> ep | Some c \<Rightarrow> cd_id c) \<in> others g (Some nid) (unat l)"
    using ep ids closest_in by (auto split: option.split)
  with cs(1) ds(1) g1 g2 rewired_at_trans show ?thesis
    by (auto simp: link_layer_def Let_def)
qed

text \<open>Changing the edges of one layer leaves the closed sets of the others.\<close>

lemma rewired_others: "rewired g g' \<Longrightarrow> others g' x l = others g x l"
  by (simp add: others_def rewired_has_layer)

lemma closed_others_rewired_at:
  assumes "rewired_at l g g'" and "k \<noteq> l" and "closed_at g k (others g x k)"
  shows "closed_at g' k (others g' x k)"
proof -
  have "nbrs g' (unat n) k = nbrs g (unat n) k" if "n \<in> others g x k" for n
    using that assms(1,2) by (auto simp: rewired_at_def others_def has_layer_def)
  moreover note r = rewired_others [OF rewired_atD [OF assms(1)]]
    rewired_has_layer [OF rewired_atD [OF assms(1)]]
  ultimately show ?thesis using assms(3) by (auto simp: closed_at_def r)
qed

lemma link_layers_ok:
  "linked {} g \<Longrightarrow> has_layer g t nid \<Longrightarrow> \<forall>l \<le> t. closed_at g l (others g (Some nid) l) \<Longrightarrow>
   ep \<in> others g (Some nid) t \<Longrightarrow> t \<le> 255 \<Longrightarrow>
   \<exists>g'. link_layers g nid p ep (layers_down 0 t) = Inr g' \<and> rewired g g' \<and> linked {} g'"
proof (induction t arbitrary: g ep)
  case 0
  from link_layer_ok [of g 0 nid ep p] 0 obtain g' ep' where
    "link_layer g nid p ep 0 = Inr (g', ep')" "rewired_at 0 g g'" "linked {} g'" by auto
  then show ?case by (auto simp: layers_down_0 dest: rewired_atD)
next
  case (Suc t)
  let ?l = "word_of_nat (Suc t) :: u8"
  have l: "unat ?l = Suc t" using Suc(6) by (rule unat_layer)
  from link_layer_ok [of g ?l nid ep p] Suc(2-5) obtain g1 ep1 where
    g1: "link_layer g nid p ep ?l = Inr (g1, ep1)" "rewired_at (Suc t) g g1" "linked {} g1"
      "ep1 \<in> others g (Some nid) (Suc t)" unfolding l by auto
  note r = rewired_atD [OF g1(2)]
  have "has_layer g1 t nid" using Suc(3) rewired_has_layer [OF r] by (simp add: has_layer_def)
  moreover have "\<forall>l \<le> t. closed_at g1 l (others g1 (Some nid) l)"
    using Suc(4) closed_others_rewired_at [OF g1(2)] by simp
  moreover have "ep1 \<in> others g1 (Some nid) t"
    using others_down [OF g1(4)] rewired_others [OF r] by simp
  moreover have "t \<le> 255"
    using Suc(6) by simp
  ultimately obtain g2 where
    "link_layers g1 nid p ep1 (layers_down 0 t) = Inr g2" "rewired g1 g2" "linked {} g2"
    using Suc(1) [OF g1(3)] by blast
  with g1(1) rewired_trans [OF r] show ?case by (auto simp: layers_down_Suc simp del: of_nat_Suc)
qed

section \<open>Insertion\<close>

text \<open>The graph with a node without edges at its end.\<close>

definition add_node :: "'r hnsw \<Rightarrow> f32 list \<Rightarrow> nat \<Rightarrow> 'r hnsw" where
  "add_node g v lv =
     g\<lparr>hi_nodes := hi_nodes g @ [\<lparr>nd_vector = v, nd_neighbors = replicate lv [], nd_deleted = False\<rparr>]\<rparr>"

lemma add_node_sel [simp]:
  "hi_params (add_node g v lv) = hi_params g" "hi_dim (add_node g v lv) = hi_dim g"
  "hi_entry (add_node g v lv) = hi_entry g" "hi_metric (add_node g v lv) = hi_metric g" "length (hi_nodes (add_node g v lv)) = Suc (length (hi_nodes g))"
  by (simp_all add: add_node_def)

lemma add_node_nth:
  "i < length (hi_nodes g) \<Longrightarrow> levels (add_node g v lv) i = levels g i"
  "levels (add_node g v lv) (length (hi_nodes g)) = lv"
  "i < length (hi_nodes g) \<Longrightarrow> nbrs (add_node g v lv) i l = nbrs g i l"
  "l < lv \<Longrightarrow> nbrs (add_node g v lv) (length (hi_nodes g)) l = []"
  "i < length (hi_nodes g) \<Longrightarrow> hi_nodes (add_node g v lv) ! i = hi_nodes g ! i"
  "hi_nodes (add_node g v lv) ! length (hi_nodes g) =
     \<lparr>nd_vector = v, nd_neighbors = replicate lv [], nd_deleted = False\<rparr>"
  by (simp_all add: add_node_def levels_def nbrs_def nth_append)

lemma add_node_cap: "cap (add_node g v lv) l = cap g l"
  by (simp add: cap_def)

lemma add_node_has_layer:
  assumes nid: "unat (nid :: node_id) = length (hi_nodes g)"
  shows "has_layer (add_node g v lv) l n \<longleftrightarrow> has_layer g l n \<or> (n = nid \<and> l < lv)"
proof (cases "n = nid")
  case True
  then show ?thesis using nid by (simp add: has_layer_def add_node_nth(2))
next
  case False
  then have "unat n \<noteq> length (hi_nodes g)" using nid unat_node_eq [of n nid] by simp
  then show ?thesis using False by (auto simp: has_layer_def add_node_nth(1) less_Suc_eq)
qed

lemma add_node_others:
  assumes nid: "unat (nid :: node_id) = length (hi_nodes g)"
  shows "others (add_node g v lv) (Some nid) l = {n. has_layer g l n}"
proof -
  have "\<not> has_layer g l nid" using nid by (simp add: has_layer_def)
  then show ?thesis using add_node_has_layer [OF nid] by (auto simp: others_def)
qed

lemma add_node_edge:
  assumes "linked {} g" and "i < length (hi_nodes (add_node g v lv))" and "l < levels (add_node g v lv) i"
  shows "(i < length (hi_nodes g) \<and> l < levels g i \<and> nbrs (add_node g v lv) i l = nbrs g i l) \<or>
    nbrs (add_node g v lv) i l = []"
proof (cases "i < length (hi_nodes g)")
  case True
  then show ?thesis using assms(3) by (simp add: add_node_nth(1) add_node_nth(3))
next
  case False
  then have "i = length (hi_nodes g)" using assms(2) by simp
  then show ?thesis using assms(3) by (simp add: add_node_nth(2,4))
qed

lemma add_node_inv:
  assumes g: "linked {} g" and nid: "unat (nid :: node_id) = length (hi_nodes g)"
  shows "linked {} (add_node g v lv)"
proof -
  have "edges_ok (add_node g v lv)"
    unfolding edges_ok_def
  proof (intro allI impI ballI)
    fix i l n
    assume a: "i < length (hi_nodes (add_node g v lv))" "l < levels (add_node g v lv) i"
      "n \<in> set (nbrs (add_node g v lv) i l)"
    then have "i < length (hi_nodes g)" "l < levels g i" "n \<in> set (nbrs g i l)"
      using add_node_edge [OF g a(1,2)] by auto
    with g show "has_layer (add_node g v lv) l n \<and> unat n \<noteq> i"
      by (simp add: linked_def edges_ok_def add_node_has_layer [OF nid])
  qed
  moreover have "degrees_but {} (add_node g v lv)"
    unfolding degrees_but_def
  proof (intro allI impI)
    fix i l
    assume a: "i < length (hi_nodes (add_node g v lv))" "l < levels (add_node g v lv) i"
    from add_node_edge [OF g a] g show "length (nbrs (add_node g v lv) i l) \<le> cap (add_node g v lv) l"
      by (auto simp: linked_def degrees_but_def add_node_cap)
  qed
  ultimately show ?thesis by (simp add: linked_def)
qed

lemma add_node_closed:
  assumes g: "linked {} g" and nid: "unat (nid :: node_id) = length (hi_nodes g)"
  shows "closed_at (add_node g v lv) l (others (add_node g v lv) (Some nid) l)"
proof -
  have "closed_at g l {n. has_layer g l n}" using g by (intro closed_all) (simp add: linked_def)
  moreover have "nbrs (add_node g v lv) (unat n) l = nbrs g (unat n) l" if "has_layer g l n" for n
    using that by (simp add: has_layer_def add_node_nth(3))
  ultimately show ?thesis
    unfolding add_node_others [OF nid] closed_at_def by (auto simp: add_node_has_layer [OF nid])
qed

text \<open>What the entry point has to be once the new node is in.\<close>

lemma add_node_entry_ok:
  assumes e: "entry_ok g" and nid: "unat (nid :: node_id) = length (hi_nodes g)" and lv: "lv = unat level + 1"
  shows "entry_ok (add_node g v lv
    \<lparr>hi_entry := if case hi_entry g of None \<Rightarrow> True | Some e \<Rightarrow> level > ep_level e
                 then Some \<lparr>ep_node = nid, ep_level = level\<rparr> else hi_entry g\<rparr>)" (is "entry_ok ?g")
proof -
  let ?N = "length (hi_nodes g)"
  define G where "G = ?g"
  have n: "hi_nodes G = hi_nodes (add_node g v lv)" by (simp add: G_def)
  have live: "live_node G i \<longleftrightarrow> live_node g i \<or> i = ?N" for i
    by (cases "i < ?N") (auto simp: live_node_def n add_node_nth(5,6) less_Suc_eq)
  have new: "levels G ?N = unat level + 1"
    using add_node_nth(2) [of g v lv] lv by (simp add: levels_def n)
  have lvls: "levels G i = levels g i" if "live_node g i" for i
    using that add_node_nth(1) [of i g v lv] by (simp add: levels_def n live_node_def)
  have "entry_ok G"
  proof (cases "hi_entry g")
    case None
    then have none: "\<not> live_node g i" for i using e by (simp add: entry_ok_def)
    have "hi_entry G = Some \<lparr>ep_node = nid, ep_level = level\<rparr>" using None by (simp add: G_def)
    then show ?thesis unfolding entry_ok_def live by (simp add: nid new none)
  next
    case (Some ep)
    with e have ep: "live_node g (unat (ep_node ep))" "levels g (unat (ep_node ep)) = unat (ep_level ep) + 1"
      "\<And>i. live_node g i \<Longrightarrow> levels g i \<le> unat (ep_level ep) + 1" by (auto simp: entry_ok_def)
    show ?thesis
    proof (cases "level > ep_level ep")
      case True
      then have "unat (ep_level ep) < unat level" by (simp add: word_less_nat_alt)
      then have "levels G i \<le> unat level + 1" if "live_node g i \<or> i = ?N" for i
        using that ep(3) [of i] lvls [of i] new by (cases "i = ?N") auto
      moreover have "hi_entry G = Some \<lparr>ep_node = nid, ep_level = level\<rparr>" using Some True by (simp add: G_def)
      ultimately show ?thesis unfolding entry_ok_def live by (simp add: nid new)
    next
      case False
      then have "unat level \<le> unat (ep_level ep)" by (simp add: word_less_nat_alt not_less)
      then have "levels G i \<le> unat (ep_level ep) + 1" if "live_node g i \<or> i = ?N" for i
        using that ep(3) [of i] lvls [of i] new by (cases "i = ?N") auto
      moreover have "hi_entry G = Some ep" using Some False by (simp add: G_def)
      ultimately show ?thesis unfolding entry_ok_def live using ep(1,2) lvls [OF ep(1)] by simp
    qed
  qed
  then show ?thesis by (simp only: G_def)
qed

text \<open>Neither the generator nor the entry point matters to the rest of the invariant.\<close>

lemma graph_ok_rng [simp]: "graph_ok (g\<lparr>hi_rng := r\<rparr>) = graph_ok g"
  using inv_cong [of "g\<lparr>hi_rng := r\<rparr>" g]
  by (simp add: graph_ok_def entry_ok_def nodes_ok_def live_node_def levels_def cong: option.case_cong)

lemma inv_entry [simp]: "linked X (g\<lparr>hi_entry := E\<rparr>) = linked X g"
  by (rule inv_cong) simp_all

lemma nodes_ok_entry [simp]: "nodes_ok (g\<lparr>hi_entry := E\<rparr>) = nodes_ok g"
  by (simp add: nodes_ok_def levels_def)

lemma rewired_set_entry: "rewired g g' \<Longrightarrow> rewired (g\<lparr>hi_entry := E\<rparr>) (g'\<lparr>hi_entry := E\<rparr>)"
  by (simp add: rewired_def shape_def)

lemma arena_entry [simp]: "arena (g\<lparr>hi_entry := E\<rparr>) = arena g"
  by (simp add: arena_def)

lemma arena_add_node: "arena (add_node g v lv) = arena g @ [(v, False)]"
  by (simp add: arena_def add_node_def)

lemma add_node_nodes_ok:
  assumes "nodes_ok g" and "length v = hi_dim g" and "hi_dim g \<noteq> 0" and "1 \<le> lv" and "lv \<le> 31"
  shows "nodes_ok (add_node g v lv)"
  unfolding nodes_ok_def
proof (intro allI impI)
  fix i
  assume "i < length (hi_nodes (add_node g v lv))"
  then have "i < length (hi_nodes g) \<or> i = length (hi_nodes g)" by auto
  then show "1 \<le> levels (add_node g v lv) i \<and> levels (add_node g v lv) i \<le> 31 \<and>
      length (nd_vector (hi_nodes (add_node g v lv) ! i)) = hi_dim (add_node g v lv) \<and>
      hi_dim (add_node g v lv) \<noteq> 0"
    using assms by (auto simp: nodes_ok_def add_node_nth(1,2,5,6))
qed

text \<open>Once the new node is in and its edges are made, setting the entry point completes the insertion.\<close>

lemma insert_complete:
  assumes g: "graph_ok g" and n: "length (hi_nodes g) < 2 ^ 32" and nid: "unat (nid :: node_id) = length (hi_nodes g)"
    and v: "length v = hi_dim g" "hi_dim g \<noteq> 0" and lv: "unat level \<le> 30"
    and g2: "rewired (add_node g v (unat level + 1)) g2" "linked {} g2"
    and E: "E = (if case hi_entry g of None \<Rightarrow> True | Some e \<Rightarrow> level > ep_level e
                 then Some \<lparr>ep_node = nid, ep_level = level\<rparr> else hi_entry g)"
  shows "graph_ok (g2\<lparr>hi_entry := E\<rparr>) \<and> arena (g2\<lparr>hi_entry := E\<rparr>) = arena g @ [(v, False)] \<and>
    hi_params g2 = hi_params g \<and> hi_dim g2 = hi_dim g \<and> hi_metric g2 = hi_metric g"
proof -
  let ?g1 = "add_node g v (unat level + 1)"
  have "entry_ok (?g1\<lparr>hi_entry := E\<rparr>)"
    unfolding E using g by (intro add_node_entry_ok nid refl) (simp add: graph_ok_def)
  then have "entry_ok (g2\<lparr>hi_entry := E\<rparr>)" using rewired_entry_ok [OF rewired_set_entry [OF g2(1)]] by simp
  moreover have "nodes_ok g2"
    unfolding rewired_nodes_ok [OF g2(1)]
    using g lv v by (intro add_node_nodes_ok) (simp_all add: graph_ok_def)
  ultimately show ?thesis
    using g n g2 rewired_sel [OF g2(1)] rewired_arena [OF g2(1)]
    by (simp add: graph_ok_def arena_add_node)
qed

lemma clamp_level: "unat (word_of_int (max 0 (min 30 k)) :: u8) \<le> 30"
proof -
  have "uint (word_of_int (max 0 (min 30 k)) :: u8) = max 0 (min 30 k)"
    by (simp add: uint_word_of_int_eq take_bit_int_eq_self_iff)
  then show ?thesis by (simp add: unat_eq_nat_uint)
qed

lemma assign_level_ok:
  obtains level r where "assign_level lib g = (level, g\<lparr>hi_rng := r\<rparr>)" "unat level \<le> 30"
  using clamp_level by (simp add: assign_level_def split_beta)

lemma new_node_id: "n < 2 ^ 32 \<Longrightarrow> unat (word_of_nat n :: node_id) = n"
  by (simp add: unat_of_nat take_bit_nat_eq_self_iff)

lemma insert_processed_ok:
  assumes g: "graph_ok g" and n: "length (hi_nodes g) < 2 ^ 32" and v: "length v = hi_dim g" "hi_dim g \<noteq> 0"
  shows "\<exists>g'. insert_processed lib v g = (Inr (word_of_nat (length (hi_nodes g))), g') \<and>
    graph_ok g' \<and> arena g' = arena g @ [(v, False)] \<and> hi_params g' = hi_params g \<and> hi_dim g' = hi_dim g \<and>
    hi_metric g' = hi_metric g"
proof -
  obtain level r where lv: "assign_level lib g = (level, g\<lparr>hi_rng := r\<rparr>)" "unat level \<le> 30"
    by (rule assign_level_ok)
  define g0 where "g0 = g\<lparr>hi_rng := r\<rparr>"
  let ?nid = "word_of_nat (length (hi_nodes g)) :: node_id"
  define g1 where "g1 = add_node g0 v (unat level + 1)"
  have g0: "graph_ok g0" "length (hi_nodes g0) < 2 ^ 32" "length v = hi_dim g0" "hi_dim g0 \<noteq> 0"
    "hi_entry g0 = hi_entry g" "arena g0 = arena g" "hi_params g0 = hi_params g" "hi_dim g0 = hi_dim g"
    "hi_metric g0 = hi_metric g"
    using g n v by (simp_all add: g0_def arena_def)
  have nid: "unat ?nid = length (hi_nodes g0)" using n by (simp add: g0_def new_node_id)
  have inv0: "linked {} g0" using g0(1) by (simp add: graph_ok_def)
  have inv1: "linked {} g1" unfolding g1_def using inv0 nid by (rule add_node_inv)
  note fin = insert_complete [OF g0(1,2) nid g0(3,4) lv(2), folded g1_def]
  have unfold: "insert_processed lib v g =
    (case hi_entry g of
       None \<Rightarrow> (Inr ?nid, g1\<lparr>hi_entry := Some \<lparr>ep_node = ?nid, ep_level = level\<rparr>\<rparr>)
     | Some entry \<Rightarrow>
         (case descend g1 v (layers_down (unat level + 1) (unat (ep_level entry))) (ep_node entry) of
            Inl e \<Rightarrow> (Inl e, g1)
          | Inr current \<Rightarrow>
              (case link_layers g1 ?nid v current (layers_down 0 (unat (min level (ep_level entry)))) of
                 Inl e \<Rightarrow> (Inl e, g1)
               | Inr g \<Rightarrow>
                   (Inr ?nid,
                    if level > ep_level entry
                    then g\<lparr>hi_entry := Some \<lparr>ep_node = ?nid, ep_level = level\<rparr>\<rparr> else g))))"
    by (simp add: insert_processed_def lv(1) Let_def g1_def g0_def add_node_def
        cong: option.case_cong sum.case_cong if_cong)
  show ?thesis
  proof (cases "hi_entry g")
    case None
    with fin [OF _ inv1] g0(5-9) show ?thesis by (simp add: unfold)
  next
    case (Some ep)
    let ?t = "unat (min level (ep_level ep))"
    have closed: "closed_at g1 l (others g1 (Some ?nid) l)" for l
      unfolding g1_def using inv0 nid by (rule add_node_closed)
    have "live_node g0 (unat (ep_node ep))" "levels g0 (unat (ep_node ep)) = unat (ep_level ep) + 1"
      using g0(1,5) Some by (simp_all add: graph_ok_def entry_ok_def)
    then have "ep_node ep \<in> others g1 (Some ?nid) (unat (ep_level ep))"
      by (simp add: g1_def add_node_others [OF nid] has_layer_def live_node_def)
    moreover have le: "unat (ep_level ep) \<le> 255" "?t \<le> 255"
      by (rule unat_u8_le)+
    ultimately obtain cur where
      cur: "descend g1 v (layers_down (unat level + 1) (unat (ep_level ep))) (ep_node ep) = Inr cur"
        "cur \<in> others g1 (Some ?nid) (min (unat level + 1) (unat (ep_level ep)))"
      using descend_ok [of g1 "Some ?nid" "ep_node ep" "unat (ep_level ep)" v "unat level + 1"] closed by blast
    have t: "?t = min (unat level) (unat (ep_level ep))"
      by (simp add: min_def word_le_nat_alt)
    then have "cur \<in> others g1 (Some ?nid) ?t" using others_down [OF cur(2), of ?t] by simp
    moreover have "has_layer g1 ?t ?nid"
      unfolding g1_def using t by (auto simp: add_node_has_layer [OF nid])
    ultimately obtain g2 where
      g2: "link_layers g1 ?nid v cur (layers_down 0 ?t) = Inr g2" "rewired g1 g2" "linked {} g2"
      using link_layers_ok [OF inv1, of ?t ?nid cur v] closed le(2) by blast
    have "g2\<lparr>hi_entry := hi_entry g2\<rparr> = g2" by simp
    moreover have "hi_entry g2 = hi_entry g" using rewired_sel(4) [OF g2(2)] g0(5) by (simp add: g1_def)
    ultimately have "insert_processed lib v g = (Inr ?nid, g2\<lparr>hi_entry :=
        if case hi_entry g0 of None \<Rightarrow> True | Some e \<Rightarrow> level > ep_level e
        then Some \<lparr>ep_node = ?nid, ep_level = level\<rparr> else hi_entry g0\<rparr>)"
      unfolding unfold Some option.case cur(1) sum.case g2(1) using Some g0(5) by simp
    with fin [OF g2(2,3) refl] g0(6-9) show ?thesis by simp
  qed
qed

lemma preprocess_length: "preprocess_vector mt v = Some p \<Longrightarrow> length p = length v"
  by (auto simp: preprocess_vector_def normalize_def Let_def split: distance_metric.splits if_splits)

text \<open>The vectors a graph accepts.\<close>

definition dim_fits :: "'r hnsw \<Rightarrow> f32 list \<Rightarrow> bool" where
  "dim_fits g v \<longleftrightarrow> v \<noteq> [] \<and> (hi_dim g = 0 \<or> length v = hi_dim g)"

lemma graph_ok_dim:
  "graph_ok g \<Longrightarrow> hi_dim g = 0 \<Longrightarrow> hi_nodes g = []"
  by (cases "hi_nodes g") (auto simp: graph_ok_def nodes_ok_def)

lemma graph_ok_set_dim:
  assumes "graph_ok g" and "hi_dim g = 0"
  shows "graph_ok (g\<lparr>hi_dim := d\<rparr>)"
  using assms graph_ok_dim [OF assms] inv_cong [of "g\<lparr>hi_dim := d\<rparr>" g]
  by (simp add: graph_ok_def entry_ok_def nodes_ok_def live_node_def cong: option.case_cong)

lemma hnsw_insert_ok:
  assumes g: "graph_ok g" and n: "hnsw_len g < 2 ^ 32" and v: "dim_fits g v"
    and p: "preprocess_vector (hi_metric g) v = Some p"
  shows "\<exists>g'. hnsw_insert lib v g = (Inr (word_of_nat (hnsw_len g)), g') \<and> graph_ok g' \<and>
    arena g' = arena g @ [(p, False)] \<and> hi_params g' = hi_params g \<and> hi_dim g' = length v \<and>
    hi_metric g' = hi_metric g"
proof -
  define g0 where "g0 = (if hi_dim g = 0 then g\<lparr>hi_dim := length v\<rparr> else g)"
  have g0: "graph_ok g0" "hi_nodes g0 = hi_nodes g" "hi_params g0 = hi_params g" "hi_metric g0 = hi_metric g"
    "hi_dim g0 = length v"
    using g v graph_ok_set_dim [OF g] by (auto simp: g0_def dim_fits_def)
  have "length p = hi_dim g0" "hi_dim g0 \<noteq> 0" "length (hi_nodes g0) < 2 ^ 32" "arena g0 = arena g"
    using preprocess_length [OF p] v n g0 by (simp_all add: dim_fits_def hnsw_len_def arena_def)
  moreover from insert_processed_ok [OF g0(1) this(3,1,2), of lib] obtain g' where
    "insert_processed lib p g0 = (Inr (word_of_nat (length (hi_nodes g0))), g')" "graph_ok g'"
    "arena g' = arena g0 @ [(p, False)]" "hi_params g' = hi_params g0" "hi_dim g' = hi_dim g0"
    "hi_metric g' = hi_metric g0" by blast
  moreover have "hnsw_insert lib v g = insert_processed lib p g0"
    using v p g0(4) by (auto simp: hnsw_insert_def dim_fits_def g0_def Let_def)
  ultimately show ?thesis using g0 by (simp add: hnsw_len_def)
qed

lemma hnsw_insert_refused:
  assumes g: "graph_ok g" and v: "\<not> dim_fits g v \<or> preprocess_vector (hi_metric g) v = None"
  shows "\<exists>msg g'. hnsw_insert lib v g = (Inl (InvalidArgument msg), g') \<and> graph_ok g' \<and>
    arena g' = arena g \<and> hi_params g' = hi_params g \<and> hi_metric g' = hi_metric g"
  using g v graph_ok_set_dim [OF g]
  by (auto simp: hnsw_insert_def dim_fits_def Let_def arena_def split: option.split)

lemma hnsw_new_ok:
  "graph_ok (hnsw_new lib params)"
  by (simp add: graph_ok_def hnsw_new_def linked_def edges_ok_def degrees_but_def entry_ok_def nodes_ok_def
      live_node_def)

section \<open>A sample\<close>

text \<open>A generator of constant samples, and two points on a line that are each other's neighbour.\<close>

definition sample_rng :: "unit rng_lib" where
  "sample_rng = \<lparr>rl_seed = \<lambda>_. (), rl_uniform = \<lambda>r. (F64_ONE, r), rl_ln = \<lambda>x. F64_ONE\<rparr>"

definition line_params :: hnsw_params where
  "line_params = default_params\<lparr>hp_metric := EuclideanSquared\<rparr>"

definition line_graph :: "unit hnsw" where
  "line_graph = (hnsw_new sample_rng line_params)
     \<lparr>hi_dim := 1, hi_entry := Some \<lparr>ep_node = 0, ep_level = 0\<rparr>,
      hi_nodes :=
        [\<lparr>nd_vector = [F32_ZERO], nd_neighbors = [[1]], nd_deleted = False\<rparr>,
         \<lparr>nd_vector = [F32_ONE], nd_neighbors = [[0]], nd_deleted = False\<rparr>]\<rparr>"

lemma line_graph_sel [simp]:
  "hi_metric line_graph = EuclideanSquared" "hi_dim line_graph = 1" "length (hi_nodes line_graph) = 2"
  "hi_nodes line_graph ! 0 = \<lparr>nd_vector = [F32_ZERO], nd_neighbors = [[1]], nd_deleted = False\<rparr>"
  "hi_nodes line_graph ! Suc 0 = \<lparr>nd_vector = [F32_ONE], nd_neighbors = [[0]], nd_deleted = False\<rparr>"
  "hp_m (hi_params line_graph) = 16" "hp_m_max_0 (hi_params line_graph) = 32"
  "hp_ef_search (hi_params line_graph) = 50" "hp_ef_construction (hi_params line_graph) = 100"
  "hi_entry line_graph = Some \<lparr>ep_node = 0, ep_level = 0\<rparr>"
  by (simp_all add: line_graph_def hnsw_new_def line_params_def default_params_def Let_def)

lemma less_two: "(i :: nat) < 2 \<longleftrightarrow> i = 0 \<or> i = Suc 0"
  by auto

lemma line_graph_ok: "graph_ok line_graph"
proof -
  have lv: "levels line_graph i = 1" if "i < 2" for i using that by (auto simp: levels_def less_two)
  have nb: "nbrs line_graph i 0 = [if i = 0 then 1 else 0]" if "i < 2" for i
    using that by (auto simp: nbrs_def less_two)
  have lay: "has_layer line_graph 0 0" "has_layer line_graph 0 1" by (simp_all add: has_layer_def lv)
  have "edges_ok line_graph" using lay by (auto simp: edges_ok_def lv nb less_two)
  moreover have "degrees_but {} line_graph" by (auto simp: degrees_but_def cap_def lv nb)
  moreover have "entry_ok line_graph" by (auto simp: entry_ok_def live_node_def lv)
  moreover have "nodes_ok line_graph" by (auto simp: nodes_ok_def lv less_two)
  ultimately show ?thesis by (simp add: graph_ok_def linked_def)
qed

lemma line_finite: "f32_is_finite F32_ZERO" "f32_is_finite F32_ONE"
  by (simp_all add: f32_is_finite_def float_eval)

text \<open>C16: Insertion is total and never panics. On a well-formed graph with room for one more node it
  appends the preprocessed vector as a live node, keeps every other vector and deletion mark, and
  the result is well-formed: every edge leads to a node of its layer, no list exceeds its cap, and
  the entry point is a live node of the highest level. A vector of a wrong dimension, or one that
  \<^verbatim>\<open>preprocess_vector\<close> rejects, is an \<open>InvalidArgument\<close> that leaves the arena alone.
  The sort by distance is total in the model, so a panic of the library's sort, which the code hands an
  order that distances that are not numbers make inconsistent, is outside this statement.
\<close>
theorem hnsw_insert_keeps_graph:
  assumes "graph_ok g" and "hnsw_len g < 2 ^ 32"
  shows "case hnsw_insert lib v g of
      (Inr nid, g') \<Rightarrow> graph_ok g' \<and> dim_fits g v \<and> unat nid = hnsw_len g \<and>
        (\<exists>p. preprocess_vector (hi_metric g) v = Some p \<and> arena g' = arena g @ [(p, False)])
    | (Inl e, g') \<Rightarrow> graph_ok g' \<and> arena g' = arena g \<and> (\<exists>msg. e = InvalidArgument msg) \<and>
        (\<not> dim_fits g v \<or> preprocess_vector (hi_metric g) v = None)"
proof (cases "dim_fits g v \<and> preprocess_vector (hi_metric g) v \<noteq> None")
  case True
  then obtain p where "dim_fits g v" "preprocess_vector (hi_metric g) v = Some p" by auto
  with hnsw_insert_ok [OF assms this, of lib] assms(2) show ?thesis
    by (auto simp: new_node_id)
next
  case False
  then have "\<not> dim_fits g v \<or> preprocess_vector (hi_metric g) v = None" by auto
  with hnsw_insert_refused [OF assms(1) this, of lib] show ?thesis by auto
qed

theorem hnsw_insert_keeps_graph_witness:
  "\<exists>g'. hnsw_insert sample_rng [F32_ONE] line_graph = (Inr 2, g') \<and> graph_ok g' \<and>
     arena g' = [([F32_ZERO], False), ([F32_ONE], False), ([F32_ONE], False)]"
proof -
  have "hnsw_len line_graph < 2 ^ 32" by (simp add: hnsw_len_def)
  note ins = hnsw_insert_keeps_graph [OF line_graph_ok this, where lib = sample_rng and v = "[F32_ONE]"]
  have p: "preprocess_vector (hi_metric line_graph) [F32_ONE] = Some [F32_ONE]" "dim_fits line_graph [F32_ONE]"
    by (simp_all add: preprocess_vector_def line_finite dim_fits_def)
  have a: "arena line_graph = [([F32_ZERO], False), ([F32_ONE], False)]"
    by (simp add: arena_def line_graph_def)
  obtain r g' where run: "hnsw_insert sample_rng [F32_ONE] line_graph = (r, g')" by fastforce
  show ?thesis
  proof (cases r)
    case (Inl e)
    with ins p run show ?thesis by simp
  next
    case (Inr nid)
    with ins p run have "unat nid = unat (2 :: node_id)" by (simp add: hnsw_len_def)
    then have "nid = 2" by (simp only: unat_node_eq)
    with ins p a run Inr show ?thesis by simp
  qed
qed

section \<open>Two observations\<close>

text \<open>
  The first insertion fixes the dimension before it looks at the vector: one that preprocessing then
  rejects leaves an empty graph that refuses every vector of another length.
\<close>

theorem rejected_insert_fixes_dimension:
  "\<exists>g'. hnsw_insert lib [F32_ZERO] (hnsw_new lib default_params)
       = (Inl (InvalidArgument ''cannot insert invalid vector''), g') \<and> hnsw_len g' = 0 \<and>
     hnsw_insert lib [F32_ONE, F32_ONE] g' = (Inl (InvalidArgument ''vector dimension mismatch''), g')"
proof -
  have "f32_eq (f32_sqrt (f32_sum (map (\<lambda>x. f32_mul x x) [F32_ZERO]))) F32_ZERO"
    by (simp add: f32_sum_def f32_eq_def float_eval)
  then show ?thesis
    by (simp add: hnsw_insert_def hnsw_new_def default_params_def preprocess_vector_def normalize_def
        hnsw_len_def Let_def)
qed

text \<open>
  Finite vectors can be at a distance that is not a number: under \<open>InnerProduct\<close> a product overflows
  in each direction. The order of the two heaps takes such a candidate for equal to every other.
\<close>

theorem inner_product_can_be_nan:
  "\<exists>a b. preprocess_vector InnerProduct a = Some a \<and> preprocess_vector InnerProduct b = Some b \<and>
     f32_is_nan (distance_for_metric InnerProduct a b)"
proof -
  define x y :: f32 where "x = 0x7F7FFFFF" and "y = 0xFF7FFFFF"
  have "f32_is_finite x" "f32_is_finite y" by (simp_all add: f32_is_finite_def x_def y_def float_eval)
  moreover have "f32_mul x x = F32_INFINITY" "f32_mul x y = F32_NEG_INFINITY"
    by (simp_all add: f32_mul_def x_def y_def float_eval)
  moreover have "f32_add F32_NEG_ZERO F32_INFINITY = F32_INFINITY"
    by (simp add: f32_add_def float_eval)
  moreover have "f32_is_nan (f32_neg (f32_add F32_INFINITY F32_NEG_INFINITY))"
    by (simp add: f32_is_nan_def float_eval)
  ultimately show ?thesis
    by (intro exI [of _ "[x, x]"] exI [of _ "[x, y]"])
      (simp add: preprocess_vector_def distance_for_metric_def distance_negated_inner_product_def f32_sum_def)
qed

end
