(* ===== verification/Hnsw_Delete.thy ===== *)
theory Hnsw_Delete
  imports Hnsw_Graph
begin

text \<open>
  Deletion: the repair of the edges around the deleted node, the choice of a new entry point, and
  the graphs that any sequence of insertions and deletions can build.
\<close>

section \<open>Repair at one layer\<close>

lemma inv_mono: "linked X g \<Longrightarrow> X \<subseteq> Y \<Longrightarrow> linked Y g"
  by (auto simp: linked_def degrees_but_def)

lemma inv_nth: "linked {} g \<Longrightarrow> has_layer g l n \<Longrightarrow> length (nbrs g (unat n) l) \<le> cap g l"
  by (simp add: linked_def degrees_but_def has_layer_def)

lemma trim_if_over:
  assumes g: "linked (insert (unat n, unat l) {}) g" and n: "has_layer g (unat l) n" and c: "mx \<le> cap g (unat l)"
  shows "\<exists>g'. (case neighbors_at g n l of
             Inl e \<Rightarrow> Inl e
           | Inr ns \<Rightarrow> if length ns > mx then trim_neighbors g n l mx else Inr g) = Inr g' \<and>
    rewired_at (unat l) g g' \<and> linked {} g'"
proof (cases "length (nbrs g (unat n) (unat l)) > mx")
  case True
  with trim_neighbors_inv [OF g n, of mx "{}"] c show ?thesis by (simp add: neighbors_at_ok [OF n])
next
  case False
  then have "linked {} g" using g c by (auto simp: linked_def elim: degrees_close)
  with False show ?thesis by (simp add: neighbors_at_ok [OF n])
qed

lemma repair_neighbor_ok:
  assumes g: "linked {} g" and n: "has_layer g (unat l) n" and c: "mx \<le> cap g (unat l)"
  shows "\<exists>g'. repair_neighbor g d l mx n = Inr g' \<and> rewired_at (unat l) g g' \<and> linked {} g'"
proof -
  let ?ns = "nbrs g (unat n) (unat l)"
  let ?linked = "[x \<leftarrow> ?ns. x \<noteq> d]"
  have "\<forall>m \<in> set ?linked. has_layer g (unat l) m \<and> m \<noteq> n" using inv_edge [OF g n] by simp
  moreover have "length ?linked \<le> cap g (unat l)"
    using inv_nth [OF g n] length_filter_le [of "\<lambda>x. x \<noteq> d" ?ns] by linarith
  ultimately obtain g1 where
    g1: "set_neighbors g n l ?linked = Inr g1" "rewired_at (unat l) g g1" "linked {} g1"
    using set_neighbors_inv [OF g n, of ?linked "{}"] by blast
  note r1 = rewired_has_layer [OF rewired_atD [OF g1(2)]] rewired_cap_nat [OF rewired_atD [OF g1(2)]]
  let ?v = "nd_vector (hi_nodes g1 ! unat n)" and ?S = "{m. has_layer g1 (unat l) m}"
  have "closed_at g1 (unat l) ?S" using g1(3) by (intro closed_all) (simp add: linked_def)
  moreover have n1: "has_layer g1 (unat l) n" "mx \<le> cap g1 (unat l)" using n c by (simp_all add: r1)
  ultimately obtain cs where
    cs: "search_layer g1 ?v n l (hp_ef_construction (hi_params g1)) = Inr cs" "candidates_ok g1 ?v ?S cs"
    using search_layer_ok [of g1 l ?S n ?v] by blast
  define raw where "raw = [c \<leftarrow> cs. \<not> nd_deleted (hi_nodes g1 ! unat (cd_id c))]"
  define novel where "novel = [c \<leftarrow> raw. cd_id c \<noteq> n \<and> cd_id c \<notin> set ?linked]"
  have new: "has_layer g1 (unat l) (cd_id c) \<and> cd_id c \<noteq> n" if "c \<in> set novel" for c
    using cs(2) that by (auto simp: candidates_ok_def novel_def raw_def)
  then have "\<forall>c \<in> set novel. unat (cd_id c) < length (hi_nodes g1)" by (simp add: has_layer_def)
  from select_ok [OF this] obtain ds where
    ds: "select_neighbors_heuristic g1 novel (hp_m (hi_params g1)) = Inr ds" "set ds \<subseteq> set novel" by blast
  have "\<forall>c \<in> set ds. has_layer g1 (unat l) (cd_id c) \<and> cd_id c \<noteq> n" using ds(2) new by blast
  moreover have "linked (insert (unat n, unat l) {}) g1" using g1(3) by (rule inv_mono) simp
  ultimately obtain g2 where
    g2: "wire_both g1 n l mx ds = Inr g2" "rewired_at (unat l) g1 g2" "linked (insert (unat n, unat l) {}) g2"
    using wire_both_inv [OF _ n1] by blast
  note r2 = rewired_has_layer [OF rewired_atD [OF g2(2)]] rewired_cap_nat [OF rewired_atD [OF g2(2)]]
  have "has_layer g2 (unat l) n" "mx \<le> cap g2 (unat l)" using n1 by (simp_all add: r2)
  from trim_if_over [OF g2(3) this] obtain g3 where
    g3: "(case neighbors_at g2 n l of
             Inl e \<Rightarrow> Inl e
           | Inr ns \<Rightarrow> if length ns > mx then trim_neighbors g2 n l mx else Inr g2) = Inr g3"
      "rewired_at (unat l) g2 g3" "linked {} g3" by blast
  have "repair_neighbor g d l mx n = Inr g3"
    unfolding repair_neighbor_def search_layer_skipping_deleted_def Let_def neighbors_at_ok [OF n]
      sum.case g1(1) cs(1) raw_def [symmetric] novel_def [symmetric] ds(1) g2(1) by (rule g3(1))
  moreover have "rewired_at (unat l) g g3"
    using rewired_at_trans [OF g1(2) rewired_at_trans [OF g2(2) g3(2)]] .
  ultimately show ?thesis using g3(3) by blast
qed

lemma repair_neighbors_ok:
  "linked {} g \<Longrightarrow> \<forall>n \<in> set ns. has_layer g (unat l) n \<Longrightarrow> mx \<le> cap g (unat l) \<Longrightarrow>
   \<exists>g'. repair_neighbors g d l mx ns = Inr g' \<and> rewired_at (unat l) g g' \<and> linked {} g'"
proof (induction g d l mx ns rule: repair_neighbors.induct)
  case (2 g d l mx n ns)
  from repair_neighbor_ok [OF 2(2), of l n mx d] 2(3,4) obtain g1 where
    g1: "repair_neighbor g d l mx n = Inr g1" "rewired_at (unat l) g g1" "linked {} g1" by auto
  note r1 = rewired_has_layer [OF rewired_atD [OF g1(2)]] rewired_cap_nat [OF rewired_atD [OF g1(2)]]
  have "\<forall>n \<in> set ns. has_layer g1 (unat l) n" "mx \<le> cap g1 (unat l)" using 2(3,4) by (simp_all add: r1)
  from 2(1) [OF g1(1,3) this] obtain g2 where
    g2: "repair_neighbors g1 d l mx ns = Inr g2" "rewired_at (unat l) g1 g2" "linked {} g2" by blast
  show ?case using g1(1) g2 rewired_at_trans [OF g1(2) g2(2)] by simp
qed simp

lemma live_only_ok:
  "\<forall>n \<in> set ns. unat n < length (hi_nodes g) \<Longrightarrow>
   live_only g ns = Inr [n \<leftarrow> ns. \<not> nd_deleted (hi_nodes g ! unat n)]"
  by (induction ns) (auto simp: node_at_ok)

lemma repair_layer_ok:
  assumes g: "linked {} g" and d: "has_layer g (unat l) d"
  shows "\<exists>g'. repair_layer_after_delete g d l = Inr g' \<and> rewired g g' \<and> linked {} g'"
proof -
  let ?ns = "nbrs g (unat d) (unat l)"
  have ns: "\<forall>n \<in> set ?ns. has_layer g (unat l) n" using inv_edge [OF g d] by simp
  then have "live_only g ?ns = Inr [n \<leftarrow> ?ns. \<not> nd_deleted (hi_nodes g ! unat n)]" (is "_ = Inr ?live")
    by (intro live_only_ok) (simp add: has_layer_def)
  moreover have "\<forall>n \<in> set ?live. has_layer g (unat l) n" using ns by simp
  ultimately show ?thesis
    using repair_neighbors_ok [OF g, of ?live l "layer_cap g l" d] rewired_atD
    by (auto simp: repair_layer_after_delete_def neighbors_at_ok [OF d] layer_cap_cap)
qed

lemma repair_layers_ok:
  "linked {} g \<Longrightarrow> \<forall>l \<in> set ls. has_layer g (unat l) d \<Longrightarrow>
   \<exists>g'. repair_layers g d ls = Inr g' \<and> rewired g g' \<and> linked {} g'"
proof (induction g d ls rule: repair_layers.induct)
  case (2 g d l ls)
  from repair_layer_ok [OF 2(2), of l d] 2(3) obtain g1 where
    g1: "repair_layer_after_delete g d l = Inr g1" "rewired g g1" "linked {} g1" by auto
  have "\<forall>l \<in> set ls. has_layer g1 (unat l) d" using 2(3) by (simp add: rewired_has_layer [OF g1(2)])
  from 2(1) [OF g1(1,3) this] g1 rewired_trans [OF g1(2)] show ?case by auto
qed simp

section \<open>The new entry point\<close>

text \<open>\<open>best_live nds b\<close>: the entry point is a live node of the highest live level.\<close>

lemma node_level_unat:
  assumes "1 \<le> length (nd_neighbors nd)" and "length (nd_neighbors nd) \<le> 31"
  shows "unat (node_level nd) = length (nd_neighbors nd) - 1"
proof -
  have "node_level nd = word_of_nat (length (nd_neighbors nd) - 1)"
    using assms(1) by (simp add: node_level_def of_nat_diff)
  then show ?thesis using assms(2) by (simp add: unat_layer)
qed

definition top_of :: "node list \<Rightarrow> nat \<Rightarrow> entry_point option \<Rightarrow> bool" where
  "top_of nds n best \<longleftrightarrow>
     (case best of
        None \<Rightarrow> \<forall>i < n. nd_deleted (nds ! i)
      | Some b \<Rightarrow>
          (\<exists>j < n. ep_node b = word_of_nat j \<and> \<not> nd_deleted (nds ! j) \<and>
             length (nd_neighbors (nds ! j)) = unat (ep_level b) + 1) \<and>
          (\<forall>i < n. \<not> nd_deleted (nds ! i) \<longrightarrow> length (nd_neighbors (nds ! i)) \<le> unat (ep_level b) + 1))"

lemma highest_live_top:
  "\<forall>nd \<in> set nds. 1 \<le> length (nd_neighbors nd) \<and> length (nd_neighbors nd) \<le> 31 \<Longrightarrow>
   top_of nds n best \<Longrightarrow> n \<le> length nds \<Longrightarrow>
   top_of nds (length nds) (highest_live (drop n nds) n best)"
proof (induction "length nds - n" arbitrary: n best)
  case 0
  then have "n = length nds" by simp
  with 0 show ?case by simp
next
  case (Suc k)
  then have n: "n < length nds" by simp
  then have lv: "unat (node_level (nds ! n)) + 1 = length (nd_neighbors (nds ! n))"
    using Suc(3) node_level_unat [of "nds ! n"] nth_mem [OF n] by fastforce
  define b where "b = (if nd_deleted (nds ! n) then best
     else (case best of None \<Rightarrow> Some \<lparr>ep_node = word_of_nat n, ep_level = node_level (nds ! n)\<rparr>
           | Some e \<Rightarrow> if node_level (nds ! n) \<ge> ep_level e
                       then Some \<lparr>ep_node = word_of_nat n, ep_level = node_level (nds ! n)\<rparr> else Some e))"
  have "top_of nds (Suc n) b"
  proof (cases "nd_deleted (nds ! n)")
    case True
    then show ?thesis using Suc(4) by (auto simp: b_def top_of_def less_Suc_eq split: option.splits)
  next
    case False
    show ?thesis
    proof (cases best)
      case None
      then show ?thesis using False Suc(4) lv by (auto simp: b_def top_of_def less_Suc_eq)
    next
      case (Some e)
      show ?thesis
      proof (cases "node_level (nds ! n) \<ge> ep_level e")
        case True
        then have "unat (ep_level e) \<le> unat (node_level (nds ! n))" by (simp add: word_le_nat_alt)
        then show ?thesis using True False Some Suc(4) lv
          by (fastforce simp: b_def top_of_def less_Suc_eq)
      next
        case low: False
        then have "unat (node_level (nds ! n)) \<le> unat (ep_level e)" by (simp add: word_le_nat_alt)
        then show ?thesis using low False Some Suc(4) lv
          by (fastforce simp: b_def top_of_def less_Suc_eq)
      qed
    qed
  qed
  moreover have "highest_live (drop n nds) n best = highest_live (drop (Suc n) nds) (Suc n) b"
    using n by (simp add: Cons_nth_drop_Suc [symmetric] b_def)
  ultimately show ?case using Suc(1) [of "Suc n" b] Suc(2,3) n by simp
qed

lemma pick_new_entry_ok:
  assumes "nodes_ok g" and "length (hi_nodes g) \<le> 2 ^ 32"
  shows "entry_ok (g\<lparr>hi_entry := pick_new_entry g\<rparr>)"
proof -
  let ?n = "length (hi_nodes g)"
  have "\<forall>nd \<in> set (hi_nodes g). 1 \<le> length (nd_neighbors nd) \<and> length (nd_neighbors nd) \<le> 31"
    using assms(1) by (auto simp: nodes_ok_def levels_def in_set_conv_nth)
  from highest_live_top [OF this, of 0 None] have
    top: "top_of (hi_nodes g) ?n (pick_new_entry g)" by (simp add: top_of_def pick_new_entry_def)
  show ?thesis
  proof (cases "pick_new_entry g")
    case None
    with top show ?thesis by (simp add: entry_ok_def top_of_def live_node_def)
  next
    case (Some b)
    with top obtain j where j: "j < ?n" "ep_node b = word_of_nat j" "\<not> nd_deleted (hi_nodes g ! j)"
      "levels g j = unat (ep_level b) + 1"
      and all: "\<forall>i < ?n. \<not> nd_deleted (hi_nodes g ! i) \<longrightarrow> levels g i \<le> unat (ep_level b) + 1"
      by (auto simp: top_of_def levels_def)
    have "unat (ep_node b) = j" using j(1,2) assms(2) by (simp add: new_node_id)
    then have "live_node g (unat (ep_node b)) \<and> levels g (unat (ep_node b)) = unat (ep_level b) + 1 \<and>
      (\<forall>i. live_node g i \<longrightarrow> levels g i \<le> unat (ep_level b) + 1)" using j all by (simp add: live_node_def)
    with Some show ?thesis by (simp add: entry_ok_def live_node_def levels_def)
  qed
qed

section \<open>Deletion\<close>

lemma mark_deleted_nth:
  "unat nid < length (hi_nodes g) \<Longrightarrow> i < length (hi_nodes g) \<Longrightarrow>
   nd_neighbors (hi_nodes (mark_deleted g nid) ! i) = nd_neighbors (hi_nodes g ! i) \<and>
   nd_vector (hi_nodes (mark_deleted g nid) ! i) = nd_vector (hi_nodes g ! i) \<and>
   nd_deleted (hi_nodes (mark_deleted g nid) ! i) = (i = unat nid \<or> nd_deleted (hi_nodes g ! i))"
  by (simp add: mark_deleted_def nth_list_update)

lemma mark_deleted_sel [simp]:
  "length (hi_nodes (mark_deleted g nid)) = length (hi_nodes g)"
  "hi_params (mark_deleted g nid) = hi_params g" "hi_dim (mark_deleted g nid) = hi_dim g"
  "hi_entry (mark_deleted g nid) = hi_entry g" "hi_metric (mark_deleted g nid) = hi_metric g"
  by (simp_all add: mark_deleted_def)

lemma mark_deleted_graph:
  assumes nid: "unat nid < length (hi_nodes g)" and i: "i < length (hi_nodes g)"
  shows "levels (mark_deleted g nid) i = levels g i" "nbrs (mark_deleted g nid) i l = nbrs g i l"
  using mark_deleted_nth [OF assms] by (simp_all add: levels_def nbrs_def)

lemma mark_deleted_has_layer:
  "unat nid < length (hi_nodes g) \<Longrightarrow> has_layer (mark_deleted g nid) l n = has_layer g l n"
  by (auto simp: has_layer_def mark_deleted_graph)

lemma mark_deleted_cap: "cap (mark_deleted g nid) l = cap g l"
  by (simp add: cap_def)

lemma mark_deleted_inv: "unat nid < length (hi_nodes g) \<Longrightarrow> linked X g \<Longrightarrow> linked X (mark_deleted g nid)"
  by (auto simp: linked_def edges_ok_def degrees_but_def mark_deleted_graph mark_deleted_has_layer
      mark_deleted_cap)

lemma mark_deleted_nodes_ok: "unat nid < length (hi_nodes g) \<Longrightarrow> nodes_ok g \<Longrightarrow> nodes_ok (mark_deleted g nid)"
  using mark_deleted_nth [of nid g] by (simp add: nodes_ok_def mark_deleted_graph)

lemma mark_deleted_live:
  "unat nid < length (hi_nodes g) \<Longrightarrow> live_node (mark_deleted g nid) i \<longleftrightarrow> live_node g i \<and> i \<noteq> unat nid"
  using mark_deleted_nth [of nid g i] by (auto simp: live_node_def)

text \<open>The entry point of a deletion of another node stays.\<close>

lemma mark_deleted_entry_ok:
  assumes nid: "unat nid < length (hi_nodes g)" and e: "entry_ok g"
    and other: "map_option ep_node (hi_entry g) \<noteq> Some nid"
  shows "entry_ok (mark_deleted g nid)"
proof (cases "hi_entry g")
  case None
  with e show ?thesis by (simp add: entry_ok_def mark_deleted_live [OF nid])
next
  case (Some b)
  with e other have b: "live_node g (unat (ep_node b))" "ep_node b \<noteq> nid"
    "levels g (unat (ep_node b)) = unat (ep_level b) + 1"
    "\<forall>i. live_node g i \<longrightarrow> levels g i \<le> unat (ep_level b) + 1" by (auto simp: entry_ok_def)
  have "levels (mark_deleted g nid) i = levels g i" if "live_node g i" for i
    using that by (simp add: live_node_def mark_deleted_graph(1) [OF nid])
  with Some b show ?thesis by (simp add: entry_ok_def mark_deleted_live [OF nid])
qed

lemma arena_mark_deleted:
  "unat nid < length (hi_nodes g) \<Longrightarrow>
   arena (mark_deleted g nid) = (arena g)[unat nid := (fst (arena g ! unat nid), True)]"
  by (simp add: arena_def mark_deleted_def map_update)

lemma hnsw_delete_ok:
  assumes g: "graph_ok g" and nid: "live_node g (unat nid)"
  shows "\<exists>g'. hnsw_delete nid g = (Inr (), g') \<and> graph_ok g' \<and>
    arena g' = (arena g)[unat nid := (fst (arena g ! unat nid), True)] \<and> hi_params g' = hi_params g \<and>
    hi_dim g' = hi_dim g \<and> hi_metric g' = hi_metric g"
proof -
  have lt: "unat nid < length (hi_nodes g)" and alive: "\<not> nd_deleted (hi_nodes g ! unat nid)"
    using nid by (simp_all add: live_node_def)
  define g1 where "g1 = mark_deleted g nid"
  have g1: "linked {} g1" "nodes_ok g1" "length (hi_nodes g1) = length (hi_nodes g)"
    using g lt by (simp_all add: g1_def graph_ok_def mark_deleted_inv mark_deleted_nodes_ok)
  let ?d = "node_level (hi_nodes g1 ! unat nid)"
  have lv: "unat ?d + 1 = levels g1 (unat nid)"
    using g1(2,3) lt node_level_unat [of "hi_nodes g1 ! unat nid"] by (fastforce simp: nodes_ok_def levels_def)
  have "has_layer g1 (unat l) nid" if "l \<in> set (map word_of_nat [0..<unat ?d + 1])" for l :: u8
  proof -
    from that have "l \<in> word_of_nat ` {0..<unat ?d + 1}" by (simp only: set_map set_upt)
    then obtain k where "l = word_of_nat k" "k \<in> {0..<unat ?d + 1}" by (rule imageE)
    then have k: "l = word_of_nat k" "k \<le> unat ?d" by (simp_all only: atLeastLessThan_iff) simp
    then have "unat l = k" using unat_layer [of k] unat_u8_le [of ?d] by simp
    with k(2) lv g1(3) lt show ?thesis by (simp add: has_layer_def)
  qed
  then obtain g2 where
    g2: "repair_layers g1 nid (map word_of_nat [0..<unat ?d + 1]) = Inr g2" "rewired g1 g2" "linked {} g2"
    using repair_layers_ok [OF g1(1)] by blast
  define E where "E = (if map_option ep_node (hi_entry g2) = Some nid then pick_new_entry g2 else hi_entry g2)"
  have run: "hnsw_delete nid g = (Inr (), g2\<lparr>hi_entry := E\<rparr>)"
    using lt alive g2(1) by (auto simp: hnsw_delete_def Let_def g1_def E_def)
  have size: "length (hi_nodes g2) \<le> 2 ^ 32" "nodes_ok g2"
    using g g1(2,3) rewired_sel [OF g2(2)] rewired_nodes_ok [OF g2(2)] by (simp_all add: graph_ok_def g1_def)
  have "entry_ok (g2\<lparr>hi_entry := E\<rparr>)"
  proof (cases "map_option ep_node (hi_entry g2) = Some nid")
    case True
    with pick_new_entry_ok [OF size(2,1)] show ?thesis by (simp add: E_def)
  next
    case False
    then have "map_option ep_node (hi_entry g) \<noteq> Some nid"
      using rewired_sel(4) [OF g2(2)] by (simp add: g1_def)
    then have "entry_ok g1" unfolding g1_def
      using lt g by (intro mark_deleted_entry_ok) (simp_all add: graph_ok_def)
    with False show ?thesis using rewired_entry_ok [OF g2(2)] by (auto simp: E_def)
  qed
  moreover have "arena g2 = (arena g)[unat nid := (fst (arena g ! unat nid), True)]"
    using rewired_arena [OF g2(2)] arena_mark_deleted [OF lt] by (simp add: g1_def)
  ultimately show ?thesis
    using run size g2(3) rewired_sel [OF g2(2)] by (simp add: graph_ok_def g1_def)
qed

lemma hnsw_delete_refused:
  "\<not> live_node g (unat nid) \<Longrightarrow> \<exists>msg. hnsw_delete nid g = (Inl (InvalidArgument msg), g)"
  by (auto simp: hnsw_delete_def live_node_def)

text \<open>C17: Deletion is total and never panics. It succeeds exactly on a live node, of which it sets the
  deletion mark and nothing else in the arena, and it keeps the graph well-formed through the repair
  of every layer and the migration of the entry point. On a node out of range or deleted before it
  is an \<open>InvalidArgument\<close> that changes nothing.
  The sort by distance is total in the model, so a panic of the library's sort, which the code hands an
  order that distances that are not numbers make inconsistent, is outside this statement.
\<close>
theorem hnsw_delete_keeps_graph:
  assumes "graph_ok g"
  shows "case hnsw_delete nid g of
      (Inr u, g') \<Rightarrow> graph_ok g' \<and> \<not> is_deleted g nid \<and>
        arena g' = (arena g)[unat nid := (fst (arena g ! unat nid), True)]
    | (Inl e, g') \<Rightarrow> g' = g \<and> is_deleted g nid \<and> (\<exists>msg. e = InvalidArgument msg)"
proof (cases "live_node g (unat nid)")
  case True
  from hnsw_delete_ok [OF assms True] obtain g' where "hnsw_delete nid g = (Inr (), g')" "graph_ok g'"
    "arena g' = (arena g)[unat nid := (fst (arena g ! unat nid), True)]" by blast
  with True show ?thesis by (simp add: is_deleted_def live_node_def)
next
  case False
  from hnsw_delete_refused [OF this] False show ?thesis by (auto simp: is_deleted_def live_node_def)
qed

theorem hnsw_delete_keeps_graph_witness:
  "\<exists>g'. hnsw_delete 0 line_graph = (Inr (), g') \<and> graph_ok g' \<and>
     arena g' = [([F32_ZERO], True), ([F32_ONE], False)]"
proof -
  note del = hnsw_delete_keeps_graph [OF line_graph_ok, of 0]
  have live: "\<not> is_deleted line_graph 0" by (simp add: is_deleted_def)
  have a: "arena line_graph = [([F32_ZERO], False), ([F32_ONE], False)]"
    by (simp add: arena_def line_graph_def)
  obtain r g' where run: "hnsw_delete 0 line_graph = (r, g')" by fastforce
  show ?thesis using del live a run by (cases r) simp_all
qed

section \<open>Graphs that can be built\<close>

text \<open>
  The graphs reachable from an empty one by insertions, while identifiers last, and deletions,
  whether these succeed or not.
\<close>

inductive built :: "'r rng_lib \<Rightarrow> hnsw_params \<Rightarrow> 'r hnsw \<Rightarrow> bool" for lib params where
  built_new: "built lib params (hnsw_new lib params)"
| built_insert: "built lib params g \<Longrightarrow> hnsw_len g < 2 ^ 32 \<Longrightarrow> hnsw_insert lib v g = (r, g') \<Longrightarrow>
    built lib params g'"
| built_delete: "built lib params g \<Longrightarrow> hnsw_delete nid g = (r, g') \<Longrightarrow> built lib params g'"

lemma built_graph_ok:
  assumes "built lib params g"
  shows "graph_ok g \<and> hi_params g = params"
  using assms
proof induction
  case built_new
  show ?case by (simp add: hnsw_new_ok) (simp add: hnsw_new_def)
next
  case (built_insert g v r g')
  with hnsw_insert_ok [of g v _ lib] hnsw_insert_refused [of g v lib] show ?case
    by (cases "dim_fits g v \<and> preprocess_vector (hi_metric g) v \<noteq> None") fastforce+
next
  case (built_delete g nid r g')
  show ?case
  proof (cases "live_node g (unat nid)")
    case True
    with hnsw_delete_ok [of g nid] built_delete show ?thesis by auto
  next
    case False
    from hnsw_delete_refused [OF this] built_delete show ?thesis by auto
  qed
qed

text \<open>C22: Every graph that insertions and deletions can build, with any parameters, bounds its degrees: at
  layer 0 by the larger of \<^verbatim>\<open>m_max_0\<close> and \<^verbatim>\<open>m\<close>, above by \<^verbatim>\<open>m\<close>; a node has at most 31 layers, and every edge
  leads to another node that has the layer. The bound at layer 0 is \<^verbatim>\<open>m_max_0\<close> whenever \<^verbatim>\<open>m\<close> does not exceed it, as
  in the default parameters; the code accepts others, and then gives a new node up to \<^verbatim>\<open>m\<close> neighbours.
\<close>
theorem built_degrees_bounded:
  assumes "built lib params g"
    and "i < hnsw_len g" and "l < length (nd_neighbors (hi_nodes g ! i))"
  shows "l \<le> 30 \<and>
    length (nd_neighbors (hi_nodes g ! i) ! l)
      \<le> (if l = 0 then max (hp_m_max_0 params) (hp_m params) else hp_m params) \<and>
    (\<forall>n \<in> set (nd_neighbors (hi_nodes g ! i) ! l).
       unat n < hnsw_len g \<and> unat n \<noteq> i \<and> l < length (nd_neighbors (hi_nodes g ! unat n)))"
proof -
  note built = built_graph_ok [OF assms(1)]
  from conjunct1 [OF built] have g: "edges_ok g" "degrees_but {} g" "nodes_ok g" by (simp_all add: graph_ok_def linked_def)
  have i: "i < length (hi_nodes g)" "l < levels g i" using assms(2,3) by (simp_all add: hnsw_len_def levels_def)
  have "levels g i \<le> 31" using g(3) i(1) by (simp add: nodes_ok_def)
  moreover have "length (nbrs g i l) \<le> cap g l" using g(2) i by (simp add: degrees_but_def)
  moreover have "\<forall>n \<in> set (nbrs g i l). has_layer g l n \<and> unat n \<noteq> i" using g(1) i by (simp add: edges_ok_def)
  ultimately show ?thesis
    using i(2) unfolding conjunct2 [OF built, symmetric]
    by (cases "l = 0") (simp_all add: cap_def nbrs_def has_layer_def hnsw_len_def levels_def)
qed

theorem built_degrees_bounded_witness:
  "\<exists>g :: unit hnsw. built sample_rng line_params g \<and> hnsw_len g = 1 \<and>
     length (nd_neighbors (hi_nodes g ! 0) ! 0) \<le> 32"
proof -
  let ?g = "hnsw_new sample_rng line_params"
  have new: "built sample_rng line_params ?g" by (rule built_new)
  have v: "hnsw_len ?g < 2 ^ 32" "dim_fits ?g [F32_ONE]"
    "preprocess_vector (hi_metric ?g) [F32_ONE] = Some [F32_ONE]"
    by (simp_all add: hnsw_len_def hnsw_new_def dim_fits_def line_params_def default_params_def
        preprocess_vector_def line_finite Let_def)
  from hnsw_insert_ok [OF conjunct1 [OF built_graph_ok [OF new]] v] obtain g where
    g: "hnsw_insert sample_rng [F32_ONE] ?g = (Inr (word_of_nat (hnsw_len ?g)), g)" "graph_ok g"
      "arena g = arena ?g @ [([F32_ONE], False)]" "hi_params g = hi_params ?g" by blast
  have b: "built sample_rng line_params g" using new v(1) g(1) by (rule built_insert)
  have "length (arena g) = 1" using g(3) by (simp add: arena_def hnsw_new_def)
  then have len: "hnsw_len g = 1" by (simp add: arena_def hnsw_len_def)
  have "0 < length (nd_neighbors (hi_nodes g ! 0))"
    using g(2) len by (simp add: graph_ok_def nodes_ok_def levels_def hnsw_len_def Suc_le_eq)
  from built_degrees_bounded [OF b _ this] len have "length (nd_neighbors (hi_nodes g ! 0) ! 0) \<le> 32"
    by (simp add: line_params_def default_params_def Let_def)
  with b len show ?thesis by blast
qed

end
