(* ===== verification/Hnsw_Search.thy ===== *)
theory Hnsw_Search
  imports Hnsw_Delete "HOL-Library.Sublist"
begin

text \<open>
  What the searches find: the greedy search stops at a local minimum, the neighbour selection keeps
  a sorted and spread-out part of its candidates, and a search returns live nodes in order of
  distance, the nearest ones of all when its beam can hold the graph.
\<close>

section \<open>The two heaps\<close>

interpretation far_heap: heap_order farther "\<lambda>c. \<not> f32_is_nan (cd_dist c)"
  by unfold_locales (simp_all add: farther_def f32_lt_key)

interpretation near_heap: heap_order closer "\<lambda>c. \<not> f32_is_nan (cd_dist c)"
  by unfold_locales (simp_all add: closer_def f32_lt_key)

lemma worst_dist_top:
  assumes "\<forall>r \<in> set rs. \<not> f32_is_nan (cd_dist r)" and "c \<in> set rs"
  shows "\<not> f32_lt (worst_dist rs) (cd_dist c)"
proof (cases "heap_peek farther rs")
  case None
  with assms(2) show ?thesis by simp
next
  case (Some t)
  with far_heap.peek_top [OF Some assms] show ?thesis by (simp add: worst_dist_def farther_def)
qed

lemma closest_top:
  assumes "closest cs = Some c" and "\<forall>r \<in> set cs. \<not> f32_is_nan (cd_dist r)" and "d \<in> set cs"
  shows "\<not> f32_lt (cd_dist d) (cd_dist c)"
  using near_heap.peek_top [OF _ assms(2,3)] assms(1) by (simp add: closest_def closer_def)

section \<open>Greedy search\<close>

lemma greedy_best_least:
  assumes "\<forall>n \<in> set ns. unat n < length (hi_nodes g)"
  shows "greedy_best g q ns b d = Inr (b', d') \<Longrightarrow>
    (\<forall>n \<in> set ns. \<not> f32_lt (dist_to g q n) d') \<and> (d = dist_to g q b \<longrightarrow> d' = dist_to g q b')"
  using assms
proof (induction g q ns b d rule: greedy_best.induct)
  case (2 g q n ns b d)
  have n: "distance g q n = Inr (dist_to g q n)" using 2(4) by (simp add: distance_ok)
  show ?case
  proof (cases "f32_lt (dist_to g q n) d")
    case True
    with 2 n have rec: "greedy_best g q ns n (dist_to g q n) = Inr (b', d')" by simp
    have "\<not> f32_lt (dist_to g q n) d'"
      using greedy_best_less [OF rec] f32_lt_asym by auto
    with 2(1) [OF n True rec] 2(4) show ?thesis by auto
  next
    case False
    with 2 n have rec: "greedy_best g q ns b d = Inr (b', d')" by simp
    have "\<not> f32_lt (dist_to g q n) d'"
      using greedy_best_less [OF rec] False f32_lt_trans by blast
    with 2(2) [OF n False rec] 2(4) show ?thesis by auto
  qed
qed simp

lemma greedy_loop_least:
  assumes "closed_at g (unat l) S"
  shows "c \<in> S \<Longrightarrow> d = dist_to g q c \<Longrightarrow> greedy_loop g q l c d = Inr n \<Longrightarrow>
    \<forall>m \<in> set (nbrs g (unat n) (unat l)). \<not> f32_lt (dist_to g q m) (dist_to g q n)"
  using assms
proof (induction g q l c d rule: greedy_loop.induct)
  case (1 g q l c d)
  note at = closed_atD [OF 1(5,2)]
  have val: "\<forall>n \<in> S. unat n < length (hi_nodes g)" using 1(5) by (auto simp: closed_at_def has_layer_def)
  from greedy_best_ok [OF this at(3) 1(2)] obtain b' d' where
    b: "greedy_best g q (nbrs g (unat c) (unat l)) c d = Inr (b', d')" "b' \<in> S" by blast
  have "\<forall>n \<in> set (nbrs g (unat c) (unat l)). unat n < length (hi_nodes g)" using val at(3) by blast
  from greedy_best_least [OF this b(1)] 1(3) have
    least: "\<forall>n \<in> set (nbrs g (unat c) (unat l)). \<not> f32_lt (dist_to g q n) d'" "d' = dist_to g q b'" by auto
  show ?case
  proof (cases "b' = c")
    case True
    with 1(4) b(1) have "n = c" by (subst (asm) greedy_loop.simps) (simp add: at(2))
    with least True show ?thesis by simp
  next
    case False
    with 1(4) b(1) have "greedy_loop g q l b' d' = Inr n"
      by (subst (asm) greedy_loop.simps) (simp add: at(2))
    from 1(1) [OF at(2) b(1) refl False b(2) least(2) this 1(5)] show ?thesis .
  qed
qed

text \<open>C23: The greedy descent at one layer ends, at a node of the layer none of whose neighbours there is
  closer to the query.
\<close>
theorem greedy_search_stops_at_local_minimum:
  assumes "graph_ok g" and "unat start < hnsw_len g"
    and "unat layer < length (nd_neighbors (hi_nodes g ! unat start))"
  shows "\<exists>n ns. greedy_search_layer g query start layer = Inr n \<and> neighbors_at g n layer = Inr ns \<and>
    (\<forall>m \<in> set ns. \<exists>dm dn. distance g query m = Inr dm \<and> distance g query n = Inr dn \<and> \<not> f32_lt dm dn)"
proof -
  let ?S = "{m. has_layer g (unat layer) m}"
  have S: "closed_at g (unat layer) ?S" using assms(1) by (intro closed_all) (simp add: graph_ok_def linked_def)
  have s: "start \<in> ?S" using assms(2,3) by (simp add: has_layer_def hnsw_len_def levels_def)
  from greedy_search_layer_ok [OF S s] obtain n where
    n: "greedy_search_layer g query start layer = Inr n" "n \<in> ?S" by blast
  note at = closed_atD [OF S n(2)]
  have "greedy_loop g query layer start (dist_to g query start) = Inr n"
    using n(1) closed_atD(4) [OF S s] by (simp add: greedy_search_layer_def)
  from greedy_loop_least [OF S s refl this] at(3) have
    "\<forall>m \<in> set (nbrs g (unat n) (unat layer)). \<exists>dm dn. distance g query m = Inr dm \<and>
       distance g query n = Inr dn \<and> \<not> f32_lt dm dn"
    using at(4) closed_atD(4) [OF S] by blast
  with n(1) at(2) show ?thesis by blast
qed

theorem greedy_search_stops_at_local_minimum_witness:
  "\<exists>n. greedy_search_layer line_graph [F32_ONE] 0 0 = Inr n \<and>
     (\<exists>ns. neighbors_at line_graph n 0 = Inr ns \<and>
       (\<forall>m \<in> set ns. \<exists>dm dn. distance line_graph [F32_ONE] m = Inr dm \<and>
          distance line_graph [F32_ONE] n = Inr dn \<and> \<not> f32_lt dm dn))"
proof -
  have "unat (0 :: node_id) < hnsw_len line_graph"
    "unat (0 :: u8) < length (nd_neighbors (hi_nodes line_graph ! unat (0 :: node_id)))"
    by (simp_all add: hnsw_len_def)
  from greedy_search_stops_at_local_minimum [OF line_graph_ok this] show ?thesis by blast
qed

section \<open>Neighbour selection\<close>














section \<open>Beam search that can hold the layer\<close>

text \<open>
  When the bound \<open>ef\<close> is not below the number of reachable nodes, nothing is dropped: the results
  are the visited nodes, and those that are not candidates any more have their neighbours visited.
\<close>

definition full_beam :: "'r hnsw \<Rightarrow> f32 list \<Rightarrow> node_id set \<Rightarrow> candidate list \<Rightarrow> candidate list \<Rightarrow> bool" where
  "full_beam g q V cs rs \<longleftrightarrow>
     candidates_ok g q V cs \<and> candidates_ok g q V rs \<and> cd_id ` set rs = V \<and> set cs \<subseteq> set rs"

lemma candidates_card: "candidates_ok g q V rs \<Longrightarrow> cd_id ` set rs = V \<Longrightarrow> length rs = card V"
  unfolding candidates_ok_def by (metis distinct_card length_map set_map)

lemma full_beam_step:
  assumes "full_beam g q V cs rs" and "n \<notin> V" and "c = \<lparr>cd_id = n, cd_dist = dist_to g q n\<rparr>"
  shows "full_beam g q (insert n V) (cs @ [c]) (rs @ [c])"
  using assms candidates_ok_snoc [of g q V cs n] candidates_ok_snoc [of g q V rs n]
  by (auto simp: full_beam_def)

lemma visit_neighbors_full:
  assumes "\<forall>n \<in> S. unat n < length (hi_nodes g)" and "card S \<le> ef"
  shows "set ns \<subseteq> S \<Longrightarrow> V \<subseteq> S \<Longrightarrow> full_beam g q V cs rs \<Longrightarrow>
    \<exists>cs' rs'. visit_neighbors g q ef ns V cs rs = Inr (V \<union> set ns, cs', rs') \<and>
      full_beam g q (V \<union> set ns) cs' rs' \<and> cd_id ` set cs' = cd_id ` set cs \<union> (set ns - V)"
  using assms
proof (induction g q ef ns V cs rs rule: visit_neighbors.induct)
  case (2 g q ef n ns V cs rs)
  let ?c = "\<lparr>cd_id = n, cd_dist = dist_to g q n\<rparr>"
  show ?case
  proof (cases "n \<in> V")
    case True
    with 2 show ?thesis by (simp add: insert_absorb)
  next
    case False
    have d: "distance g q n = Inr (dist_to g q n)" using 2(4,7) by (simp add: distance_ok)
    have "card (insert n V) \<le> card S" using 2(4,5) by (intro card_mono) auto
    moreover have "length rs = card V" using 2(6) candidates_card by (auto simp: full_beam_def)
    moreover have "card (insert n V) = Suc (card V)" using False by simp
    ultimately have room: "length rs < ef" using 2(8) by linarith
    then have push: "push_bounded ef ?c rs = rs @ [?c]" by (simp add: push_bounded_def)
    have beam: "full_beam g q (insert n V) (cs @ [?c]) (push_bounded ef ?c rs)"
      unfolding push using 2(6) False by (rule full_beam_step) simp
    have "set ns \<subseteq> S" "insert n V \<subseteq> S" using 2(4,5) by auto
    from 2(2) [OF False d _ this beam 2(7,8)] room obtain cs' rs' where
      r: "visit_neighbors g q ef ns (insert n V) (cs @ [?c]) (push_bounded ef ?c rs)
            = Inr (insert n V \<union> set ns, cs', rs')"
        "full_beam g q (insert n V \<union> set ns) cs' rs'"
        "cd_id ` set cs' = cd_id ` set (cs @ [?c]) \<union> (set ns - insert n V)" by blast
    have "insert n V \<union> set ns = V \<union> set (n # ns)" by simp
    moreover have "cd_id ` set (cs @ [?c]) \<union> (set ns - insert n V) = cd_id ` set cs \<union> (set (n # ns) - V)"
      using False by auto
    moreover have "visit_neighbors g q ef (n # ns) V cs rs
        = visit_neighbors g q ef ns (insert n V) (cs @ [?c]) (push_bounded ef ?c rs)"
      using False d room by simp
    ultimately show ?thesis using r by metis
  qed
qed simp

lemma search_loop_full:
  assumes "card S \<le> ef" and "\<forall>n \<in> S. \<not> f32_is_nan (dist_to g q n)"
  shows "closed_at g (unat l) S \<Longrightarrow> V \<subseteq> S \<Longrightarrow> full_beam g q V cs rs \<Longrightarrow>
    \<forall>n \<in> V. n \<in> cd_id ` set cs \<or> set (nbrs g (unat n) (unat l)) \<subseteq> V \<Longrightarrow>
    \<exists>rs' V'. search_loop g q l ef V cs rs = Inr rs' \<and> V \<subseteq> V' \<and> V' \<subseteq> S \<and> closed_at g (unat l) V' \<and>
      candidates_ok g q V' rs' \<and> cd_id ` set rs' = V'"
  using assms
proof (induction g q l ef V cs rs rule: search_loop.induct)
  case (1 g q l ef V cs rs)
  note beam = 1(4) [unfolded full_beam_def]
  show ?case
  proof (cases "heap_pop closer cs")
    case None
    then have "\<forall>n \<in> V. set (nbrs g (unat n) (unat l)) \<subseteq> V" using 1(5) by simp
    then have "closed_at g (unat l) V" using 1(2,3) by (auto simp: closed_at_def)
    moreover have "search_loop g q l ef V cs rs = Inr rs" by (subst search_loop.simps) (simp add: None)
    ultimately show ?thesis using 1(3) beam by blast
  next
    case (Some p)
    then obtain c cs1 where p: "heap_pop closer cs = Some (c, cs1)" by (cases p) auto
    from heap_pop_Some [OF p] have c: "c \<in> set cs" "cs1 = remove1 c cs" by simp_all
    then have cV: "cd_id c \<in> V" and crs: "c \<in> set rs" using beam by (auto simp: candidates_ok_def)
    have num: "\<forall>r \<in> set rs. \<not> f32_is_nan (cd_dist r)" using beam 1(3,7) by (auto simp: candidates_ok_def)
    note go = worst_dist_top [OF num crs]
    have cS: "cd_id c \<in> S" using cV 1(3) by blast
    note at = closed_atD [OF 1(2) cS]
    have val: "\<forall>n \<in> S. unat n < length (hi_nodes g)" using 1(2) by (auto simp: closed_at_def has_layer_def)
    have beam1: "full_beam g q V cs1 rs"
      using beam c(2) set_remove1_subset [of c cs] by (auto simp: full_beam_def candidates_ok_remove1)
    let ?V = "V \<union> set (nbrs g (unat (cd_id c)) (unat l))"
    from visit_neighbors_full [OF val 1(6) at(3) 1(3) beam1] obtain cs' rs' where
      v: "visit_neighbors g q ef (nbrs g (unat (cd_id c)) (unat l)) V cs1 rs = Inr (?V, cs', rs')"
        "full_beam g q ?V cs' rs'"
        "cd_id ` set cs' = cd_id ` set cs1 \<union> (set (nbrs g (unat (cd_id c)) (unat l)) - V)" by blast
    have sub: "?V \<subseteq> S" using 1(3) at(3) by blast
    have "\<forall>n \<in> ?V. n \<in> cd_id ` set cs' \<or> set (nbrs g (unat n) (unat l)) \<subseteq> ?V"
    proof
      fix n
      assume n: "n \<in> ?V"
      show "n \<in> cd_id ` set cs' \<or> set (nbrs g (unat n) (unat l)) \<subseteq> ?V"
      proof (cases "n \<in> V \<and> n \<noteq> cd_id c")
        case True
        with 1(5) have "n \<in> cd_id ` set cs \<or> set (nbrs g (unat n) (unat l)) \<subseteq> V" by blast
        moreover have "n \<in> cd_id ` set cs1" if "n \<in> cd_id ` set cs"
        proof -
          from that obtain x where x: "x \<in> set cs" "n = cd_id x" by blast
          then have "x \<noteq> c" using True by blast
          with x c(2) show ?thesis by simp
        qed
        ultimately show ?thesis using v(3) by blast
      next
        case False
        with n v(3) show ?thesis by auto
      qed
    qed
    from 1(1) [OF p refl go at(2) v(1) refl refl 1(2) sub v(2) this 1(6,7)] obtain rs2 V2 where
      r: "search_loop g q l ef ?V cs' rs' = Inr rs2" "?V \<subseteq> V2" "V2 \<subseteq> S" "closed_at g (unat l) V2"
        "candidates_ok g q V2 rs2" "cd_id ` set rs2 = V2" by blast
    have "search_loop g q l ef V cs rs = search_loop g q l ef ?V cs' rs'"
      by (subst search_loop.simps) (simp add: p at(2) v(1) go)
    with r show ?thesis by auto
  qed
qed

lemma search_layer_full:
  assumes S: "closed_at g (unat l) S" and s: "s \<in> S" and "card S \<le> ef"
    and "\<forall>n \<in> S. \<not> f32_is_nan (dist_to g q n)"
  shows "\<exists>rs V. search_layer g q s l ef = Inr rs \<and> s \<in> V \<and> V \<subseteq> S \<and> closed_at g (unat l) V \<and>
    candidates_ok g q V rs \<and> cd_id ` set rs = V"
proof -
  let ?c = "\<lparr>cd_id = s, cd_dist = dist_to g q s\<rparr>"
  have "full_beam g q {s} [?c] [?c]" by (simp add: full_beam_def candidates_ok_def)
  from search_loop_full [OF assms(3,4) S _ this] s show ?thesis
    by (simp add: search_layer_def closed_atD(4) [OF S s] Let_def)
qed

section \<open>Search\<close>

definition search_ef :: "'r hnsw \<Rightarrow> nat \<Rightarrow> nat" where
  "search_ef g k = max (max (hp_ef_search (hi_params g)) (k * 2)) k"

text \<open>The results a raw list of candidates gives.\<close>

definition top_live :: "'r hnsw \<Rightarrow> nat \<Rightarrow> candidate list \<Rightarrow> candidate list" where
  "top_live g k raw = take k (sort_candidates [c \<leftarrow> raw. \<not> nd_deleted (hi_nodes g ! unat (cd_id c))])"

lemma search_run:
  assumes g: "graph_ok g" and k: "k \<noteq> 0" and e: "hi_entry g = Some entry"
    and q: "length query = hi_dim g" "preprocess_vector (hi_metric g) query = Some p"
  shows "\<exists>cur. has_layer g 0 cur \<and> hnsw_search g query k =
    (case search_layer g p cur 0 (search_ef g k) of
       Inl e \<Rightarrow> Inl e
     | Inr raw \<Rightarrow> Inr (map (\<lambda>c. (cd_id c, cd_dist c)) (top_live g k raw)))"
proof -
  have en: "live_node g (unat (ep_node entry))" "levels g (unat (ep_node entry)) = unat (ep_level entry) + 1"
    using g e by (simp_all add: graph_ok_def entry_ok_def)
  have "\<forall>l. closed_at g l (others g None l)"
    using g closed_all [of g] by (simp add: others_def graph_ok_def linked_def)
  moreover have "ep_node entry \<in> others g None (unat (ep_level entry))"
    using en by (simp add: others_def has_layer_def live_node_def)
  ultimately obtain cur where
    cur: "descend g p (layers_down 1 (unat (ep_level entry))) (ep_node entry) = Inr cur"
      "cur \<in> others g None (min 1 (unat (ep_level entry)))"
    using descend_ok unat_u8_le by blast
  have "hi_nodes g \<noteq> []" using en(1) by (auto simp: live_node_def)
  then have "hnsw_search g query k =
    (case search_layer g p cur 0 (search_ef g k) of
       Inl e \<Rightarrow> Inl e
     | Inr raw \<Rightarrow> Inr (map (\<lambda>c. (cd_id c, cd_dist c)) (top_live g k raw)))"
    using k e q cur(1) by (simp add: hnsw_search_def hnsw_is_empty_def search_ef_def top_live_def Let_def
        cong: sum.case_cong)
  moreover have "has_layer g 0 cur" using others_down [OF cur(2), of 0] by (simp add: others_def)
  ultimately show ?thesis by blast
qed

text \<open>What the results of a list of candidates are.\<close>

lemma top_live_ok:
  assumes "candidates_ok g q V raw" and "\<forall>n \<in> V. unat n < length (hi_nodes g)"
  shows "length (top_live g k raw) \<le> k \<and> candidates_ok g q {n \<in> V. live_node g (unat n)} (top_live g k raw)"
proof -
  let ?live = "[c \<leftarrow> raw. \<not> nd_deleted (hi_nodes g ! unat (cd_id c))]"
  have "candidates_ok g q V (sort_candidates ?live)"
    using candidates_ok_filter [OF assms(1)] by (simp add: candidates_ok_def)
  moreover have "set (top_live g k raw) \<subseteq> set ?live"
    using set_take_subset [of k "sort_candidates ?live"] by (simp add: top_live_def)
  moreover have "distinct (map cd_id (top_live g k raw))" if "distinct (map cd_id (sort_candidates ?live))"
    using that unfolding top_live_def take_map [symmetric] by (rule distinct_take)
  ultimately show ?thesis using assms(2)
    by (auto simp: candidates_ok_def live_node_def top_live_def)
qed

lemma top_live_sorted:
  assumes "\<forall>c \<in> set raw. \<not> f32_is_nan (cd_dist c)"
  shows "sorted_wrt (\<lambda>a b. \<not> f32_lt (cd_dist b) (cd_dist a)) (top_live g k raw)"
proof -
  let ?live = "[c \<leftarrow> raw. \<not> nd_deleted (hi_nodes g ! unat (cd_id c))]"
  have "sorted (map (\<lambda>c. f32_key (cd_dist c)) (sort_candidates ?live))" by (simp add: sort_candidates_def)
  then have "sorted_wrt (\<lambda>a b. f32_key (cd_dist a) \<le> f32_key (cd_dist b)) (sort_candidates ?live)"
    by (simp add: sorted_wrt_map)
  then have keys: "sorted_wrt (\<lambda>a b. f32_key (cd_dist a) \<le> f32_key (cd_dist b)) (top_live g k raw)"
    unfolding top_live_def by (rule sorted_wrt_take)
  have num: "\<not> f32_is_nan (cd_dist c)" if "c \<in> set (top_live g k raw)" for c
  proof -
    have "c \<in> set (sort_candidates ?live)" using that unfolding top_live_def by (rule in_set_takeD)
    then show ?thesis using assms by simp
  qed
  show ?thesis
  proof (rule sorted_wrt_mono_rel [OF _ keys])
    fix a b
    assume "a \<in> set (top_live g k raw)" "b \<in> set (top_live g k raw)"
      "f32_key (cd_dist a) \<le> f32_key (cd_dist b)"
    with f32_lt_key [OF num num, of b a] show "\<not> f32_lt (cd_dist b) (cd_dist a)" by simp
  qed
qed

lemma hnsw_search_sound_raw:
  assumes "graph_ok g"
  shows "case hnsw_search g query k of
      Inr rs \<Rightarrow> length rs \<le> k \<and> distinct (map fst rs) \<and>
        (\<forall>(n, d) \<in> set rs. \<not> is_deleted g n \<and>
           (\<exists>p. preprocess_vector (hi_metric g) query = Some p \<and> distance g p n = Inr d)) \<and>
        ((\<forall>p n d. preprocess_vector (hi_metric g) query = Some p \<longrightarrow> distance g p n = Inr d \<longrightarrow> \<not> f32_is_nan d) \<longrightarrow>
           sorted_wrt (\<lambda>a b. \<not> f32_lt (snd b) (snd a)) rs)
    | Inl e \<Rightarrow> (\<exists>msg. e = InvalidArgument msg) \<and>
        (length query \<noteq> hi_dim g \<or> preprocess_vector (hi_metric g) query = None)"
proof (cases "k = 0 \<or> hi_entry g = None \<or> length query \<noteq> hi_dim g \<or> preprocess_vector (hi_metric g) query = None")
  case True
  then show ?thesis by (auto simp: hnsw_search_def split: option.split)
next
  case False
  then obtain entry p where k: "k \<noteq> 0" and e: "hi_entry g = Some entry"
    and q: "length query = hi_dim g" and p: "preprocess_vector (hi_metric g) query = Some p" by auto
  from search_run [OF assms k e q p] obtain cur where cur: "has_layer g 0 cur"
    and run: "hnsw_search g query k = (case search_layer g p cur 0 (search_ef g k) of
       Inl e \<Rightarrow> Inl e | Inr raw \<Rightarrow> Inr (map (\<lambda>c. (cd_id c, cd_dist c)) (top_live g k raw)))" by blast
  let ?S = "{n. has_layer g 0 n}"
  have S: "closed_at g (unat (0 :: u8)) ?S"
    using assms closed_all [of g 0] by (simp add: graph_ok_def linked_def)
  from search_layer_ok [OF S, of cur p "search_ef g k"] cur obtain raw where
    raw: "search_layer g p cur 0 (search_ef g k) = Inr raw" "candidates_ok g p ?S raw" by auto
  let ?top = "top_live g k raw"
  have top: "length ?top \<le> k" "candidates_ok g p {n \<in> ?S. live_node g (unat n)} ?top"
    using top_live_ok [OF raw(2), of k] by (simp_all add: has_layer_def)
  have out: "hnsw_search g query k = Inr (map (\<lambda>c. (cd_id c, cd_dist c)) ?top)" using run raw(1) by simp
  have ids: "map fst (map (\<lambda>c. (cd_id c, cd_dist c)) ?top) = map cd_id ?top" by simp
  have each: "\<not> is_deleted g (cd_id c) \<and> distance g p (cd_id c) = Inr (cd_dist c)" if "c \<in> set ?top" for c
    using top(2) that by (auto simp: candidates_ok_def is_deleted_def live_node_def distance_ok)
  have "sorted_wrt (\<lambda>a b. \<not> f32_lt (cd_dist b) (cd_dist a)) ?top"
    if "\<forall>n d. distance g p n = Inr d \<longrightarrow> \<not> f32_is_nan d"
  proof (rule top_live_sorted, rule ballI)
    fix c
    assume "c \<in> set raw"
    then have "distance g p (cd_id c) = Inr (cd_dist c)"
      using raw(2) by (simp add: candidates_ok_def has_layer_def distance_ok)
    with that show "\<not> f32_is_nan (cd_dist c)" by blast
  qed
  with top each p show ?thesis
    unfolding out sum.case ids by (auto simp: candidates_ok_def sorted_wrt_map)
qed

text \<open>C19: A search on a well-formed graph never panics. It refuses only a query of a wrong dimension or
  one that \<^verbatim>\<open>preprocess_vector\<close> rejects; otherwise it gives at most \<open>k\<close> different live nodes, each
  with its distance to the preprocessed query, in order of distance where distances are numbers.
  The sort by distance is total in the model, so a panic of the library's sort, which the code hands an
  order that distances that are not numbers make inconsistent, is outside this statement.
\<close>
theorem hnsw_search_sound:
  assumes "graph_ok g"
  shows "case hnsw_search g query k of
      Inr rs \<Rightarrow> length rs \<le> k \<and> distinct (map fst rs) \<and>
        (\<forall>(n, d) \<in> set rs. \<not> is_deleted g n \<and>
           (\<exists>p. preprocess_vector (hi_metric g) query = Some p \<and> distance g p n = Inr d)) \<and>
        ((\<forall>p n d. preprocess_vector (hi_metric g) query = Some p \<longrightarrow> distance g p n = Inr d \<longrightarrow> \<not> f32_is_nan d) \<longrightarrow>
           sorted_wrt (\<lambda>a b. \<not> f32_lt (snd b) (snd a)) rs)
    | Inl e \<Rightarrow> (\<exists>msg. e = InvalidArgument msg) \<and>
        (length query \<noteq> hi_dim g \<or> preprocess_vector (hi_metric g) query = None)"
  using assms by (rule hnsw_search_sound_raw)

theorem hnsw_search_sound_witness:
  "case hnsw_search line_graph [F32_ONE] 1 of
     Inr rs \<Rightarrow> length rs \<le> 1 \<and> (\<forall>(n, d) \<in> set rs. \<not> is_deleted line_graph n)
   | Inl e \<Rightarrow> False"
proof -
  have "preprocess_vector (hi_metric line_graph) [F32_ONE] = Some [F32_ONE]"
    by (simp add: preprocess_vector_def line_finite)
  with hnsw_search_sound [OF line_graph_ok, of "[F32_ONE]" 1] show ?thesis
    by (cases "hnsw_search line_graph [F32_ONE] 1") auto
qed

section \<open>Exact search\<close>

text \<open>The specification: the \<open>k\<close> nearest of the live nodes, or all of them, nearest first.\<close>

definition nearest_live :: "'r hnsw \<Rightarrow> f32 list \<Rightarrow> nat \<Rightarrow> (node_id \<times> f32) list \<Rightarrow> bool" where
  "nearest_live g q k rs \<longleftrightarrow>
     length rs = min k (live_len g) \<and> distinct (map fst rs) \<and>
     (\<forall>(n, d) \<in> set rs. \<not> is_deleted g n \<and> distance g q n = Inr d) \<and>
     sorted_wrt (\<lambda>a b. \<not> f32_lt (snd b) (snd a)) rs \<and>
     (\<forall>n d. \<not> is_deleted g n \<and> distance g q n = Inr d \<and> n \<notin> fst ` set rs \<longrightarrow>
        (\<forall>(m, e) \<in> set rs. \<not> f32_lt d e))"

definition edges_at :: "'r hnsw \<Rightarrow> u8 \<Rightarrow> (node_id \<times> node_id) set" where
  "edges_at g l = {(a, b). \<exists>ns. neighbors_at g a l = Inr ns \<and> b \<in> set ns}"

lemma closed_at_reach:
  assumes "closed_at g (unat l) V" and "(a, b) \<in> (edges_at g l)\<^sup>*" and "a \<in> V"
  shows "b \<in> V"
  using assms(2,3)
proof (induction rule: rtrancl_induct)
  case (step b c)
  with closed_atD [OF assms(1)] show ?case by (auto simp: edges_at_def)
qed simp

lemma card_valid: "card {n :: node_id. unat n < m} \<le> m"
proof -
  have "unat ` {n :: node_id. unat n < m} \<subseteq> {..<m}" by auto
  then have "card (unat ` {n :: node_id. unat n < m}) \<le> m" using card_mono [of "{..<m}"] by fastforce
  moreover have "card (unat ` {n :: node_id. unat n < m}) = card {n :: node_id. unat n < m}"
    by (intro card_image inj_onI) simp
  ultimately show ?thesis by simp
qed

lemma live_len_card:
  assumes "hnsw_len g \<le> 2 ^ 32"
  shows "live_len g = card {n. \<not> is_deleted g n}"
proof -
  have "{n. \<not> is_deleted g n} = word_of_nat ` {i. i < length (hi_nodes g) \<and> \<not> nd_deleted (hi_nodes g ! i)}"
    (is "_ = word_of_nat ` ?I")
  proof (intro equalityI subsetI)
    fix n
    assume "n \<in> {n. \<not> is_deleted g n}"
    then have "unat n \<in> ?I" "n = word_of_nat (unat n)" by (simp_all add: is_deleted_def)
    then show "n \<in> word_of_nat ` ?I" by (rule rev_image_eqI)
  next
    fix n :: node_id
    assume "n \<in> word_of_nat ` ?I"
    then obtain i where "n = word_of_nat i" "i \<in> ?I" by auto
    then show "n \<in> {n. \<not> is_deleted g n}" using assms by (simp add: is_deleted_def new_node_id hnsw_len_def)
  qed
  moreover have "inj_on (word_of_nat :: nat \<Rightarrow> node_id) ?I"
  proof (rule inj_onI)
    fix i j
    assume "i \<in> ?I" "j \<in> ?I" "(word_of_nat i :: node_id) = word_of_nat j"
    then have "unat (word_of_nat i :: node_id) = unat (word_of_nat j :: node_id)" "i < 2 ^ 32" "j < 2 ^ 32"
      using assms by (simp_all add: hnsw_len_def)
    then show "i = j" by (simp only: new_node_id)
  qed
  moreover have "live_len g = card ?I" by (simp add: live_len_def length_filter_conv_card)
  ultimately show ?thesis by (simp add: card_image)
qed

lemma top_live_nearest:
  assumes ok: "candidates_ok g q V raw" and ids: "cd_id ` set raw = V"
    and V: "\<forall>n \<in> V. unat n < length (hi_nodes g)" and all: "\<forall>n. \<not> is_deleted g n \<longrightarrow> n \<in> V"
    and num: "\<forall>c \<in> set raw. \<not> f32_is_nan (cd_dist c)" and len: "hnsw_len g \<le> 2 ^ 32"
  shows "nearest_live g q k (map (\<lambda>c. (cd_id c, cd_dist c)) (top_live g k raw))"
proof -
  let ?live = "[c \<leftarrow> raw. \<not> nd_deleted (hi_nodes g ! unat (cd_id c))]" and ?top = "top_live g k raw"
  have live_ids: "cd_id ` set ?live = {n. \<not> is_deleted g n}"
  proof (intro equalityI subsetI)
    fix n
    assume "n \<in> cd_id ` set ?live"
    then obtain c where "c \<in> set raw" "\<not> nd_deleted (hi_nodes g ! unat (cd_id c))" "n = cd_id c" by auto
    with ids V show "n \<in> {n. \<not> is_deleted g n}" by (auto simp: is_deleted_def not_le)
  next
    fix n
    assume n: "n \<in> {n. \<not> is_deleted g n}"
    with all ids obtain c where "c \<in> set raw" "n = cd_id c" by blast
    with n show "n \<in> cd_id ` set ?live" by (auto simp: is_deleted_def)
  qed
  have "distinct (map cd_id ?live)" using ok by (simp add: candidates_ok_def distinct_map_filter)
  from distinct_card [OF this] have "length ?live = card (cd_id ` set ?live)" by simp
  then have "length ?live = live_len g" by (simp only: live_ids live_len_card [OF len])
  then have length: "length ?top = min k (live_len g)"
    by (simp add: top_live_def sort_candidates_def min.commute)
  have top: "candidates_ok g q {n \<in> V. live_node g (unat n)} ?top" using top_live_ok [OF ok V] by simp
  have each: "\<not> is_deleted g (cd_id c) \<and> distance g q (cd_id c) = Inr (cd_dist c)" if "c \<in> set ?top" for c
    using top that by (auto simp: candidates_ok_def is_deleted_def live_node_def distance_ok)
  have rest: "\<not> f32_lt (cd_dist c) (cd_dist t)" if "c \<in> set ?live" "c \<notin> set ?top" "t \<in> set ?top" for c t
  proof -
    have split: "sort_candidates ?live = ?top @ drop k (sort_candidates ?live)" by (simp add: top_live_def)
    have "c \<in> set (sort_candidates ?live)" using that(1) by simp
    then have "c \<in> set (drop k (sort_candidates ?live))" using that(2) by (subst (asm) split) simp
    moreover have "sorted_wrt (\<lambda>a b. f32_key (cd_dist a) \<le> f32_key (cd_dist b)) (sort_candidates ?live)"
      using sorted_sort_key [of "\<lambda>c. f32_key (cd_dist c)" ?live] by (simp add: sort_candidates_def sorted_map)
    then have "sorted_wrt (\<lambda>a b. f32_key (cd_dist a) \<le> f32_key (cd_dist b))
        (?top @ drop k (sort_candidates ?live))" by (subst (asm) split)
    ultimately have "f32_key (cd_dist t) \<le> f32_key (cd_dist c)"
      using that(3) by (simp add: sorted_wrt_append)
    moreover have "t \<in> set ?live"
      using that(3) in_set_takeD [of t k "sort_candidates ?live"] by (simp add: top_live_def)
    then have "\<not> f32_is_nan (cd_dist t)" "\<not> f32_is_nan (cd_dist c)" using that(1) num by auto
    ultimately show ?thesis using f32_lt_key by force
  qed
  have "\<not> f32_lt d (cd_dist t)"
    if n: "\<not> is_deleted g n" "distance g q n = Inr d" "n \<notin> cd_id ` set ?top" and t: "t \<in> set ?top" for n d t
  proof -
    from n(1) live_ids obtain c where c: "c \<in> set ?live" "n = cd_id c" by blast
    then have "cd_dist c = d"
      using ok n(1,2) by (auto simp: candidates_ok_def is_deleted_def distance_ok)
    with rest [OF c(1) _ t] c(2) n(3) show ?thesis by blast
  qed
  with length top each top_live_sorted [OF num, of g k] show ?thesis
    unfolding nearest_live_def by (auto simp: candidates_ok_def sorted_wrt_map comp_def image_image)
qed

lemma hnsw_search_exact_raw:
  assumes g: "graph_ok g" and q: "length query = hi_dim g" "preprocess_vector (hi_metric g) query = Some p"
    and ef: "hnsw_len g \<le> max (max (hp_ef_search (hi_params g)) (k * 2)) k"
    and reach: "\<forall>a b. unat a < hnsw_len g \<longrightarrow> \<not> is_deleted g b \<longrightarrow> (a, b) \<in> (edges_at g 0)\<^sup>*"
    and num: "\<forall>n d. distance g p n = Inr d \<longrightarrow> \<not> f32_is_nan d"
  shows "\<exists>rs. hnsw_search g query k = Inr rs \<and> nearest_live g p k rs"
proof (cases "k = 0 \<or> hi_entry g = None")
  case True
  have "live_len g = 0" if "hi_entry g = None"
    using g that by (auto simp: graph_ok_def entry_ok_def live_node_def live_len_def filter_empty_conv in_set_conv_nth)
  with True show ?thesis by (auto simp: hnsw_search_def nearest_live_def split: option.split)
next
  case False
  then obtain entry where k: "k \<noteq> 0" and e: "hi_entry g = Some entry" by auto
  from search_run [OF g k e q] obtain cur where cur: "has_layer g 0 cur"
    and run: "hnsw_search g query k = (case search_layer g p cur 0 (search_ef g k) of
       Inl e \<Rightarrow> Inl e | Inr raw \<Rightarrow> Inr (map (\<lambda>c. (cd_id c, cd_dist c)) (top_live g k raw)))" by blast
  let ?S = "{n. has_layer g 0 n}"
  have S: "closed_at g (unat (0 :: u8)) ?S"
    using g closed_all [of g 0] by (simp add: graph_ok_def linked_def)
  have val: "\<forall>n \<in> ?S. unat n < length (hi_nodes g)" by (simp add: has_layer_def)
  have "card ?S \<le> card {n :: node_id. unat n < hnsw_len g}"
    using val by (intro card_mono) (auto simp: hnsw_len_def)
  then have "card ?S \<le> search_ef g k" using card_valid [of "hnsw_len g"] ef by (simp add: search_ef_def)
  moreover have nums: "\<forall>n \<in> ?S. \<not> f32_is_nan (dist_to g p n)" using num val distance_ok by blast
  ultimately obtain raw V where
    raw: "search_layer g p cur 0 (search_ef g k) = Inr raw" "cur \<in> V" "V \<subseteq> ?S" "closed_at g (unat (0 :: u8)) V"
      "candidates_ok g p V raw" "cd_id ` set raw = V"
    using search_layer_full [OF S, of cur "search_ef g k" p] cur by blast
  have "\<forall>n. \<not> is_deleted g n \<longrightarrow> n \<in> V"
    using reach closed_at_reach [OF raw(4) _ raw(2)] cur by (auto simp: has_layer_def hnsw_len_def)
  moreover have "\<forall>c \<in> set raw. \<not> f32_is_nan (cd_dist c)"
    using raw(3,5) nums by (auto simp: candidates_ok_def)
  moreover have "\<forall>n \<in> V. unat n < length (hi_nodes g)" using raw(3) val by blast
  moreover have "hnsw_len g \<le> 2 ^ 32" using g by (simp add: graph_ok_def hnsw_len_def)
  ultimately show ?thesis
    using run raw(1) top_live_nearest [OF raw(5,6)] by auto
qed

text \<open>C18: When the beam width \<open>max(ef_search, 2k, k)\<close> covers the arena, every live node can be reached
  from every node at layer 0, and no distance is a non-number, the search is exact: it gives the \<open>k\<close>
  nearest live nodes (all of them if there are fewer), nearest first.
\<close>
theorem hnsw_search_exact:
  assumes g: "graph_ok g" and q: "length query = hi_dim g" "preprocess_vector (hi_metric g) query = Some p"
    and ef: "hnsw_len g \<le> max (max (hp_ef_search (hi_params g)) (k * 2)) k"
    and reach: "\<forall>a b. unat a < hnsw_len g \<longrightarrow> \<not> is_deleted g b \<longrightarrow> (a, b) \<in> (edges_at g 0)\<^sup>*"
    and num: "\<forall>n d. distance g p n = Inr d \<longrightarrow> \<not> f32_is_nan d"
  shows "\<exists>rs. hnsw_search g query k = Inr rs \<and> nearest_live g p k rs"
  using assms by (rule hnsw_search_exact_raw)

lemma line_distances:
  "distance line_graph [F32_ONE] 0 = Inr F32_ONE" "distance line_graph [F32_ONE] 1 = Inr F32_ZERO"
proof -
  have d: "f32_sub F32_ONE F32_ZERO = F32_ONE" "f32_sub F32_ONE F32_ONE = F32_ZERO"
    by (simp_all add: f32_sub_def float_eval)
  have m: "f32_mul F32_ONE F32_ONE = F32_ONE" "f32_mul F32_ZERO F32_ZERO = F32_ZERO"
    by (simp_all add: f32_mul_def float_eval)
  have s: "f32_add F32_NEG_ZERO F32_ONE = F32_ONE" "f32_add F32_NEG_ZERO F32_ZERO = F32_ZERO"
    by (simp_all add: f32_add_def float_eval)
  show "distance line_graph [F32_ONE] 0 = Inr F32_ONE" "distance line_graph [F32_ONE] 1 = Inr F32_ZERO"
    by (simp_all add: distance_def node_at_def distance_for_metric_def distance_euclidean_squared_def
        f32_sum_def d m s)
qed

theorem hnsw_search_exact_witness:
  "\<exists>rs. hnsw_search line_graph [F32_ONE] 1 = Inr rs \<and> nearest_live line_graph [F32_ONE] 1 rs"
proof (rule hnsw_search_exact [OF line_graph_ok])
  have two: "a = 0 \<or> a = 1" if "unat (a :: node_id) < 2" for a
    using that unat_node_eq [of a 0] unat_node_eq [of a 1] by (auto simp: less_two)
  show "length [F32_ONE] = hi_dim line_graph"
    "preprocess_vector (hi_metric line_graph) [F32_ONE] = Some [F32_ONE]"
    "hnsw_len line_graph \<le> max (max (hp_ef_search (hi_params line_graph)) (1 * 2)) 1"
    by (simp_all add: preprocess_vector_def line_finite hnsw_len_def)
  have e: "(0, 1) \<in> edges_at line_graph 0" "(1, 0) \<in> edges_at line_graph 0"
    by (simp_all add: edges_at_def neighbors_at_def node_at_def)
  show "\<forall>a b. unat a < hnsw_len line_graph \<longrightarrow> \<not> is_deleted line_graph b \<longrightarrow> (a, b) \<in> (edges_at line_graph 0)\<^sup>*"
    using two e by (auto simp: hnsw_len_def is_deleted_def not_le intro: r_into_rtrancl)
  show "\<forall>n d. distance line_graph [F32_ONE] n = Inr d \<longrightarrow> \<not> f32_is_nan d"
  proof (intro allI impI)
    fix n d
    assume d: "distance line_graph [F32_ONE] n = Inr d"
    then have "unat n < 2" by (simp add: distance_def node_at_def split: if_splits)
    from two [OF this] d line_distances have "d = F32_ONE \<or> d = F32_ZERO" by auto
    then show "\<not> f32_is_nan d" using line_finite f32_finite_not_nan by auto
  qed
qed

end
