(* ===== verification/Snapshot.thy ===== *)
theory Snapshot
  imports Hnsw_Search BTree
begin

text \<open>
  The snapshot file of a graph, \<^verbatim>\<open>src/src/hnsw/snapshot.rs\<close>, with the two functions of
  \<^verbatim>\<open>src/src/hnsw/index.rs\<close> that serve it. The checksum is the parameter \<open>crc\<close>. A hash map from keys
  to nodes is the list of its bindings in the order of the keys. Positions are \<open>nat\<close>: a read returns
  its value and the next position. Every index and every slice of the decoder is checked as the language
  checks it, and panics when it is out of range.
\<close>

section \<open>Layout\<close>

definition SNAP_MAGIC :: bytes where "SNAP_MAGIC = ascii ''SASTHNS1''"
definition SNAP_VERSION :: u32 where "SNAP_VERSION = 3"
definition SNAP_HEADER_LEN :: nat where "SNAP_HEADER_LEN = 8 + 4 + 4 + 8"
definition SNAP_PARAMS_LEN :: nat where "SNAP_PARAMS_LEN = 1 + 4 + 4 + 4 + 4 + 4 + 8 + 8"
definition SNAP_ENTRY_LEN :: nat where "SNAP_ENTRY_LEN = 1 + 4 + 1"

fun to_tag :: "distance_metric \<Rightarrow> u8" where
  "to_tag Cosine = 0x01"
| "to_tag EuclideanSquared = 0x02"
| "to_tag InnerProduct = 0x03"

definition from_tag :: "u8 \<Rightarrow> error + distance_metric" where
  "from_tag b =
     (if b = 0x01 then Inr Cosine
      else if b = 0x02 then Inr EuclideanSquared
      else if b = 0x03 then Inr InnerProduct
      else Inl (Corruption ''unknown distance metric tag''))"

type_synonym key_map = "(bytes \<times> node_id) list"

section \<open>Encoding\<close>

definition encode_one_node :: "'r hnsw \<Rightarrow> nat \<Rightarrow> bytes option \<Rightarrow> bytes" where
  "encode_one_node g i key =
     (let nd = hi_nodes g ! i;
          key_bytes = (case key of None \<Rightarrow> [] | Some ky \<Rightarrow> ky)
      in [if nd_deleted nd then 1 else 0] @ u32_to_le (word_of_nat (length (nd_vector nd))) @
         concat (map u32_to_le (nd_vector nd)) @
         u32_to_le (word_of_nat (length key_bytes)) @ key_bytes @
         [word_of_nat (length (nd_neighbors nd))] @
         concat (map (\<lambda>layer. u32_to_le (word_of_nat (length layer)) @ concat (map u32_to_le layer))
           (nd_neighbors nd)))"

text \<open>The reverse map, as the vector the encoder fills.\<close>

fun fill_keys :: "bytes option list \<Rightarrow> key_map \<Rightarrow> bytes option list" where
  "fill_keys ks [] = ks"
| "fill_keys ks ((key, nid) # rest) =
     fill_keys (if unat nid < length ks then ks[unat nid := Some key] else ks) rest"

definition encode_entry_point :: "entry_point option \<Rightarrow> bytes" where
  "encode_entry_point entry =
     (case entry of
        Some e \<Rightarrow> [1] @ u32_to_le (ep_node e) @ [ep_level e]
      | None \<Rightarrow> [0] @ u32_to_le 0 @ [0])"

definition encode_params :: "'r hnsw \<Rightarrow> u64 \<Rightarrow> bytes" where
  "encode_params g next_sstable_id =
     [to_tag (hi_metric g)] @ u32_to_le (word_of_nat (hp_m (hi_params g))) @
     u32_to_le (word_of_nat (hp_m_max_0 (hi_params g))) @
     u32_to_le (word_of_nat (hp_ef_construction (hi_params g))) @
     u32_to_le (word_of_nat (hp_ef_search (hi_params g))) @ u32_to_le (word_of_nat (hi_dim g)) @
     u64_to_le (hp_seed (hi_params g)) @ u64_to_le next_sstable_id"

definition encode_snapshot :: "(bytes \<Rightarrow> u32) \<Rightarrow> 'r hnsw \<Rightarrow> u64 \<Rightarrow> key_map \<Rightarrow> bytes" where
  "encode_snapshot crc g next_sstable_id keys_by_node =
     (let keys_by_id = fill_keys (replicate (hnsw_len g) None) keys_by_node;
          out = SNAP_MAGIC @ u32_to_le SNAP_VERSION @ u32_to_le 0 @ replicate 8 0 @
                encode_params g next_sstable_id @ encode_entry_point (hi_entry g) @
                u32_to_le (word_of_nat (hnsw_len g)) @
                concat (map (\<lambda>i. encode_one_node g i (keys_by_id ! i))
                  [0..<unat (word_of_nat (hnsw_len g) :: u32)]);
          c = crc out
      in out @ u32_to_le c)"

section \<open>Decoding\<close>

text \<open>The \<^verbatim>\<open>?\<close> of the code.\<close>

definition and_then :: "error + 'a \<Rightarrow> ('a \<Rightarrow> error + 'b) \<Rightarrow> error + 'b" where
  "and_then r f = (case r of Inl e \<Rightarrow> Inl e | Inr x \<Rightarrow> f x)"

lemma and_then_simps [simp]: "and_then (Inl e) f = Inl e" "and_then (Inr x) f = f x"
  by (simp_all add: and_then_def)

text \<open>\<^verbatim>\<open>xs[i]\<close> and \<^verbatim>\<open>xs[a..b]\<close>.\<close>

definition index_at :: "'a list \<Rightarrow> nat \<Rightarrow> error + 'a" where
  "index_at xs i = (if i < length xs then Inr (xs ! i) else Inl (Panic ''index out of bounds''))"

definition slice_at :: "'a list \<Rightarrow> nat \<Rightarrow> nat \<Rightarrow> error + 'a list" where
  "slice_at xs a b =
     (if a \<le> b \<and> b \<le> length xs then Inr (subslice a b xs) else Inl (Panic ''slice index out of range''))"

lemma index_at_ok [simp]: "i < length xs \<Longrightarrow> index_at xs i = Inr (xs ! i)"
  by (simp add: index_at_def)

lemma slice_at_ok [simp]: "a \<le> b \<Longrightarrow> b \<le> length xs \<Longrightarrow> slice_at xs a b = Inr (subslice a b xs)"
  by (simp add: slice_at_def)

definition read_u8 :: "bytes \<Rightarrow> nat \<Rightarrow> error + (u8 \<times> nat)" where
  "read_u8 buf cursor =
     (if cursor + 1 > length buf then Inl (Corruption ''unexpected end of snapshot (u8)'')
      else and_then (index_at buf cursor) (\<lambda>v. Inr (v, cursor + 1)))"

definition read_u32 :: "bytes \<Rightarrow> nat \<Rightarrow> error + (u32 \<times> nat)" where
  "read_u32 buf cursor =
     (if cursor + 4 > length buf then Inl (Corruption ''unexpected end of snapshot (u32)'')
      else and_then (slice_at buf cursor (cursor + 4)) (\<lambda>bs. Inr (u32_from_le bs, cursor + 4)))"

definition read_u64 :: "bytes \<Rightarrow> nat \<Rightarrow> error + (u64 \<times> nat)" where
  "read_u64 buf cursor =
     (if cursor + 8 > length buf then Inl (Corruption ''unexpected end of snapshot (u64)'')
      else and_then (slice_at buf cursor (cursor + 8)) (\<lambda>bs. Inr (u64_from_le bs, cursor + 8)))"

definition read_f32 :: "bytes \<Rightarrow> nat \<Rightarrow> error + (f32 \<times> nat)" where
  "read_f32 buf cursor =
     (if cursor + 4 > length buf then Inl (Corruption ''unexpected end of snapshot (f32)'')
      else and_then (slice_at buf cursor (cursor + 4)) (\<lambda>bs. Inr (u32_from_le bs, cursor + 4)))"

record raw_node =
  rn_vector :: "f32 list"
  rn_neighbors :: "node_id list list"
  rn_deleted :: bool

fun read_vector :: "nat \<Rightarrow> bytes \<Rightarrow> nat \<Rightarrow> error + (f32 list \<times> nat)" where
  "read_vector 0 body cursor = Inr ([], cursor)"
| "read_vector (Suc n) body cursor =
     and_then (read_f32 body cursor) (\<lambda>(x, cursor).
     and_then (read_vector n body cursor) (\<lambda>(xs, cursor). Inr (x # xs, cursor)))"

fun read_ids :: "nat \<Rightarrow> nat \<Rightarrow> bytes \<Rightarrow> nat \<Rightarrow> error + (node_id list \<times> nat)" where
  "read_ids node_count 0 body cursor = Inr ([], cursor)"
| "read_ids node_count (Suc n) body cursor =
     and_then (read_u32 body cursor) (\<lambda>(nid, cursor).
     if unat nid \<ge> node_count then Inl (Corruption ''neighbor id out of range'')
     else and_then (read_ids node_count n body cursor) (\<lambda>(ids, cursor). Inr (nid # ids, cursor)))"

fun read_layers :: "nat \<Rightarrow> nat \<Rightarrow> bytes \<Rightarrow> nat \<Rightarrow> error + (node_id list list \<times> nat)" where
  "read_layers node_count 0 body cursor = Inr ([], cursor)"
| "read_layers node_count (Suc n) body cursor =
     and_then (read_u32 body cursor) (\<lambda>(nc, cursor).
     and_then (read_ids node_count (unat nc) body cursor) (\<lambda>(ids, cursor).
     and_then (read_layers node_count n body cursor) (\<lambda>(layers, cursor). Inr (ids # layers, cursor))))"

text \<open>The body of the loop over the nodes, and the loop.\<close>

definition decode_node ::
  "nat \<Rightarrow> nat \<Rightarrow> nat \<Rightarrow> bytes \<Rightarrow> nat \<Rightarrow> key_map \<Rightarrow> error + ((raw_node \<times> key_map) \<times> nat)" where
  "decode_node node_count dim i body cursor keys =
     and_then (read_u8 body cursor) (\<lambda>(b, cursor).
     let deleted = (b \<noteq> 0) in
     and_then (read_u32 body cursor) (\<lambda>(vec_len, cursor).
     if unat vec_len \<noteq> dim then Inl (Corruption ''vector length differs from params dim'') else
     and_then (read_vector (unat vec_len) body cursor) (\<lambda>(vector, cursor).
     and_then (read_u32 body cursor) (\<lambda>(key_len, cursor).
     if cursor + unat key_len > length body
     then Inl (Corruption ''key bytes extend past end of body'') else
     and_then (slice_at body cursor (cursor + unat key_len)) (\<lambda>key_bytes.
     let cursor = cursor + unat key_len in
     if key_bytes = [] \<and> \<not> deleted then Inl (Corruption ''live node has empty key'') else
     if \<not> deleted \<and> bt_get keys key_bytes \<noteq> None
     then Inl (Corruption ''duplicate key in snapshot'') else
     let keys = (if \<not> deleted then bt_insert keys key_bytes (word_of_nat i) else keys) in
     and_then (read_u8 body cursor) (\<lambda>(layer_count, cursor).
     and_then (read_layers node_count (unat layer_count) body cursor) (\<lambda>(neighbors, cursor).
     Inr ((\<lparr>rn_vector = vector, rn_neighbors = neighbors, rn_deleted = deleted\<rparr>, keys), cursor))))))))"

fun decode_nodes ::
  "nat \<Rightarrow> nat \<Rightarrow> nat list \<Rightarrow> bytes \<Rightarrow> nat \<Rightarrow> key_map \<Rightarrow> error + ((raw_node list \<times> key_map) \<times> nat)" where
  "decode_nodes node_count dim [] body cursor keys = Inr (([], keys), cursor)"
| "decode_nodes node_count dim (i # is) body cursor keys =
     and_then (decode_node node_count dim i body cursor keys) (\<lambda>((raw, keys), cursor).
     and_then (decode_nodes node_count dim is body cursor keys) (\<lambda>((raws, keys), cursor).
     Inr ((raw # raws, keys), cursor)))"

definition node_of_raw :: "raw_node \<Rightarrow> node" where
  "node_of_raw raw =
     \<lparr>nd_vector = rn_vector raw, nd_neighbors = rn_neighbors raw, nd_deleted = rn_deleted raw\<rparr>"

definition set_state_from_snapshot ::
  "raw_node list \<Rightarrow> (node_id \<times> u8) option \<Rightarrow> nat \<Rightarrow> 'r hnsw \<Rightarrow> 'r hnsw" where
  "set_state_from_snapshot raw_nodes entry dim g =
     g\<lparr>hi_dim := dim, hi_nodes := map node_of_raw raw_nodes,
       hi_entry := map_option (\<lambda>(n, l). \<lparr>ep_node = n, ep_level = l\<rparr>) entry\<rparr>"

definition decode_params :: "bytes \<Rightarrow> nat \<Rightarrow> error + ((hnsw_params \<times> u64) \<times> nat)" where
  "decode_params body cursor =
     and_then (read_u8 body cursor) (\<lambda>(tag, cursor).
     and_then (from_tag tag) (\<lambda>metric.
     and_then (read_u32 body cursor) (\<lambda>(m, cursor).
     and_then (read_u32 body cursor) (\<lambda>(m_max_0, cursor).
     and_then (read_u32 body cursor) (\<lambda>(ef_construction, cursor).
     and_then (read_u32 body cursor) (\<lambda>(ef_search, cursor).
     and_then (read_u32 body cursor) (\<lambda>(dim, cursor).
     and_then (read_u64 body cursor) (\<lambda>(seed, cursor).
     and_then (read_u64 body cursor) (\<lambda>(next_sstable_id, cursor).
     Inr ((\<lparr>hp_metric = metric, hp_m = unat m, hp_m_max_0 = unat m_max_0,
            hp_ef_construction = unat ef_construction, hp_ef_search = unat ef_search,
            hp_dim = unat dim, hp_seed = seed\<rparr>, next_sstable_id), cursor))))))))))"

definition decode_entry_point :: "bytes \<Rightarrow> nat \<Rightarrow> error + ((node_id \<times> u8) option \<times> nat)" where
  "decode_entry_point body cursor =
     and_then (read_u8 body cursor) (\<lambda>(entry_present, cursor).
     and_then (read_u32 body cursor) (\<lambda>(entry_node, cursor).
     and_then (read_u8 body cursor) (\<lambda>(entry_level, cursor).
     Inr (if entry_present = 1 then Some (entry_node, entry_level) else None, cursor))))"

text \<open>
  \<^verbatim>\<open>bytes.len() - 4\<close> splits off the checksum. On fewer than four bytes the subtraction panics, or wraps and
  the slice panics.
\<close>

definition split_crc :: "bytes \<Rightarrow> error + (bytes \<times> bytes)" where
  "split_crc bs =
     (if length bs < 4 then Inl (Panic ''attempt to subtract with overflow'')
      else
        (let crc_offset = length bs - 4
         in and_then (slice_at bs crc_offset (length bs)) (\<lambda>stored.
            and_then (slice_at bs 0 crc_offset) (\<lambda>body. Inr (body, stored)))))"

text \<open>The cross-check of the entry point against the decoded nodes.\<close>

definition check_entry :: "(node_id \<times> u8) option \<Rightarrow> raw_node list \<Rightarrow> nat \<Rightarrow> error + unit" where
  "check_entry entry decoded_nodes node_count =
     (case entry of
        None \<Rightarrow> Inr ()
      | Some (n, level) \<Rightarrow>
          if unat n \<ge> node_count then Inl (Corruption ''entry node out of range'')
          else
            and_then (index_at decoded_nodes (unat n)) (\<lambda>raw.
            let layers_present = length (rn_neighbors raw)
            in if layers_present = 0 \<or> unat level \<ge> layers_present
               then Inl (Corruption ''entry level inconsistent with layer count'') else Inr ()))"

definition decode_snapshot ::
  "(bytes \<Rightarrow> u32) \<Rightarrow> 'r rng_lib \<Rightarrow> bytes \<Rightarrow> error + ('r hnsw \<times> key_map \<times> u64)" where
  "decode_snapshot crc lib bs =
     (let min_len = SNAP_HEADER_LEN + SNAP_PARAMS_LEN + SNAP_ENTRY_LEN + 4 + 4 in
      if length bs < min_len then Inl (Corruption ''snapshot shorter than minimum'') else
      and_then (split_crc bs) (\<lambda>(body, stored).
      let stored_crc = u32_from_le stored;
          computed_crc = crc body in
      if stored_crc \<noteq> computed_crc then Inl (Corruption ''snapshot CRC mismatch'') else
      let cursor = 0 in
      and_then (slice_at body cursor (cursor + 8)) (\<lambda>magic.
      if magic \<noteq> SNAP_MAGIC then Inl (Corruption ''snapshot magic mismatch'') else
      let cursor = cursor + 8 in
      and_then (read_u32 body cursor) (\<lambda>(version, cursor).
      if version \<noteq> SNAP_VERSION then Inl (Corruption ''unsupported snapshot version'') else
      and_then (read_u32 body cursor) (\<lambda>(flags, cursor).
      let cursor = cursor + 8 in
      and_then (decode_params body cursor) (\<lambda>((params, next_sstable_id), cursor).
      and_then (decode_entry_point body cursor) (\<lambda>(entry, cursor).
      let index = hnsw_new lib params in
      and_then (read_u32 body cursor) (\<lambda>(node_count, cursor).
      and_then (decode_nodes (unat node_count) (hp_dim params) [0..<unat node_count] body cursor [])
        (\<lambda>((decoded_nodes, keys_by_node), cursor).
      if cursor \<noteq> length body then Inl (Corruption ''snapshot has trailing garbage'') else
      and_then (check_entry entry decoded_nodes (unat node_count)) (\<lambda>_.
      Inr (set_state_from_snapshot decoded_nodes entry (hp_dim params) index,
           keys_by_node, next_sstable_id)))))))))))"

end
