(* ===== verification/Snapshot_Roundtrip.thy ===== *)
theory Snapshot_Roundtrip
  imports Snapshot
begin

text \<open>
  The decoder reads back what the encoder wrote. Each reader is related to the bytes it consumes by
  \<open>reads\<close>, and the relation follows the sequencing of readers.
\<close>

section \<open>Readers and the bytes they consume\<close>

definition reads :: "(bytes \<Rightarrow> nat \<Rightarrow> error + ('a \<times> nat)) \<Rightarrow> bytes \<Rightarrow> 'a \<Rightarrow> bool" where
  "reads dec bs x \<longleftrightarrow> (\<forall>pre post. dec (pre @ bs @ post) (length pre) = Inr (x, length pre + length bs))"

lemma readsD: "reads dec bs x \<Longrightarrow> dec (pre @ bs @ post) (length pre) = Inr (x, length pre + length bs)"
  by (simp add: reads_def)

lemma reads_done: "reads (\<lambda>b c. Inr (x, c)) [] x"
  by (simp add: reads_def)

lemma reads_then:
  assumes "reads dec bs x" and "reads (f x) bs' y"
  shows "reads (\<lambda>b c. and_then (dec b c) (\<lambda>(x, c). f x b c)) (bs @ bs') y"
  unfolding reads_def
proof (intro allI)
  fix pre post
  have "dec (pre @ bs @ bs' @ post) (length pre) = Inr (x, length pre + length bs)"
    using assms(1) by (rule readsD)
  moreover have "f x ((pre @ bs) @ bs' @ post) (length (pre @ bs)) = Inr (y, length (pre @ bs) + length bs')"
    using assms(2) by (rule readsD)
  ultimately show "and_then (dec (pre @ (bs @ bs') @ post) (length pre)) (\<lambda>(x, c). f x (pre @ (bs @ bs') @ post) c)
      = Inr (y, length pre + length (bs @ bs'))" by simp
qed

text \<open>The last reader of a sequence, whose value is only wrapped up.\<close>

lemma reads_last:
  assumes "reads dec bs x"
  shows "reads (\<lambda>b c. and_then (dec b c) (\<lambda>(x, c). Inr (f x, c))) bs (f x)"
  using assms by (simp add: reads_def)

lemma reads_if: "\<not> P \<Longrightarrow> reads f bs x \<Longrightarrow> reads (\<lambda>b c. if P then Inl e else f b c) bs x"
  by simp

lemma reads_slice:
  assumes "reads (f ky) bs y" and "n = length ky"
  shows "reads (\<lambda>b c. if c + n > length b then Inl e
      else and_then (slice_at b c (c + n)) (\<lambda>ky. f ky b (c + n))) (ky @ bs) y"
  unfolding reads_def
proof (intro allI)
  fix pre post
  have "f ky ((pre @ ky) @ bs @ post) (length (pre @ ky)) = Inr (y, length (pre @ ky) + length bs)"
    using assms(1) by (rule readsD)
  moreover have "subslice (length pre) (length pre + length ky) (pre @ ky @ bs @ post) = ky"
    by (rule subslice_mid) simp_all
  ultimately show "(if length pre + n > length (pre @ (ky @ bs) @ post) then Inl e
      else and_then (slice_at (pre @ (ky @ bs) @ post) (length pre) (length pre + n))
        (\<lambda>ky'. f ky' (pre @ (ky @ bs) @ post) (length pre + n))) = Inr (y, length pre + length (ky @ bs))"
    using assms(2) by simp
qed

lemma reads_u8: "reads read_u8 [b] b"
  by (simp add: reads_def read_u8_def)

lemma reads_u32: "reads read_u32 (u32_to_le w) w"
  by (simp add: reads_def read_u32_def subslice_mid)

lemma reads_u64: "reads read_u64 (u64_to_le w) w"
  by (simp add: reads_def read_u64_def subslice_mid)

lemma reads_f32: "reads read_f32 (u32_to_le w) w"
  by (simp add: reads_def read_f32_def subslice_mid)

text \<open>
  A reader of \<open>n\<close> values one after the other. The three loops of the decoder are instances.
\<close>

locale repeated =
  fixes dec :: "bytes \<Rightarrow> nat \<Rightarrow> error + ('a \<times> nat)"
    and many :: "nat \<Rightarrow> bytes \<Rightarrow> nat \<Rightarrow> error + ('a list \<times> nat)"
    and enc :: "'a \<Rightarrow> bytes"
    and valid :: "'a \<Rightarrow> bool"
  assumes many_0: "many 0 b c = Inr ([], c)"
    and many_Suc: "many (Suc n) b c =
      and_then (dec b c) (\<lambda>(x, c). and_then (many n b c) (\<lambda>(xs, c). Inr (x # xs, c)))"
    and dec_enc: "valid x \<Longrightarrow> reads dec (enc x) x"
begin

lemma reads_many: "\<forall>x \<in> set xs. valid x \<Longrightarrow> reads (many (length xs)) (concat (map enc xs)) xs"
proof (induction xs)
  case Nil
  then show ?case by (simp add: reads_def many_0)
next
  case (Cons x xs)
  have "reads (\<lambda>b c. and_then (dec b c) (\<lambda>(x, c). and_then (many (length xs) b c) (\<lambda>(xs, c). Inr (x # xs, c))))
      (enc x @ concat (map enc xs)) (x # xs)"
  proof (rule reads_then [OF dec_enc])
    show "valid x" using Cons(2) by simp
    show "reads (\<lambda>b c. and_then (many (length xs) b c) (\<lambda>(xs, c). Inr (x # xs, c))) (concat (map enc xs)) (x # xs)"
      using Cons by (intro reads_last [where f = "\<lambda>xs. x # xs"]) simp
  qed
  then show ?case by (simp add: many_Suc [abs_def] reads_def)
qed

end

interpretation vector_reader: repeated read_f32 read_vector u32_to_le "\<lambda>_. True"
  by unfold_locales (simp_all add: reads_f32)

definition read_id :: "nat \<Rightarrow> bytes \<Rightarrow> nat \<Rightarrow> error + (node_id \<times> nat)" where
  "read_id node_count b c = and_then (read_u32 b c) (\<lambda>(nid, c).
     if unat nid \<ge> node_count then Inl (Corruption ''neighbor id out of range'') else Inr (nid, c))"

interpretation ids_reader: repeated "read_id m" "read_ids m" u32_to_le "\<lambda>n. unat n < m"
proof
  show "read_ids m 0 b c = Inr ([], c)" for b c by simp
  show "read_ids m (Suc n) b c =
      and_then (read_id m b c) (\<lambda>(x, c). and_then (read_ids m n b c) (\<lambda>(xs, c). Inr (x # xs, c)))" for n b c
    by (cases "read_u32 b c") (auto simp: read_id_def)
  show "reads (read_id m) (u32_to_le x) x" if "unat x < m" for x
    using reads_u32 that by (simp add: reads_def read_id_def)
qed

definition read_layer :: "nat \<Rightarrow> bytes \<Rightarrow> nat \<Rightarrow> error + (node_id list \<times> nat)" where
  "read_layer node_count b c = and_then (read_u32 b c) (\<lambda>(nc, c). read_ids node_count (unat nc) b c)"

definition layer_enc :: "node_id list \<Rightarrow> bytes" where
  "layer_enc layer = u32_to_le (word_of_nat (length layer)) @ concat (map u32_to_le layer)"

lemma reads_layer:
  assumes "length layer < 2 ^ 32" and "\<forall>n \<in> set layer. unat n < m"
  shows "reads (read_layer m) (layer_enc layer) layer"
  unfolding read_layer_def layer_enc_def
proof (rule reads_then [OF reads_u32])
  show "reads (read_ids m (unat (word_of_nat (length layer) :: u32))) (concat (map u32_to_le layer)) layer"
    using ids_reader.reads_many [OF assms(2)] assms(1) by (simp add: unat_u32_of_nat)
qed

interpretation layers_reader: repeated "read_layer m" "read_layers m" layer_enc
  "\<lambda>layer. length layer < 2 ^ 32 \<and> (\<forall>n \<in> set layer. unat n < m)"
proof
  show "read_layers m 0 b c = Inr ([], c)" for b c by simp
  show "read_layers m (Suc n) b c =
      and_then (read_layer m b c) (\<lambda>(x, c). and_then (read_layers m n b c) (\<lambda>(xs, c). Inr (x # xs, c)))" for n b c
    by (cases "read_u32 b c") (auto simp: read_layer_def)
  show "reads (read_layer m) (layer_enc x) x" if "length x < 2 ^ 32 \<and> (\<forall>n \<in> set x. unat n < m)" for x
    using that by (intro reads_layer) simp_all
qed

section \<open>Nodes\<close>

definition raw_of_node :: "node \<Rightarrow> raw_node" where
  "raw_of_node nd = \<lparr>rn_vector = nd_vector nd, rn_neighbors = nd_neighbors nd, rn_deleted = nd_deleted nd\<rparr>"

lemma node_of_raw_of_node [simp]: "node_of_raw (raw_of_node nd) = nd"
  by (simp add: node_of_raw_def raw_of_node_def)

text \<open>The nodes that a snapshot can hold.\<close>

definition storable :: "nat \<Rightarrow> nat \<Rightarrow> node \<Rightarrow> bool" where
  "storable node_count dim nd \<longleftrightarrow>
     length (nd_vector nd) = dim \<and> dim < 2 ^ 32 \<and> length (nd_neighbors nd) < 256 \<and>
     (\<forall>layer \<in> set (nd_neighbors nd). length layer < 2 ^ 32 \<and> (\<forall>n \<in> set layer. unat n < node_count))"

lemma reads_node:
  assumes at: "hi_nodes g ! i = nd" and nd: "storable m dim nd"
    and key: "ky = (case k of None \<Rightarrow> [] | Some ky \<Rightarrow> ky)" "length ky < 2 ^ 32"
    and live: "nd_deleted nd \<or> ky \<noteq> [] \<and> bt_get keys ky = None"
  shows "reads (\<lambda>b c. decode_node m dim i b c keys) (encode_one_node g i k)
    (raw_of_node nd, if nd_deleted nd then keys else bt_insert keys ky (word_of_nat i))"
proof -
  have len: "unat (word_of_nat (length (nd_vector nd)) :: u32) = length (nd_vector nd)"
    "unat (word_of_nat (length ky) :: u32) = length ky"
    "unat (word_of_nat (length (nd_neighbors nd)) :: u8) = length (nd_neighbors nd)"
    "length (nd_vector nd) = dim"
    using nd key(2) unat_u32_of_nat [of dim] unat_u32_of_nat [of "length ky"] unat_layer [of "length (nd_neighbors nd)"]
    by (simp_all add: storable_def)
  have vec: "reads (read_vector (unat (word_of_nat (length (nd_vector nd)) :: u32)))
      (concat (map u32_to_le (nd_vector nd))) (nd_vector nd)"
    unfolding len(1) by (rule vector_reader.reads_many) simp
  have lay: "reads (read_layers m (unat (word_of_nat (length (nd_neighbors nd)) :: u8)))
      (concat (map layer_enc (nd_neighbors nd))) (nd_neighbors nd)"
    unfolding len(3) by (rule layers_reader.reads_many) (use nd in \<open>simp add: storable_def\<close>)
  have dims: "\<not> unat (word_of_nat (length (nd_vector nd)) :: u32) \<noteq> dim"
    using len(1) unfolding len(4) by simp
  have flag: "((if nd_deleted nd then 1 else 0) \<noteq> (0 :: u8)) = nd_deleted nd" by simp
  have empty_key: "\<not> (ky = [] \<and> \<not> (if nd_deleted nd then 1 else 0) \<noteq> (0 :: u8))"
    and duplicate: "\<not> (\<not> (if nd_deleted nd then 1 else 0) \<noteq> (0 :: u8) \<and> bt_get keys ky \<noteq> None)"
    using live by auto
  have "reads (\<lambda>b c. decode_node m dim i b c keys)
    ([if nd_deleted nd then 1 else 0] @ u32_to_le (word_of_nat (length (nd_vector nd))) @
      concat (map u32_to_le (nd_vector nd)) @ u32_to_le (word_of_nat (length ky)) @ ky @
      [word_of_nat (length (nd_neighbors nd))] @ concat (map layer_enc (nd_neighbors nd)))
    (raw_of_node nd, if nd_deleted nd then keys else bt_insert keys ky (word_of_nat i))"
    unfolding decode_node_def Let_def
    apply (rule reads_then [OF reads_u8])
    apply (rule reads_then [OF reads_u32])
    apply (rule reads_if [OF dims])
    apply (rule reads_then [OF vec])
    apply (rule reads_then [OF reads_u32])
    apply (rule reads_slice [where ky = ky])
     apply (rule reads_if [OF empty_key])
     apply (rule reads_if [OF duplicate])
     apply (rule reads_then [OF reads_u8])
    subgoal
      using reads_last [OF lay, of "\<lambda>ns. (\<lparr>rn_vector = nd_vector nd, rn_neighbors = ns,
        rn_deleted = nd_deleted nd\<rparr>, if nd_deleted nd then keys else bt_insert keys ky (word_of_nat i))"]
      by (cases "nd_deleted nd") (simp_all add: raw_of_node_def)
    apply (rule len(2))
    done
  moreover have "layer_enc = (\<lambda>layer. u32_to_le (word_of_nat (length layer)) @ concat (map u32_to_le layer))"
    by (rule ext) (simp add: layer_enc_def)
  ultimately show ?thesis by (simp add: encode_one_node_def Let_def key(1) at)
qed

section \<open>The keys of the nodes\<close>

text \<open>
  The map of a vector index: its keys are not empty, each belongs to one live node, and every live
  node has one.
\<close>

definition keys_ok :: "'r hnsw \<Rightarrow> key_map \<Rightarrow> bool" where
  "keys_ok g keys \<longleftrightarrow> ksorted keys \<and> distinct (map snd keys) \<and>
     (\<forall>(ky, n) \<in> set keys. ky \<noteq> [] \<and> length ky < 2 ^ 32 \<and> live_node g (unat n)) \<and>
     (\<forall>i. live_node g i \<longrightarrow> word_of_nat i \<in> snd ` set keys)"

lemma length_fill_keys [simp]: "length (fill_keys ks keys) = length ks"
  by (induction ks keys rule: fill_keys.induct) simp_all

lemma fill_keys_other:
  "i \<notin> unat ` snd ` set keys \<Longrightarrow> fill_keys ks keys ! i = ks ! i"
  by (induction ks keys rule: fill_keys.induct) (auto simp: nth_list_update)

lemma fill_keys_nth:
  "distinct (map snd keys) \<Longrightarrow> (ky, n) \<in> set keys \<Longrightarrow> unat n < length ks \<Longrightarrow>
   fill_keys ks keys ! unat n = Some ky"
proof (induction ks keys rule: fill_keys.induct)
  case (2 ks key nid rest)
  show ?case
  proof (cases "(ky, n) = (key, nid)")
    case True
    then have "n \<notin> snd ` set rest" using 2(2) by simp
    then have "unat n \<notin> unat ` snd ` set rest" by force
    then show ?thesis using True 2(4) by (simp add: fill_keys_other)
  next
    case False
    then have "(ky, n) \<in> set rest" using 2(3) by auto
    with 2(1) [OF _ this] 2(2,4) show ?thesis by simp
  qed
qed simp

section \<open>The loop over the nodes\<close>

text \<open>The bindings of the nodes before \<open>j\<close>.\<close>

definition keys_below :: "key_map \<Rightarrow> nat \<Rightarrow> key_map \<Rightarrow> bool" where
  "keys_below keys j acc \<longleftrightarrow> ksorted acc \<and>
     (\<forall>ky n. map_of acc ky = Some n \<longleftrightarrow> map_of keys ky = Some n \<and> unat n < j)"

lemma keys_below_all:
  assumes "keys_below keys j acc" and "ksorted keys" and "\<forall>(ky, n) \<in> set keys. unat n < j"
  shows "acc = keys"
proof (rule ksorted_ext)
  show "ksorted acc" "ksorted keys" using assms(1,2) by (simp_all add: keys_below_def)
  have "map_of acc ky = Some n \<longleftrightarrow> map_of keys ky = Some n" for ky n
    using assms(1,3) map_of_SomeD [of keys ky n] by (auto simp: keys_below_def)
  then show "map_of acc = map_of keys" by (metis not_None_eq ext)
qed

lemma keys_below_insert:
  assumes acc: "keys_below keys j acc" and ky: "map_of keys ky = Some n" "unat n = j"
    and keys: "distinct (map snd keys)"
  shows "keys_below keys (Suc j) (bt_insert acc ky n) \<and> bt_get acc ky = None"
proof -
  have uniq: "ky' = ky" if "map_of keys ky' = Some n" for ky'
  proof -
    have "inj_on snd (set keys)" using keys by (simp add: distinct_map)
    from inj_onD [OF this _ map_of_SomeD [OF that] map_of_SomeD [OF ky(1)]] show ?thesis by simp
  qed
  have acc': "ksorted acc" "\<And>ky' m. map_of acc ky' = Some m \<longleftrightarrow> map_of keys ky' = Some m \<and> unat m < j"
    using acc by (auto simp: keys_below_def)
  have "map_of (bt_insert acc ky n) ky' = Some m \<longleftrightarrow> map_of keys ky' = Some m \<and> unat m < Suc j" for ky' m
  proof (cases "ky' = ky")
    case True
    then show ?thesis using ky by auto
  next
    case False
    then have "m \<noteq> n" if "map_of keys ky' = Some m" using uniq [of ky'] that by auto
    then have "unat m \<noteq> j" if "map_of keys ky' = Some m" using ky(2) that unat_node_eq [of m n] by auto
    then show ?thesis using False acc'(2) by (auto simp: less_Suc_eq)
  qed
  moreover have "map_of acc ky = None"
  proof (rule ccontr)
    assume "map_of acc ky \<noteq> None"
    then obtain m where "map_of acc ky = Some m" by blast
    with acc'(2) ky show False by auto
  qed
  ultimately show ?thesis using acc'(1) by (simp add: keys_below_def bt_insert_sorted bt_get_map_of)
qed

lemma keys_below_skip:
  assumes "keys_below keys j acc" and "\<forall>(ky, n) \<in> set keys. unat n \<noteq> j"
  shows "keys_below keys (Suc j) acc"
proof -
  have "unat n < Suc j \<longleftrightarrow> unat n < j" if "map_of keys ky = Some n" for ky n
    using assms(2) map_of_SomeD [OF that] by (auto simp: less_Suc_eq)
  with assms(1) show ?thesis by (auto simp: keys_below_def)
qed

lemma decode_nodes_Cons:
  "decode_nodes m dim (i # is) b c keys =
     and_then (decode_node m dim i b c keys) (\<lambda>(p, c).
     and_then (decode_nodes m dim is b c (snd p)) (\<lambda>(q, c). Inr ((fst p # fst q, snd q), c)))"
  by (simp add: and_then_def split: sum.splits prod.splits)

lemma reads_nodes:
  assumes keys: "keys_ok g keys" and nodes: "\<forall>nd \<in> set (hi_nodes g). storable m dim nd"
    and ks: "ks = fill_keys (replicate (length (hi_nodes g)) None) keys"
    and size: "length (hi_nodes g) < 2 ^ 32"
  shows "keys_below keys j acc \<Longrightarrow> j \<le> length (hi_nodes g) \<Longrightarrow>
    reads (\<lambda>b c. decode_nodes m dim [j..<length (hi_nodes g)] b c acc)
      (concat (map (\<lambda>i. encode_one_node g i (ks ! i)) [j..<length (hi_nodes g)]))
      (map raw_of_node (drop j (hi_nodes g)), keys)"
proof (induction "length (hi_nodes g) - j" arbitrary: j acc)
  case 0
  then have j: "j = length (hi_nodes g)" by simp
  have "\<forall>(ky, n) \<in> set keys. unat n < j" using keys j by (auto simp: keys_ok_def live_node_def)
  from keys_below_all [OF 0(2) _ this] keys have "acc = keys" by (simp add: keys_ok_def)
  then show ?case by (simp add: j reads_done)
next
  case (Suc d)
  then have j: "j < length (hi_nodes g)" by simp
  let ?nd = "hi_nodes g ! j"
  have nid: "unat (word_of_nat j :: node_id) = j" using j size by (simp add: new_node_id)
  obtain ky acc' where
    head: "reads (\<lambda>b c. decode_node m dim j b c acc) (encode_one_node g j (ks ! j)) (raw_of_node ?nd, acc')"
    and acc': "keys_below keys (Suc j) acc'"
  proof (cases "nd_deleted ?nd")
    case True
    have none: "\<forall>(ky, n) \<in> set keys. unat n \<noteq> j" using keys True by (auto simp: keys_ok_def live_node_def)
    then have "j \<notin> unat ` snd ` set keys" by force
    then have "ks ! j = None" using j by (simp add: ks fill_keys_other)
    then have "reads (\<lambda>b c. decode_node m dim j b c acc) (encode_one_node g j (ks ! j)) (raw_of_node ?nd, acc)"
      using reads_node [OF refl, of m dim g j "[]" "ks ! j" acc] nodes j True by simp
    with keys_below_skip [OF Suc(3) none] show ?thesis using that by blast
  next
    case False
    then have "word_of_nat j \<in> snd ` set keys" using keys j by (auto simp: keys_ok_def live_node_def)
    then obtain ky where ky: "(ky, word_of_nat j) \<in> set keys" by auto
    then have "ks ! j = Some ky"
      using fill_keys_nth [of keys ky "word_of_nat j" "replicate (length (hi_nodes g)) None"] keys j
      by (simp add: ks keys_ok_def nid)
    moreover have "map_of keys ky = Some (word_of_nat j)"
      using ky keys by (intro map_of_is_SomeI) (auto simp: keys_ok_def intro: ksorted_distinct)
    note step = keys_below_insert [OF Suc(3) this nid]
    moreover have "ky \<noteq> [] \<and> length ky < 2 ^ 32" using ky keys by (auto simp: keys_ok_def)
    ultimately have "reads (\<lambda>b c. decode_node m dim j b c acc) (encode_one_node g j (ks ! j))
        (raw_of_node ?nd, bt_insert acc ky (word_of_nat j))"
      using reads_node [OF refl, of m dim g j ky "ks ! j" acc] nodes j False keys by (simp add: keys_ok_def)
    with step keys show ?thesis using that by (auto simp: keys_ok_def)
  qed
  have split: "[j..<length (hi_nodes g)] = j # [Suc j..<length (hi_nodes g)]"
    using j by (rule upt_conv_Cons)
  have "reads (\<lambda>b c. decode_nodes m dim [Suc j..<length (hi_nodes g)] b c acc')
      (concat (map (\<lambda>i. encode_one_node g i (ks ! i)) [Suc j..<length (hi_nodes g)]))
      (map raw_of_node (drop (Suc j) (hi_nodes g)), keys)"
    using Suc(1) [of "Suc j" acc'] Suc(2) acc' j by simp
  note tail = reads_last [OF this, where f = "\<lambda>q. (raw_of_node ?nd # fst q, snd q)"]
  have "reads (\<lambda>b c. and_then (decode_node m dim j b c acc) (\<lambda>(p, c).
      and_then (decode_nodes m dim [Suc j..<length (hi_nodes g)] b c (snd p))
        (\<lambda>(q, c). Inr ((fst p # fst q, snd q), c))))
      (encode_one_node g j (ks ! j) @ concat (map (\<lambda>i. encode_one_node g i (ks ! i)) [Suc j..<length (hi_nodes g)]))
      (raw_of_node ?nd # map raw_of_node (drop (Suc j) (hi_nodes g)), keys)"
    using tail by (intro reads_then [OF head]) simp
  then show ?case
    unfolding split decode_nodes_Cons by (simp add: Cons_nth_drop_Suc [OF j, symmetric])
qed

section \<open>The whole snapshot\<close>

text \<open>The sizes a snapshot can hold: every number it stores as a \<open>u32\<close> fits.\<close>

definition sized :: "'r hnsw \<Rightarrow> bool" where
  "sized g \<longleftrightarrow> hp_m (hi_params g) < 2 ^ 32 \<and> hp_m_max_0 (hi_params g) < 2 ^ 32 \<and>
     hp_ef_construction (hi_params g) < 2 ^ 32 \<and> hp_ef_search (hi_params g) < 2 ^ 32 \<and>
     hi_dim g < 2 ^ 32 \<and> length (hi_nodes g) < 2 ^ 32"

text \<open>
  What a snapshot keeps of a graph: everything but the state of the generator, which starts again
  from the seed, and a dimension that was inferred, which becomes a parameter.
\<close>

definition stored_params :: "'r hnsw \<Rightarrow> hnsw_params" where
  "stored_params g = (hi_params g)\<lparr>hp_metric := hi_metric g, hp_dim := hi_dim g\<rparr>"

definition restored :: "'r rng_lib \<Rightarrow> 'r hnsw \<Rightarrow> 'r hnsw" where
  "restored lib g = g\<lparr>hi_params := stored_params g,
     hi_ml := f64_div F64_ONE (rl_ln lib (f64_of_nat (hp_m (hi_params g)))),
     hi_rng := rl_seed lib (hp_seed (hi_params g))\<rparr>"

lemma from_to_tag [simp]: "from_tag (to_tag mt) = Inr mt"
  by (cases mt) (simp_all add: from_tag_def)

lemma reads_tag: "reads (f mt) bs x \<Longrightarrow> reads (\<lambda>b c. and_then (from_tag (to_tag mt)) (\<lambda>y. f y b c)) bs x"
  by simp

lemma reads_params:
  assumes "sized g"
  shows "reads decode_params (encode_params g next_id) (stored_params g, next_id)"
proof -
  have eq: "\<lparr>hp_metric = hi_metric g, hp_m = unat (word_of_nat (hp_m (hi_params g)) :: u32),
      hp_m_max_0 = unat (word_of_nat (hp_m_max_0 (hi_params g)) :: u32),
      hp_ef_construction = unat (word_of_nat (hp_ef_construction (hi_params g)) :: u32),
      hp_ef_search = unat (word_of_nat (hp_ef_search (hi_params g)) :: u32),
      hp_dim = unat (word_of_nat (hi_dim g) :: u32), hp_seed = hp_seed (hi_params g)\<rparr> = stored_params g"
    using assms by (simp add: sized_def stored_params_def unat_u32_of_nat)
  show ?thesis
    unfolding decode_params_def encode_params_def
    apply (rule reads_then [OF reads_u8])
    apply (rule reads_tag)
    apply (rule reads_then [OF reads_u32])+
    apply (rule reads_then [OF reads_u64])
    apply (use reads_last [OF reads_u64, where f = "\<lambda>i. (stored_params g, i)"] in \<open>simp add: eq\<close>)
    done
qed

lemma reads_entry:
  "reads decode_entry_point (encode_entry_point entry) (map_option (\<lambda>e. (ep_node e, ep_level e)) entry)"
proof -
  have "reads decode_entry_point ([p] @ u32_to_le n @ [l]) (if p = 1 then Some (n, l) else None)" for p n l
    unfolding decode_entry_point_def
    by (intro reads_then [OF reads_u8] reads_then [OF reads_u32] reads_last [OF reads_u8])
  from this [of 1] this [of 0 0 0] show ?thesis
    by (cases entry) (simp_all add: encode_entry_point_def)
qed

lemma storable_nodes:
  assumes g: "graph_ok g" and sz: "sized g"
  shows "\<forall>nd \<in> set (hi_nodes g). storable (length (hi_nodes g)) (hi_dim g) nd"
proof
  fix nd
  assume "nd \<in> set (hi_nodes g)"
  then obtain i where i: "i < length (hi_nodes g)" "nd = hi_nodes g ! i" by (auto simp: in_set_conv_nth)
  have lv: "levels g i \<le> 31" "length (nd_vector nd) = hi_dim g"
    using g i by (auto simp: graph_ok_def nodes_ok_def)
  have "length layer < 2 ^ 32 \<and> (\<forall>n \<in> set layer. unat n < length (hi_nodes g))"
    if "layer \<in> set (nd_neighbors nd)" for layer
  proof -
    from that i obtain l where l: "l < levels g i" "layer = nbrs g i l"
      by (auto simp: in_set_conv_nth levels_def nbrs_def)
    have "length layer \<le> cap g l" using g i l by (simp add: graph_ok_def linked_def degrees_but_def)
    moreover have "cap g l < 2 ^ 32" using sz by (simp add: cap_def sized_def)
    moreover have "\<forall>n \<in> set layer. has_layer g l n"
      using g i l by (simp add: graph_ok_def linked_def edges_ok_def)
    ultimately show ?thesis by (auto simp: has_layer_def)
  qed
  with lv sz i(2) show "storable (length (hi_nodes g)) (hi_dim g) nd"
    by (simp add: storable_def sized_def levels_def)
qed

lemma check_entry_ok:
  assumes "graph_ok g"
  shows "check_entry (map_option (\<lambda>e. (ep_node e, ep_level e)) (hi_entry g)) (map raw_of_node (hi_nodes g))
    (length (hi_nodes g)) = Inr ()"
proof (cases "hi_entry g")
  case (Some e)
  with assms have "live_node g (unat (ep_node e))" "levels g (unat (ep_node e)) = unat (ep_level e) + 1"
    by (simp_all add: graph_ok_def entry_ok_def)
  with Some show ?thesis
    by (auto simp: check_entry_def live_node_def levels_def raw_of_node_def Let_def)
qed (simp add: check_entry_def)

lemma restored_state:
  "set_state_from_snapshot (map raw_of_node (hi_nodes g)) (map_option (\<lambda>e. (ep_node e, ep_level e)) (hi_entry g))
     (hi_dim g) (hnsw_new lib (stored_params g)) = restored lib g"
proof -
  have "\<lparr>ep_node = ep_node e, ep_level = ep_level e\<rparr> = e" for e :: entry_point by simp
  then have "map_option (\<lambda>(n, l). \<lparr>ep_node = n, ep_level = l\<rparr>)
      (map_option (\<lambda>e. (ep_node e, ep_level e)) (hi_entry g)) = hi_entry g"
    by (cases "hi_entry g") auto
  moreover have "map node_of_raw (map raw_of_node (hi_nodes g)) = hi_nodes g"
    by (simp add: comp_def)
  ultimately show ?thesis
    by (intro hnsw.equality)
      (simp_all only: set_state_from_snapshot_def restored_def hnsw_new_def stored_params_def,
       simp_all add: stored_params_def)
qed

lemma snapshot_roundtrip_raw:
  assumes g: "graph_ok g" and sz: "sized g" and keys: "keys_ok g keys"
  shows "decode_snapshot crc lib (encode_snapshot crc g next_id keys) = Inr (restored lib g, keys, next_id)"
proof -
  define ks where "ks = fill_keys (replicate (hnsw_len g) None) keys"
  let ?n = "word_of_nat (hnsw_len g) :: u32"
  have n: "unat ?n = length (hi_nodes g)" using sz by (simp add: sized_def hnsw_len_def unat_u32_of_nat)
  define nodes where "nodes = concat (map (\<lambda>i. encode_one_node g i (ks ! i)) [0..<length (hi_nodes g)])"
  define head where "head = SNAP_MAGIC @ u32_to_le SNAP_VERSION @ u32_to_le 0 @ replicate 8 (0 :: u8)"
  define out where "out = head @ encode_params g next_id @ encode_entry_point (hi_entry g) @
    u32_to_le ?n @ nodes"
  have enc: "encode_snapshot crc g next_id keys = out @ u32_to_le (crc out)"
    unfolding encode_snapshot_def Let_def out_def head_def nodes_def ks_def n by simp
  have head: "length head = 24" by (simp add: head_def SNAP_MAGIC_def)
  have "length (encode_params g next_id) = 37" "length (encode_entry_point (hi_entry g)) = 6"
    by (simp_all add: encode_params_def encode_entry_point_def split: option.split)
  then have len: "length out \<ge> 71" by (simp add: out_def head)
  have "subslice 0 8 (SNAP_MAGIC @ u32_to_le SNAP_VERSION @ u32_to_le 0 @ replicate 8 0 @ rest) = SNAP_MAGIC" for rest
    by (simp add: subslice_def SNAP_MAGIC_def)
  then have magic: "subslice 0 8 out = SNAP_MAGIC" by (simp add: out_def head_def)
  have eight: "length SNAP_MAGIC = 8" by (simp add: SNAP_MAGIC_def)
  have version: "read_u32 out 8 = Inr (SNAP_VERSION, 12)"
    using readsD [OF reads_u32, of SNAP_MAGIC SNAP_VERSION] by (simp add: out_def head_def eight)
  have flags: "read_u32 out 12 = Inr (0, 16)"
    using readsD [OF reads_u32, of "SNAP_MAGIC @ u32_to_le SNAP_VERSION" 0]
    by (simp add: out_def head_def eight)
  have params: "decode_params out 24 = Inr ((stored_params g, next_id), 24 + length (encode_params g next_id))"
    using readsD [OF reads_params [OF sz], of head next_id] by (simp add: out_def head)
  let ?c1 = "24 + length (encode_params g next_id)"
  have entry: "decode_entry_point out ?c1 =
      Inr (map_option (\<lambda>e. (ep_node e, ep_level e)) (hi_entry g), ?c1 + length (encode_entry_point (hi_entry g)))"
    using readsD [OF reads_entry, of "head @ encode_params g next_id" "hi_entry g"] by (simp add: out_def head)
  have split: "split_crc (out @ u32_to_le c) = Inr (out, u32_to_le c)" for c
    by (simp add: split_crc_def subslice_def)
  let ?c2 = "?c1 + length (encode_entry_point (hi_entry g))"
  have count: "read_u32 out ?c2 = Inr (?n, ?c2 + 4)"
    using readsD [OF reads_u32, of "head @ encode_params g next_id @ encode_entry_point (hi_entry g)" ?n]
    by (simp add: out_def head add.assoc)
  have "keys_below keys 0 []" by (simp add: keys_below_def)
  from reads_nodes [OF keys storable_nodes [OF g sz] _ _ this] sz
  have "reads (\<lambda>b c. decode_nodes (length (hi_nodes g)) (hi_dim g) [0..<length (hi_nodes g)] b c []) nodes
      (map raw_of_node (hi_nodes g), keys)" by (simp add: nodes_def ks_def hnsw_len_def sized_def)
  from readsD [OF this, of "head @ encode_params g next_id @ encode_entry_point (hi_entry g) @ u32_to_le ?n" "[]"]
  have nodes: "decode_nodes (length (hi_nodes g)) (hi_dim g) [0..<length (hi_nodes g)] out (?c2 + 4) [] =
      Inr ((map raw_of_node (hi_nodes g), keys), length out)" by (simp add: out_def head add.assoc)
  have at: "?c2 + 4 = 28 + (length (encode_params g next_id) + length (encode_entry_point (hi_entry g)))" by simp
  have dim: "hp_dim (stored_params g) = hi_dim g" by (simp add: stored_params_def)
  show ?thesis
    unfolding enc decode_snapshot_def Let_def
    using len by (simp add: split SNAP_HEADER_LEN_def SNAP_PARAMS_LEN_def SNAP_ENTRY_LEN_def magic version flags params
        entry count n dim nodes [unfolded at] check_entry_ok [OF g] restored_state)
qed

text \<open>C20: A snapshot of a well-formed graph reads back. The decoder gives the same nodes, edges, deletion
  marks, entry point and parameters, the same map from keys to nodes and the same table marker; only
  the random generator starts again from its seed.
\<close>
theorem snapshot_roundtrip:
  assumes g: "graph_ok g" and sz: "sized g" and keys: "keys_ok g keys"
  shows "decode_snapshot crc lib (encode_snapshot crc g next_id keys) = Inr (restored lib g, keys, next_id)"
  using assms by (rule snapshot_roundtrip_raw)

text \<open>The keys of the two points.\<close>

definition line_keys :: key_map where
  "line_keys = [([1], 0), ([2], 1)]"

lemma line_keys_ok: "keys_ok line_graph line_keys" and line_sized: "sized line_graph"
proof -
  have "live_node line_graph i \<longleftrightarrow> i < 2" for i by (auto simp: live_node_def less_two)
  then show "keys_ok line_graph line_keys" by (auto simp: keys_ok_def line_keys_def less_two)
  show "sized line_graph" by (simp add: sized_def)
qed

theorem snapshot_roundtrip_witness:
  "decode_snapshot (\<lambda>_. 0) sample_rng (encode_snapshot (\<lambda>_. 0) line_graph 7 line_keys)
     = Inr (restored sample_rng line_graph, line_keys, 7)"
  by (rule snapshot_roundtrip [OF line_graph_ok line_sized line_keys_ok])

section \<open>A restored graph answers as the one that was saved\<close>

text \<open>Searches look at the nodes, the metric, the dimension, the entry point and \<^verbatim>\<open>ef_search\<close> only.\<close>

definition same_nodes :: "'r hnsw \<Rightarrow> 'r hnsw \<Rightarrow> bool" where
  "same_nodes g g' \<longleftrightarrow> hi_nodes g' = hi_nodes g \<and> hi_metric g' = hi_metric g"

lemma same_nodes_access:
  assumes "same_nodes g g'"
  shows "neighbors_at g' n l = neighbors_at g n l" "distance g' q n = distance g q n"
  using assms by (simp_all add: same_nodes_def neighbors_at_def distance_def node_at_def)

lemma same_nodes_greedy_best: "same_nodes g g' \<Longrightarrow> greedy_best g' q ns b d = greedy_best g q ns b d"
  by (induction g q ns b d rule: greedy_best.induct)
    (simp_all add: same_nodes_access cong: sum.case_cong if_cong)

lemma same_nodes_greedy_loop: "same_nodes g g' \<Longrightarrow> greedy_loop g' q l c d = greedy_loop g q l c d"
proof (induction g q l c d rule: greedy_loop.induct)
  case (1 g q l c d)
  show ?case
    by (subst (1 2) greedy_loop.simps)
      (auto simp: same_nodes_access [OF 1(2)] same_nodes_greedy_best [OF 1(2)] 1 split: sum.split)
qed

lemma same_nodes_descend: "same_nodes g g' \<Longrightarrow> descend g' q ls c = descend g q ls c"
  by (induction g q ls c rule: descend.induct)
    (auto simp: greedy_search_layer_def same_nodes_access same_nodes_greedy_loop split: sum.split)

lemma same_nodes_visit:
  "same_nodes g g' \<Longrightarrow> visit_neighbors g' q ef ns V cs rs = visit_neighbors g q ef ns V cs rs"
  by (induction g q ef ns V cs rs rule: visit_neighbors.induct)
    (auto simp: same_nodes_access split: sum.split)

lemma same_nodes_search_loop:
  "same_nodes g g' \<Longrightarrow> search_loop g' q l ef V cs rs = search_loop g q l ef V cs rs"
proof (induction g q l ef V cs rs rule: search_loop.induct)
  case (1 g q l ef V cs rs)
  show ?case
    by (subst (1 2) search_loop.simps)
      (auto simp: same_nodes_access [OF 1(2)] same_nodes_visit [OF 1(2)] 1 split: option.split sum.split)
qed

lemma same_nodes_search_layer: "same_nodes g g' \<Longrightarrow> search_layer g' q s l ef = search_layer g q s l ef"
  by (auto simp: search_layer_def same_nodes_access same_nodes_search_loop Let_def split: sum.split)

lemma restored_same [simp]: "same_nodes g (restored lib g)"
  by (simp add: same_nodes_def restored_def)

lemma restored_sel [simp]:
  "hi_nodes (restored lib g) = hi_nodes g" "hi_entry (restored lib g) = hi_entry g"
  "hi_dim (restored lib g) = hi_dim g" "hi_metric (restored lib g) = hi_metric g"
  "hp_m (hi_params (restored lib g)) = hp_m (hi_params g)"
  "hp_m_max_0 (hi_params (restored lib g)) = hp_m_max_0 (hi_params g)"
  "hp_ef_search (hi_params (restored lib g)) = hp_ef_search (hi_params g)"
  by (simp_all add: restored_def stored_params_def)

lemma restored_arena [simp]: "arena (restored lib g) = arena g"
  by (simp add: arena_def)

lemma restored_graph_ok: "graph_ok (restored lib g) = graph_ok g"
  by (simp add: graph_ok_def linked_def edges_ok_def degrees_but_def nbrs_def levels_def has_layer_def cap_def
      entry_ok_def nodes_ok_def live_node_def cong: option.case_cong)

lemma restored_search: "hnsw_search (restored lib g) query k = hnsw_search g query k"
  by (simp add: hnsw_search_def hnsw_is_empty_def same_nodes_descend [OF restored_same] Let_def
      same_nodes_search_layer [OF restored_same] cong: option.case_cong sum.case_cong if_cong)

text \<open>C21: Saving a graph and loading it back keeps it well-formed and changes no answer: every search on
  the loaded graph gives exactly what it gives on the saved one.
\<close>
theorem snapshot_keeps_searches:
  fixes g :: "'r hnsw" and lib :: "'r rng_lib"
  assumes "graph_ok g" and "sized g" and "keys_ok g keys"
    and "decode_snapshot crc lib (encode_snapshot crc g next_id keys) = Inr (g', keys', next_id')"
  shows "graph_ok g' \<and> arena g' = arena g \<and> keys' = keys \<and> next_id' = next_id \<and>
    hnsw_search g' query k = hnsw_search g query k"
  using assms(1,4)
  by (auto simp: snapshot_roundtrip_raw [OF assms(1-3)] restored_search restored_graph_ok)

theorem snapshot_keeps_searches_witness:
  "\<exists>g'. decode_snapshot (\<lambda>_. 0) sample_rng (encode_snapshot (\<lambda>_. 0) line_graph 7 line_keys)
       = Inr (g', line_keys, 7) \<and> hnsw_search g' [F32_ONE] 1 = hnsw_search line_graph [F32_ONE] 1"
  using snapshot_roundtrip_raw [OF line_graph_ok line_sized line_keys_ok, of "\<lambda>_. 0" sample_rng 7]
    snapshot_keeps_searches [OF line_graph_ok line_sized line_keys_ok, of "\<lambda>_. 0" sample_rng 7]
  by blast

section \<open>Bytes that are not a snapshot\<close>

definition corrupt_only :: "error + 'a \<Rightarrow> bool" where
  "corrupt_only r \<longleftrightarrow> (\<forall>e. r = Inl e \<longrightarrow> (\<exists>msg. e = Corruption msg))"

lemma corrupt_only_Inr: "corrupt_only (Inr x)"
  and corrupt_only_Corruption: "corrupt_only (Inl (Corruption msg))"
  by (simp_all add: corrupt_only_def)

lemma corrupt_only_then:
  "corrupt_only r \<Longrightarrow> (\<And>x. corrupt_only (f x)) \<Longrightarrow> corrupt_only (and_then r f)"
  by (cases r) (simp_all add: corrupt_only_def)

lemma corrupt_only_if:
  "corrupt_only r \<Longrightarrow> corrupt_only s \<Longrightarrow> corrupt_only (if P then r else s)"
  by simp

lemma corrupt_only_prod:
  "(\<And>a b. corrupt_only (f a b)) \<Longrightarrow> corrupt_only (case_prod f p)"
  "(\<And>a b. corrupt_only (h a b c)) \<Longrightarrow> corrupt_only (case_prod h q c)"
  by (simp_all add: split_beta)

lemma corrupt_only_read:
  "corrupt_only (read_u8 b c)" "corrupt_only (read_u32 b c)" "corrupt_only (read_u64 b c)"
  "corrupt_only (read_f32 b c)" "corrupt_only (from_tag t)"
  by (simp_all add: read_u8_def read_u32_def read_u64_def read_f32_def from_tag_def corrupt_only_def)

lemmas corrupt_only_intros =
  corrupt_only_Inr corrupt_only_Corruption corrupt_only_then corrupt_only_if corrupt_only_prod corrupt_only_read

lemma corrupt_only_slice:
  "(\<And>ky. corrupt_only (f ky)) \<Longrightarrow>
   corrupt_only (if c + n > length b then Inl (Corruption msg) else and_then (slice_at b c (c + n)) f)"
  by (simp add: corrupt_only_Corruption)

lemma corrupt_only_vector: "corrupt_only (read_vector n b c)"
  by (induction n arbitrary: c) (auto intro!: corrupt_only_intros)

lemma corrupt_only_ids: "corrupt_only (read_ids m n b c)"
  by (induction n arbitrary: c) (auto intro!: corrupt_only_intros)

lemma corrupt_only_layers: "corrupt_only (read_layers m n b c)"
  by (induction n arbitrary: c) (auto intro!: corrupt_only_intros corrupt_only_ids)

lemma corrupt_only_node: "corrupt_only (decode_node m dim i b c keys)"
  unfolding decode_node_def Let_def
  by (intro corrupt_only_slice corrupt_only_intros corrupt_only_vector corrupt_only_layers)

lemma corrupt_only_nodes: "corrupt_only (decode_nodes m dim is b c keys)"
  by (induction "is" arbitrary: c keys) (auto intro!: corrupt_only_intros corrupt_only_node)

text \<open>The entry point is looked up among as many nodes as were counted.\<close>

lemma decode_nodes_length:
  "decode_nodes m dim is b c keys = Inr ((raws, keys'), c') \<Longrightarrow> length raws = length is"
proof (induction "is" arbitrary: c keys raws)
  case (Cons i "is")
  then show ?case
    by (auto simp: decode_nodes_Cons and_then_def simp del: decode_nodes.simps split: sum.split_asm prod.split_asm)
qed simp

lemma corrupt_only_entry: "length nodes = n \<Longrightarrow> corrupt_only (check_entry e nodes n)"
  by (auto simp: check_entry_def Let_def corrupt_only_def split: option.split)

lemma corrupt_only_checked:
  assumes "\<And>nodes ks c. r = Inr ((nodes, ks), c) \<Longrightarrow> length nodes = n" and "corrupt_only r"
  shows "corrupt_only (and_then r (\<lambda>((nodes, ks), c). if P c then Inl (Corruption msg)
      else and_then (check_entry e nodes n) (\<lambda>_. Inr (f nodes ks))))"
proof (cases r)
  case (Inl err)
  with assms(2) show ?thesis by (simp add: corrupt_only_def)
next
  case (Inr x)
  obtain nodes ks c where x: "x = ((nodes, ks), c)" by (cases x) auto
  with assms(1) Inr corrupt_only_entry [of nodes n e] show ?thesis
    by (auto intro!: corrupt_only_intros)
qed

text \<open>C27: Whatever the bytes are, decoding them ends with a graph or with a \<open>Corruption\<close> error. It never
  panics: every index into the bytes and into the decoded nodes, and every slice, is in range.
\<close>
theorem decode_snapshot_corruption_only:
  "case decode_snapshot crc lib bs of Inl e \<Rightarrow> \<exists>msg. e = Corruption msg | Inr _ \<Rightarrow> True"
proof -
  have "corrupt_only (decode_snapshot crc lib bs)"
  proof (cases "length bs < SNAP_HEADER_LEN + SNAP_PARAMS_LEN + SNAP_ENTRY_LEN + 4 + 4")
    case True
    then show ?thesis by (simp add: decode_snapshot_def corrupt_only_Corruption)
  next
    case False
    then have len: "75 \<le> length bs" by (simp add: SNAP_HEADER_LEN_def SNAP_PARAMS_LEN_def SNAP_ENTRY_LEN_def)
    define body where "body = take (length bs - 4) bs"
    have split: "split_crc bs = Inr (body, drop (length bs - 4) bs)"
      using len by (simp add: split_crc_def Let_def body_def subslice_def)
    have magic: "slice_at body 0 (0 + 8) = Inr (take 8 body)" using len by (simp add: body_def subslice_def)
    have nodes: "length nodes = unat n" if "decode_nodes (unat n) d [0..<unat n] b c [] = Inr ((nodes, ks), c')"
      for nodes :: "raw_node list" and n :: u32 and d b c ks c'
      using decode_nodes_length [OF that] by simp
    show ?thesis
      unfolding decode_snapshot_def Let_def if_not_P [OF False] split magic and_then_simps prod.case
        decode_params_def decode_entry_point_def
      by (intro corrupt_only_checked [OF nodes] corrupt_only_intros corrupt_only_nodes)
  qed
  then show ?thesis by (cases "decode_snapshot crc lib bs") (simp_all add: corrupt_only_def)
qed

text \<open>A file with a good checksum that announces one node and then ends.\<close>

theorem decode_snapshot_corruption_only_witness:
  "\<exists>msg. decode_snapshot (\<lambda>_. 0) sample_rng
     ((SNAP_MAGIC @ u32_to_le SNAP_VERSION @ u32_to_le 0 @ replicate 8 0) @ encode_params line_graph 7 @
      encode_entry_point None @ u32_to_le 1 @ u32_to_le 0) = Inl (Corruption msg)"
proof -
  let ?head = "SNAP_MAGIC @ u32_to_le SNAP_VERSION @ u32_to_le 0 @ replicate 8 (0 :: u8)"
  define body where "body = ?head @ encode_params line_graph 7 @ encode_entry_point None @ u32_to_le 1"
  let ?bs = "?head @ encode_params line_graph 7 @ encode_entry_point None @ u32_to_le 1 @ u32_to_le 0"
  have eight: "length SNAP_MAGIC = 8" by (simp add: SNAP_MAGIC_def)
  have lens: "length (encode_params line_graph 7) = 37" "length (encode_entry_point None) = 6"
    by (simp_all add: encode_params_def encode_entry_point_def)
  have len: "length body = 71" by (simp add: body_def eight lens)
  have bs: "?bs = body @ u32_to_le 0" by (simp add: body_def)
  have split: "split_crc ?bs = Inr (body, u32_to_le 0)"
    unfolding bs by (simp add: split_crc_def subslice_def)
  have magic: "slice_at body 0 8 = Inr SNAP_MAGIC"
    using len by (simp add: subslice_def) (simp add: body_def eight)
  have version: "read_u32 body 8 = Inr (SNAP_VERSION, 12)"
    using readsD [OF reads_u32, of SNAP_MAGIC SNAP_VERSION] by (simp add: body_def eight)
  have flags: "read_u32 body 12 = Inr (0, 16)"
    using readsD [OF reads_u32, of "SNAP_MAGIC @ u32_to_le SNAP_VERSION" 0] by (simp add: body_def eight)
  have params: "decode_params body 24 = Inr ((stored_params line_graph, 7), 61)"
    using readsD [OF reads_params [OF line_sized], of ?head 7] by (simp add: body_def eight lens)
  have entry: "decode_entry_point body 61 = Inr (None, 67)"
    using readsD [OF reads_entry, of "?head @ encode_params line_graph 7" None] by (simp add: body_def eight lens)
  have count: "read_u32 body 67 = Inr (1, 71)"
    using readsD [OF reads_u32, of "?head @ encode_params line_graph 7 @ encode_entry_point None" 1 "[]"]
    by (simp add: body_def eight lens)
  have long: "\<not> length ?bs < SNAP_HEADER_LEN + SNAP_PARAMS_LEN + SNAP_ENTRY_LEN + 4 + 4"
    unfolding bs using len by (simp add: SNAP_HEADER_LEN_def SNAP_PARAMS_LEN_def SNAP_ENTRY_LEN_def)
  have "isl (decode_snapshot (\<lambda>_. 0) sample_rng ?bs)"
    unfolding decode_snapshot_def Let_def if_not_P [OF long] split
    using len by (simp add: magic version flags params entry count decode_node_def read_u8_def)
  with decode_snapshot_corruption_only [of "\<lambda>_. 0" sample_rng ?bs] show ?thesis
    by (cases "decode_snapshot (\<lambda>_. 0) sample_rng ?bs") auto
qed

end
