(* ===== verification/Vector_Index.thy ===== *)
theory Vector_Index
  imports Snapshot_Roundtrip Memtable
begin

text \<open>
  The vector index of the engine, \<^verbatim>\<open>VectorIndex\<close> of \<^verbatim>\<open>src/src/engine.rs\<close>: a graph with the
  maps between keys and nodes, the index step of every write, and the two kinds of query. The index
  stands for a map from keys to vectors. A hash map is the list of its bindings in the order of its
  keys.
\<close>

section \<open>State\<close>

record 'r vector_index =
  vi_hnsw :: "'r hnsw"
  vi_key_to_node :: key_map
  vi_node_to_key :: "(node_id \<times> bytes) list"
  vi_expected_dim :: "nat option"

definition vi_new :: "'r rng_lib \<Rightarrow> hnsw_params \<Rightarrow> 'r vector_index" where
  "vi_new lib params =
     \<lparr>vi_hnsw = hnsw_new lib params, vi_key_to_node = [], vi_node_to_key = [], vi_expected_dim = None\<rparr>"

definition live_count :: "'r vector_index \<Rightarrow> nat" where
  "live_count ix = live_len (vi_hnsw ix)"

definition register :: "bytes \<Rightarrow> node_id \<Rightarrow> 'r vector_index \<Rightarrow> 'r vector_index" where
  "register key nid ix =
     ix\<lparr>vi_key_to_node := bt_insert (vi_key_to_node ix) key nid,
        vi_node_to_key := bt_insert (vi_node_to_key ix) nid key\<rparr>"

definition unregister :: "bytes \<Rightarrow> 'r vector_index \<Rightarrow> node_id option \<times> 'r vector_index" where
  "unregister key ix =
     (case bt_get (vi_key_to_node ix) key of
        None \<Rightarrow> (None, ix)
      | Some nid \<Rightarrow>
          (Some nid, ix\<lparr>vi_key_to_node := bt_remove (vi_key_to_node ix) key,
                        vi_node_to_key := bt_remove (vi_node_to_key ix) nid\<rparr>))"

definition key_for_node :: "'r vector_index \<Rightarrow> node_id \<Rightarrow> bytes option" where
  "key_for_node ix nid = bt_get (vi_node_to_key ix) nid"

section \<open>Vectors as bytes\<close>

text \<open>\<^verbatim>\<open>chunks_exact(4)\<close>.\<close>

fun chunks_exact_4 :: "bytes \<Rightarrow> bytes list" where
  "chunks_exact_4 (a # b # c # d # bs) = [a, b, c, d] # chunks_exact_4 bs"
| "chunks_exact_4 bs = []"

definition decode_vector :: "bytes \<Rightarrow> error + f32 list" where
  "decode_vector bs =
     (if length bs mod 4 \<noteq> 0 then Inl (Corruption ''vector byte length is not a multiple of 4'')
      else Inr (map u32_from_le (chunks_exact_4 bs)))"

definition encode_vector :: "f32 list \<Rightarrow> bytes" where
  "encode_vector v = concat (map u32_to_le v)"

section \<open>The index step of a write\<close>

text \<open>The node of a key, if it has one, leaves the maps and then the graph.\<close>

definition forget_key :: "bytes \<Rightarrow> 'r vector_index \<Rightarrow> (error + unit) \<times> 'r vector_index" where
  "forget_key key ix =
     (case unregister key ix of
        (None, ix) \<Rightarrow> (Inr (), ix)
      | (Some nid, ix) \<Rightarrow>
          (case hnsw_delete nid (vi_hnsw ix) of (r, g) \<Rightarrow> (r, ix\<lparr>vi_hnsw := g\<rparr>)))"

definition add_vector ::
  "'r rng_lib \<Rightarrow> bytes \<Rightarrow> f32 list \<Rightarrow> 'r vector_index \<Rightarrow> (error + unit) \<times> 'r vector_index" where
  "add_vector lib key v ix =
     (case hnsw_insert lib v (vi_hnsw ix) of
        (Inl e, g) \<Rightarrow> (Inl e, ix\<lparr>vi_hnsw := g\<rparr>)
      | (Inr nid, g) \<Rightarrow> (Inr (), register key nid (ix\<lparr>vi_hnsw := g\<rparr>)))"

text \<open>Step 2 of \<^verbatim>\<open>put_indexed\<close>, under the index lock.\<close>

definition index_put ::
  "'r rng_lib \<Rightarrow> bytes \<Rightarrow> f32 list \<Rightarrow> 'r vector_index \<Rightarrow> (error + unit) \<times> 'r vector_index" where
  "index_put lib key v ix =
     (if vi_expected_dim ix \<noteq> None \<and> vi_expected_dim ix \<noteq> Some (length v)
      then (Inl (InvalidArgument ''embedding dimension does not match established dimension''), ix)
      else
        (case forget_key key (ix\<lparr>vi_expected_dim := Some (length v)\<rparr>) of
           (Inl e, ix) \<Rightarrow> (Inl e, ix)
         | (Inr _, ix) \<Rightarrow> add_vector lib key v ix))"

section \<open>Queries\<close>

record nearest_result =
  nr_key :: bytes
  nr_distance :: f32

definition result_of_hit :: "'r vector_index \<Rightarrow> node_id \<times> f32 \<Rightarrow> nearest_result option" where
  "result_of_hit ix hit =
     (case key_for_node ix (fst hit) of
        None \<Rightarrow> None
      | Some key \<Rightarrow> Some \<lparr>nr_key = key, nr_distance = snd hit\<rparr>)"

definition nearest :: "'r vector_index \<Rightarrow> f32 list \<Rightarrow> nat \<Rightarrow> error + nearest_result list" where
  "nearest ix query k =
     (case hnsw_search (vi_hnsw ix) query k of
        Inl e \<Rightarrow> Inl e
      | Inr hits \<Rightarrow> Inr (List.map_filter (result_of_hit ix) hits))"

definition saturating_mul :: "nat \<Rightarrow> nat \<Rightarrow> nat" where
  "saturating_mul a b = (if a * b > USIZE_MAX then USIZE_MAX else a * b)"

text \<open>The loop over the hits: it stops at the \<open>k\<close>-th that passes.\<close>

fun collect_passing ::
  "'r vector_index \<Rightarrow> (bytes \<Rightarrow> bool) \<Rightarrow> nat \<Rightarrow> (node_id \<times> f32) list \<Rightarrow> nearest_result list \<Rightarrow>
     nearest_result list" where
  "collect_passing ix p k [] results = results"
| "collect_passing ix p k (hit # hits) results =
     (case result_of_hit ix hit of
        None \<Rightarrow> collect_passing ix p k hits results
      | Some r \<Rightarrow>
          if p (nr_key r)
          then (let results = results @ [r]
                in if length results = k then results else collect_passing ix p k hits results)
          else collect_passing ix p k hits results)"

text \<open>The widening loop. Whether it ends depends on the graph; \<open>None\<close> is not ending.\<close>

partial_function (option) filtered_loop ::
  "'r vector_index \<Rightarrow> f32 list \<Rightarrow> nat \<Rightarrow> (bytes \<Rightarrow> bool) \<Rightarrow> nat \<Rightarrow> nat \<Rightarrow>
     (error + nearest_result list) option" where
  "filtered_loop ix query k p live factor =
     (let search_k = min (saturating_mul k factor) live
      in case hnsw_search (vi_hnsw ix) query search_k of
           Inl e \<Rightarrow> Some (Inl e)
         | Inr hits \<Rightarrow>
             (let results = collect_passing ix p k hits []
              in if length results = k \<or> search_k \<ge> live then Some (Inr results)
                 else filtered_loop ix query k p live (saturating_mul factor 2)))"

definition nearest_filtered ::
  "'r vector_index \<Rightarrow> f32 list \<Rightarrow> nat \<Rightarrow> (bytes \<Rightarrow> bool) \<Rightarrow> (error + nearest_result list) option" where
  "nearest_filtered ix query k p =
     (if k = 0 then Some (Inr [])
      else
        (let live = live_len (vi_hnsw ix)
         in if live = 0 then Some (Inr []) else filtered_loop ix query k p live 10))"

definition vector_count :: "'r vector_index \<Rightarrow> nat" where
  "vector_count ix = live_count ix"

section \<open>The map an index stands for\<close>

text \<open>
  A key stands for the vector of its node. The two maps are inverse to each other, each key belongs
  to one live node, and every live node has a key.
\<close>

definition vi_abs :: "'r vector_index \<Rightarrow> bytes \<Rightarrow> f32 list option" where
  "vi_abs ix key =
     map_option (\<lambda>n. fst (arena (vi_hnsw ix) ! unat n)) (bt_get (vi_key_to_node ix) key)"

definition mirrored :: "key_map \<Rightarrow> (node_id \<times> bytes) list \<Rightarrow> bool" where
  "mirrored kn nk \<longleftrightarrow> ksorted nk \<and> (\<forall>ky n. map_of kn ky = Some n \<longleftrightarrow> map_of nk n = Some ky)"

definition index_ok :: "'r vector_index \<Rightarrow> bool" where
  "index_ok ix \<longleftrightarrow> graph_ok (vi_hnsw ix) \<and> keys_ok (vi_hnsw ix) (vi_key_to_node ix) \<and>
     mirrored (vi_key_to_node ix) (vi_node_to_key ix)"

definition key_fits :: "bytes \<Rightarrow> bool" where
  "key_fits ky \<longleftrightarrow> ky \<noteq> [] \<and> length ky < 2 ^ 32"

lemma live_node_arena: "live_node g i \<longleftrightarrow> i < length (arena g) \<and> \<not> snd (arena g ! i)"
  by (auto simp: live_node_def arena_def)

lemma length_arena: "length (arena g) = hnsw_len g"
  by (simp add: arena_def hnsw_len_def)

lemma keys_ok_alt:
  "keys_ok g keys \<longleftrightarrow> ksorted keys \<and>
     (\<forall>a b n. map_of keys a = Some n \<longrightarrow> map_of keys b = Some n \<longrightarrow> a = b) \<and>
     (\<forall>ky n. map_of keys ky = Some n \<longrightarrow> key_fits ky \<and> live_node g (unat n)) \<and>
     (\<forall>i. live_node g i \<longrightarrow> (\<exists>ky. map_of keys ky = Some (word_of_nat i)))"
proof (cases "ksorted keys")
  case True
  then have d: "distinct (map fst keys)" by (rule ksorted_distinct)
  have m: "(ky, n) \<in> set keys \<longleftrightarrow> map_of keys ky = Some n" for ky n using d by simp
  have inj: "distinct (map snd keys) \<longleftrightarrow> inj_on snd (set keys)"
    using d by (auto simp: distinct_map)
  have 1: "inj_on snd (set keys) \<longleftrightarrow>
      (\<forall>a b n. map_of keys a = Some n \<longrightarrow> map_of keys b = Some n \<longrightarrow> a = b)"
    unfolding inj_on_def m [symmetric] by fastforce
  have 2: "word_of_nat i \<in> snd ` set keys \<longleftrightarrow> (\<exists>ky. map_of keys ky = Some (word_of_nat i))" for i
    unfolding m [symmetric] by force
  have 3: "(\<forall>(ky, n) \<in> set keys. ky \<noteq> [] \<and> length ky < 2 ^ 32 \<and> live_node g (unat n)) \<longleftrightarrow>
      (\<forall>ky n. map_of keys ky = Some n \<longrightarrow> key_fits ky \<and> live_node g (unat n))"
    unfolding m [symmetric] key_fits_def by auto
  show ?thesis unfolding keys_ok_def inj 1 2 3 using True by simp
qed (simp add: keys_ok_def)

lemma index_new_ok: "index_ok (vi_new lib params)"
  using hnsw_new_ok [of lib params]
  by (simp add: index_ok_def vi_new_def keys_ok_alt mirrored_def live_node_def) (simp add: hnsw_new_def)

lemma vi_abs_new [simp]: "vi_abs (vi_new lib params) = Map.empty"
  by (simp add: vi_abs_def vi_new_def fun_eq_iff)

text \<open>What one step changes of the graph besides its arena.\<close>

definition same_setup :: "'r vector_index \<Rightarrow> 'r vector_index \<Rightarrow> bool" where
  "same_setup ix ix' \<longleftrightarrow> hi_params (vi_hnsw ix') = hi_params (vi_hnsw ix) \<and>
     hi_metric (vi_hnsw ix') = hi_metric (vi_hnsw ix)"

lemma forget_key_ok:
  assumes "index_ok ix"
  shows "\<exists>ix'. forget_key key ix = (Inr (), ix') \<and> index_ok ix' \<and> vi_abs ix' = (vi_abs ix)(key := None) \<and>
    same_setup ix ix' \<and> hi_dim (vi_hnsw ix') = hi_dim (vi_hnsw ix) \<and>
    hnsw_len (vi_hnsw ix') = hnsw_len (vi_hnsw ix) \<and> vi_expected_dim ix' = vi_expected_dim ix"
proof (cases "bt_get (vi_key_to_node ix) key")
  case None
  then show ?thesis using assms
    by (auto simp: forget_key_def unregister_def vi_abs_def same_setup_def fun_eq_iff)
next
  case (Some nid)
  let ?g = "vi_hnsw ix" and ?kn = "vi_key_to_node ix" and ?nk = "vi_node_to_key ix"
  have g: "graph_ok ?g" and mir: "ksorted ?nk" "\<And>ky n. map_of ?kn ky = Some n \<longleftrightarrow> map_of ?nk n = Some ky"
    using assms by (auto simp: index_ok_def mirrored_def)
  have keys: "ksorted ?kn" "\<And>a b n. map_of ?kn a = Some n \<Longrightarrow> map_of ?kn b = Some n \<Longrightarrow> a = b"
    "\<And>ky n. map_of ?kn ky = Some n \<Longrightarrow> key_fits ky \<and> live_node ?g (unat n)"
    "\<And>i. live_node ?g i \<Longrightarrow> \<exists>ky. map_of ?kn ky = Some (word_of_nat i)"
    using assms unfolding index_ok_def keys_ok_alt by blast+
  have nid: "map_of ?kn key = Some nid" using Some by (simp add: bt_get_map_of)
  from hnsw_delete_ok [OF g] keys(3) [OF nid] obtain g' where
    g': "hnsw_delete nid ?g = (Inr (), g')" "graph_ok g'"
      "arena g' = (arena ?g)[unat nid := (fst (arena ?g ! unat nid), True)]"
      "hi_params g' = hi_params ?g" "hi_dim g' = hi_dim ?g" "hi_metric g' = hi_metric ?g" by blast
  define ix' where "ix' = ix\<lparr>vi_key_to_node := bt_remove ?kn key, vi_node_to_key := bt_remove ?nk nid,
    vi_hnsw := g'\<rparr>"
  have run: "forget_key key ix = (Inr (), ix')" by (simp add: forget_key_def unregister_def Some g'(1) ix'_def)
  have live: "live_node g' i \<longleftrightarrow> live_node ?g i \<and> i \<noteq> unat nid" for i
    by (cases "i = unat nid") (auto simp: live_node_arena g'(3))
  have kn: "map_of (bt_remove ?kn key) ky = Some n \<longleftrightarrow> map_of ?kn ky = Some n \<and> ky \<noteq> key" for ky n
    using keys(1) by simp
  have other: "ky \<noteq> key \<longleftrightarrow> n \<noteq> nid" if "map_of ?kn ky = Some n" for ky n
    using keys(2) [of key nid ky] nid that by auto
  have "\<exists>ky. map_of ?kn ky = Some (word_of_nat i) \<and> ky \<noteq> key" if "live_node ?g i" "i \<noteq> unat nid" for i
    using keys(4) [OF that(1)] that(2) nid keys(3) [OF nid] that(1) g
    by (metis option.inject graph_ok_def live_node_def new_node_id order_less_le_trans)
  then have "keys_ok g' (bt_remove ?kn key)"
    unfolding keys_ok_alt kn live using keys other by (auto simp: bt_remove_sorted)
  moreover have "mirrored (bt_remove ?kn key) (bt_remove ?nk nid)"
    unfolding mirrored_def kn using mir other by (auto simp: bt_remove_sorted)
  ultimately have "index_ok ix'" using g'(2) by (simp add: index_ok_def ix'_def)
  moreover have "vi_abs ix' = (vi_abs ix)(key := None)"
  proof
    fix ky
    show "vi_abs ix' ky = ((vi_abs ix)(key := None)) ky"
      using other [of ky] keys(1)
      by (cases "map_of ?kn ky") (auto simp: vi_abs_def bt_get_map_of ix'_def g'(3) nth_list_update)
  qed
  moreover have "hnsw_len g' = hnsw_len ?g" using arg_cong [OF g'(3), of length] by (simp add: length_arena)
  ultimately show ?thesis using run g' by (auto simp: ix'_def same_setup_def)
qed

lemma add_vector_ok:
  assumes ix: "index_ok ix" and ky: "key_fits key" "vi_abs ix key = None" and n: "hnsw_len (vi_hnsw ix) < 2 ^ 32"
    and v: "dim_fits (vi_hnsw ix) v" "preprocess_vector (hi_metric (vi_hnsw ix)) v = Some p"
  shows "\<exists>ix'. add_vector lib key v ix = (Inr (), ix') \<and> index_ok ix' \<and> vi_abs ix' = (vi_abs ix)(key \<mapsto> p) \<and>
    same_setup ix ix' \<and> hi_dim (vi_hnsw ix') = length v \<and>
    hnsw_len (vi_hnsw ix') = Suc (hnsw_len (vi_hnsw ix)) \<and> vi_expected_dim ix' = vi_expected_dim ix"
proof -
  let ?g = "vi_hnsw ix" and ?kn = "vi_key_to_node ix" and ?nk = "vi_node_to_key ix"
  let ?n = "word_of_nat (hnsw_len ?g) :: node_id"
  have g: "graph_ok ?g" and mir: "ksorted ?nk" "\<And>ky n. map_of ?kn ky = Some n \<longleftrightarrow> map_of ?nk n = Some ky"
    using ix by (auto simp: index_ok_def mirrored_def)
  have keys: "ksorted ?kn" "\<And>a b n. map_of ?kn a = Some n \<Longrightarrow> map_of ?kn b = Some n \<Longrightarrow> a = b"
    "\<And>ky n. map_of ?kn ky = Some n \<Longrightarrow> key_fits ky \<and> live_node ?g (unat n)"
    "\<And>i. live_node ?g i \<Longrightarrow> \<exists>ky. map_of ?kn ky = Some (word_of_nat i)"
    using ix unfolding index_ok_def keys_ok_alt by blast+
  from hnsw_insert_ok [OF g n v, of lib] obtain g' where
    g': "hnsw_insert lib v ?g = (Inr ?n, g')" "graph_ok g'" "arena g' = arena ?g @ [(p, False)]"
      "hi_params g' = hi_params ?g" "hi_dim g' = length v" "hi_metric g' = hi_metric ?g" by blast
  define ix' where "ix' = register key ?n (ix\<lparr>vi_hnsw := g'\<rparr>)"
  have run: "add_vector lib key v ix = (Inr (), ix')" by (simp add: add_vector_def g'(1) ix'_def)
  have un: "unat ?n = hnsw_len ?g" using n by (rule new_node_id)
  have fresh: "unat m \<noteq> hnsw_len ?g \<and> unat m < hnsw_len ?g" if "map_of ?kn ky = Some m" for ky m
    using keys(3) [OF that] by (auto simp: live_node_def hnsw_len_def)
  then have fresh_n: "map_of ?kn ky \<noteq> Some ?n" for ky using un by auto
  have none: "map_of ?kn key = None" using ky(2) by (simp add: vi_abs_def bt_get_map_of)
  have live: "live_node g' i \<longleftrightarrow> live_node ?g i \<or> i = hnsw_len ?g" for i
    by (auto simp: live_node_arena g'(3) nth_append length_arena less_Suc_eq)
  have "keys_ok g' (bt_insert ?kn key ?n)"
    unfolding keys_ok_alt live
  proof (intro conjI allI impI)
    show "\<exists>ky. map_of (bt_insert ?kn key ?n) ky = Some (word_of_nat i)" if "live_node ?g i \<or> i = hnsw_len ?g" for i
    proof (cases "i = hnsw_len ?g")
      case False
      with that keys(4) [of i] obtain ky where "map_of ?kn ky = Some (word_of_nat i)" by blast
      with none show ?thesis by (intro exI [of _ ky]) auto
    qed auto
  qed (use keys ky(1) none fresh_n un in \<open>auto simp: bt_insert_sorted split: if_splits\<close>)
  moreover have "mirrored (bt_insert ?kn key ?n) (bt_insert ?nk ?n key)"
    unfolding mirrored_def using mir(1) none fresh_n by (auto simp: bt_insert_sorted simp flip: mir(2))
  ultimately have "index_ok ix'" using g'(2) by (simp add: index_ok_def ix'_def register_def)
  moreover have "vi_abs ix' = (vi_abs ix)(key \<mapsto> p)"
  proof
    fix ky
    show "vi_abs ix' ky = ((vi_abs ix)(key \<mapsto> p)) ky"
      using fresh [of ky] un
      by (cases "map_of ?kn ky")
        (auto simp: vi_abs_def bt_get_map_of ix'_def register_def g'(3) nth_append length_arena)
  qed
  moreover have "hnsw_len g' = Suc (hnsw_len ?g)" using arg_cong [OF g'(3), of length] by (simp add: length_arena)
  ultimately show ?thesis using run g' by (auto simp: ix'_def register_def same_setup_def)
qed

text \<open>The vectors an index accepts.\<close>

definition accepts :: "'r vector_index \<Rightarrow> f32 list \<Rightarrow> bool" where
  "accepts ix v \<longleftrightarrow> (vi_expected_dim ix = None \<or> vi_expected_dim ix = Some (length v)) \<and>
     dim_fits (vi_hnsw ix) v \<and> preprocess_vector (hi_metric (vi_hnsw ix)) v \<noteq> None"

definition stored_form :: "'r vector_index \<Rightarrow> f32 list \<Rightarrow> f32 list option" where
  "stored_form ix v = preprocess_vector (hi_metric (vi_hnsw ix)) v"

lemma index_ok_dim [simp]: "index_ok (ix\<lparr>vi_expected_dim := d\<rparr>) = index_ok ix"
  and vi_abs_dim [simp]: "vi_abs (ix\<lparr>vi_expected_dim := d\<rparr>) = vi_abs ix"
  by (simp_all add: index_ok_def vi_abs_def fun_eq_iff)

lemma index_put_ok:
  assumes ix: "index_ok ix" and ky: "key_fits key" and n: "hnsw_len (vi_hnsw ix) < 2 ^ 32" and v: "accepts ix v"
  shows "\<exists>ix'. index_put lib key v ix = (Inr (), ix') \<and> index_ok ix' \<and>
    vi_abs ix' = (vi_abs ix)(key := stored_form ix v) \<and> same_setup ix ix' \<and> hi_dim (vi_hnsw ix') = length v \<and>
    hnsw_len (vi_hnsw ix') = Suc (hnsw_len (vi_hnsw ix)) \<and> vi_expected_dim ix' = Some (length v)"
proof -
  let ?ix = "ix\<lparr>vi_expected_dim := Some (length v)\<rparr>"
  obtain p where p: "preprocess_vector (hi_metric (vi_hnsw ix)) v = Some p" using v by (auto simp: accepts_def)
  have "index_ok ?ix" using ix by simp
  from forget_key_ok [OF this, of key] obtain ix1 where
    1: "forget_key key ?ix = (Inr (), ix1)" "index_ok ix1" "vi_abs ix1 = (vi_abs ix)(key := None)" "same_setup ix ix1"
      "hi_dim (vi_hnsw ix1) = hi_dim (vi_hnsw ix)" "hnsw_len (vi_hnsw ix1) = hnsw_len (vi_hnsw ix)"
      "vi_expected_dim ix1 = Some (length v)" by (auto simp: same_setup_def)
  have "vi_abs ix1 key = None" "hnsw_len (vi_hnsw ix1) < 2 ^ 32" "dim_fits (vi_hnsw ix1) v"
    "preprocess_vector (hi_metric (vi_hnsw ix1)) v = Some p"
    using 1 n v p by (simp_all add: accepts_def dim_fits_def same_setup_def)
  from add_vector_ok [OF 1(2) ky this, of lib] 1 v p show ?thesis
    by (auto simp: index_put_def accepts_def stored_form_def same_setup_def)
qed

lemma index_put_refused:
  assumes ix: "index_ok ix" and v: "\<not> accepts ix v"
  shows "\<exists>msg ix'. index_put lib key v ix = (Inl (InvalidArgument msg), ix') \<and> index_ok ix' \<and>
    vi_abs ix' \<in> {vi_abs ix, (vi_abs ix)(key := None)}"
proof (cases "vi_expected_dim ix = None \<or> vi_expected_dim ix = Some (length v)")
  case False
  with ix show ?thesis by (simp add: index_put_def)
next
  case True
  let ?ix = "ix\<lparr>vi_expected_dim := Some (length v)\<rparr>"
  have "index_ok ?ix" using ix by simp
  from forget_key_ok [OF this, of key] obtain ix1 where
    1: "forget_key key ?ix = (Inr (), ix1)" "index_ok ix1" "vi_abs ix1 = (vi_abs ix)(key := None)" "same_setup ix ix1"
      "hi_dim (vi_hnsw ix1) = hi_dim (vi_hnsw ix)" by (auto simp: same_setup_def)
  have g: "graph_ok (vi_hnsw ix1)" and bad: "\<not> dim_fits (vi_hnsw ix1) v \<or> preprocess_vector (hi_metric (vi_hnsw ix1)) v = None"
    using v True 1 by (auto simp: accepts_def dim_fits_def same_setup_def index_ok_def)
  from hnsw_insert_refused [OF g bad, of lib] obtain msg g' where
    g': "hnsw_insert lib v (vi_hnsw ix1) = (Inl (InvalidArgument msg), g')" "graph_ok g'"
      "arena g' = arena (vi_hnsw ix1)" by blast
  have live: "live_node g' i = live_node (vi_hnsw ix1) i" for i by (simp add: live_node_arena g'(3))
  have "index_ok (ix1\<lparr>vi_hnsw := g'\<rparr>)" using 1(2) g'(2) by (simp add: index_ok_def keys_ok_alt live)
  moreover have "vi_abs (ix1\<lparr>vi_hnsw := g'\<rparr>) = vi_abs ix1" by (simp add: vi_abs_def g'(3) fun_eq_iff)
  ultimately show ?thesis using True 1 g'(1) by (auto simp: index_put_def add_vector_def)
qed

text \<open>C6: The index step of a vector write refines the update of a map from keys to vectors. It succeeds
  exactly on a vector of the established dimension that the metric can use, and then the key is bound
  to the preprocessed vector and every other key keeps its own; the two maps stay inverse to each other
  and cover exactly the live nodes. Otherwise it is an \<open>InvalidArgument\<close> that binds nothing, but may
  already have taken away the old vector of the key.
\<close>
theorem index_put_updates_map:
  assumes "index_ok ix" and "key_fits key" and "hnsw_len (vi_hnsw ix) < 2 ^ 32"
  shows "case index_put lib key v ix of
      (Inr _, ix') \<Rightarrow> index_ok ix' \<and> accepts ix v \<and> vi_abs ix' = (vi_abs ix)(key := stored_form ix v) \<and>
        stored_form ix v \<noteq> None
    | (Inl e, ix') \<Rightarrow> index_ok ix' \<and> \<not> accepts ix v \<and> (\<exists>msg. e = InvalidArgument msg) \<and>
        vi_abs ix' \<in> {vi_abs ix, (vi_abs ix)(key := None)}"
proof (cases "accepts ix v")
  case True
  with index_put_ok [OF assms True, of lib] show ?thesis
    by (auto simp: accepts_def stored_form_def)
next
  case False
  with index_put_refused [OF assms(1) False, of lib key] show ?thesis by auto
qed

text \<open>An index over the two points.\<close>

definition line_index :: "unit vector_index" where
  "line_index = \<lparr>vi_hnsw = line_graph, vi_key_to_node = line_keys, vi_node_to_key = [(0, [1]), (1, [2])],
     vi_expected_dim = Some 1\<rparr>"

lemma line_index_ok: "index_ok line_index"
  and line_index_abs: "vi_abs line_index = [[1] \<mapsto> [F32_ZERO], [2] \<mapsto> [F32_ONE]]"
proof -
  have "arena line_graph = [([F32_ZERO], False), ([F32_ONE], False)]" by (simp add: arena_def line_graph_def)
  then show "vi_abs line_index = [[1] \<mapsto> [F32_ZERO], [2] \<mapsto> [F32_ONE]]"
    by (auto simp: vi_abs_def line_index_def line_keys_def fun_eq_iff)
  show "index_ok line_index"
    using line_graph_ok line_keys_ok
    by (auto simp: index_ok_def line_index_def mirrored_def line_keys_def)
qed

theorem index_put_updates_map_witness:
  "case index_put sample_rng [1] [F32_ONE] line_index of
     (Inr _, ix') \<Rightarrow> vi_abs ix' = [[1] \<mapsto> [F32_ONE], [2] \<mapsto> [F32_ONE]]
   | (Inl e, ix') \<Rightarrow> False"
proof -
  have a: "stored_form line_index [F32_ONE] = Some [F32_ONE]" "accepts line_index [F32_ONE]"
    by (simp_all add: stored_form_def accepts_def line_index_def preprocess_vector_def line_finite dim_fits_def)
  have "key_fits [1]" "hnsw_len (vi_hnsw line_index) < 2 ^ 32"
    by (simp_all add: key_fits_def line_index_def hnsw_len_def)
  from index_put_updates_map [OF line_index_ok this, where lib = sample_rng and v = "[F32_ONE]"] a show ?thesis
    by (auto simp: line_index_abs fun_eq_iff split: prod.splits sum.splits)
qed

end
