(* ===== verification/Vector_Search.thy ===== *)
theory Vector_Search
  imports Vector_Index
begin

text \<open>
  The two queries of the engine, \<^verbatim>\<open>nearest\<close> and \<^verbatim>\<open>nearest_filtered\<close>, over the map the index
  stands for. No hit of the graph is lost on the way back to keys, the widening loop of the filtered
  query ends, and where the searches of the graph are exact both queries are.
\<close>

section \<open>Hits and keys\<close>

text \<open>Live nodes and keys correspond.\<close>

lemma index_okD:
  assumes "index_ok ix"
  shows "graph_ok (vi_hnsw ix)" and "ksorted (vi_key_to_node ix)"
    and "map_of (vi_key_to_node ix) ky = Some n \<longleftrightarrow> map_of (vi_node_to_key ix) n = Some ky"
    and "map_of (vi_key_to_node ix) ky = Some n \<Longrightarrow> key_fits ky \<and> live_node (vi_hnsw ix) (unat n)"
    and "live_node (vi_hnsw ix) i \<Longrightarrow> \<exists>ky. map_of (vi_key_to_node ix) ky = Some (word_of_nat i)"
  using assms unfolding index_ok_def keys_ok_alt mirrored_def by blast+

lemma live_iff: "live_node g (unat n) \<longleftrightarrow> \<not> is_deleted g n"
  by (auto simp: live_node_def is_deleted_def)

lemma key_for_node_live:
  assumes "index_ok ix"
  shows "key_for_node ix n = Some ky \<longleftrightarrow> map_of (vi_key_to_node ix) ky = Some n"
    and "\<not> is_deleted (vi_hnsw ix) n \<longleftrightarrow> (\<exists>ky. key_for_node ix n = Some ky)"
  using index_okD [OF assms] index_okD(5) [OF assms, of "unat n"]
  by (auto simp: key_for_node_def bt_get_map_of simp flip: live_iff)

lemma vi_abs_node:
  assumes "index_ok ix" and "key_for_node ix n = Some ky"
  shows "vi_abs ix ky = Some (fst (arena (vi_hnsw ix) ! unat n))"
  using assms(2) key_for_node_live(1) [OF assms(1)] by (simp add: vi_abs_def bt_get_map_of)

lemma vi_abs_SomeE:
  assumes "index_ok ix" and "vi_abs ix ky = Some v"
  obtains n where "key_for_node ix n = Some ky" "v = fst (arena (vi_hnsw ix) ! unat n)"
  using assms(2) key_for_node_live(1) [OF assms(1)] by (auto simp: vi_abs_def bt_get_map_of)

lemma distance_arena:
  "\<not> is_deleted g n \<Longrightarrow>
   distance g p n = Inr (distance_for_metric (hi_metric g) p (fst (arena g ! unat n)))"
  by (simp add: distance_def node_at_def is_deleted_def arena_def)

lemma card_keys:
  assumes "index_ok ix"
  shows "card (dom (vi_abs ix)) = live_len (vi_hnsw ix)"
proof -
  have "hnsw_len (vi_hnsw ix) \<le> 2 ^ 32" using index_okD(1) [OF assms] by (simp add: graph_ok_def hnsw_len_def)
  then have "live_len (vi_hnsw ix) = card {n. \<not> is_deleted (vi_hnsw ix) n}" by (rule live_len_card)
  also have "\<dots> = card ((\<lambda>n. the (key_for_node ix n)) ` {n. \<not> is_deleted (vi_hnsw ix) n})"
  proof (intro card_image [symmetric] inj_onI)
    fix a b
    assume "a \<in> {n. \<not> is_deleted (vi_hnsw ix) n}" "b \<in> {n. \<not> is_deleted (vi_hnsw ix) n}"
      and eq: "the (key_for_node ix a) = the (key_for_node ix b)"
    then obtain x y where "key_for_node ix a = Some x" "key_for_node ix b = Some y"
      using key_for_node_live(2) [OF assms] by blast
    with eq show "a = b" using key_for_node_live(1) [OF assms] by (metis option.inject option.sel)
  qed
  also have "(\<lambda>n. the (key_for_node ix n)) ` {n. \<not> is_deleted (vi_hnsw ix) n} = dom (vi_abs ix)"
  proof (intro set_eqI iffI)
    fix ky
    assume "ky \<in> dom (vi_abs ix)"
    then obtain v where "vi_abs ix ky = Some v" by blast
    then obtain n where "key_for_node ix n = Some ky" by (rule vi_abs_SomeE [OF assms])
    then show "ky \<in> (\<lambda>n. the (key_for_node ix n)) ` {n. \<not> is_deleted (vi_hnsw ix) n}"
      using key_for_node_live(2) [OF assms, of n] by (intro image_eqI [of _ _ n]) auto
  qed (use key_for_node_live(2) [OF assms] vi_abs_node [OF assms] in fastforce)
  finally show ?thesis by simp
qed

definition hit_of :: "'r vector_index \<Rightarrow> node_id \<times> f32 \<Rightarrow> nearest_result" where
  "hit_of ix hit = \<lparr>nr_key = the (key_for_node ix (fst hit)), nr_distance = snd hit\<rparr>"

lemma all_hits_have_keys:
  assumes "index_ok ix" and "\<forall>(n, d) \<in> set hits. \<not> is_deleted (vi_hnsw ix) n"
  shows "List.map_filter (result_of_hit ix) hits = map (hit_of ix) hits"
  using assms(2)
proof (induction hits)
  case Nil
  then show ?case by (simp add: map_filter_simps)
next
  case (Cons h hits)
  then obtain ky where "key_for_node ix (fst h) = Some ky"
    using key_for_node_live(2) [OF assms(1), of "fst h"] by (auto simp: case_prod_unfold)
  with Cons show ?case by (simp add: map_filter_simps result_of_hit_def hit_of_def)
qed

section \<open>What a query promises\<close>

text \<open>Answers of a query: keys of the map, once each, with the distances of their vectors.\<close>

definition answers :: "(bytes \<Rightarrow> f32 list option) \<Rightarrow> (f32 list \<Rightarrow> f32) \<Rightarrow> nearest_result list \<Rightarrow> bool" where
  "answers m d rs \<longleftrightarrow> distinct (map nr_key rs) \<and>
     (\<forall>r \<in> set rs. \<exists>v. m (nr_key r) = Some v \<and> nr_distance r = d v)"

text \<open>The \<open>k\<close> nearest keys of a map, or all of them, nearest first.\<close>

definition nearest_keys ::
  "(bytes \<Rightarrow> f32 list option) \<Rightarrow> (f32 list \<Rightarrow> f32) \<Rightarrow> nat \<Rightarrow> nearest_result list \<Rightarrow> bool" where
  "nearest_keys m d k rs \<longleftrightarrow> answers m d rs \<and> length rs = min k (card (dom m)) \<and>
     sorted_wrt (\<lambda>a b. \<not> f32_lt (nr_distance b) (nr_distance a)) rs \<and>
     (\<forall>ky v. m ky = Some v \<longrightarrow> ky \<notin> nr_key ` set rs \<longrightarrow> (\<forall>r \<in> set rs. \<not> f32_lt (d v) (nr_distance r)))"

text \<open>The distance of a query to a stored vector.\<close>

definition query_distance :: "'r vector_index \<Rightarrow> f32 list \<Rightarrow> f32 list \<Rightarrow> f32" where
  "query_distance ix query v =
     distance_for_metric (hi_metric (vi_hnsw ix)) (the (stored_form ix query)) v"

lemma hits_answer:
  assumes ix: "index_ok ix" and run: "hnsw_search (vi_hnsw ix) query n = Inr hits"
  shows "List.map_filter (result_of_hit ix) hits = map (hit_of ix) hits \<and>
    answers (vi_abs ix) (query_distance ix query) (map (hit_of ix) hits) \<and> length hits \<le> n"
proof -
  have hits: "length hits \<le> n" "distinct (map fst hits)"
    "\<And>m d. (m, d) \<in> set hits \<Longrightarrow> \<not> is_deleted (vi_hnsw ix) m \<and>
       (\<exists>p. stored_form ix query = Some p \<and> distance (vi_hnsw ix) p m = Inr d)"
    using hnsw_search_sound_raw [OF index_okD(1) [OF ix], of query n] run by (auto simp: stored_form_def)
  have each: "\<exists>ky. key_for_node ix (fst h) = Some ky \<and> nr_key (hit_of ix h) = ky \<and>
      vi_abs ix ky = Some (fst (arena (vi_hnsw ix) ! unat (fst h))) \<and>
      snd h = query_distance ix query (fst (arena (vi_hnsw ix) ! unat (fst h)))" if "h \<in> set hits" for h
  proof -
    have h: "\<not> is_deleted (vi_hnsw ix) (fst h)"
      "\<exists>p. stored_form ix query = Some p \<and> distance (vi_hnsw ix) p (fst h) = Inr (snd h)"
      using hits(3) [of "fst h" "snd h"] that by auto
    then obtain ky where "key_for_node ix (fst h) = Some ky" using key_for_node_live(2) [OF ix] by blast
    with h show ?thesis
      by (auto simp: hit_of_def vi_abs_node [OF ix] query_distance_def distance_arena)
  qed
  have "inj_on (nr_key \<circ> hit_of ix) (set hits)"
  proof (rule inj_onI)
    fix a b assume h: "a \<in> set hits" "b \<in> set hits" "(nr_key \<circ> hit_of ix) a = (nr_key \<circ> hit_of ix) b"
    then have "fst a = fst b"
      using each [OF h(1)] each [OF h(2)] key_for_node_live(1) [OF ix] by (metis comp_apply option.inject)
    then show "a = b" using hits(2) h(1,2) by (metis inj_onD distinct_map)
  qed
  moreover have "distinct hits" using hits(2) by (simp add: distinct_map)
  ultimately have "distinct (map nr_key (map (hit_of ix) hits))" by (simp add: distinct_map)
  moreover have "\<exists>v. vi_abs ix (nr_key (hit_of ix h)) = Some v \<and> nr_distance (hit_of ix h) = query_distance ix query v"
    if "h \<in> set hits" for h
    using each [OF that] by (auto simp: hit_of_def)
  ultimately show ?thesis
    using all_hits_have_keys [OF ix, of hits] hits(1,3) by (auto simp: answers_def)
qed

lemma nearest_run:
  assumes "index_ok ix"
  shows "case hnsw_search (vi_hnsw ix) query k of
      Inl e \<Rightarrow> nearest ix query k = Inl e \<and> (\<exists>msg. e = InvalidArgument msg) \<and>
        (length query \<noteq> hi_dim (vi_hnsw ix) \<or> stored_form ix query = None)
    | Inr hits \<Rightarrow> nearest ix query k = Inr (map (hit_of ix) hits) \<and>
        answers (vi_abs ix) (query_distance ix query) (map (hit_of ix) hits) \<and> length hits \<le> k"
  using hits_answer [OF assms] hnsw_search_sound_raw [OF index_okD(1) [OF assms], of query k]
  by (cases "hnsw_search (vi_hnsw ix) query k") (auto simp: nearest_def stored_form_def)


section \<open>The filtered query\<close>

lemma collect_passing_eq:
  "length results < k \<Longrightarrow>
   collect_passing ix p k hits results =
     take k (results @ [r \<leftarrow> List.map_filter (result_of_hit ix) hits. p (nr_key r)])"
proof (induction ix p k hits results rule: collect_passing.induct)
  case (2 ix p k hit hits results)
  show ?case
  proof (cases "result_of_hit ix hit")
    case None
    with 2 show ?thesis by (simp add: map_filter_simps)
  next
    case (Some r)
    show ?thesis
    proof (cases "p (nr_key r) \<and> Suc (length results) < k")
      case True
      with 2 Some show ?thesis by (simp add: map_filter_simps)
    next
      case False
      with 2 Some show ?thesis by (auto simp: map_filter_simps Let_def not_less less_Suc_eq_le)
    qed
  qed
qed (simp add: map_filter_simps)

text \<open>
  The loop ends. Its width is at least the factor, so after at most \<open>live\<close> rounds it covers the live
  nodes; nothing saturates before. \<open>n\<close> is the width of the last search.
\<close>

lemma filtered_loop_run:
  assumes "0 < k" and "live \<le> 2 ^ 32" and "0 < factor"
  shows "\<exists>n \<le> live. filtered_loop ix query k p live factor =
    Some (case hnsw_search (vi_hnsw ix) query n of Inl e \<Rightarrow> Inl e
      | Inr hits \<Rightarrow> Inr (collect_passing ix p k hits [])) \<and>
    (\<forall>hits. hnsw_search (vi_hnsw ix) query n = Inr hits \<longrightarrow>
       length (collect_passing ix p k hits []) = k \<or> n = live)"
  using assms(3)
proof (induction "live - factor" arbitrary: factor rule: less_induct)
  case less
  let ?n = "min (saturating_mul k factor) live"
  show ?case
  proof (cases "hnsw_search (vi_hnsw ix) query ?n")
    case (Inl e)
    then show ?thesis by (intro exI [of _ ?n]) (simp add: filtered_loop.simps)
  next
    case (Inr hits)
    show ?thesis
    proof (cases "length (collect_passing ix p k hits []) = k \<or> ?n \<ge> live")
      case True
      with Inr show ?thesis by (intro exI [of _ ?n]) (subst filtered_loop.simps, auto simp: Let_def)
    next
      case False
      then have "saturating_mul k factor < live" by simp
      then have lt: "k * factor < live" using assms(2) by (auto simp: saturating_mul_def USIZE_MAX_def split: if_splits)
      moreover have "factor \<le> k * factor" using assms(1) by simp
      ultimately have f: "factor < live" by linarith
      then have two: "saturating_mul factor 2 = factor * 2"
        using assms(2) by (simp add: saturating_mul_def USIZE_MAX_def)
      have "live - saturating_mul factor 2 < live - factor" "0 < saturating_mul factor 2"
        using f less.prems by (simp_all add: two)
      from less.hyps [OF this] Inr False show ?thesis by (subst filtered_loop.simps) (simp add: Let_def)
    qed
  qed
qed

lemma answers_sub:
  assumes "answers m d rs"
  shows "answers (m |` {ky. p ky}) d (take k [r \<leftarrow> rs. p (nr_key r)])"
proof -
  have "distinct (map nr_key [r \<leftarrow> rs. p (nr_key r)])"
    using assms by (simp add: answers_def distinct_map_filter)
  then have "distinct (map nr_key (take k [r \<leftarrow> rs. p (nr_key r)]))" by (simp add: take_map [symmetric])
  moreover have "\<exists>v. (m |` {ky. p ky}) (nr_key r) = Some v \<and> nr_distance r = d v"
    if "r \<in> set (take k [r \<leftarrow> rs. p (nr_key r)])" for r
    using assms in_set_takeD [OF that] by (auto simp: answers_def)
  ultimately show ?thesis by (simp add: answers_def)
qed

lemma live_len_bound: "graph_ok g \<Longrightarrow> live_len g \<le> 2 ^ 32"
  by (auto simp: live_len_def graph_ok_def intro: order_trans [OF length_filter_le])

lemma nearest_filtered_run:
  assumes ix: "index_ok ix" and k: "0 < k"
  shows "\<exists>n \<le> live_len (vi_hnsw ix). case hnsw_search (vi_hnsw ix) query n of
      Inl e \<Rightarrow> nearest_filtered ix query k p = Some (Inl e) \<and> (\<exists>msg. e = InvalidArgument msg) \<and>
        (length query \<noteq> hi_dim (vi_hnsw ix) \<or> stored_form ix query = None)
    | Inr hits \<Rightarrow>
        nearest_filtered ix query k p = Some (Inr (take k [r \<leftarrow> map (hit_of ix) hits. p (nr_key r)])) \<and>
        answers (vi_abs ix) (query_distance ix query) (map (hit_of ix) hits) \<and>
        (k \<le> length [r \<leftarrow> map (hit_of ix) hits. p (nr_key r)] \<or> n = live_len (vi_hnsw ix))"
proof (cases "live_len (vi_hnsw ix) = 0")
  case True
  with k show ?thesis
    by (intro exI [of _ 0]) (simp add: nearest_filtered_def hnsw_search_def answers_def)
next
  case False
  let ?live = "live_len (vi_hnsw ix)"
  have "?live \<le> 2 ^ 32" using index_okD(1) [OF ix] by (rule live_len_bound)
  from filtered_loop_run [OF k this, of 10 ix query p] obtain n where n: "n \<le> ?live"
    and run: "filtered_loop ix query k p ?live 10 =
      Some (case hnsw_search (vi_hnsw ix) query n of Inl e \<Rightarrow> Inl e
        | Inr hits \<Rightarrow> Inr (collect_passing ix p k hits []))"
    and stop: "\<And>hits. hnsw_search (vi_hnsw ix) query n = Inr hits \<Longrightarrow>
       length (collect_passing ix p k hits []) = k \<or> n = ?live"
    by auto
  show ?thesis
  proof (cases "hnsw_search (vi_hnsw ix) query n")
    case (Inl e)
    with n run k False hnsw_search_sound_raw [OF index_okD(1) [OF ix], of query n] show ?thesis
      by (intro exI [of _ n]) (simp add: nearest_filtered_def stored_form_def)
  next
    case (Inr hits)
    have "collect_passing ix p k hits [] = take k [r \<leftarrow> map (hit_of ix) hits. p (nr_key r)]"
      using hits_answer [OF ix Inr] collect_passing_eq [of "[]" k ix p hits] k by simp
    with n run k False stop [OF Inr] Inr hits_answer [OF ix Inr] show ?thesis
      by (intro exI [of _ n]) (auto simp: nearest_filtered_def)
  qed
qed


section \<open>Exact queries\<close>

lemma finite_keys: "finite (dom (vi_abs ix))"
proof -
  have "dom (vi_abs ix) = dom (map_of (vi_key_to_node ix))" by (auto simp: vi_abs_def bt_get_map_of)
  then show ?thesis by (simp add: finite_dom_map_of)
qed

text \<open>The graph lets every search of width \<open>k\<close> be exact for a query.\<close>

definition exact_for :: "'r vector_index \<Rightarrow> f32 list \<Rightarrow> nat \<Rightarrow> bool" where
  "exact_for ix query k \<longleftrightarrow>
     (let g = vi_hnsw ix in
      length query = hi_dim g \<and> stored_form ix query \<noteq> None \<and>
      hnsw_len g \<le> max (max (hp_ef_search (hi_params g)) (k * 2)) k \<and>
      (\<forall>a b. unat a < hnsw_len g \<longrightarrow> \<not> is_deleted g b \<longrightarrow> (a, b) \<in> (edges_at g 0)\<^sup>*) \<and>
      (\<forall>nd \<in> set (hi_nodes g). \<not> f32_is_nan (query_distance ix query (nd_vector nd))))"

lemma nearest_hits_exact:
  assumes ix: "index_ok ix" and ex: "exact_for ix query k"
  shows "\<exists>hits. hnsw_search (vi_hnsw ix) query k = Inr hits \<and>
    nearest_keys (vi_abs ix) (query_distance ix query) k (map (hit_of ix) hits)"
proof -
  let ?g = "vi_hnsw ix"
  obtain p where p: "preprocess_vector (hi_metric ?g) query = Some p"
    using ex by (auto simp: exact_for_def Let_def stored_form_def)
  then have qd: "query_distance ix query v = distance_for_metric (hi_metric ?g) p v" for v
    by (simp add: query_distance_def stored_form_def)
  have num: "\<forall>n d. distance ?g p n = Inr d \<longrightarrow> \<not> f32_is_nan d"
    using ex by (auto simp: exact_for_def Let_def distance_def node_at_def qd split: if_splits)
  have len: "length query = hi_dim ?g" "hnsw_len ?g \<le> max (max (hp_ef_search (hi_params ?g)) (k * 2)) k"
    and reach: "\<forall>a b. unat a < hnsw_len ?g \<longrightarrow> \<not> is_deleted ?g b \<longrightarrow> (a, b) \<in> (edges_at ?g 0)\<^sup>*"
    using ex unfolding exact_for_def Let_def by blast+
  from hnsw_search_exact_raw [OF index_okD(1) [OF ix] len(1) p len(2) reach num]
  obtain hits where run: "hnsw_search ?g query k = Inr hits" and near: "nearest_live ?g p k hits" by blast
  have ans: "answers (vi_abs ix) (query_distance ix query) (map (hit_of ix) hits)"
    using hits_answer [OF ix run] by simp
  have "\<not> f32_lt (query_distance ix query v) (nr_distance r)"
    if v: "vi_abs ix ky = Some v" "ky \<notin> nr_key ` set (map (hit_of ix) hits)" and r: "r \<in> set (map (hit_of ix) hits)"
    for ky v r
  proof -
    obtain n where n: "key_for_node ix n = Some ky" "v = fst (arena ?g ! unat n)"
      using v(1) by (rule vi_abs_SomeE [OF ix])
    then have "\<not> is_deleted ?g n" using key_for_node_live(2) [OF ix] by blast
    moreover have "distance ?g p n = Inr (query_distance ix query v)"
      using calculation n(2) by (simp add: distance_arena qd)
    moreover have "n \<notin> fst ` set hits" using v(2) n(1) by (force simp: hit_of_def)
    ultimately have "\<forall>(m, e) \<in> set hits. \<not> f32_lt (query_distance ix query v) e"
      using near by (auto simp: nearest_live_def)
    with r show ?thesis by (auto simp: hit_of_def)
  qed
  then have "nearest_keys (vi_abs ix) (query_distance ix query) k (map (hit_of ix) hits)"
    using near ans by (simp add: nearest_keys_def nearest_live_def card_keys [OF ix] sorted_wrt_map hit_of_def)
  with run show ?thesis by blast
qed

text \<open>Of the nearest keys, the first \<open>k\<close> that pass a predicate are the nearest that pass it.\<close>

lemma nearest_keys_filter:
  fixes rs p
  defines "F \<equiv> [r \<leftarrow> rs. p (nr_key r)]" and "mp \<equiv> \<lambda>m. m |` {ky. p ky}"
  assumes nk: "nearest_keys m d n rs" and fin: "finite (dom m)"
    and enough: "k \<le> length F \<or> card (dom m) \<le> n"
  shows "nearest_keys (mp m) d k (take k F)"
proof -
  have ans: "answers m d rs" and len: "length rs = min n (card (dom m))"
    and sorted: "sorted_wrt (\<lambda>a b. \<not> f32_lt (nr_distance b) (nr_distance a)) rs"
    and rest: "\<And>ky v r. m ky = Some v \<Longrightarrow> ky \<notin> nr_key ` set rs \<Longrightarrow> r \<in> set rs \<Longrightarrow> \<not> f32_lt (d v) (nr_distance r)"
    using nk by (auto simp: nearest_keys_def)
  have sub: "nr_key ` set rs \<subseteq> dom m" and dist: "distinct (map nr_key rs)"
    using ans by (auto simp: answers_def)
  have cardF: "card (nr_key ` set F) = length F"
    using dist distinct_card [of "map nr_key F"] by (simp add: F_def distinct_map_filter)
  have subF: "nr_key ` set F \<subseteq> dom (mp m)" using sub by (auto simp: F_def mp_def)
  have fin': "finite (dom (mp m))" using fin by (simp add: mp_def)
  have "length F \<le> card (dom (mp m))" using card_mono [OF fin' subF] cardF by simp
  moreover have "length F = card (dom (mp m))" if "card (dom m) \<le> n"
  proof -
    have "card (nr_key ` set rs) = card (dom m)"
      using distinct_card [OF dist] len that by simp
    then have "nr_key ` set rs = dom m" using card_subset_eq [OF fin sub] by simp
    moreover have "nr_key ` set F = nr_key ` set rs \<inter> {ky. p ky}" by (auto simp: F_def)
    ultimately have "nr_key ` set F = dom (mp m)" by (simp add: mp_def)
    then show ?thesis using cardF by simp
  qed
  ultimately have length: "length (take k F) = min k (card (dom (mp m)))" using enough by auto
  have inF: "r \<in> set rs \<and> p (nr_key r)" if "r \<in> set (take k F)" for r
    using that by (auto simp: F_def dest: in_set_takeD)
  have sF: "sorted_wrt (\<lambda>a b. \<not> f32_lt (nr_distance b) (nr_distance a)) (take k F @ drop k F)"
    using sorted by (simp add: F_def sorted_wrt_filter)
  have "\<not> f32_lt (d v) (nr_distance r)"
    if v: "m ky = Some v" "p ky" "ky \<notin> nr_key ` set (take k F)" and r: "r \<in> set (take k F)" for ky v r
  proof (cases "ky \<in> nr_key ` set rs")
    case False
    with rest v(1) inF [OF r] show ?thesis by blast
  next
    case True
    then obtain r0 where r0: "r0 \<in> set rs" "ky = nr_key r0" by blast
    then have "d v = nr_distance r0" using ans v(1) by (fastforce simp: answers_def)
    moreover have "r0 \<in> set (take k F @ drop k F)" using r0 v(2) by (simp add: F_def)
    then have "r0 \<in> set (drop k F)" using v(3) r0(2) by (auto simp del: append_take_drop_id)
    ultimately show ?thesis using sF r by (simp add: sorted_wrt_append del: append_take_drop_id)
  qed
  moreover have "answers (mp m) d (take k F)" unfolding F_def mp_def using ans by (rule answers_sub)
  moreover have "sorted_wrt (\<lambda>a b. \<not> f32_lt (nr_distance b) (nr_distance a)) (take k F)"
    using sF by (simp only: sorted_wrt_append)
  moreover have "m ky = Some v \<and> p ky" if "mp m ky = Some v" for ky v
    using that by (simp add: mp_def restrict_map_def split: if_splits)
  ultimately show ?thesis unfolding nearest_keys_def using length by blast
qed

section \<open>An instance\<close>

lemma line_query:
  "stored_form line_index [F32_ONE] = Some [F32_ONE]"
  "query_distance line_index [F32_ONE] [F32_ZERO] = F32_ONE"
  "query_distance line_index [F32_ONE] [F32_ONE] = F32_ZERO"
proof -
  show sf: "stored_form line_index [F32_ONE] = Some [F32_ONE]"
    by (simp add: stored_form_def line_index_def preprocess_vector_def line_finite)
  show "query_distance line_index [F32_ONE] [F32_ZERO] = F32_ONE"
    "query_distance line_index [F32_ONE] [F32_ONE] = F32_ZERO"
    using line_distances
    by (simp_all add: query_distance_def sf) (simp_all add: line_index_def distance_def node_at_def line_graph_def)
qed

lemma line_exact: "exact_for line_index [F32_ONE] k"
proof -
  have two: "a = 0 \<or> a = 1" if "unat (a :: node_id) < 2" for a
    using that unat_node_eq [of a 0] unat_node_eq [of a 1] by (auto simp: less_two)
  have "(0, 1) \<in> edges_at line_graph 0" "(1, 0) \<in> edges_at line_graph 0"
    by (simp_all add: edges_at_def neighbors_at_def node_at_def)
  then have "\<forall>a b. unat a < 2 \<longrightarrow> \<not> is_deleted line_graph b \<longrightarrow> (a, b) \<in> (edges_at line_graph 0)\<^sup>*"
    using two by (auto simp: is_deleted_def not_le intro: r_into_rtrancl)
  moreover have "\<not> f32_is_nan F32_ONE" "\<not> f32_is_nan F32_ZERO"
    using line_finite f32_finite_not_nan by auto
  then have "\<forall>nd \<in> set (hi_nodes line_graph). \<not> f32_is_nan (query_distance line_index [F32_ONE] (nd_vector nd))"
    using line_query by (simp add: line_graph_def)
  ultimately show ?thesis
    by (simp add: exact_for_def line_query) (simp add: line_index_def hnsw_len_def)
qed

text \<open>The only answer to the query is the key of the query's own point.\<close>

lemma line_nearest:
  assumes "nearest_keys (vi_abs line_index) (query_distance line_index [F32_ONE]) 1 rs"
  shows "map nr_key rs = [[2]]"
proof -
  have "dom (vi_abs line_index) = {[1], [2]}" by (auto simp: line_index_abs)
  then have "length rs = 1" using assms by (simp add: nearest_keys_def)
  then obtain r where rs: "rs = [r]" by (cases rs) auto
  have "vi_abs line_index (nr_key r) \<noteq> None" using assms by (auto simp: nearest_keys_def answers_def rs)
  then have "nr_key r = [1] \<or> nr_key r = [2]" by (auto simp: line_index_abs split: if_splits)
  moreover have "nr_key r \<noteq> [1]"
  proof
    assume one: "nr_key r = [1]"
    then have "nr_distance r = F32_ONE"
      using assms by (auto simp: nearest_keys_def answers_def rs line_index_abs line_query)
    moreover have rest: "vi_abs line_index ky = Some v \<Longrightarrow> ky \<notin> nr_key ` set rs \<Longrightarrow>
        \<not> f32_lt (query_distance line_index [F32_ONE] v) (nr_distance r)" for ky v
      using assms unfolding nearest_keys_def rs by simp
    have "\<not> f32_lt (query_distance line_index [F32_ONE] [F32_ONE]) (nr_distance r)"
      by (rule rest [of "[2]"]) (simp_all add: rs one line_index_abs)
    moreover have "f32_lt F32_ZERO F32_ONE" by (simp add: f32_lt_def float_eval)
    ultimately show False by (simp add: line_query)
  qed
  ultimately show ?thesis by (simp add: rs)
qed

section \<open>Properties\<close>

text \<open>C9: A query answers from the map of the index: at most \<open>k\<close> different keys, each with the distance of
  its vector to the preprocessed query, and no hit of the graph is lost for want of a key. When the
  beam covers the graph, its layer 0 is connected and no distance is a non-number, these are the \<open>k\<close>
  nearest keys of the map, nearest first. It fails only on a query it cannot use.
\<close>
theorem nearest_answers_from_map:
  assumes "index_ok ix"
  shows "case nearest ix query k of
      Inr rs \<Rightarrow> length rs \<le> k \<and> answers (vi_abs ix) (query_distance ix query) rs \<and>
        (\<forall>hits. hnsw_search (vi_hnsw ix) query k = Inr hits \<longrightarrow> length rs = length hits) \<and>
        (exact_for ix query k \<longrightarrow> nearest_keys (vi_abs ix) (query_distance ix query) k rs)
    | Inl e \<Rightarrow> (\<exists>msg. e = InvalidArgument msg) \<and>
        (length query \<noteq> hi_dim (vi_hnsw ix) \<or> stored_form ix query = None)"
proof (cases "hnsw_search (vi_hnsw ix) query k")
  case (Inl e)
  with nearest_run [OF assms, of query k] show ?thesis by simp
next
  case (Inr hits)
  moreover have "nearest_keys (vi_abs ix) (query_distance ix query) k (map (hit_of ix) hits)" if "exact_for ix query k"
    using nearest_hits_exact [OF assms that] Inr by simp
  ultimately show ?thesis using nearest_run [OF assms, of query k] by simp
qed

theorem nearest_answers_from_map_witness:
  "case nearest line_index [F32_ONE] 1 of Inr rs \<Rightarrow> map nr_key rs = [[2]] | Inl e \<Rightarrow> False"
proof -
  note near = nearest_answers_from_map [OF line_index_ok, of "[F32_ONE]" 1]
  show ?thesis
  proof (cases "nearest line_index [F32_ONE] 1")
    case (Inl e)
    with near show ?thesis using line_query line_exact [of 1] by (simp add: exact_for_def Let_def)
  next
    case (Inr rs)
    with near line_exact [of 1] line_nearest show ?thesis by simp
  qed
qed

lemma nearest_filtered_raw:
  assumes "index_ok ix" and "0 < k"
  shows "\<exists>r. nearest_filtered ix query k p = Some r \<and>
    (case r of
       Inr rs \<Rightarrow> length rs \<le> k \<and> answers (vi_abs ix |` {ky. p ky}) (query_distance ix query) rs \<and>
         (exact_for ix query 0 \<longrightarrow> nearest_keys (vi_abs ix |` {ky. p ky}) (query_distance ix query) k rs)
     | Inl e \<Rightarrow> (\<exists>msg. e = InvalidArgument msg) \<and>
         (length query \<noteq> hi_dim (vi_hnsw ix) \<or> stored_form ix query = None))"
proof -
  from nearest_filtered_run [OF assms, of query p] obtain n where
    n: "n \<le> live_len (vi_hnsw ix)" and run: "case hnsw_search (vi_hnsw ix) query n of
      Inl e \<Rightarrow> nearest_filtered ix query k p = Some (Inl e) \<and> (\<exists>msg. e = InvalidArgument msg) \<and>
        (length query \<noteq> hi_dim (vi_hnsw ix) \<or> stored_form ix query = None)
    | Inr hits \<Rightarrow>
        nearest_filtered ix query k p = Some (Inr (take k [r \<leftarrow> map (hit_of ix) hits. p (nr_key r)])) \<and>
        answers (vi_abs ix) (query_distance ix query) (map (hit_of ix) hits) \<and>
        (k \<le> length [r \<leftarrow> map (hit_of ix) hits. p (nr_key r)] \<or> n = live_len (vi_hnsw ix))" by blast
  show ?thesis
  proof (cases "hnsw_search (vi_hnsw ix) query n")
    case (Inl e)
    with run show ?thesis by auto
  next
    case (Inr hits)
    let ?rs = "map (hit_of ix) hits"
    have run: "nearest_filtered ix query k p = Some (Inr (take k [r \<leftarrow> ?rs. p (nr_key r)]))"
      and ans: "answers (vi_abs ix) (query_distance ix query) ?rs"
      and stop: "k \<le> length [r \<leftarrow> ?rs. p (nr_key r)] \<or> card (dom (vi_abs ix)) \<le> n"
      using run Inr card_keys [OF assms(1)] by auto
    have "nearest_keys (vi_abs ix |` {ky. p ky}) (query_distance ix query) k (take k [r \<leftarrow> ?rs. p (nr_key r)])"
      if "exact_for ix query 0"
    proof -
      have "exact_for ix query n" using that by (auto simp: exact_for_def Let_def)
      from nearest_hits_exact [OF assms(1) this] Inr
      have "nearest_keys (vi_abs ix) (query_distance ix query) n ?rs" by simp
      from nearest_keys_filter [OF this finite_keys stop] show ?thesis .
    qed
    moreover have "answers (vi_abs ix |` {ky. p ky}) (query_distance ix query) (take k [r \<leftarrow> ?rs. p (nr_key r)])"
      using ans by (rule answers_sub)
    ultimately show ?thesis using run by simp
  qed
qed

text \<open>C10: The filtered query ends on every well-formed index, whatever the predicate. It answers with at
  most \<open>k\<close> different keys that pass, each with its distance. When even the beam \<^verbatim>\<open>ef_search\<close> covers the
  graph, and its searches are exact, these are the \<open>k\<close> nearest keys that pass (all of them if there are
  fewer), nearest first: widening loses nothing.
\<close>
theorem nearest_filtered_ends_with_nearest_passing:
  assumes "index_ok ix" and "0 < k"
  shows "\<exists>r. nearest_filtered ix query k p = Some r \<and>
    (case r of
       Inr rs \<Rightarrow> length rs \<le> k \<and> answers (vi_abs ix |` {ky. p ky}) (query_distance ix query) rs \<and>
         (exact_for ix query 0 \<longrightarrow> nearest_keys (vi_abs ix |` {ky. p ky}) (query_distance ix query) k rs)
     | Inl e \<Rightarrow> (\<exists>msg. e = InvalidArgument msg) \<and>
         (length query \<noteq> hi_dim (vi_hnsw ix) \<or> stored_form ix query = None))"
  using assms by (rule nearest_filtered_raw)

theorem nearest_filtered_ends_with_nearest_passing_witness:
  "\<exists>rs. nearest_filtered line_index [F32_ONE] 1 (\<lambda>ky. ky \<noteq> []) = Some (Inr rs) \<and> map nr_key rs = [[2]]"
proof -
  have same: "vi_abs line_index |` {ky. ky \<noteq> []} = vi_abs line_index"
    by (auto simp: line_index_abs restrict_map_def fun_eq_iff)
  have q: "length [F32_ONE] = hi_dim (vi_hnsw line_index)" using line_exact [of 0] by (simp add: exact_for_def Let_def)
  have "0 < (1 :: nat)" by simp
  note run = nearest_filtered_ends_with_nearest_passing [OF line_index_ok this, of "[F32_ONE]" "\<lambda>ky. ky \<noteq> []", unfolded same]
  then obtain r where r: "nearest_filtered line_index [F32_ONE] 1 (\<lambda>ky. ky \<noteq> []) = Some r" by blast
  show ?thesis
  proof (cases r)
    case (Inl e)
    with run r q line_query show ?thesis by simp
  next
    case (Inr rs)
    with run r line_exact [of 0] have "nearest_keys (vi_abs line_index) (query_distance line_index [F32_ONE]) 1 rs" by simp
    with line_nearest r Inr show ?thesis by blast
  qed
qed

end
