(* ===== verification/Index_Recovery.thy ===== *)
theory Index_Recovery
  imports Recovery Vector_Index
begin

text \<open>
  Bringing up the vector index on open, \<^verbatim>\<open>recover_vector_index\<close> of \<^verbatim>\<open>src/src/engine.rs\<close>: from
  the latest snapshot and what was written since, or from all entries when there is no snapshot that
  loads. Both walk the entries newest first and skip a key they have seen; the locale \<open>newest_first\<close>
  states what a step of such a walk promises and concludes that the newest entry of each key decides.
\<close>

section \<open>Applying entries to an index\<close>

text \<open>The key in the set of seen keys decides; \<open>st\<close> is the index and that set.\<close>

definition kept :: "(error + unit) \<times> 'a \<Rightarrow> error + 'a" where
  "kept r = (case r of (Inl e, _) \<Rightarrow> Inl e | (Inr _, x) \<Rightarrow> Inr x)"

definition insert_into_index ::
  "'r rng_lib \<Rightarrow> bytes \<Rightarrow> bytes \<Rightarrow> 'r vector_index \<Rightarrow> error + 'r vector_index" where
  "insert_into_index lib key bs ix =
     and_then (decode_vector bs) (\<lambda>embedding.
     if vi_expected_dim ix \<noteq> None \<and> vi_expected_dim ix \<noteq> Some (length embedding)
     then Inl (Corruption ''vector entry dim mismatch during index rebuild'')
     else kept (add_vector lib key embedding (ix\<lparr>vi_expected_dim := Some (length embedding)\<rparr>)))"

text \<open>The body of the loops of \<^verbatim>\<open>full_rebuild_index_from_lsm\<close> and \<^verbatim>\<open>ingest_sstable_into_fresh_index\<close>.\<close>

definition rebuild_entry ::
  "'r rng_lib \<Rightarrow> 'r vector_index \<times> bytes set \<Rightarrow> bytes \<Rightarrow> entry \<Rightarrow> error + 'r vector_index \<times> bytes set" where
  "rebuild_entry lib st key e =
     (case st of (ix, seen_keys) \<Rightarrow>
        if key \<in> seen_keys then Inr (ix, seen_keys)
        else
          (let seen_keys = insert key seen_keys
           in case e of
                Tombstone \<Rightarrow> Inr (ix, seen_keys)
              | Vector bs \<Rightarrow> and_then (insert_into_index lib key bs ix) (\<lambda>ix. Inr (ix, seen_keys))
              | Put _ \<Rightarrow> Inr (ix, seen_keys)))"

definition apply_delta_entry ::
  "'r rng_lib \<Rightarrow> 'r vector_index \<times> bytes set \<Rightarrow> bytes \<Rightarrow> entry \<Rightarrow> error + 'r vector_index \<times> bytes set" where
  "apply_delta_entry lib st key e =
     (case st of (ix, seen_keys) \<Rightarrow>
        if key \<in> seen_keys then Inr (ix, seen_keys)
        else
          (let seen_keys = insert key seen_keys
           in case e of
                Tombstone \<Rightarrow> and_then (kept (forget_key key ix)) (\<lambda>ix. Inr (ix, seen_keys))
              | Put _ \<Rightarrow> and_then (kept (forget_key key ix)) (\<lambda>ix. Inr (ix, seen_keys))
              | Vector bs \<Rightarrow>
                  and_then (decode_vector bs) (\<lambda>embedding.
                  if vi_expected_dim ix \<noteq> None \<and> vi_expected_dim ix \<noteq> Some (length embedding)
                  then Inl (Corruption ''delta vector dim differs from index dim'')
                  else
                    and_then (kept (forget_key key (ix\<lparr>vi_expected_dim := Some (length embedding)\<rparr>))) (\<lambda>ix.
                    and_then (kept (add_vector lib key embedding ix)) (\<lambda>ix. Inr (ix, seen_keys))))))"

section \<open>Walking the entries\<close>

fun fold_entries ::
  "('a \<Rightarrow> bytes \<Rightarrow> entry \<Rightarrow> error + 'a) \<Rightarrow> (bytes \<times> entry) list \<Rightarrow> 'a \<Rightarrow> error + 'a" where
  "fold_entries f [] a = Inr a"
| "fold_entries f ((ky, e) # es) a = and_then (f a ky e) (fold_entries f es)"

text \<open>\<^verbatim>\<open>for item in reader.iter()\<close>: it may not end on arbitrary tables; \<open>None\<close> is not ending.\<close>

partial_function (option) for_items ::
  "(bytes \<Rightarrow> u32) \<Rightarrow> ('a \<Rightarrow> bytes \<Rightarrow> entry \<Rightarrow> error + 'a) \<Rightarrow> sst_iter \<Rightarrow> 'a \<Rightarrow> fs \<Rightarrow>
     ((error + 'a) \<times> fs) option" where
  "for_items crc f it a s =
     (case sst_next crc it s of
        (None, it, s) \<Rightarrow> Some (Inr a, s)
      | (Some (Inl err), it, s) \<Rightarrow> Some (Inl err, s)
      | (Some (Inr (key, e)), it, s) \<Rightarrow>
          (case f a key e of
             Inl err \<Rightarrow> Some (Inl err, s)
           | Inr a \<Rightarrow> for_items crc f it a s))"

fun for_tables ::
  "(bytes \<Rightarrow> u32) \<Rightarrow> ('a \<Rightarrow> bytes \<Rightarrow> entry \<Rightarrow> error + 'a) \<Rightarrow> sstable_entry list \<Rightarrow> 'a \<Rightarrow> fs \<Rightarrow>
     ((error + 'a) \<times> fs) option" where
  "for_tables crc f [] a s = Some (Inr a, s)"
| "for_tables crc f (t # ts) a s =
     (case for_items crc f (sst_reader_iter (se_reader t)) a s of
        None \<Rightarrow> None
      | Some (Inl err, s) \<Rightarrow> Some (Inl err, s)
      | Some (Inr a, s) \<Rightarrow> for_tables crc f ts a s)"

section \<open>The two ways to an index\<close>

definition full_rebuild_index_from_lsm ::
  "(bytes \<Rightarrow> u32) \<Rightarrow> 'r rng_lib \<Rightarrow> hnsw_params \<Rightarrow> engine \<Rightarrow> fs \<Rightarrow>
     ((error + 'r vector_index) \<times> fs) option" where
  "full_rebuild_index_from_lsm crc lib params e s =
     (case fold_entries (rebuild_entry lib) (mt_iter (en_memtable e)) (vi_new lib params, {}) of
        Inl err \<Rightarrow> Some (Inl err, s)
      | Inr st \<Rightarrow>
          (case for_tables crc (rebuild_entry lib) (lv_l0 (en_levels e)) st s of
             None \<Rightarrow> None
           | Some (Inl err, s) \<Rightarrow> Some (Inl err, s)
           | Some (Inr st, s) \<Rightarrow>
               (case for_tables crc (rebuild_entry lib) (lv_l1 (en_levels e)) st s of
                  None \<Rightarrow> None
                | Some (Inl err, s) \<Rightarrow> Some (Inl err, s)
                | Some (Inr (ix, _), s) \<Rightarrow> Some (Inr ix, s))))"

definition discover_latest_snapshot :: "fs \<Rightarrow> (error + fname option) \<times> fs" where
  "discover_latest_snapshot s =
     (case list_dir s of
        (Inl e, s) \<Rightarrow> (Inl e, s)
      | (Inr paths, s) \<Rightarrow>
          (let candidates = List.map_filter (\<lambda>path. map_option (\<lambda>i. (i, path)) (parse_snapshot_filename path)) paths
           in if candidates = [] then (Inr None, s)
              else
                (let sorted = sort_key fst candidates
                 in (Inr (Some (snd (last sorted))), remove_all (map snd (butlast sorted)) s))))"

definition read_file_fully :: "fname \<Rightarrow> fs \<Rightarrow> (error + bytes) \<times> fs" where
  "read_file_fully path s =
     (case open_read path s of
        (Inl e, s) \<Rightarrow> (Inl e, s)
      | (Inr h, s) \<Rightarrow>
          (case file_len h s of
             (Inl e, s) \<Rightarrow> (Inl e, s)
           | (Inr len, s) \<Rightarrow> read_at h 0 len s))"

definition reverse_map :: "key_map \<Rightarrow> (node_id \<times> bytes) list" where
  "reverse_map keys = fold (\<lambda>(k, nid) m. bt_insert m nid k) keys []"

definition index_of_snapshot :: "'r hnsw \<Rightarrow> key_map \<Rightarrow> 'r vector_index" where
  "index_of_snapshot g keys =
     \<lparr>vi_hnsw = g, vi_key_to_node = keys, vi_node_to_key = reverse_map keys,
      vi_expected_dim = (if hi_dim g = 0 then None else Some (hi_dim g))\<rparr>"

text \<open>\<^verbatim>\<open>sort_by_key(Reverse(id))\<close>, a stable sort.\<close>

definition delta_ssts :: "u64 \<Rightarrow> level_state \<Rightarrow> sstable_entry list" where
  "delta_ssts next_sstable_id lv =
     sort_key (\<lambda>t. - uint (se_id t)) [t \<leftarrow> lv_l0 lv @ lv_l1 lv. se_id t \<ge> next_sstable_id]"

definition load_snapshot_and_apply_delta ::
  "(bytes \<Rightarrow> u32) \<Rightarrow> 'r rng_lib \<Rightarrow> engine \<Rightarrow> fname \<Rightarrow> fs \<Rightarrow> ((error + 'r vector_index) \<times> fs) option" where
  "load_snapshot_and_apply_delta crc lib e path s =
     (case read_file_fully path s of
        (Inl err, s) \<Rightarrow> Some (Inl err, s)
      | (Inr bs, s) \<Rightarrow>
          (case decode_snapshot crc lib bs of
             Inl err \<Rightarrow> Some (Inl err, s)
           | Inr (g, keys, snapshot_next_sstable_id) \<Rightarrow>
               (case fold_entries (apply_delta_entry lib) (mt_iter (en_memtable e)) (index_of_snapshot g keys, {}) of
                  Inl err \<Rightarrow> Some (Inl err, s)
                | Inr st \<Rightarrow>
                    (case for_tables crc (apply_delta_entry lib)
                            (delta_ssts snapshot_next_sstable_id (en_levels e)) st s of
                       None \<Rightarrow> None
                     | Some (Inl err, s) \<Rightarrow> Some (Inl err, s)
                     | Some (Inr (ix, _), s) \<Rightarrow> Some (Inr ix, s)))))"

text \<open>Any error of the load falls back to the rebuild; a panic does not.\<close>

definition recover_vector_index ::
  "(bytes \<Rightarrow> u32) \<Rightarrow> 'r rng_lib \<Rightarrow> hnsw_params \<Rightarrow> engine \<Rightarrow> fs \<Rightarrow>
     ((error + 'r vector_index) \<times> fs) option" where
  "recover_vector_index crc lib params e s =
     (case discover_latest_snapshot s of
        (Inl err, s) \<Rightarrow> Some (Inl err, s)
      | (Inr None, s) \<Rightarrow> full_rebuild_index_from_lsm crc lib params e s
      | (Inr (Some path), s) \<Rightarrow>
          (case load_snapshot_and_apply_delta crc lib e path s of
             None \<Rightarrow> None
           | Some (Inr ix, s) \<Rightarrow> Some (Inr ix, s)
           | Some (Inl (Panic msg), s) \<Rightarrow> Some (Inl (Panic msg), s)
           | Some (Inl err, s) \<Rightarrow> full_rebuild_index_from_lsm crc lib params e s))"

section \<open>A walk over tables is a walk over their entries\<close>

lemma fold_entries_append: "fold_entries f (xs @ ys) a = and_then (fold_entries f xs a) (fold_entries f ys)"
proof (induction xs arbitrary: a)
  case (Cons x xs)
  then show ?case by (cases x; cases "f a (fst x) (snd x)") simp_all
qed simp

lemma for_items_ok:
  "iter_on crc it s es \<Longrightarrow> for_items crc f it a s = Some (fold_entries f es a, s)"
proof (induction es arbitrary: it a)
  case Nil
  from sst_next_ok [OF Nil] show ?case by (subst for_items.simps) (auto simp: yields_def)
next
  case (Cons ke es)
  from sst_next_ok [OF Cons.prems] obtain it' where
    next_it: "sst_next crc it s = (Some (Inr ke), it', s)" "iter_on crc it' s es" by (auto simp: yields_def)
  obtain ky e where ke: "ke = (ky, e)" by (cases ke)
  show ?case
  proof (cases "f a ky e")
    case (Inl err)
    then show ?thesis by (subst for_items.simps) (simp add: next_it(1) ke)
  next
    case (Inr b)
    then show ?thesis using Cons.IH [OF next_it(2), of b] by (subst for_items.simps) (simp add: next_it(1) ke)
  qed
qed

lemma for_tables_ok:
  "list_all2 (\<lambda>t es. reads_table crc xxh (se_reader t) s es) ts tss \<Longrightarrow> plan s = [] \<Longrightarrow>
   for_tables crc f ts a s = Some (fold_entries f (concat tss) a, s)"
proof (induction ts tss arbitrary: a rule: list_all2_induct)
  case (Cons t ts es tss)
  have "for_items crc f (sst_reader_iter (se_reader t)) a s = Some (fold_entries f es a, s)"
    using sst_reader_iter_on [OF Cons.hyps(1) Cons.prems] by (rule for_items_ok)
  with Cons show ?case by (cases "fold_entries f es a") (simp_all add: fold_entries_append)
qed simp

lemma full_rebuild_walk:
  assumes e: "engine_on crc xxh e s ts0 ts1 rs"
  shows "full_rebuild_index_from_lsm crc lib params e s =
    Some (map_sum id fst (fold_entries (rebuild_entry lib) (mt_map (en_memtable e) @ concat (ts0 @ ts1))
      (vi_new lib params, {})), s)"
proof -
  have st: "plan s = []" "list_all2 (\<lambda>t es. reads_table crc xxh (se_reader t) s es) (lv_l0 (en_levels e)) ts0"
    "list_all2 (\<lambda>t es. reads_table crc xxh (se_reader t) s es) (lv_l1 (en_levels e)) ts1"
    using e by (auto simp: engine_on_def levels_on_def table_on_def elim: list_all2_mono)
  note walk = for_tables_ok [OF st(2,1)] for_tables_ok [OF st(3,1)]
  show ?thesis
    by (auto simp: full_rebuild_index_from_lsm_def mt_iter_def walk fold_entries_append and_then_def
        split: sum.split prod.split)
qed

section \<open>The newest entry decides\<close>

text \<open>
  One step of a walk, over states of an index with the set of keys seen so far: a seen key changes
  nothing, an unseen one gets the meaning of its entry and is seen from then on. \<open>ready n\<close> is the
  invariant of the walk when at most \<open>n\<close> entries are still to come.
\<close>

locale newest_first =
  fixes step :: "'i \<times> bytes set \<Rightarrow> bytes \<Rightarrow> entry \<Rightarrow> error + 'i \<times> bytes set"
    and ready :: "nat \<Rightarrow> 'i \<times> bytes set \<Rightarrow> bool"
    and view :: "'i \<Rightarrow> bytes \<Rightarrow> 'v option"
    and fine :: "bytes \<Rightarrow> entry \<Rightarrow> bool"
    and meaning :: "entry \<Rightarrow> 'v option"
  assumes seen: "ky \<in> sn \<Longrightarrow> step (ix, sn) ky e = Inr (ix, sn)"
    and room: "ready (Suc n) st \<Longrightarrow> ready n st"
    and unseen: "ready (Suc n) (ix, sn) \<Longrightarrow> ky \<notin> sn \<Longrightarrow> fine ky e \<Longrightarrow>
      \<exists>ix'. step (ix, sn) ky e = Inr (ix', insert ky sn) \<and> ready n (ix', insert ky sn) \<and>
        view ix' = (view ix)(ky := meaning e)"
begin

definition overlay :: "(bytes \<times> entry) list \<Rightarrow> bytes set \<Rightarrow> (bytes \<Rightarrow> 'v option) \<Rightarrow> bytes \<Rightarrow> 'v option" where
  "overlay es sn m ky = (if ky \<in> sn then m ky else case map_of es ky of None \<Rightarrow> m ky | Some e \<Rightarrow> meaning e)"

lemma walk:
  assumes "ready (length es) (ix, sn)" and "\<And>ky e. ky \<notin> sn \<Longrightarrow> map_of es ky = Some e \<Longrightarrow> fine ky e"
  shows "\<exists>ix' sn'. fold_entries step es (ix, sn) = Inr (ix', sn') \<and> ready 0 (ix', sn') \<and>
    view ix' = overlay es sn (view ix) \<and> sn' = sn \<union> fst ` set es"
  using assms
proof (induction es arbitrary: ix sn)
  case Nil
  then show ?case by (auto simp: overlay_def fun_eq_iff)
next
  case (Cons ke es)
  obtain ky e where ke: "ke = (ky, e)" by (cases ke)
  show ?case
  proof (cases "ky \<in> sn")
    case True
    have "ready (length es) (ix, sn)" using room Cons.prems(1) by simp
    moreover have "fine ky' e'" if "ky' \<notin> sn" "map_of es ky' = Some e'" for ky' e'
      using Cons.prems(2) [of ky' e'] that True by (cases "ky' = ky") (auto simp: ke)
    moreover have "overlay (ke # es) sn (view ix) = overlay es sn (view ix)"
      using True by (auto simp: overlay_def ke fun_eq_iff)
    ultimately show ?thesis using Cons.IH [of ix sn] seen [OF True] True
      by (auto simp: ke insert_absorb)
  next
    case False
    then have "fine ky e" using Cons.prems(2) [of ky e] by (simp add: ke)
    from unseen [OF _ False this] Cons.prems(1) obtain ix1 where
      1: "step (ix, sn) ky e = Inr (ix1, insert ky sn)" "ready (length es) (ix1, insert ky sn)"
        "view ix1 = (view ix)(ky := meaning e)" by auto
    have "fine ky' e'" if "ky' \<notin> insert ky sn" "map_of es ky' = Some e'" for ky' e'
      using Cons.prems(2) [of ky' e'] that by (simp add: ke)
    moreover have "overlay (ke # es) sn (view ix) = overlay es (insert ky sn) (view ix1)"
      using False by (auto simp: overlay_def ke 1(3) fun_eq_iff split: option.split)
    ultimately show ?thesis using Cons.IH [OF 1(2)] 1(1) by (simp add: ke)
  qed
qed

end

section \<open>The two walks\<close>

text \<open>The vector an entry stands for under a metric, and the entries an index of dimension \<open>d\<close> can take.\<close>

definition meaning_of :: "distance_metric \<Rightarrow> entry \<Rightarrow> f32 list option" where
  "meaning_of mt e =
     (case e of
        Vector bs \<Rightarrow> (case decode_vector bs of Inl _ \<Rightarrow> None | Inr v \<Rightarrow> preprocess_vector mt v)
      | _ \<Rightarrow> None)"

definition entry_fine :: "distance_metric \<Rightarrow> nat \<Rightarrow> bytes \<Rightarrow> entry \<Rightarrow> bool" where
  "entry_fine mt d ky e \<longleftrightarrow>
     (\<forall>bs. e = Vector bs \<longrightarrow>
        key_fits ky \<and> (\<exists>v. decode_vector bs = Inr v \<and> length v = d \<and> preprocess_vector mt v \<noteq> None))"

definition index_dim :: "nat \<Rightarrow> 'r vector_index \<Rightarrow> bool" where
  "index_dim d ix \<longleftrightarrow> d \<noteq> 0 \<and> (vi_expected_dim ix = None \<or> vi_expected_dim ix = Some d) \<and>
     (hi_dim (vi_hnsw ix) = 0 \<or> hi_dim (vi_hnsw ix) = d)"

definition delta_ready :: "hnsw_params \<Rightarrow> distance_metric \<Rightarrow> nat \<Rightarrow> nat \<Rightarrow> nat \<Rightarrow> 'r vector_index \<times> bytes set \<Rightarrow> bool" where
  "delta_ready ps mt d mx n st \<longleftrightarrow>
     (case st of (ix, sn) \<Rightarrow>
        index_ok ix \<and> index_dim d ix \<and> hi_params (vi_hnsw ix) = ps \<and> hi_metric (vi_hnsw ix) = mt \<and>
        hnsw_len (vi_hnsw ix) + n \<le> mx \<and> mx \<le> 2 ^ 32)"

definition rebuild_ready :: "hnsw_params \<Rightarrow> distance_metric \<Rightarrow> nat \<Rightarrow> nat \<Rightarrow> nat \<Rightarrow> 'r vector_index \<times> bytes set \<Rightarrow> bool" where
  "rebuild_ready ps mt d mx n st \<longleftrightarrow> delta_ready ps mt d mx n st \<and> dom (vi_abs (fst st)) \<subseteq> snd st"

lemma kept_index_put:
  assumes "vi_expected_dim ix = None \<or> vi_expected_dim ix = Some (length v)"
  shows "kept (index_put lib key v ix) =
    and_then (kept (forget_key key (ix\<lparr>vi_expected_dim := Some (length v)\<rparr>))) (\<lambda>ix. kept (add_vector lib key v ix))"
  using assms by (auto simp: index_put_def kept_def and_then_def split: prod.split sum.split)

lemma index_put_fine:
  assumes r: "delta_ready ps mt d mx (Suc n) (ix, sn)" and fine: "entry_fine mt d ky (Vector bs)"
  shows "\<exists>v ix'. decode_vector bs = Inr v \<and> (vi_expected_dim ix = None \<or> vi_expected_dim ix = Some (length v)) \<and>
    index_put lib ky v ix = (Inr (), ix') \<and> delta_ready ps mt d mx n (ix', sn') \<and>
    vi_abs ix' = (vi_abs ix)(ky := meaning_of mt (Vector bs))"
proof -
  obtain v where v: "decode_vector bs = Inr v" "length v = d" "preprocess_vector mt v \<noteq> None"
    using fine by (auto simp: entry_fine_def)
  have acc: "accepts ix v" using v r by (auto simp: accepts_def dim_fits_def delta_ready_def index_dim_def)
  have "index_ok ix" "key_fits ky" "hnsw_len (vi_hnsw ix) < 2 ^ 32"
    using r fine by (simp_all add: delta_ready_def entry_fine_def)
  from index_put_ok [OF this acc, of lib] show ?thesis
    using v r acc by (auto simp: delta_ready_def same_setup_def meaning_of_def stored_form_def index_dim_def accepts_def)
qed

lemma forget_key_fine:
  assumes "delta_ready ps mt d mx (Suc n) (ix, sn)"
  shows "\<exists>ix'. forget_key ky ix = (Inr (), ix') \<and> delta_ready ps mt d mx n (ix', sn') \<and>
    vi_abs ix' = (vi_abs ix)(ky := None)"
  using forget_key_ok [of ix ky] assms by (fastforce simp: delta_ready_def same_setup_def index_dim_def)

lemma apply_delta_step:
  assumes r: "delta_ready ps mt d mx (Suc n) (ix, sn)" and new: "ky \<notin> sn" and fine: "entry_fine mt d ky e"
  shows "\<exists>ix'. apply_delta_entry lib (ix, sn) ky e = Inr (ix', insert ky sn) \<and>
    delta_ready ps mt d mx n (ix', insert ky sn) \<and> vi_abs ix' = (vi_abs ix)(ky := meaning_of mt e)"
proof (cases e)
  case (Vector bs)
  from index_put_fine [OF r fine [unfolded Vector], of lib "insert ky sn"] obtain v ix' where
    v: "decode_vector bs = Inr v" "vi_expected_dim ix = None \<or> vi_expected_dim ix = Some (length v)"
      "index_put lib ky v ix = (Inr (), ix')" and ix': "delta_ready ps mt d mx n (ix', insert ky sn)"
      "vi_abs ix' = (vi_abs ix)(ky := meaning_of mt (Vector bs))" by blast
  have "and_then (kept (forget_key ky (ix\<lparr>vi_expected_dim := Some (length v)\<rparr>)))
      (\<lambda>ix. kept (add_vector lib ky v ix)) = Inr ix'"
    using kept_index_put [OF v(2), of lib ky] v(3) by (simp add: kept_def)
  then have "and_then (kept (forget_key ky (ix\<lparr>vi_expected_dim := Some (length v)\<rparr>)))
      (\<lambda>ix. and_then (kept (add_vector lib ky v ix)) (\<lambda>ix. Inr (ix, insert ky sn))) = Inr (ix', insert ky sn)"
    by (auto simp: and_then_def split: sum.splits)
  then show ?thesis using new v(1,2) ix' by (auto simp: apply_delta_entry_def Vector)
qed (use forget_key_fine [OF r, of ky "insert ky sn"] new in
    \<open>auto simp: apply_delta_entry_def kept_def meaning_of_def\<close>)

lemma rebuild_step:
  assumes r: "rebuild_ready ps mt d mx (Suc n) (ix, sn)" and new: "ky \<notin> sn" and fine: "entry_fine mt d ky e"
  shows "\<exists>ix'. rebuild_entry lib (ix, sn) ky e = Inr (ix', insert ky sn) \<and>
    rebuild_ready ps mt d mx n (ix', insert ky sn) \<and> vi_abs ix' = (vi_abs ix)(ky := meaning_of mt e)"
proof (cases e)
  case (Vector bs)
  have r': "delta_ready ps mt d mx (Suc n) (ix, sn)" and none: "vi_abs ix ky = None"
    using r new by (auto simp: rebuild_ready_def)
  then have none': "bt_get (vi_key_to_node ix) ky = None" by (simp add: vi_abs_def)
  from index_put_fine [OF r' fine [unfolded Vector], of lib "insert ky sn"] obtain v ix' where
    v: "decode_vector bs = Inr v" "vi_expected_dim ix = None \<or> vi_expected_dim ix = Some (length v)"
      "index_put lib ky v ix = (Inr (), ix')" and ix': "delta_ready ps mt d mx n (ix', insert ky sn)"
      "vi_abs ix' = (vi_abs ix)(ky := meaning_of mt (Vector bs))" by blast
  have "kept (add_vector lib ky v (ix\<lparr>vi_expected_dim := Some (length v)\<rparr>)) = Inr ix'"
    using kept_index_put [OF v(2), of lib ky] v(3) none' by (simp add: kept_def forget_key_def unregister_def)
  then have "insert_into_index lib ky bs ix = Inr ix'" using v(1,2) by (auto simp: insert_into_index_def)
  moreover have "dom (vi_abs ix') \<subseteq> insert ky sn" using r ix'(2) by (auto simp: rebuild_ready_def split: if_splits)
  ultimately show ?thesis using new ix' by (simp add: rebuild_entry_def Vector rebuild_ready_def)
qed (use r new in \<open>auto simp: rebuild_entry_def meaning_of_def rebuild_ready_def delta_ready_def fun_eq_iff\<close>)

interpretation rebuild: newest_first "rebuild_entry lib" "rebuild_ready ps mt d mx" vi_abs "entry_fine mt d" "meaning_of mt"
  for lib :: "'r rng_lib" and ps mt d mx
proof unfold_locales
  show "rebuild_ready ps mt d mx n st" if "rebuild_ready ps mt d mx (Suc n) st" for n and st :: "'r vector_index \<times> bytes set"
    using that by (auto simp: rebuild_ready_def delta_ready_def)
qed (simp add: rebuild_entry_def, rule rebuild_step)

interpretation delta: newest_first "apply_delta_entry lib" "delta_ready ps mt d mx" vi_abs "entry_fine mt d" "meaning_of mt"
  for lib :: "'r rng_lib" and ps mt d mx
proof unfold_locales
  show "delta_ready ps mt d mx n st" if "delta_ready ps mt d mx (Suc n) st" for n and st :: "'r vector_index \<times> bytes set"
    using that by (auto simp: delta_ready_def)
qed (simp add: apply_delta_entry_def, rule apply_delta_step)

section \<open>What the two ways give\<close>

text \<open>The vectors that the newest entries stand for.\<close>

definition indexed :: "distance_metric \<Rightarrow> (bytes \<Rightarrow> entry option) \<Rightarrow> bytes \<Rightarrow> f32 list option" where
  "indexed mt m ky = (case m ky of None \<Rightarrow> None | Some e \<Rightarrow> meaning_of mt e)"

definition all_fine :: "distance_metric \<Rightarrow> nat \<Rightarrow> (bytes \<Rightarrow> entry option) \<Rightarrow> bool" where
  "all_fine mt d m \<longleftrightarrow> (\<forall>ky e. m ky = Some e \<longrightarrow> entry_fine mt d ky e)"

definition index_for :: "hnsw_params \<Rightarrow> distance_metric \<Rightarrow> nat \<Rightarrow> 'r vector_index \<Rightarrow> bool" where
  "index_for ps mt d ix \<longleftrightarrow> index_ok ix \<and> index_dim d ix \<and> hi_params (vi_hnsw ix) = ps \<and>
     hi_metric (vi_hnsw ix) = mt"

lemma full_rebuild_ok:
  assumes e: "engine_on crc xxh e s ts0 ts1 rs" and es: "es = mt_map (en_memtable e) @ concat (ts0 @ ts1)"
    and ps: "d \<noteq> 0" "hp_dim params = 0 \<or> hp_dim params = d"
    and n: "length es \<le> 2 ^ 32" and fine: "all_fine (hp_metric params) d (map_of es)"
  shows "\<exists>ix. full_rebuild_index_from_lsm crc lib params e s = Some (Inr ix, s) \<and>
    index_for params (hp_metric params) d ix \<and> hnsw_len (vi_hnsw ix) \<le> length es \<and>
    vi_abs ix = indexed (hp_metric params) (map_of es)"
proof -
  let ?st = "(vi_new lib params, {} :: bytes set)"
  have "rebuild_ready params (hp_metric params) d (length es) (length es) ?st"
    using ps n by (simp add: rebuild_ready_def delta_ready_def index_new_ok index_dim_def)
      (simp add: vi_new_def hnsw_new_def hnsw_len_def)
  from rebuild.walk [OF this, of lib] fine obtain ix sn where
    w: "fold_entries (rebuild_entry lib) es ?st = Inr (ix, sn)" "rebuild_ready params (hp_metric params) d (length es) 0 (ix, sn)"
      "vi_abs ix = rebuild.overlay (hp_metric params) es {} (vi_abs (vi_new lib params))"
    by (auto simp: all_fine_def)
  have "rebuild.overlay (hp_metric params) es {} Map.empty = indexed (hp_metric params) (map_of es)"
    by (simp add: rebuild.overlay_def indexed_def fun_eq_iff)
  then show ?thesis
    using full_rebuild_walk [OF e, of lib params] w
    by (simp add: es rebuild_ready_def delta_ready_def index_for_def)
qed

lemma map_of_reverse_map:
  "distinct (map snd keys) \<Longrightarrow> map_of (reverse_map keys) n = Some ky \<longleftrightarrow> (ky, n) \<in> set keys"
proof -
  have fold: "map_of (fold (\<lambda>(k, nid) m. bt_insert m nid k) ks m) n = Some ky \<longleftrightarrow>
      (ky, n) \<in> set ks \<or> (n \<notin> snd ` set ks \<and> map_of m n = Some ky)" if "distinct (map snd ks)" for ks m
    using that by (induction ks arbitrary: m) (auto simp: image_iff split: if_splits)
  assume "distinct (map snd keys)"
  from fold [OF this, of "[]"] show ?thesis by (simp add: reverse_map_def)
qed

lemma reverse_map_sorted: "ksorted (reverse_map keys)"
proof -
  have "ksorted m \<Longrightarrow> ksorted (fold (\<lambda>(k, nid) m. bt_insert m nid k) keys m)" for m
    by (induction keys arbitrary: m) (auto simp: bt_insert_sorted)
  then show ?thesis by (simp add: reverse_map_def)
qed

lemma index_of_snapshot_ok:
  assumes "index_ok ix"
  shows "index_ok (index_of_snapshot (restored lib (vi_hnsw ix)) (vi_key_to_node ix)) \<and>
    vi_abs (index_of_snapshot (restored lib (vi_hnsw ix)) (vi_key_to_node ix)) = vi_abs ix"
proof -
  let ?g = "vi_hnsw ix" and ?kn = "vi_key_to_node ix"
  have k: "keys_ok ?g ?kn" using assms by (simp add: index_ok_def)
  have live: "live_node (restored lib ?g) i = live_node ?g i" for i by (simp add: live_node_arena)
  have "keys_ok (restored lib ?g) ?kn" using k by (simp add: keys_ok_alt live)
  moreover have "mirrored ?kn (reverse_map ?kn)"
    using k map_of_reverse_map [of ?kn]
    by (auto simp: mirrored_def reverse_map_sorted keys_ok_def ksorted_distinct)
  ultimately show ?thesis using assms
    by (simp add: index_ok_def index_of_snapshot_def restored_graph_ok vi_abs_def fun_eq_iff)
qed

lemma read_file_fully_ok:
  "plan s = [] \<Longrightarrow> bt_get (names s) path = Some h \<Longrightarrow> read_file_fully path s = (Inr (content s h), s)"
  by (simp add: read_file_fully_def no_fault slice_simps)

text \<open>The entries of the tables since the snapshot, newest table first.\<close>

definition delta_tables :: "u64 \<Rightarrow> level_state \<Rightarrow> (bytes \<times> entry) list list \<Rightarrow> (bytes \<times> entry) list list" where
  "delta_tables i lv tss = map snd [p \<leftarrow> zip (lv_l0 lv @ lv_l1 lv) tss. se_id (fst p) \<ge> i]"

lemma list_all2_filter_zip:
  "list_all2 P xs ys \<Longrightarrow> list_all2 P [x \<leftarrow> xs. Q x] (map snd [p \<leftarrow> zip xs ys. Q (fst p)])"
  by (induction rule: list_all2_induct) auto

lemma delta_ssts_ok:
  assumes lv: "levels_on crc xxh lv next_id s ts0 ts1"
  shows "list_all2 (\<lambda>t es. reads_table crc xxh (se_reader t) s es) (delta_ssts i lv) (delta_tables i lv (ts0 @ ts1))"
proof -
  have "sorted_wrt (\<lambda>t u. se_id u < se_id t) [t \<leftarrow> lv_l0 lv @ lv_l1 lv. se_id t \<ge> i]"
    using lv unfolding levels_on_def by (intro sorted_wrt_filter) simp
  then have "sorted_wrt (\<lambda>t u. - uint (se_id t) \<le> - uint (se_id u)) [t \<leftarrow> lv_l0 lv @ lv_l1 lv. se_id t \<ge> i]"
    by (rule sorted_wrt_mono_rel [rotated]) (simp add: word_less_alt)
  then have "delta_ssts i lv = [t \<leftarrow> lv_l0 lv @ lv_l1 lv. se_id t \<ge> i]"
    unfolding delta_ssts_def by (intro sort_key_id_if_sorted) (simp only: sorted_map)
  moreover have "list_all2 (\<lambda>t es. reads_table crc xxh (se_reader t) s es) (lv_l0 lv @ lv_l1 lv) (ts0 @ ts1)"
    using lv by (auto simp: levels_on_def table_on_def intro!: list_all2_appendI elim: list_all2_mono)
  from list_all2_filter_zip [OF this, of "\<lambda>t. se_id t \<ge> i"] calculation show ?thesis
    unfolding delta_tables_def by (simp only:)
qed

text \<open>A saved index, a file that holds its snapshot, and what loading the file gives.\<close>

definition saved_as :: "(bytes \<Rightarrow> u32) \<Rightarrow> fs \<Rightarrow> fname \<Rightarrow> u64 \<Rightarrow> 'r vector_index \<Rightarrow> bool" where
  "saved_as crc s path i ix \<longleftrightarrow>
     (\<exists>h. bt_get (names s) path = Some h \<and>
        content s h = encode_snapshot crc (vi_hnsw ix) i (vi_key_to_node ix))"

lemma load_snapshot_ok:
  fixes ix0 :: "'r vector_index" and lib :: "'r rng_lib"
  assumes e: "engine_on crc xxh e s ts0 ts1 rs" and sv: "saved_as crc s path i ix0"
    and ix0: "index_ok ix0" "sized (vi_hnsw ix0)" "index_dim d ix0"
    and es: "es = mt_map (en_memtable e) @ concat (delta_tables i (en_levels e) (ts0 @ ts1))"
    and n: "hnsw_len (vi_hnsw ix0) + length es \<le> 2 ^ 32"
    and fine: "all_fine (hi_metric (vi_hnsw ix0)) d (map_of es)"
  shows "\<exists>ix. load_snapshot_and_apply_delta crc lib e path s = Some (Inr ix, s) \<and>
    index_for (stored_params (vi_hnsw ix0)) (hi_metric (vi_hnsw ix0)) d ix \<and>
    hnsw_len (vi_hnsw ix) \<le> hnsw_len (vi_hnsw ix0) + length es \<and>
    vi_abs ix = (\<lambda>ky. case map_of es ky of None \<Rightarrow> vi_abs ix0 ky | Some e \<Rightarrow> meaning_of (hi_metric (vi_hnsw ix0)) e)"
proof -
  let ?g = "vi_hnsw ix0" and ?kn = "vi_key_to_node ix0"
  define ix1 :: "'r vector_index" where "ix1 = index_of_snapshot (restored lib ?g) ?kn"
  let ?f = "apply_delta_entry lib"
  have plan: "plan s = []" and lv: "levels_on crc xxh (en_levels e) (en_next_sst_id e) s ts0 ts1"
    using e by (simp_all add: engine_on_def)
  obtain h where h: "bt_get (names s) path = Some h" "content s h = encode_snapshot crc ?g i ?kn"
    using sv by (auto simp: saved_as_def)
  have rd: "read_file_fully path s = (Inr (encode_snapshot crc ?g i ?kn), s)"
    using read_file_fully_ok [OF plan h(1)] h(2) by simp
  have dec: "decode_snapshot crc lib (encode_snapshot crc ?g i ?kn) = Inr (restored lib ?g, ?kn, i)"
    using ix0 by (intro snapshot_roundtrip_raw) (simp_all add: index_ok_def)
  have ix1: "index_ok ix1" "vi_abs ix1 = vi_abs ix0"
    using index_of_snapshot_ok [OF ix0(1), of lib] by (simp_all add: ix1_def)
  have "delta_ready (stored_params ?g) (hi_metric ?g) d (hnsw_len ?g + length es) (length es) (ix1, {})"
    using ix1(1) ix0(3) n
    by (simp add: delta_ready_def index_dim_def) (auto simp: ix1_def index_of_snapshot_def restored_def hnsw_len_def)
  from delta.walk [OF this, of lib] fine obtain ix sn where
    w: "fold_entries ?f es (ix1, {}) = Inr (ix, sn)" "delta_ready (stored_params ?g) (hi_metric ?g) d (hnsw_len ?g + length es) 0 (ix, sn)"
      "vi_abs ix = delta.overlay (hi_metric ?g) es {} (vi_abs ix1)" by (auto simp: all_fine_def)
  obtain st where st: "fold_entries ?f (mt_map (en_memtable e)) (ix1, {}) = Inr st"
    "fold_entries ?f (concat (delta_tables i (en_levels e) (ts0 @ ts1))) st = Inr (ix, sn)"
    using w(1) by (cases "fold_entries ?f (mt_map (en_memtable e)) (ix1, {})") (auto simp: es fold_entries_append)
  have "for_tables crc ?f (delta_ssts i (en_levels e)) st s = Some (Inr (ix, sn), s)"
    using for_tables_ok [OF delta_ssts_ok [OF lv, of i] plan, where f = ?f and a = st] st(2) by simp
  then have "load_snapshot_and_apply_delta crc lib e path s = Some (Inr ix, s)"
    using st(1) by (simp add: load_snapshot_and_apply_delta_def rd dec mt_iter_def flip: ix1_def)
  then show ?thesis
    using w(2,3) ix1(2) by (auto simp: index_for_def delta_ready_def delta.overlay_def fun_eq_iff)
qed

end
