(* ===== verification/Database.thy ===== *)
theory Database
  imports History Vector_Search Index_Recovery
begin

text \<open>
  The engine as its users see it, \<^verbatim>\<open>Engine\<close> of \<^verbatim>\<open>src/src/engine.rs\<close>: the log-structured store
  and the vector index over it, the writes that keep them in step, the snapshots, and opening. The
  graph parameters are an argument of their own beside the other options.
\<close>

record 'r db =
  db_inner :: engine
  db_index :: "'r vector_index"

section \<open>Snapshots\<close>

text \<open>Best-effort removal of the other snapshots.\<close>

fun remove_old_snapshots :: "fname \<Rightarrow> u64 \<Rightarrow> fname list \<Rightarrow> fs \<Rightarrow> fs" where
  "remove_old_snapshots final_path next_sstable_id [] s = s"
| "remove_old_snapshots final_path next_sstable_id (path # ps) s =
     (if path = final_path then remove_old_snapshots final_path next_sstable_id ps s
      else
        (case parse_snapshot_filename path of
           None \<Rightarrow> remove_old_snapshots final_path next_sstable_id ps s
         | Some other_id \<Rightarrow>
             remove_old_snapshots final_path next_sstable_id ps
               (if other_id \<noteq> next_sstable_id then snd (remove_file path s) else s)))"

text \<open>The bytes are taken under the read lock of the index; the files are written after it is released.\<close>

definition publish_snapshot :: "u64 \<Rightarrow> bytes \<Rightarrow> fs \<Rightarrow> (error + unit) \<times> fs" where
  "publish_snapshot next_sstable_id bs s =
     (let final_path = snapshot_filename next_sstable_id;
          tmp_path = final_path @ TMP_SUFFIX
      in case open_append tmp_path s of
           (Inl e, s) \<Rightarrow> (Inl e, s)
         | (Inr h, s) \<Rightarrow>
             (case append_file h bs s of
                (Inl e, s) \<Rightarrow> (Inl e, s)
              | (Inr _, s) \<Rightarrow>
                  (case sync_file h s of
                     (Inl e, s) \<Rightarrow> (Inl e, s)
                   | (Inr _, s) \<Rightarrow>
                       (case rename_file tmp_path final_path s of
                          (Inl e, s) \<Rightarrow> (Inl e, s)
                        | (Inr _, s) \<Rightarrow>
                            (case sync_dir s of
                               (Inl e, s) \<Rightarrow> (Inl e, s)
                             | (Inr _, s) \<Rightarrow>
                                 (case list_dir s of
                                    (Inl e, s) \<Rightarrow> (Inr (), s)
                                  | (Inr entries, s) \<Rightarrow>
                                      (Inr (), remove_old_snapshots final_path next_sstable_id entries s)))))))"

definition write_snapshot ::
  "(bytes \<Rightarrow> u32) \<Rightarrow> u64 \<Rightarrow> 'r vector_index \<Rightarrow> fs \<Rightarrow> (error + unit) \<times> fs" where
  "write_snapshot crc next_sstable_id ix s =
     publish_snapshot next_sstable_id (encode_snapshot crc (vi_hnsw ix) next_sstable_id (vi_key_to_node ix)) s"

definition snapshot_if_moved ::
  "(bytes \<Rightarrow> u32) \<Rightarrow> u64 option \<Rightarrow> 'r vector_index \<Rightarrow> fs \<Rightarrow> (error + unit) \<times> fs" where
  "snapshot_if_moved crc next_id_after ix s =
     (case next_id_after of None \<Rightarrow> (Inr (), s) | Some next_id \<Rightarrow> write_snapshot crc next_id ix s)"

section \<open>Operations\<close>

definition db_open ::
  "(bytes \<Rightarrow> u32) \<Rightarrow> 'r rng_lib \<Rightarrow> hnsw_params \<Rightarrow> fs \<Rightarrow> ((error + 'r db) \<times> fs) option" where
  "db_open crc lib params s =
     (case open_inner crc s of
        (Inl err, s) \<Rightarrow> Some (Inl err, s)
      | (Inr e, s) \<Rightarrow>
          (case recover_vector_index crc lib params e s of
             None \<Rightarrow> None
           | Some (Inl err, s) \<Rightarrow> Some (Inl err, s)
           | Some (Inr ix, s) \<Rightarrow> Some (Inr \<lparr>db_inner = e, db_index = ix\<rparr>, s)))"

definition db_put ::
  "(bytes \<Rightarrow> u32) \<Rightarrow> (bytes \<Rightarrow> 128 word) \<Rightarrow> options \<Rightarrow> bytes \<Rightarrow> bytes \<Rightarrow> 'r db \<Rightarrow> fs \<Rightarrow>
     ((error + unit) \<times> 'r db \<times> fs) option" where
  "db_put crc xxh opts key v db s =
     (case lsm_put crc xxh opts key v (db_inner db) s of
        None \<Rightarrow> None
      | Some (Inl err, e, s) \<Rightarrow> Some (Inl err, db\<lparr>db_inner := e\<rparr>, s)
      | Some (Inr next_id_after, e, s) \<Rightarrow>
          (case snapshot_if_moved crc next_id_after (db_index db) s of
             (r, s) \<Rightarrow> Some (r, db\<lparr>db_inner := e\<rparr>, s)))"

definition db_delete ::
  "(bytes \<Rightarrow> u32) \<Rightarrow> (bytes \<Rightarrow> 128 word) \<Rightarrow> options \<Rightarrow> bytes \<Rightarrow> 'r db \<Rightarrow> fs \<Rightarrow>
     ((error + unit) \<times> 'r db \<times> fs) option" where
  "db_delete crc xxh opts key db s =
     (case lsm_delete crc xxh opts key (db_inner db) s of
        None \<Rightarrow> None
      | Some (Inl err, e, s) \<Rightarrow> Some (Inl err, db\<lparr>db_inner := e\<rparr>, s)
      | Some (Inr next_id_after, e, s) \<Rightarrow>
          (case forget_key key (db_index db) of
             (Inl err, ix) \<Rightarrow> Some (Inl err, \<lparr>db_inner = e, db_index = ix\<rparr>, s)
           | (Inr _, ix) \<Rightarrow>
               (case snapshot_if_moved crc next_id_after ix s of
                  (r, s) \<Rightarrow> Some (r, \<lparr>db_inner = e, db_index = ix\<rparr>, s))))"

definition db_put_indexed ::
  "(bytes \<Rightarrow> u32) \<Rightarrow> (bytes \<Rightarrow> 128 word) \<Rightarrow> options \<Rightarrow> 'r rng_lib \<Rightarrow> bytes \<Rightarrow> f32 list \<Rightarrow> 'r db \<Rightarrow> fs \<Rightarrow>
     ((error + unit) \<times> 'r db \<times> fs) option" where
  "db_put_indexed crc xxh opts lib key embedding db s =
     (if embedding = []
      then Some (Inl (InvalidArgument ''embedding must have at least one dimension''), db, s)
      else if \<not> list_all f32_is_finite embedding
      then Some (Inl (InvalidArgument ''embedding contains non-finite values (NaN or infinity)''), db, s)
      else if vi_expected_dim (db_index db) \<noteq> None \<and> vi_expected_dim (db_index db) \<noteq> Some (length embedding)
      then Some (Inl (InvalidArgument ''embedding dimension does not match established dimension''), db, s)
      else
        (case lsm_put_vector crc xxh opts key (encode_vector embedding) (db_inner db) s of
           None \<Rightarrow> None
         | Some (Inl err, e, s) \<Rightarrow> Some (Inl err, db\<lparr>db_inner := e\<rparr>, s)
         | Some (Inr next_id_after, e, s) \<Rightarrow>
             (case index_put lib key embedding (db_index db) of
                (Inl err, ix) \<Rightarrow> Some (Inl err, \<lparr>db_inner = e, db_index = ix\<rparr>, s)
              | (Inr _, ix) \<Rightarrow>
                  (case snapshot_if_moved crc next_id_after ix s of
                     (r, s) \<Rightarrow> Some (r, \<lparr>db_inner = e, db_index = ix\<rparr>, s)))))"

definition db_flush ::
  "(bytes \<Rightarrow> u32) \<Rightarrow> (bytes \<Rightarrow> 128 word) \<Rightarrow> options \<Rightarrow> 'r db \<Rightarrow> fs \<Rightarrow>
     ((error + unit) \<times> 'r db \<times> fs) option" where
  "db_flush crc xxh opts db s =
     (case lsm_flush crc xxh opts (db_inner db) s of
        None \<Rightarrow> None
      | Some (Inl err, e, s) \<Rightarrow> Some (Inl err, db\<lparr>db_inner := e\<rparr>, s)
      | Some (Inr next_id_after, e, s) \<Rightarrow>
          (case snapshot_if_moved crc next_id_after (db_index db) s of
             (r, s) \<Rightarrow> Some (r, db\<lparr>db_inner := e\<rparr>, s)))"

definition db_get ::
  "(bytes \<Rightarrow> u32) \<Rightarrow> (bytes \<Rightarrow> 128 word) \<Rightarrow> bytes \<Rightarrow> 'r db \<Rightarrow> fs \<Rightarrow> (error + bytes option) \<times> fs" where
  "db_get crc xxh key db s = engine_get crc xxh key (db_inner db) s"

definition db_nearest :: "f32 list \<Rightarrow> nat \<Rightarrow> 'r db \<Rightarrow> error + nearest_result list" where
  "db_nearest query k db = nearest (db_index db) query k"

definition db_nearest_filtered ::
  "f32 list \<Rightarrow> nat \<Rightarrow> (bytes \<Rightarrow> bool) \<Rightarrow> 'r db \<Rightarrow> (error + nearest_result list) option" where
  "db_nearest_filtered query k p db = nearest_filtered (db_index db) query k p"

definition db_vector_count :: "'r db \<Rightarrow> nat" where
  "db_vector_count db = vector_count (db_index db)"

definition db_close :: "'r db \<Rightarrow> fs \<Rightarrow> (error + unit) \<times> 'r db \<times> fs" where
  "db_close db s = (case engine_close (db_inner db) s of (r, e, s) \<Rightarrow> (r, db\<lparr>db_inner := e\<rparr>, s))"

end
