(* ===== verification/Database_Inv.thy ===== *)
theory Database_Inv
  imports Database
begin

text \<open>
  The invariant that ties the vector index to the store: the index stands for the vectors among the
  newest entries, and the snapshot on disk, if there is one, together with the memtable does too.
  Writing a snapshot, every write that goes through the index, flushing and reopening keep it.
\<close>

section \<open>Writing a snapshot\<close>

lemma parse_snapshot_other:
  "parse_snapshot_filename WAL_FILENAME = None" "parse_snapshot_filename (sst_filename l i) = None"
proof -
  let ?b = "''sst_L'' @ dec_string l @ ''_'' @ pad_left 6 (dec_string (unat i))"
  have "file_stem (?b @ ''.'' @ SST_EXT) = ?b"
    by (rule file_stem_join) (simp_all add: SST_EXT_def)
  then have "file_stem (sst_filename l i) = ?b" by (simp add: sst_filename_def)
  then show "parse_snapshot_filename (sst_filename l i) = None" by (simp add: parse_snapshot_filename_def)
  show "parse_snapshot_filename WAL_FILENAME = None"
    by (simp add: parse_snapshot_filename_def file_stem_def rsplit_dot_def WAL_FILENAME_def Let_def)
qed

lemma parse_snapshot_known:
  "known_name p \<Longrightarrow> parse_snapshot_filename p = Some j \<longleftrightarrow> p = snapshot_filename j"
  by (auto simp: known_name_def parse_snapshot_other parse_snapshot_snapshot)

lemma remove_old_snapshots_state:
  "plan s = [] \<Longrightarrow> remove_old_snapshots f i ps s =
     s\<lparr>names := foldl bt_remove (names s) [p \<leftarrow> ps. p \<noteq> f \<and> (\<exists>j. parse_snapshot_filename p = Some j \<and> j \<noteq> i)]\<rparr>"
  by (induction ps arbitrary: s) (auto simp: remove_file_state split: option.split)

lemma publish_snapshot_ok:
  assumes e: "engine_at crc xxh e s ts"
  shows "\<exists>s'. publish_snapshot i bs s = (Inr (), s') \<and> engine_at crc xxh e s' ts \<and>
    (\<exists>h. bt_get (names s') (snapshot_filename i) = Some h \<and> content s' h = bs) \<and>
    (\<forall>j. j \<noteq> i \<longrightarrow> bt_get (names s') (snapshot_filename j) = None) \<and>
    (\<forall>j. bt_get (stable_names s') (snapshot_filename j) =
       (if j = i then bt_get (names s') (snapshot_filename i) else bt_get (names s) (snapshot_filename j)))"
proof -
  obtain ts0 ts1 rs where on: "engine_on crc xxh e s ts0 ts1 rs" and ts: "ts = ts0 @ ts1"
    using e by (auto simp: engine_at_def)
  have st: "plan s = []" "fs_ok s" "durable s" and dir: "dir_ok (en_levels e) s"
    using on by (simp_all add: engine_on_def)
  define h where "h = next_ino s"
  let ?f = "snapshot_filename i" and ?tmp = "snapshot_filename i @ TMP_SUFFIX"
  have "bt_get (names s) ?tmp = None"
    using dir unfolding dir_ok_def by (metis (no_types, lifting) filename_nonempty(2) filenames_distinct(7,9,11) imageE)
  note tmp = this
  define s1 where "s1 = s\<lparr>names := bt_insert (names s) ?tmp h, content := (content s)(h := bs),
    stable := (stable s)(h := bs), next_ino := Suc h\<rparr>"
  define ns where "ns = bt_insert (names s) ?f h"
  define s3 where "s3 = s1\<lparr>names := ns, stable_names := ns\<rparr>"
  have plan: "plan s1 = []" "plan s3 = []" using st by (simp_all add: s1_def s3_def)
  have ren: "bt_insert (bt_remove (bt_insert (names s) ?tmp h) ?tmp) ?f h = ns"
    using fs_rename_fresh [OF st(2) tmp] by (simp add: ns_def)
  have ok3: "fs_ok s3" by (rule fs_ok_fresh [OF st(2)]) (simp_all add: s3_def s1_def ns_def h_def)
  define rm where "rm = [p \<leftarrow> map fst ns. p \<noteq> ?f \<and> (\<exists>j. parse_snapshot_filename p = Some j \<and> j \<noteq> i)]"
  define s' where "s' = s3\<lparr>names := foldl bt_remove ns rm\<rparr>"
  have run: "publish_snapshot i bs s = (Inr (), s')"
  proof -
    define s0 where "s0 = s\<lparr>names := bt_insert (names s) ?tmp h, content := (content s)(h := []),
        stable := (stable s)(h := []), next_ino := Suc h\<rparr>"
    have 1: "open_append ?tmp s = (Inr h, s0)"
      using st tmp by (simp add: open_append_new h_def s0_def)
    have 2: "append_file h bs s0 = (Inr (), s0\<lparr>content := (content s0)(h := bs)\<rparr>)"
      using st by (simp add: append_file_ok s0_def)
    have 3: "sync_file h (s0\<lparr>content := (content s0)(h := bs)\<rparr>) = (Inr (), s1)"
      using st by (simp add: sync_file_ok s0_def s1_def)
    have 4: "rename_file ?tmp ?f s1 = (Inr (), s1\<lparr>names := ns\<rparr>)"
      using plan ren by (simp add: rename_file_ok [of _ _ h] s1_def bt_get_map_of)
    have 5: "sync_dir (s1\<lparr>names := ns\<rparr>) = (Inr (), s3)"
      using plan by (simp add: sync_dir_ok s3_def)
    have 6: "list_dir s3 = (Inr (map fst ns), s3)"
      using plan by (simp add: list_dir_ok) (simp add: s3_def)
    have 7: "remove_old_snapshots ?f i (map fst ns) s3 = s'"
      using plan by (simp add: remove_old_snapshots_state) (simp add: s'_def s3_def rm_def)
    show ?thesis
      by (simp add: publish_snapshot_def Let_def 1 2 3 4 5 6 7)
  qed
  have sorted: "ksorted ns" using st(2) by (simp add: ns_def bt_insert_sorted fs_ok_sorted)
  have known: "known_name p" if "p \<in> set (map fst ns)" for p
    using that dir_ok_known [OF dir, of p] by (auto simp: ns_def set_fst_bt_insert known_name_def)
  have rm: "p \<in> set rm \<longleftrightarrow> p \<in> set (map fst ns) \<and> (\<exists>j. p = snapshot_filename j \<and> j \<noteq> i)" for p
    using known parse_snapshot_known by (auto simp: rm_def)
  have get': "bt_get (names s') p = (if p \<in> set rm then None else bt_get ns p)" for p
    using foldl_remove [OF sorted, of rm] by (simp add: s'_def bt_get_map_of restrict_map_def)
  have get: "bt_get ns p = (if p = ?f then Some h else bt_get (names s) p)" for p
    by (simp add: ns_def bt_get_map_of)
  have old: "h \<noteq> h'" if "bt_get (names s) p = Some h'" for p h'
    using fs_ok_names_less [OF st(2) that] by (simp add: h_def)
  have only: "bt_get (names s') (snapshot_filename j) = (if j = i then Some h else None)" for j
  proof (cases "j = i")
    case False
    have "bt_get ns (snapshot_filename j) = None" if "snapshot_filename j \<notin> set (map fst ns)"
      using that by (simp add: bt_get_map_of map_of_eq_None_iff)
    with False rm show ?thesis by (auto simp: get')
  qed (simp add: get' rm get)
  have "engine_on crc xxh e s' ts0 ts1 rs"
  proof (rule engine_on_frame [OF on])
    show "plan s' = []" using plan by (simp add: s'_def)
    show ok: "fs_ok s'" by (rule fs_ok_remove_all [OF ok3]) (simp_all add: s'_def s3_def)
    show "bt_get (names s') p = bt_get (names s) p" if "p \<notin> range snapshot_filename" for p
      using that rm by (auto simp: get' get)
    show "content s' k = content s k" if "bt_get (names s) p = Some k" for p k
      using old [OF that] by (simp add: s'_def s3_def s1_def)
    show "durable s'"
      unfolding durable_def
    proof (intro conjI allI impI)
      show "fs_ok (s'\<lparr>names := stable_names s'\<rparr>)"
        by (rule fs_ok_same [OF ok3]) (simp_all add: s'_def s3_def)
      show "bt_get (stable_names s') p = bt_get (names s') p" if "p \<notin> range snapshot_filename" for p
        using that rm by (auto simp: get') (simp_all add: s'_def s3_def)
      fix p k
      assume "bt_get (names s') p = Some k"
      then have "k = h \<or> bt_get (names s) p = Some k" by (auto simp: get' get split: if_splits)
      then show "stable s' k = content s' k"
        using st(3) old by (auto simp: s'_def s3_def s1_def durable_def)
    qed
  qed
  moreover have "\<exists>h. bt_get (names s') ?f = Some h \<and> content s' h = bs"
    unfolding only by (simp add: s'_def s3_def s1_def)
  moreover have "bt_get (stable_names s') (snapshot_filename j) =
      (if j = i then bt_get (names s') ?f else bt_get (names s) (snapshot_filename j))" for j
    unfolding only by (simp add: s'_def s3_def get)
  ultimately show ?thesis using run only ts unfolding engine_at_def by auto
qed

lemma write_snapshot_ok:
  assumes "engine_at crc xxh e s ts"
  shows "\<exists>s'. write_snapshot crc i ix s = (Inr (), s') \<and> engine_at crc xxh e s' ts \<and>
    saved_as crc s' (snapshot_filename i) i ix \<and>
    (\<forall>j. j \<noteq> i \<longrightarrow> bt_get (names s') (snapshot_filename j) = None) \<and>
    (\<forall>j. bt_get (stable_names s') (snapshot_filename j) =
       (if j = i then bt_get (names s') (snapshot_filename i) else bt_get (names s) (snapshot_filename j)))"
  using publish_snapshot_ok [OF assms, of i] unfolding write_snapshot_def saved_as_def by blast

section \<open>Finding the snapshot again\<close>

lemma filter_one: "distinct xs \<Longrightarrow> [p \<leftarrow> xs. p = a] = (if a \<in> set xs then [a] else [])"
  by (induction xs) auto

lemma snapshot_candidates:
  assumes "\<And>p. p \<in> set ps \<Longrightarrow> known_name p" and "\<And>j. snapshot_filename j \<in> set ps \<Longrightarrow> j = i"
  shows "List.map_filter (\<lambda>p. map_option (\<lambda>j. (j, p)) (parse_snapshot_filename p)) ps =
    map (\<lambda>p. (i, p)) [p \<leftarrow> ps. p = snapshot_filename i]"
  using assms
proof (induction ps)
  case Nil
  then show ?case by (simp add: map_filter_simps)
next
  case (Cons p ps)
  have IH: "List.map_filter (\<lambda>p. map_option (\<lambda>j. (j, p)) (parse_snapshot_filename p)) ps =
      map (\<lambda>p. (i, p)) [p \<leftarrow> ps. p = snapshot_filename i]" using Cons by simp
  have p: "parse_snapshot_filename p = Some j \<longleftrightarrow> p = snapshot_filename j" for j
    using Cons.prems(1) parse_snapshot_known by simp
  show ?case
  proof (cases "parse_snapshot_filename p")
    case None
    with p [of i] IH show ?thesis by (simp add: map_filter_simps)
  next
    case (Some j)
    then have "p = snapshot_filename j" using p by simp
    moreover have "j = i" using Cons.prems(2) [of j] calculation by simp
    ultimately show ?thesis using Some IH by (simp add: map_filter_simps)
  qed
qed

lemma discover_latest_snapshot_ok:
  assumes e: "engine_at crc xxh e s ts" and one: "\<And>j. bt_get (names s) (snapshot_filename j) \<noteq> None \<Longrightarrow> j = i"
  shows "discover_latest_snapshot s =
    (Inr (if bt_get (names s) (snapshot_filename i) = None then None else Some (snapshot_filename i)), s)"
proof -
  have st: "plan s = []" "fs_ok s" and dir: "dir_ok (en_levels e) s"
    using e by (auto simp: engine_at_def engine_on_def)
  let ?ps = "map fst (names s)"
  have "List.map_filter (\<lambda>p. map_option (\<lambda>j. (j, p)) (parse_snapshot_filename p)) ?ps =
      map (\<lambda>p. (i, p)) [p \<leftarrow> ?ps. p = snapshot_filename i]"
    using dir_ok_known [OF dir] one unfolding name_present [symmetric] by (intro snapshot_candidates)
  moreover have "distinct ?ps" using st(2) by (simp add: fs_ok_sorted ksorted_distinct)
  ultimately show ?thesis using st(1)
    by (simp add: discover_latest_snapshot_def list_dir_ok filter_one name_present Let_def del: set_map)
qed

lemma discover_saved:
  assumes "engine_at crc xxh e s ts" and "saved_as crc s (snapshot_filename i) i ix"
    and one: "\<And>j. j \<noteq> i \<Longrightarrow> bt_get (names s) (snapshot_filename j) = None"
  shows "discover_latest_snapshot s = (Inr (Some (snapshot_filename i)), s)"
proof -
  have "j = i" if "bt_get (names s) (snapshot_filename j) \<noteq> None" for j
    by (rule ccontr) (use one [of j] that in simp)
  note discover_latest_snapshot_ok [OF assms(1) this]
  moreover have "bt_get (names s) (snapshot_filename i) \<noteq> None"
    using assms(2) unfolding saved_as_def by (elim exE conjE) simp
  ultimately show ?thesis by simp
qed

end
