(* ===== verification/Database_Rep.thy ===== *)
theory Database_Rep
  imports Database_Inv
begin

text \<open>
  What an open database stands for: the entry each key shows, and the vectors of the index. A plain
  value written over a vector leaves the vector in the index, so the two agree only outside a set of
  shadowed keys, which the relation carries. The snapshot on disk, if there is one, agrees in the same
  way wherever the memtable does not decide. Every operation keeps the relation.
\<close>

section \<open>The relation\<close>

definition small_params :: "hnsw_params \<Rightarrow> bool" where
  "small_params ps \<longleftrightarrow> hp_m ps < 2 ^ 32 \<and> hp_m_max_0 ps < 2 ^ 32 \<and> hp_ef_construction ps < 2 ^ 32 \<and>
     hp_ef_search ps < 2 ^ 32"

definition fit_index :: "distance_metric \<Rightarrow> nat \<Rightarrow> nat \<Rightarrow> 'r vector_index \<Rightarrow> bool" where
  "fit_index mt d H ix \<longleftrightarrow> index_ok ix \<and> index_dim d ix \<and> hi_metric (vi_hnsw ix) = mt \<and>
     small_params (hi_params (vi_hnsw ix)) \<and> hnsw_len (vi_hnsw ix) \<le> H"

definition agrees :: "distance_metric \<Rightarrow> bytes set \<Rightarrow> (bytes \<Rightarrow> entry option) \<Rightarrow> (bytes \<Rightarrow> f32 list option) \<Rightarrow> bool" where
  "agrees mt P m vm \<longleftrightarrow> (\<forall>ky. ky \<notin> P \<longrightarrow> vm ky = indexed mt m ky)"

definition table_ids :: "engine \<Rightarrow> u64 set" where
  "table_ids e = se_id ` set (lv_l0 (en_levels e) @ lv_l1 (en_levels e))"

definition snapshot_fits ::
  "(bytes \<Rightarrow> u32) \<Rightarrow> distance_metric \<Rightarrow> nat \<Rightarrow> nat \<Rightarrow> bytes set \<Rightarrow> 'r db \<Rightarrow> fs \<Rightarrow>
     (bytes \<times> entry) list list \<Rightarrow> bool" where
  "snapshot_fits crc mt d H P db s ts \<longleftrightarrow>
     (\<forall>j. bt_get (names s) (snapshot_filename j) = None) \<or>
     (\<exists>i (ix0 :: 'r vector_index).
        saved_as crc s (snapshot_filename i) i ix0 \<and> fit_index mt d H ix0 \<and>
        (\<forall>j. j \<noteq> i \<longrightarrow> bt_get (names s) (snapshot_filename j) = None) \<and>
        (\<forall>t \<in> table_ids (db_inner db). t < i) \<and>
        agrees mt (P \<union> dom (map_of (mt_map (en_memtable (db_inner db)))))
          (lsm_ents (en_memtable (db_inner db)) ts) (vi_abs ix0))"

definition db_on ::
  "(bytes \<Rightarrow> u32) \<Rightarrow> (bytes \<Rightarrow> 128 word) \<Rightarrow> distance_metric \<Rightarrow> nat \<Rightarrow> nat \<Rightarrow> bytes set \<Rightarrow> 'r db \<Rightarrow> fs \<Rightarrow>
     (bytes \<times> entry) list list \<Rightarrow> bool" where
  "db_on crc xxh mt d H P db s ts \<longleftrightarrow>
     engine_at crc xxh (db_inner db) s ts \<and> \<not> en_closed (db_inner db) \<and> fit_index mt d H (db_index db) \<and>
     all_fine mt d (lsm_ents (en_memtable (db_inner db)) ts) \<and>
     agrees mt P (lsm_ents (en_memtable (db_inner db)) ts) (vi_abs (db_index db)) \<and>
     snapshot_fits crc mt d H P db s ts"

definition db_rep ::
  "(bytes \<Rightarrow> u32) \<Rightarrow> (bytes \<Rightarrow> 128 word) \<Rightarrow> distance_metric \<Rightarrow> nat \<Rightarrow> 'r db \<Rightarrow> fs \<Rightarrow>
     (bytes \<Rightarrow> entry option) \<Rightarrow> bytes set \<Rightarrow> nat \<Rightarrow> nat \<Rightarrow> nat \<Rightarrow> bool" where
  "db_rep crc xxh mt d db s m P N I H \<longleftrightarrow>
     (\<exists>ts. db_on crc xxh mt d H P db s ts \<and> m = lsm_ents (en_memtable (db_inner db)) ts \<and>
        load (en_memtable (db_inner db)) ts \<le> N) \<and>
     unat (en_next_sst_id (db_inner db)) \<le> I"

lemma fit_index_sized: "fit_index mt d H ix \<Longrightarrow> d < 2 ^ 32 \<Longrightarrow> H < 2 ^ 32 \<Longrightarrow> sized (vi_hnsw ix)"
  by (auto simp: fit_index_def sized_def small_params_def index_dim_def hnsw_len_def)

lemma fit_index_mono: "fit_index mt d H ix \<Longrightarrow> H \<le> H' \<Longrightarrow> fit_index mt d H' ix"
  by (auto simp: fit_index_def)

lemma agrees_mono: "agrees mt P m vm \<Longrightarrow> P \<subseteq> P' \<Longrightarrow> agrees mt P' m vm"
  by (auto simp: agrees_def)

lemma saved_as_keeps: "keeps_snapshots s s' \<Longrightarrow> saved_as crc s (snapshot_filename i) i ix \<Longrightarrow>
    saved_as crc s' (snapshot_filename i) i ix"
  unfolding keeps_snapshots_def saved_as_def by metis

lemma snapshot_fits_step:
  fixes db :: "'r db" and db' :: "'r db"
  assumes fits: "snapshot_fits crc mt d H P db s ts" and ks: "keeps_snapshots s s'" and "H \<le> H'"
    and lv: "table_ids (db_inner db') = table_ids (db_inner db)"
    and agr: "\<And>vm. agrees mt (P \<union> dom (map_of (mt_map (en_memtable (db_inner db)))))
        (lsm_ents (en_memtable (db_inner db)) ts) vm \<Longrightarrow>
      agrees mt (P' \<union> dom (map_of (mt_map (en_memtable (db_inner db'))))) (lsm_ents (en_memtable (db_inner db')) ts') vm"
  shows "snapshot_fits crc mt d H' P' db' s' ts'"
proof -
  have names: "bt_get (names s') (snapshot_filename j) = bt_get (names s) (snapshot_filename j)" for j
    using ks by (simp add: keeps_snapshots_def)
  from fits show ?thesis unfolding snapshot_fits_def names lv
  proof (elim disjE exE conjE)
    fix i and ix0 :: "'r vector_index"
    assume "saved_as crc s (snapshot_filename i) i ix0" and "fit_index mt d H ix0"
      and rest: "\<forall>j. j \<noteq> i \<longrightarrow> bt_get (names s) (snapshot_filename j) = None"
        "\<forall>t \<in> table_ids (db_inner db). t < i"
        "agrees mt (P \<union> dom (map_of (mt_map (en_memtable (db_inner db)))))
           (lsm_ents (en_memtable (db_inner db)) ts) (vi_abs ix0)"
    then have "saved_as crc s' (snapshot_filename i) i ix0" "fit_index mt d H' ix0"
      using saved_as_keeps [OF ks] fit_index_mono \<open>H \<le> H'\<close> by blast+
    with rest(1,2) agr [OF rest(3)]
    show "(\<forall>j. bt_get (names s) (snapshot_filename j) = None) \<or>
      (\<exists>i (ix0 :: 'r vector_index).
        saved_as crc s' (snapshot_filename i) i ix0 \<and> fit_index mt d H' ix0 \<and>
        (\<forall>j. j \<noteq> i \<longrightarrow> bt_get (names s) (snapshot_filename j) = None) \<and>
        (\<forall>t \<in> table_ids (db_inner db). t < i) \<and>
        agrees mt (P' \<union> dom (map_of (mt_map (en_memtable (db_inner db')))))
          (lsm_ents (en_memtable (db_inner db')) ts') (vi_abs ix0))"
      by blast
  qed blast
qed

lemma db_rep_mono:
  assumes "db_rep crc xxh mt d db s m P N I H" and "N \<le> N'" and "I \<le> I'" and "H \<le> H'"
  shows "db_rep crc xxh mt d db s m P N' I' H'"
proof -
  have "db_on crc xxh mt d H' P db s ts" if "db_on crc xxh mt d H P db s ts" for ts
    using that fit_index_mono [OF _ assms(4)] snapshot_fits_step [OF _ keeps_snapshots_refl assms(4) refl]
    unfolding db_on_def by blast
  then show ?thesis using assms(1-3) unfolding db_rep_def by (metis order_trans)
qed

lemma lsm_ents_insert:
  "mt_map m' = bt_insert (mt_map m) ky e \<Longrightarrow> lsm_ents m' ts = (lsm_ents m ts)(ky := shown (Some e))"
  by (auto simp: lsm_ents_def map_add_def fun_eq_iff)

lemma indexed_other: "ky \<noteq> ky' \<Longrightarrow> indexed mt (m(ky := x)) ky' = indexed mt m ky'"
  by (simp add: indexed_def)

text \<open>A write leaves the snapshot right, since its key is in the memtable.\<close>

lemma snapshot_fits_insert:
  fixes db :: "'r db" and db' :: "'r db"
  assumes fits: "snapshot_fits crc mt d H P db s ts" and ks: "keeps_snapshots s s'" and H: "H \<le> H'"
    and mem: "mt_map (en_memtable (db_inner db')) = bt_insert (mt_map (en_memtable (db_inner db))) ky e"
    and lv: "en_levels (db_inner db') = en_levels (db_inner db)" and P: "P \<subseteq> insert ky P'"
  shows "snapshot_fits crc mt d H' P' db' s' ts"
proof (rule snapshot_fits_step [OF fits ks H])
  show "table_ids (db_inner db') = table_ids (db_inner db)" by (simp add: table_ids_def lv)
  fix vm
  assume "agrees mt (P \<union> dom (map_of (mt_map (en_memtable (db_inner db))))) (lsm_ents (en_memtable (db_inner db)) ts) vm"
  then show "agrees mt (P' \<union> dom (map_of (mt_map (en_memtable (db_inner db'))))) (lsm_ents (en_memtable (db_inner db')) ts) vm"
    using P unfolding agrees_def lsm_ents_insert [OF mem] mem by (auto simp: indexed_def)
qed

lemma table_ids_less: "engine_at crc xxh e s ts \<Longrightarrow> t \<in> table_ids e \<Longrightarrow> t < en_next_sst_id e"
  unfolding engine_at_def engine_on_def levels_on_def table_ids_def by blast

text \<open>
  Old snapshots are removed without a sync, so a power loss may bring them back. That does no harm as
  long as the newest is on stable storage and no other has a larger number; recovery takes the largest.
\<close>

definition snapshots_safe :: "u64 \<Rightarrow> fs \<Rightarrow> bool" where
  "snapshots_safe n s \<longleftrightarrow>
     (\<forall>j. bt_get (names s) (snapshot_filename j) \<noteq> None \<longrightarrow>
        j \<le> n \<and> bt_get (stable_names s) (snapshot_filename j) = bt_get (names s) (snapshot_filename j)) \<and>
     (\<forall>j. bt_get (stable_names s) (snapshot_filename j) \<noteq> None \<longrightarrow>
        (\<exists>i \<ge> j. bt_get (names s) (snapshot_filename i) \<noteq> None))"

definition keeps_safe :: "engine \<Rightarrow> fs \<Rightarrow> engine \<Rightarrow> fs \<Rightarrow> bool" where
  "keeps_safe e s e' s' \<longleftrightarrow> snapshots_safe (en_next_sst_id e) s \<longrightarrow> snapshots_safe (en_next_sst_id e') s'"

lemma keeps_safe_refl: "keeps_safe e s e s"
  by (simp add: keeps_safe_def)

lemma keeps_safe_trans: "keeps_safe e s e1 s1 \<Longrightarrow> keeps_safe e1 s1 e2 s2 \<Longrightarrow> keeps_safe e s e2 s2"
  by (simp add: keeps_safe_def)

lemma snapshots_safe_frame:
  assumes ks: "keeps_snapshots s s'" and safe: "snapshots_safe n s" and n: "n \<le> n'"
  shows "snapshots_safe n' s'"
proof -
  have names: "bt_get (names s') (snapshot_filename j) = bt_get (names s) (snapshot_filename j)" for j
    using ks by (simp add: keeps_snapshots_def)
  have stable: "bt_get (stable_names s') (snapshot_filename j) = bt_get (stable_names s) (snapshot_filename j) \<or>
      bt_get (stable_names s') (snapshot_filename j) = bt_get (names s) (snapshot_filename j)" for j
    using ks by (simp add: keeps_snapshots_def)
  show ?thesis
    unfolding snapshots_safe_def names
  proof (intro conjI allI impI)
    fix j
    assume "bt_get (names s) (snapshot_filename j) \<noteq> None"
    then have "j \<le> n" "bt_get (stable_names s) (snapshot_filename j) = bt_get (names s) (snapshot_filename j)"
      using safe by (simp_all add: snapshots_safe_def)
    then show "j \<le> n'" "bt_get (stable_names s') (snapshot_filename j) = bt_get (names s) (snapshot_filename j)"
      using n stable [of j] by auto
  next
    fix j
    assume "bt_get (stable_names s') (snapshot_filename j) \<noteq> None"
    then have "bt_get (stable_names s) (snapshot_filename j) \<noteq> None \<or> bt_get (names s) (snapshot_filename j) \<noteq> None"
      using stable [of j] by auto
    then show "\<exists>i \<ge> j. bt_get (names s) (snapshot_filename i) \<noteq> None"
      using safe unfolding snapshots_safe_def by blast
  qed
qed

lemma keeps_safe_frame: "keeps_snapshots s s' \<Longrightarrow> en_next_sst_id e \<le> en_next_sst_id e' \<Longrightarrow> keeps_safe e s e' s'"
  unfolding keeps_safe_def using snapshots_safe_frame by blast

lemma snapshots_safe_published:
  assumes safe: "snapshots_safe n s" and new: "bt_get (names s') (snapshot_filename n) \<noteq> None"
    and other: "\<forall>j. j \<noteq> n \<longrightarrow> bt_get (names s') (snapshot_filename j) = None"
    and stable: "\<forall>j. bt_get (stable_names s') (snapshot_filename j) =
       (if j = n then bt_get (names s') (snapshot_filename n) else bt_get (names s) (snapshot_filename j))"
  shows "snapshots_safe n s'"
  unfolding snapshots_safe_def
proof (intro conjI allI impI)
  fix j
  assume "bt_get (names s') (snapshot_filename j) \<noteq> None"
  then have "j = n" using other by metis
  then show "j \<le> n" "bt_get (stable_names s') (snapshot_filename j) = bt_get (names s') (snapshot_filename j)"
    using stable by simp_all
next
  fix j
  assume "bt_get (stable_names s') (snapshot_filename j) \<noteq> None"
  then have "j \<le> n" using stable safe by (auto simp: snapshots_safe_def split: if_splits)
  then show "\<exists>i \<ge> j. bt_get (names s') (snapshot_filename i) \<noteq> None" using new by blast
qed

text \<open>After the LSM operation the engine writes a snapshot if it allocated a table.\<close>

lemma settle:
  fixes ix :: "'r vector_index"
  assumes ev: "evolves crc xxh k e1 s1 ts e' s' ts'" and open': "\<not> en_closed e1"
    and ix: "fit_index mt d H ix" "d < 2 ^ 32" "H < 2 ^ 32"
    and m: "all_fine mt d (lsm_ents (en_memtable e1) ts)" "agrees mt P (lsm_ents (en_memtable e1) ts) (vi_abs ix)"
    and snap: "snapshot_fits crc mt d H P \<lparr>db_inner = e1, db_index = ix\<rparr> s1 ts"
  shows "\<exists>s''. snapshot_if_moved crc (moved_id e1 e') ix s' = (Inr (), s'') \<and>
    db_on crc xxh mt d H P \<lparr>db_inner = e', db_index = ix\<rparr> s'' ts' \<and> keeps_safe e1 s1 e' s''"
proof (cases "en_next_sst_id e' = en_next_sst_id e1")
  case True
  then have same: "e' = e1" "ts' = ts" "engine_at crc xxh e1 s' ts" "keeps_snapshots s1 s'"
    using ev by (auto simp: evolves_def)
  then show ?thesis
    using ix m open' snapshot_fits_step [OF snap same(4) order_refl refl] keeps_safe_frame [OF same(4), of e1 e1]
    by (simp add: snapshot_if_moved_def moved_id_def db_on_def)
next
  case False
  let ?i = "en_next_sst_id e'"
  have e': "engine_at crc xxh e' s' ts'" and m': "lsm_ents (en_memtable e') ts' = lsm_ents (en_memtable e1) ts"
    and "en_closed e' = en_closed e1" using ev by (simp_all add: evolves_def)
  moreover from write_snapshot_ok [OF e', of ?i ix] obtain s'' where
    w: "write_snapshot crc ?i ix s' = (Inr (), s'')" "engine_at crc xxh e' s'' ts'"
      "saved_as crc s'' (snapshot_filename ?i) ?i ix" "\<forall>j. j \<noteq> ?i \<longrightarrow> bt_get (names s'') (snapshot_filename j) = None"
      "\<forall>j. bt_get (stable_names s'') (snapshot_filename j) =
        (if j = ?i then bt_get (names s'') (snapshot_filename ?i) else bt_get (names s') (snapshot_filename j))"
    by blast
  have "snapshot_fits crc mt d H P \<lparr>db_inner = e', db_index = ix\<rparr> s'' ts'"
    unfolding snapshot_fits_def
    by (intro disjI2 exI [of _ ?i] exI [of _ ix])
      (use w(1-4) ix(1) table_ids_less [OF w(2)] agrees_mono [OF m(2)] m' in simp)
  moreover have "keeps_safe e1 s1 e' s''"
    unfolding keeps_safe_def
  proof
    assume "snapshots_safe (en_next_sst_id e1) s1"
    moreover have "keeps_safe e1 s1 e' s'" using ev by (intro keeps_safe_frame) (simp_all add: evolves_def word_le_nat_alt)
    ultimately have "snapshots_safe ?i s'" by (simp add: keeps_safe_def)
    moreover have "bt_get (names s'') (snapshot_filename ?i) \<noteq> None"
      using w(3) by (auto simp only: saved_as_def option.distinct(1))
    ultimately show "snapshots_safe ?i s''" using w(4,5) by (rule snapshots_safe_published)
  qed
  ultimately show ?thesis
    using w(1,2) ix m open' False by (simp add: snapshot_if_moved_def moved_id_def db_on_def)
qed


section \<open>Operations\<close>

lemma all_fine_insert: "all_fine mt d m \<Longrightarrow> entry_fine mt d ky e \<Longrightarrow> all_fine mt d (m(ky := shown (Some e)))"
  by (cases e) (auto simp: all_fine_def)

lemma db_write:
  fixes db :: "'r db" and ix :: "'r vector_index" and r
  defines "ky \<equiv> rec_key r" and "ent \<equiv> record_entry r"
  assumes rep: "db_rep crc xxh mt d db s m P N I H" and r: "valid_record r"
    and upd: "upd (en_memtable (db_inner db)) = apply_record r (en_memtable (db_inner db))"
    and N: "N + entry_bound ky ent < 2 ^ 62" and I: "I + 2 < 2 ^ 64" and dH: "d < 2 ^ 32" "H' < 2 ^ 32" "H \<le> H'"
    and ent: "entry_fine mt d ky ent" and ix: "fit_index mt d H' ix"
    and ag: "agrees mt P' (m(ky := shown (Some ent))) (vi_abs ix)" and P: "P \<subseteq> insert ky P'"
  shows "\<exists>n e' s' s''.
    lsm_write crc xxh opts (rec_kind r) ky (rec_value r) upd (db_inner db) s = Some (Inr n, e', s') \<and>
    snapshot_if_moved crc n ix s' = (Inr (), s'') \<and>
    db_rep crc xxh mt d \<lparr>db_inner = e', db_index = ix\<rparr> s'' (m(ky := shown (Some ent))) P'
      (N + entry_bound ky ent) (I + 2) H' \<and> keeps_safe (db_inner db) s e' s''"
proof -
  obtain ts where on: "db_on crc xxh mt d H P db s ts" and m: "m = lsm_ents (en_memtable (db_inner db)) ts"
    and le: "load (en_memtable (db_inner db)) ts \<le> N" "unat (en_next_sst_id (db_inner db)) \<le> I"
    using rep by (auto simp: db_rep_def)
  have e: "engine_at crc xxh (db_inner db) s ts" "\<not> en_closed (db_inner db)" and fine: "all_fine mt d m"
    and fits: "snapshot_fits crc mt d H P db s ts" using on m by (simp_all add: db_on_def)
  have "load (en_memtable (db_inner db)) ts + entry_bound ky ent < 2 ^ 62"
    "unat (en_next_sst_id (db_inner db)) + 2 < 2 ^ 64" using le N I by simp_all
  from lsm_write_evolves [OF e(1) r e(2), of upd opts, folded ky_def ent_def, OF upd this] obtain e1 s1 e' s' ts' where
    run: "lsm_write crc xxh opts (rec_kind r) ky (rec_value r) upd (db_inner db) s = Some (Inr (moved_id e1 e'), e', s')"
    and mem: "mt_map (en_memtable e1) = bt_insert (mt_map (en_memtable (db_inner db))) ky ent"
    and e1: "en_levels e1 = en_levels (db_inner db)" "en_next_sst_id e1 = en_next_sst_id (db_inner db)"
      "en_closed e1 = en_closed (db_inner db)" "keeps_snapshots s s1" and ev: "evolves crc xxh 2 e1 s1 ts e' s' ts'"
    by blast
  define db1 :: "'r db" where "db1 = \<lparr>db_inner = e1, db_index = ix\<rparr>"
  have m1: "lsm_ents (en_memtable e1) ts = m(ky := shown (Some ent))" using lsm_ents_insert [OF mem] m by simp
  have "snapshot_fits crc mt d H' P' db1 s1 ts"
    using snapshot_fits_insert [OF fits e1(4) dH(3), of db1 ky ent P'] mem e1(1) P by (simp add: db1_def)
  moreover have "all_fine mt d (m(ky := shown (Some ent)))" using fine ent by (rule all_fine_insert)
  ultimately obtain s'' where s'': "snapshot_if_moved crc (moved_id e1 e') ix s' = (Inr (), s'')"
    "db_on crc xxh mt d H' P' \<lparr>db_inner = e', db_index = ix\<rparr> s'' ts'" "keeps_safe e1 s1 e' s''"
    using settle [OF ev _ ix dH(1,2), of P'] e(2) e1(3) ag m1 by (auto simp: db1_def)
  have "lsm_ents (en_memtable e') ts' = m(ky := shown (Some ent))"
    and "load (en_memtable e') ts' \<le> N + entry_bound ky ent" and "unat (en_next_sst_id e') \<le> I + 2"
    using ev m1 load_insert [OF mem, of ts] le e1(2) unfolding evolves_def by simp_all
  with s''(2) have "db_rep crc xxh mt d \<lparr>db_inner = e', db_index = ix\<rparr> s'' (m(ky := shown (Some ent))) P'
      (N + entry_bound ky ent) (I + 2) H'" unfolding db_rep_def by auto
  moreover have "keeps_safe (db_inner db) s e1 s1"
    by (rule keeps_safe_frame [OF e1(4)]) (simp add: e1(2))
  then have "keeps_safe (db_inner db) s e' s''" using s''(3) by (rule keeps_safe_trans)
  ultimately show ?thesis using run s''(1) by blast
qed

end
