(* ===== verification/Database_Ops.thy ===== *)
theory Database_Ops
  imports Database_Rep
begin

text \<open>
  Every operation of the database refines the same operation on a map from keys to entries, with the
  set of keys whose vector a plain value shadows. Closing and opening again keeps both.
\<close>

section \<open>Vectors as bytes\<close>

lemma length_encode_vector [simp]: "length (encode_vector v) = 4 * length v"
  by (induction v) (simp_all add: encode_vector_def)

lemma chunks_encode: "map u32_from_le (chunks_exact_4 (encode_vector v)) = v"
proof (induction v)
  case Nil
  then show ?case by (simp add: encode_vector_def)
next
  case (Cons w v)
  have "length (u32_to_le w) = 4" by simp
  then obtain a b c d where "u32_to_le w = [a, b, c, d]"
    by (auto simp: numeral_eq_Suc length_Suc_conv simp del: length_u32_to_le)
  moreover from this have "u32_from_le [a, b, c, d] = w" by (metis u32_from_to_le)
  ultimately show ?case using Cons by (simp add: encode_vector_def)
qed

lemma decode_encode_vector [simp]: "decode_vector (encode_vector v) = Inr v"
  by (simp add: decode_vector_def chunks_encode)

section \<open>Writes\<close>

definition shadow :: "(bytes \<Rightarrow> entry option) \<Rightarrow> bytes set \<Rightarrow> bytes \<Rightarrow> bytes set" where
  "shadow m P ky = (case m ky of Some (Vector _) \<Rightarrow> insert ky P | _ \<Rightarrow> P)"

definition valid_vector :: "distance_metric \<Rightarrow> nat \<Rightarrow> f32 list \<Rightarrow> bool" where
  "valid_vector mt d v \<longleftrightarrow> v \<noteq> [] \<and> list_all f32_is_finite v \<and> length v = d \<and>
     valid_value (encode_vector v) \<and> preprocess_vector mt v \<noteq> None"

lemma valid_key_fits: "valid_key ky \<Longrightarrow> key_fits ky"
  by (simp add: valid_key_def key_fits_def MAX_KEY_LEN_def)

lemma db_repD:
  assumes "db_rep crc xxh mt d db s m P N I H"
  shows "fit_index mt d H (db_index db)" and "agrees mt P m (vi_abs (db_index db))"
    and "engine_rep crc xxh (db_inner db) s (\<lambda>ky. visible (m ky)) N I"
proof -
  obtain ts where on: "db_on crc xxh mt d H P db s ts" and m: "m = lsm_ents (en_memtable (db_inner db)) ts"
    and le: "load (en_memtable (db_inner db)) ts \<le> N" "unat (en_next_sst_id (db_inner db)) \<le> I"
    using assms by (auto simp: db_rep_def)
  then show "fit_index mt d H (db_index db)" and "agrees mt P m (vi_abs (db_index db))" by (simp_all add: db_on_def)
  show "engine_rep crc xxh (db_inner db) s (\<lambda>ky. visible (m ky)) N I"
    using on le m unfolding db_on_def engine_rep_at by (auto simp: lsm_map_ents fun_eq_iff)
qed

lemma shadow_covers: "P \<subseteq> shadow m P ky"
  by (auto simp: shadow_def split: option.split entry.split)

lemma shadow_agrees:
  assumes "agrees mt P m vm"
  shows "agrees mt (shadow m P ky) (m(ky \<mapsto> Put v)) vm"
  unfolding agrees_def
proof (intro allI impI)
  fix ky'
  assume out: "ky' \<notin> shadow m P ky"
  then have "vm ky' = indexed mt m ky'" using assms shadow_covers [of P m ky] by (auto simp: agrees_def)
  moreover have "indexed mt m ky = None" if "ky \<notin> shadow m P ky"
    using that by (auto simp: indexed_def meaning_of_def shadow_def split: option.splits entry.splits)
  ultimately show "vm ky' = indexed mt (m(ky \<mapsto> Put v)) ky'"
    using out by (cases "ky' = ky") (auto simp: indexed_other, simp add: indexed_def meaning_of_def)
qed

lemma db_eta: "\<lparr>db_inner = db_inner db, db_index = db_index db\<rparr> = (db :: 'r db)"
  by (cases db) simp

text \<open>The index step of a write that the index accepts.\<close>

lemma index_put_fits:
  assumes ix: "fit_index mt d H ix" and ky: "valid_key ky" and v: "valid_vector mt d v" and H: "Suc H < 2 ^ 32"
  shows "\<exists>ix'. index_put lib ky v ix = (Inr (), ix') \<and> fit_index mt d (Suc H) ix' \<and>
    vi_abs ix' = (vi_abs ix)(ky := preprocess_vector mt v)"
proof -
  have acc: "accepts ix v" using ix v by (auto simp: accepts_def fit_index_def index_dim_def dim_fits_def valid_vector_def)
  have "index_ok ix" "key_fits ky" "hnsw_len (vi_hnsw ix) < 2 ^ 32"
    using ix H valid_key_fits [OF ky] by (simp_all add: fit_index_def)
  from index_put_ok [OF this acc, of lib] obtain ix' where
    put: "index_put lib ky v ix = (Inr (), ix')" "index_ok ix'"
      "vi_abs ix' = (vi_abs ix)(ky := preprocess_vector mt v)" "same_setup ix ix'"
      "hi_dim (vi_hnsw ix') = length v" "hnsw_len (vi_hnsw ix') = Suc (hnsw_len (vi_hnsw ix))"
      "vi_expected_dim ix' = Some (length v)"
    using ix by (auto simp: stored_form_def fit_index_def)
  then have "fit_index mt d (Suc H) ix'"
    using ix v by (auto simp: fit_index_def same_setup_def index_dim_def valid_vector_def)
  with put(1,3) show ?thesis by blast
qed

lemma forget_key_fits:
  assumes "fit_index mt d H ix"
  shows "\<exists>ix'. forget_key ky ix = (Inr (), ix') \<and> fit_index mt d H ix' \<and> vi_abs ix' = (vi_abs ix)(ky := None)"
  using forget_key_ok [of ix ky] assms by (fastforce simp: fit_index_def same_setup_def index_dim_def)

lemma vector_entry_fine: "valid_key ky \<Longrightarrow> valid_vector mt d v \<Longrightarrow> entry_fine mt d ky (Vector (encode_vector v))"
  by (simp add: entry_fine_def valid_vector_def valid_key_fits)

lemma vector_record_valid: "valid_key ky \<Longrightarrow> valid_vector mt d v \<Longrightarrow>
    valid_record \<lparr>rec_kind = record_kind.Vector, rec_key = ky, rec_value = encode_vector v\<rparr>"
  by (simp add: valid_record_def valid_key_def valid_vector_def valid_value_def)

lemma db_put_rep:
  assumes rep: "db_rep crc xxh mt d db s m P N I H" and ky: "valid_key ky" and v: "valid_value v"
    and N: "N + entry_bound ky (Put v) < 2 ^ 62" and I: "I + 2 < 2 ^ 64" and d: "d < 2 ^ 32" and H: "H < 2 ^ 32"
  shows "\<exists>db' s'. db_put crc xxh opts ky v db s = Some (Inr (), db', s') \<and>
    db_rep crc xxh mt d db' s' (m(ky \<mapsto> Put v)) (shadow m P ky) (N + entry_bound ky (Put v)) (I + 2) H \<and>
    keeps_safe (db_inner db) s (db_inner db') s'"
proof -
  let ?r = "\<lparr>rec_kind = record_kind.Put, rec_key = ky, rec_value = v\<rparr>"
  have "agrees mt (shadow m P ky) (m(ky := shown (Some (Put v)))) (vi_abs (db_index db))"
    using shadow_agrees [OF db_repD(2) [OF rep]] by simp
  moreover have "P \<subseteq> insert ky (shadow m P ky)" using shadow_covers by blast
  moreover have "valid_record ?r" using ky v by (simp add: valid_record_def valid_key_def valid_value_def)
  ultimately obtain n e' s' s'' where
    "lsm_write crc xxh opts record_kind.Put ky v (mt_put ky v) (db_inner db) s = Some (Inr n, e', s')"
    "snapshot_if_moved crc n (db_index db) s' = (Inr (), s'')"
    "db_rep crc xxh mt d \<lparr>db_inner = e', db_index = db_index db\<rparr> s'' (m(ky \<mapsto> Put v)) (shadow m P ky)
      (N + entry_bound ky (Put v)) (I + 2) H" "keeps_safe (db_inner db) s e' s''"
    using db_write [OF rep, of ?r "mt_put ky v" H "db_index db" "shadow m P ky" opts] N I d H db_repD(1) [OF rep]
    by (auto simp: apply_record_def entry_fine_def)
  then show ?thesis
    by (intro exI [of _ "db\<lparr>db_inner := e'\<rparr>"] exI [of _ s'']) (cases db, simp add: db_put_def lsm_put_def)
qed

lemma db_delete_rep:
  assumes rep: "db_rep crc xxh mt d db s m P N I H" and ky: "valid_key ky"
    and N: "N + entry_bound ky Tombstone < 2 ^ 62" and I: "I + 2 < 2 ^ 64" and d: "d < 2 ^ 32" and H: "H < 2 ^ 32"
  shows "\<exists>db' s'. db_delete crc xxh opts ky db s = Some (Inr (), db', s') \<and>
    db_rep crc xxh mt d db' s' (m(ky := None)) (P - {ky}) (N + entry_bound ky Tombstone) (I + 2) H \<and>
    keeps_safe (db_inner db) s (db_inner db') s'"
proof -
  let ?r = "\<lparr>rec_kind = record_kind.Delete, rec_key = ky, rec_value = []\<rparr>"
  note ix = db_repD(1,2) [OF rep]
  from forget_key_fits [OF ix(1), of ky] obtain ix' where ix': "forget_key ky (db_index db) = (Inr (), ix')"
    "fit_index mt d H ix'" "vi_abs ix' = (vi_abs (db_index db))(ky := None)" by blast
  have "agrees mt (P - {ky}) (m(ky := shown (Some Tombstone))) (vi_abs ix')"
    using ix(2) by (auto simp: agrees_def ix'(3) indexed_def)
  moreover have "valid_record ?r" using ky by (simp add: valid_record_def valid_key_def)
  moreover have "P \<subseteq> insert ky (P - {ky})" by blast
  ultimately obtain n e' s' s'' where
    "lsm_write crc xxh opts record_kind.Delete ky [] (mt_delete ky) (db_inner db) s = Some (Inr n, e', s')"
    "snapshot_if_moved crc n ix' s' = (Inr (), s'')"
    "db_rep crc xxh mt d \<lparr>db_inner = e', db_index = ix'\<rparr> s'' (m(ky := None)) (P - {ky})
      (N + entry_bound ky Tombstone) (I + 2) H" "keeps_safe (db_inner db) s e' s''"
    using db_write [OF rep, of ?r "mt_delete ky" H ix' "P - {ky}" opts] N I d H ix'(2)
    by (auto simp: apply_record_def entry_fine_def)
  then show ?thesis
    by (intro exI [of _ "\<lparr>db_inner = e', db_index = ix'\<rparr>"] exI [of _ s'']) (simp add: db_delete_def lsm_delete_def ix'(1))
qed

lemma db_put_indexed_rep:
  assumes rep: "db_rep crc xxh mt d db s m P N I H" and ky: "valid_key ky" and v: "valid_vector mt d v"
    and N: "N + entry_bound ky (Vector (encode_vector v)) < 2 ^ 62" and I: "I + 2 < 2 ^ 64"
    and d: "d < 2 ^ 32" and H: "Suc H < 2 ^ 32"
  shows "\<exists>db' s'. db_put_indexed crc xxh opts lib ky v db s = Some (Inr (), db', s') \<and>
    db_rep crc xxh mt d db' s' (m(ky \<mapsto> Vector (encode_vector v))) (P - {ky})
      (N + entry_bound ky (Vector (encode_vector v))) (I + 2) (Suc H) \<and>
    keeps_safe (db_inner db) s (db_inner db') s'"
proof -
  let ?bs = "encode_vector v"
  let ?r = "\<lparr>rec_kind = record_kind.Vector, rec_key = ky, rec_value = ?bs\<rparr>"
  note ix = db_repD(1,2) [OF rep]
  have dim: "vi_expected_dim (db_index db) \<in> {None, Some d}" using ix(1) by (auto simp: fit_index_def index_dim_def)
  from index_put_fits [OF ix(1) ky v H, of lib] obtain ix' where
    put: "index_put lib ky v (db_index db) = (Inr (), ix')" "fit_index mt d (Suc H) ix'"
      "vi_abs ix' = (vi_abs (db_index db))(ky := preprocess_vector mt v)" by blast
  have "agrees mt (P - {ky}) (m(ky := shown (Some (Vector ?bs)))) (vi_abs ix')"
    using ix(2) by (auto simp: agrees_def put(3) indexed_def meaning_of_def)
  moreover have "valid_record ?r" using ky v by (rule vector_record_valid)
  moreover have "P \<subseteq> insert ky (P - {ky})" by blast
  ultimately obtain n e' s' s'' where
    "lsm_write crc xxh opts record_kind.Vector ky ?bs (mt_put_vector ky ?bs) (db_inner db) s = Some (Inr n, e', s')"
    "snapshot_if_moved crc n ix' s' = (Inr (), s'')"
    "db_rep crc xxh mt d \<lparr>db_inner = e', db_index = ix'\<rparr> s'' (m(ky \<mapsto> Vector ?bs)) (P - {ky})
      (N + entry_bound ky (Vector ?bs)) (I + 2) (Suc H)" "keeps_safe (db_inner db) s e' s''"
    using db_write [OF rep, of ?r "mt_put_vector ky ?bs" "Suc H" ix' "P - {ky}" opts] N I d H put(2) vector_entry_fine [OF ky v]
    by (auto simp: apply_record_def)
  moreover have "v \<noteq> []" "list_all f32_is_finite v" "length v = d" using v by (simp_all add: valid_vector_def)
  ultimately show ?thesis using dim
    by (intro exI [of _ "\<lparr>db_inner = e', db_index = ix'\<rparr>"] exI [of _ s''])
      (auto simp: db_put_indexed_def lsm_put_vector_def put(1))
qed

lemma db_flush_rep:
  assumes rep: "db_rep crc xxh mt d db s m P N I H" and N: "N < 2 ^ 62" and I: "I + 2 < 2 ^ 64"
    and d: "d < 2 ^ 32" and H: "H < 2 ^ 32"
  shows "\<exists>db' s'. db_flush crc xxh opts db s = Some (Inr (), db', s') \<and> db_rep crc xxh mt d db' s' m P N (I + 2) H \<and>
    keeps_safe (db_inner db) s (db_inner db') s'"
proof -
  obtain ts where on: "db_on crc xxh mt d H P db s ts" and m: "m = lsm_ents (en_memtable (db_inner db)) ts"
    and le: "load (en_memtable (db_inner db)) ts \<le> N" "unat (en_next_sst_id (db_inner db)) \<le> I"
    using rep by (auto simp: db_rep_def)
  have e: "engine_at crc xxh (db_inner db) s ts" "\<not> en_closed (db_inner db)"
    and rest: "fit_index mt d H (db_index db)" "all_fine mt d m" "agrees mt P m (vi_abs (db_index db))"
      "snapshot_fits crc mt d H P \<lparr>db_inner = db_inner db, db_index = db_index db\<rparr> s ts"
    using on m by (simp_all add: db_on_def db_eta)
  have "load (en_memtable (db_inner db)) ts < 2 ^ 62" "unat (en_next_sst_id (db_inner db)) + 2 < 2 ^ 64"
    using le N I by simp_all
  from lsm_flush_evolves [OF e(1) this e(2), of opts] obtain e' s' ts' where
    run: "lsm_flush crc xxh opts (db_inner db) s = Some (Inr (moved_id (db_inner db) e'), e', s')"
    and ev: "evolves crc xxh 2 (db_inner db) s ts e' s' ts'" by blast
  from settle [OF ev e(2) rest(1) d H, of P] rest(2-4) m obtain s'' where
    s'': "snapshot_if_moved crc (moved_id (db_inner db) e') (db_index db) s' = (Inr (), s'')"
    "db_on crc xxh mt d H P \<lparr>db_inner = e', db_index = db_index db\<rparr> s'' ts'" "keeps_safe (db_inner db) s e' s''" by blast
  have "lsm_ents (en_memtable e') ts' = m" "load (en_memtable e') ts' \<le> N" "unat (en_next_sst_id e') \<le> I + 2"
    using ev m le unfolding evolves_def by simp_all
  with s''(2) have "db_rep crc xxh mt d \<lparr>db_inner = e', db_index = db_index db\<rparr> s'' m P N (I + 2) H"
    unfolding db_rep_def by auto
  then show ?thesis using run s''(1,3)
    by (intro exI [of _ "db\<lparr>db_inner := e'\<rparr>"] exI [of _ s'']) (cases db, simp add: db_flush_def)
qed

section \<open>Reads\<close>

lemma db_get_rep:
  "db_rep crc xxh mt d db s m P N I H \<Longrightarrow> db_get crc xxh ky db s = (Inr (visible (m ky)), s)"
  using engine_get_rep [OF db_repD(3)] by (simp add: db_get_def)

text \<open>A query answers from the vectors, with the distances of the metric.\<close>

definition metric_distance :: "distance_metric \<Rightarrow> f32 list \<Rightarrow> f32 list \<Rightarrow> f32" where
  "metric_distance mt query v = distance_for_metric mt (the (preprocess_vector mt query)) v"

lemma db_nearest_rep:
  assumes "db_rep crc xxh mt d db s m P N I H"
  shows "\<exists>vm. agrees mt P m vm \<and>
    (case db_nearest query k db of
       Inr rs \<Rightarrow> length rs \<le> k \<and> answers vm (metric_distance mt query) rs
     | Inl e \<Rightarrow> (\<exists>msg. e = InvalidArgument msg) \<and> (length query \<noteq> d \<or> preprocess_vector mt query = None))"
proof -
  let ?ix = "db_index db"
  note ix = db_repD(1,2) [OF assms]
  then have ok: "index_ok ?ix" "hi_metric (vi_hnsw ?ix) = mt" "index_dim d ?ix" by (simp_all add: fit_index_def)
  have dist: "query_distance ?ix query = metric_distance mt query"
    by (simp add: fun_eq_iff query_distance_def metric_distance_def stored_form_def ok(2))
  have "hi_dim (vi_hnsw ?ix) = d" if "hnsw_search (vi_hnsw ?ix) query k = Inl e" for e
  proof -
    have "hi_nodes (vi_hnsw ?ix) \<noteq> []" using that by (auto simp: hnsw_search_def hnsw_is_empty_def hnsw_len_def)
    then show ?thesis using graph_ok_dim [OF index_okD(1) [OF ok(1)]] ok(3) by (auto simp: index_dim_def)
  qed
  with nearest_run [OF ok(1), of query k] ix(2) show ?thesis
    by (intro exI [of _ "vi_abs ?ix"])
      (cases "hnsw_search (vi_hnsw ?ix) query k", simp_all add: db_nearest_def dist stored_form_def ok(2))
qed

lemma db_nearest_filtered_rep:
  assumes "db_rep crc xxh mt d db s m P N I H"
  shows "\<exists>vm r. agrees mt P m vm \<and> db_nearest_filtered query k p db = Some r \<and>
    (case r of
       Inr rs \<Rightarrow> length rs \<le> k \<and> answers (vm |` {ky. p ky}) (metric_distance mt query) rs
     | Inl e \<Rightarrow> (\<exists>msg. e = InvalidArgument msg) \<and> (length query \<noteq> d \<or> preprocess_vector mt query = None))"
proof (cases "k = 0")
  case True
  then show ?thesis using db_repD(2) [OF assms]
    by (intro exI [of _ "vi_abs (db_index db)"]) (simp add: db_nearest_filtered_def nearest_filtered_def answers_def)
next
  case False
  let ?ix = "db_index db"
  note ix = db_repD(1,2) [OF assms]
  then have ok: "index_ok ?ix" "hi_metric (vi_hnsw ?ix) = mt" "index_dim d ?ix" by (simp_all add: fit_index_def)
  have dist: "query_distance ?ix query = metric_distance mt query"
    by (simp add: fun_eq_iff query_distance_def metric_distance_def stored_form_def ok(2))
  have "0 < k" using False by simp
  from nearest_filtered_raw [OF ok(1) this, of query p] obtain r where
    r: "nearest_filtered ?ix query k p = Some r" and res: "case r of
      Inr rs \<Rightarrow> length rs \<le> k \<and> answers (vi_abs ?ix |` {ky. p ky}) (metric_distance mt query) rs
    | Inl e \<Rightarrow> (\<exists>msg. e = InvalidArgument msg) \<and>
        (length query \<noteq> hi_dim (vi_hnsw ?ix) \<or> preprocess_vector mt query = None)"
    by (fastforce simp: dist stored_form_def ok(2) split: sum.splits)
  have "hi_dim (vi_hnsw ?ix) = d" if "nearest_filtered ?ix query k p = Some (Inl e)" for e
  proof -
    have "live_len (vi_hnsw ?ix) \<noteq> 0" using that False by (auto simp: nearest_filtered_def Let_def split: if_splits)
    then have "hi_nodes (vi_hnsw ?ix) \<noteq> []" by (auto simp: live_len_def)
    then show ?thesis using graph_ok_dim [OF index_okD(1) [OF ok(1)]] ok(3) by (auto simp: index_dim_def)
  qed
  with r res ix(2) show ?thesis
    by (intro exI [of _ "vi_abs ?ix"] exI [of _ r]) (cases r, simp_all add: db_nearest_filtered_def)
qed

section \<open>Closing and opening again\<close>

definition fit_params :: "hnsw_params \<Rightarrow> nat \<Rightarrow> bool" where
  "fit_params ps d \<longleftrightarrow> small_params ps \<and> d \<noteq> 0 \<and> d < 2 ^ 32 \<and> hp_dim ps \<in> {0, d}"

text \<open>An entry takes at least 29 bytes, which bounds how many a recovery can replay.\<close>

lemma length_bound: "29 * length es \<le> table_bound es"
  by (induction es) auto

lemma length_load:
  assumes "load m ts \<le> N"
  shows "length (mt_map m @ concat ts) \<le> N div 29"
proof -
  have "29 * length (concat ts) \<le> sum_list (map table_bound ts)"
  proof (induction ts)
    case (Cons es ts)
    then show ?case using length_bound [of es] by simp
  qed simp
  then have "29 * length (mt_map m @ concat ts) \<le> N"
    using length_bound [of "mt_map m"] assms by (simp add: load_def)
  then show ?thesis by simp
qed

lemma indexed_ents: "indexed mt (map_of (mt_map m @ concat ts)) = indexed mt (lsm_ents m ts)"
proof -
  have "(case x of None \<Rightarrow> None | Some e \<Rightarrow> meaning_of mt e) =
      (case shown x of None \<Rightarrow> None | Some e \<Rightarrow> meaning_of mt e)" for x
    by (cases x rule: shown.cases) (simp_all add: meaning_of_def)
  then show ?thesis by (simp only: fun_eq_iff indexed_def lsm_ents_def) simp
qed

lemma all_fine_ents:
  assumes "all_fine mt d (lsm_ents m ts)"
  shows "all_fine mt d (map_of (mt_map m @ concat ts))"
  unfolding all_fine_def
proof (intro allI impI)
  fix ky e
  assume "map_of (mt_map m @ concat ts) ky = Some e"
  then have "lsm_ents m ts ky = shown (Some e)" by (simp add: lsm_ents_def)
  then show "entry_fine mt d ky e" using assms by (cases e) (auto simp: all_fine_def entry_fine_def)
qed

lemma engine_close_keeps: "plan s = [] \<Longrightarrow> engine_close e s = (r, e', s') \<Longrightarrow> keeps_snapshots s s'"
  by (auto simp: engine_close_def wal_sync_ok keeps_snapshots_def split: if_splits)

lemma table_ids_same:
  assumes "engine_on crc xxh e s ts0 ts1 rs" and "engine_on crc xxh e' s ts0' ts1' rs'"
  shows "table_ids e' = table_ids e"
proof -
  have ids: "table_ids e = {j. sst_filename 0 j \<in> set (map fst (names s)) \<or> sst_filename 1 j \<in> set (map fst (names s))}"
    if "engine_on crc xxh e s ts0 ts1 rs" for e ts0 ts1 rs
  proof -
    have "dir_ok (en_levels e) s" "levels_on crc xxh (en_levels e) (en_next_sst_id e) s ts0 ts1"
      using that by (simp_all add: engine_on_def)
    from level_names [OF this] show ?thesis by (auto simp only: table_ids_def set_append image_Un)
  qed
  show ?thesis unfolding ids [OF assms(1)] ids [OF assms(2)] ..
qed

lemma rebuilt_fits:
  assumes e: "engine_on crc xxh e s ts0 ts1 rs" and ps: "fit_params ps d" "hp_metric ps = mt"
    and n: "length (mt_map (en_memtable e) @ concat (ts0 @ ts1)) \<le> N" "N < 2 ^ 32"
    and fine: "all_fine mt d (lsm_ents (en_memtable e) (ts0 @ ts1))"
  shows "\<exists>ix. full_rebuild_index_from_lsm crc lib ps e s = Some (Inr ix, s) \<and> fit_index mt d N ix \<and>
    agrees mt P (lsm_ents (en_memtable e) (ts0 @ ts1)) (vi_abs ix)"
proof -
  have "d \<noteq> 0" "hp_dim ps = 0 \<or> hp_dim ps = d"
    using ps by (auto simp: fit_params_def)
  note full_rebuild_ok [OF e refl this, of lib]
  moreover have "length (mt_map (en_memtable e) @ concat (ts0 @ ts1)) \<le> 2 ^ 32" using n by simp
  ultimately obtain ix where "full_rebuild_index_from_lsm crc lib ps e s = Some (Inr ix, s)"
    "index_for ps mt d ix" "hnsw_len (vi_hnsw ix) \<le> N"
    "vi_abs ix = indexed mt (lsm_ents (en_memtable e) (ts0 @ ts1))"
    using all_fine_ents [OF fine] n(1) ps(2) indexed_ents [of mt "en_memtable e" "ts0 @ ts1"] by auto
  then show ?thesis using ps by (auto simp: index_for_def fit_index_def fit_params_def agrees_def)
qed

lemma mem_decides: "map_of (mt_map m) ky = Some x \<Longrightarrow> lsm_ents m ts ky = shown (Some x)"
  by (simp add: lsm_ents_def map_add_def)

lemma loaded_overlay:
  fixes ix0 :: "'r vector_index" and lib :: "'r rng_lib"
  assumes e: "engine_on crc xxh e s ts0 ts1 rs" and sv: "saved_as crc s path i ix0" and ix0: "fit_index mt d H ix0"
    and d: "d < 2 ^ 32" and old: "\<forall>t \<in> table_ids e. t < i"
    and n: "length (mt_map (en_memtable e)) \<le> N" "H + N < 2 ^ 32"
    and fine: "all_fine mt d (lsm_ents (en_memtable e) (ts0 @ ts1))"
  shows "\<exists>ix. load_snapshot_and_apply_delta crc lib e path s = Some (Inr ix, s) \<and> fit_index mt d (H + N) ix \<and>
    vi_abs ix = (\<lambda>ky. case map_of (mt_map (en_memtable e)) ky of None \<Rightarrow> vi_abs ix0 ky | Some x \<Rightarrow> meaning_of mt x)"
proof -
  let ?m = "mt_map (en_memtable e)"
  have none: "delta_tables i (en_levels e) (ts0 @ ts1) = []"
    using old by (auto simp: delta_tables_def table_ids_def filter_empty_conv not_le dest!: set_zip_leftD)
  have fine': "all_fine mt d (map_of ?m)"
    unfolding all_fine_def
  proof (intro allI impI)
    fix ky x
    assume "map_of ?m ky = Some x"
    then show "entry_fine mt d ky x" using fine mem_decides [of "en_memtable e" ky x "ts0 @ ts1"]
      by (cases x) (auto simp: all_fine_def entry_fine_def)
  qed
  have g: "index_ok ix0" "index_dim d ix0" "hi_metric (vi_hnsw ix0) = mt" "hnsw_len (vi_hnsw ix0) \<le> H"
    "small_params (hi_params (vi_hnsw ix0))" using ix0 by (simp_all add: fit_index_def)
  have sz: "sized (vi_hnsw ix0)" using n(2) by (intro fit_index_sized [OF ix0 d]) simp
  have "hnsw_len (vi_hnsw ix0) + length ?m \<le> 2 ^ 32" using g(4) n by simp
  with load_snapshot_ok [OF e sv g(1) sz g(2), of ?m lib] fine' none g(3) obtain ix where
    ix: "load_snapshot_and_apply_delta crc lib e path s = Some (Inr ix, s)"
      "index_for (stored_params (vi_hnsw ix0)) mt d ix" "hnsw_len (vi_hnsw ix) \<le> hnsw_len (vi_hnsw ix0) + length ?m"
      "vi_abs ix = (\<lambda>ky. case map_of ?m ky of None \<Rightarrow> vi_abs ix0 ky | Some x \<Rightarrow> meaning_of mt x)" by auto
  have "fit_index mt d (H + N) ix"
    using ix(2,3) g(4,5) n(1) by (simp add: index_for_def fit_index_def small_params_def stored_params_def)
  with ix(1,4) show ?thesis by blast
qed

lemma overlay_agrees:
  assumes ag: "agrees mt (P \<union> dom (map_of (mt_map m))) (lsm_ents m ts) vm"
  shows "agrees mt P (lsm_ents m ts) (\<lambda>ky. case map_of (mt_map m) ky of None \<Rightarrow> vm ky | Some x \<Rightarrow> meaning_of mt x)"
  unfolding agrees_def
proof (intro allI impI)
  fix ky
  assume "ky \<notin> P"
  show "(case map_of (mt_map m) ky of None \<Rightarrow> vm ky | Some x \<Rightarrow> meaning_of mt x) = indexed mt (lsm_ents m ts) ky"
  proof (cases "map_of (mt_map m) ky")
    case None
    with \<open>ky \<notin> P\<close> ag show ?thesis by (auto simp: agrees_def)
  next
    case (Some x)
    with mem_decides [OF Some, of ts] show ?thesis by (cases x) (simp_all add: indexed_def meaning_of_def)
  qed
qed

lemma recovered_fits:
  fixes db :: "'r db" and lib :: "'r rng_lib"
  assumes e: "engine_on crc xxh (db_inner db) s ts0 ts1 rs" and fits: "snapshot_fits crc mt d H P db s (ts0 @ ts1)"
    and ps: "fit_params ps d" "hp_metric ps = mt" and H: "H + N div 29 < 2 ^ 32"
    and m: "m = lsm_ents (en_memtable (db_inner db)) (ts0 @ ts1)" "all_fine mt d m"
    and n: "load (en_memtable (db_inner db)) (ts0 @ ts1) \<le> N"
  shows "\<exists>ix. recover_vector_index crc lib ps (db_inner db) s = Some (Inr ix, s) \<and> fit_index mt d (H + N div 29) ix \<and>
    agrees mt P m (vi_abs ix)"
proof -
  let ?e = "db_inner db"
  have at: "engine_at crc xxh ?e s (ts0 @ ts1)" using e unfolding engine_at_def by blast
  have n': "length (mt_map (en_memtable ?e) @ concat (ts0 @ ts1)) \<le> N div 29" "length (mt_map (en_memtable ?e)) \<le> N div 29"
    using length_load [OF n] by simp_all
  note fine = m(2) [unfolded m(1)]
  from fits show ?thesis unfolding snapshot_fits_def
  proof (elim disjE exE conjE)
    assume "\<forall>j. bt_get (names s) (snapshot_filename j) = None"
    then have none: "discover_latest_snapshot s = (Inr None, s)"
      using discover_latest_snapshot_ok [OF at, of 0] by simp
    have "N div 29 < 2 ^ 32" using H by simp
    from rebuilt_fits [OF e ps n'(1) this fine, of lib P] obtain ix where
      "full_rebuild_index_from_lsm crc lib ps ?e s = Some (Inr ix, s)" "fit_index mt d (N div 29) ix" "agrees mt P m (vi_abs ix)"
      unfolding m(1) by (elim exE conjE)
    with none fit_index_mono [of mt d "N div 29" ix "H + N div 29"] show ?thesis
      by (intro exI [of _ ix]) (simp add: recover_vector_index_def)
  next
    fix i and ix0 :: "'r vector_index"
    assume sn: "saved_as crc s (snapshot_filename i) i ix0" "fit_index mt d H ix0"
      "\<forall>j. j \<noteq> i \<longrightarrow> bt_get (names s) (snapshot_filename j) = None" "\<forall>t \<in> table_ids ?e. t < i"
      "agrees mt (P \<union> dom (map_of (mt_map (en_memtable ?e)))) (lsm_ents (en_memtable ?e) (ts0 @ ts1)) (vi_abs ix0)"
    have found: "discover_latest_snapshot s = (Inr (Some (snapshot_filename i)), s)"
      by (rule discover_saved [OF at sn(1)]) (rule sn(3) [rule_format])
    have d: "d < 2 ^ 32" using ps by (simp add: fit_params_def)
    from loaded_overlay [OF e sn(1,2) d sn(4) n'(2) H fine, of lib] obtain ix where
      ix: "load_snapshot_and_apply_delta crc lib ?e (snapshot_filename i) s = Some (Inr ix, s)"
        "fit_index mt d (H + N div 29) ix"
        "vi_abs ix = (\<lambda>ky. case map_of (mt_map (en_memtable ?e)) ky of None \<Rightarrow> vi_abs ix0 ky | Some x \<Rightarrow> meaning_of mt x)"
      by (elim exE conjE)
    have "agrees mt P m (vi_abs ix)" unfolding ix(3) m(1) by (rule overlay_agrees [OF sn(5)])
    note ix(1,2) this
    with found show ?thesis by (intro exI [of _ ix]) (simp add: recover_vector_index_def)
  qed
qed

text \<open>An engine that has just been opened, and the index that is recovered for it.\<close>

lemma opened_rep:
  fixes db :: "'r db" and lib :: "'r rng_lib"
  assumes e': "engine_on crc xxh e' s ts0 ts1 rs" "en_memtable e' = en_memtable (db_inner db)"
      "table_ids e' = table_ids (db_inner db)" "\<not> en_closed e'" "unat (en_next_sst_id e') \<le> I"
    and fits: "snapshot_fits crc mt d H P db s (ts0 @ ts1)"
    and ps: "fit_params ps d" "hp_metric ps = mt" and H: "H + N div 29 < 2 ^ 32"
    and m: "m = lsm_ents (en_memtable (db_inner db)) (ts0 @ ts1)" "all_fine mt d m"
    and n: "load (en_memtable (db_inner db)) (ts0 @ ts1) \<le> N"
  shows "\<exists>ix. recover_vector_index crc lib ps e' s = Some (Inr ix, s) \<and>
    db_rep crc xxh mt d \<lparr>db_inner = e', db_index = ix\<rparr> s m P N I (H + N div 29)"
proof -
  define db0 :: "'r db" where "db0 = \<lparr>db_inner = e', db_index = db_index db\<rparr>"
  have fits0: "snapshot_fits crc mt d H P db0 s (ts0 @ ts1)"
    by (rule snapshot_fits_step [OF fits keeps_snapshots_refl order_refl]) (simp_all add: db0_def e'(2,3))
  have e0: "db_inner db0 = e'" by (simp add: db0_def)
  from recovered_fits [OF _ fits0 ps H, unfolded e0, OF e'(1) _ m(2), of lib] m n e'(2) obtain ix where
    ix: "recover_vector_index crc lib ps e' s = Some (Inr ix, s)" "fit_index mt d (H + N div 29) ix" "agrees mt P m (vi_abs ix)"
    by auto
  define db' :: "'r db" where "db' = \<lparr>db_inner = e', db_index = ix\<rparr>"
  have "snapshot_fits crc mt d (H + N div 29) P db' s (ts0 @ ts1)"
    by (rule snapshot_fits_step [OF fits0 keeps_snapshots_refl]) (simp_all add: db0_def db'_def)
  then have "db_on crc xxh mt d (H + N div 29) P db' s (ts0 @ ts1)"
    using e'(1,2,4) ix(2,3) m unfolding db_on_def engine_at_def by (auto simp: db'_def)
  then have "db_rep crc xxh mt d db' s m P N I (H + N div 29)"
    using m n e'(5) unfolding db_rep_def by (auto simp: db'_def e'(2))
  with ix(1) show ?thesis by (intro exI [of _ ix]) (simp add: db'_def)
qed

lemma db_open_rep:
  fixes db :: "'r db" and lib :: "'r rng_lib"
  assumes e: "engine_on crc xxh (db_inner db) s ts0 ts1 rs" and fits: "snapshot_fits crc mt d H P db s (ts0 @ ts1)"
    and ps: "fit_params ps d" "hp_metric ps = mt" and H: "H + N div 29 < 2 ^ 32"
    and m: "m = lsm_ents (en_memtable (db_inner db)) (ts0 @ ts1)" "all_fine mt d m"
    and n: "load (en_memtable (db_inner db)) (ts0 @ ts1) \<le> N" and I: "unat (en_next_sst_id (db_inner db)) \<le> I"
  shows "\<exists>db'. db_open crc lib ps s = Some (Inr db', s) \<and> db_rep crc xxh mt d db' s m P N I (H + N div 29)"
proof -
  from open_inner_ok [OF e] obtain e' where e': "open_inner crc s = (Inr e', s)"
    "engine_on crc xxh e' s ts0 ts1 rs" "en_memtable e' = en_memtable (db_inner db)"
    "en_next_sst_id e' \<le> en_next_sst_id (db_inner db)" "\<not> en_closed e'" by auto
  have "unat (en_next_sst_id e') \<le> I" using e'(4) I by (simp add: word_le_nat_alt)
  from opened_rep [OF e'(2,3) table_ids_same [OF e e'(2)] e'(5) this fits ps H m n, of lib] obtain ix where
    ix: "recover_vector_index crc lib ps e' s = Some (Inr ix, s)"
      "db_rep crc xxh mt d \<lparr>db_inner = e', db_index = ix\<rparr> s m P N I (H + N div 29)" by blast
  then show ?thesis using e'(1) by (intro exI [of _ "\<lparr>db_inner = e', db_index = ix\<rparr>"]) (simp add: db_open_def)
qed

lemma db_reopen_rep:
  fixes db :: "'r db" and lib :: "'r rng_lib"
  assumes rep: "db_rep crc xxh mt d db s m P N I H" and ps: "fit_params ps d" "hp_metric ps = mt"
    and H: "H + N div 29 < 2 ^ 32"
  shows "\<exists>db1 s1 db2. db_close db s = (Inr (), db1, s1) \<and> db_open crc lib ps s1 = Some (Inr db2, s1) \<and>
    db_rep crc xxh mt d db2 s1 m P N I (H + N div 29)"
proof -
  obtain ts where on: "db_on crc xxh mt d H P db s ts" and m: "m = lsm_ents (en_memtable (db_inner db)) ts"
    and le: "load (en_memtable (db_inner db)) ts \<le> N" "unat (en_next_sst_id (db_inner db)) \<le> I"
    using rep by (auto simp: db_rep_def)
  let ?e = "db_inner db"
  have fine: "all_fine mt d m" and fits: "snapshot_fits crc mt d H P db s ts" and o: "\<not> en_closed ?e"
    using on m by (simp_all add: db_on_def)
  obtain ts0 ts1 rs where e: "engine_on crc xxh ?e s ts0 ts1 rs" and ts: "ts = ts0 @ ts1"
    using on by (auto simp: db_on_def engine_at_def)
  obtain s1 where s1: "engine_close ?e s = (Inr (), ?e\<lparr>en_closed := True\<rparr>, s1)"
      "engine_on crc xxh (?e\<lparr>en_closed := True\<rparr>) s1 ts0 ts1 rs"
    using engine_close_on [OF e o] by blast
  have keeps: "keeps_snapshots s s1" using e s1(1) by (auto simp: engine_on_def intro: engine_close_keeps)
  define db1 :: "'r db" where "db1 = db\<lparr>db_inner := ?e\<lparr>en_closed := True\<rparr>\<rparr>"
  have fits1: "snapshot_fits crc mt d H P db1 s1 (ts0 @ ts1)"
    by (rule snapshot_fits_step [OF fits keeps order_refl]) (simp_all add: db1_def table_ids_def ts)
  have e1: "db_inner db1 = ?e\<lparr>en_closed := True\<rparr>" by (simp add: db1_def)
  have "engine_on crc xxh (db_inner db1) s1 ts0 ts1 rs" using s1(2) by (simp add: e1)
  from db_open_rep [OF this fits1 ps H, of m I lib] m fine le obtain db2 where
    "db_open crc lib ps s1 = Some (Inr db2, s1)" "db_rep crc xxh mt d db2 s1 m P N I (H + N div 29)"
    by (auto simp: e1 ts)
  moreover have "db_close db s = (Inr (), db1, s1)" using s1(1) by (simp add: db_close_def db1_def)
  ultimately show ?thesis by (intro exI [of _ db1] exI [of _ s1] exI [of _ db2]) simp
qed

end
