(* ===== verification/Database_History.thy ===== *)
theory Database_History
  imports Database_Ops
begin

text \<open>
  Whole runs of the database through its public operations, closing and opening again among them. On
  an empty directory every run answers as a map from keys to values does, and every query for
  neighbours answers from the vectors of that map.
\<close>

section \<open>Commands\<close>

datatype db_command =
    DbPut bytes bytes
  | DbPutIndexed bytes "f32 list"
  | DbDelete bytes
  | DbGet bytes
  | DbNearest "f32 list" nat
  | DbNearestFiltered "f32 list" nat "bytes \<Rightarrow> bool"
  | DbFlush
  | DbReopen

datatype db_reply =
    Ack
  | Value "bytes option"
  | Hits "nearest_result list"

definition acked :: "((error + unit) \<times> 'r db \<times> fs) option \<Rightarrow> ((error + db_reply) \<times> 'r db \<times> fs) option" where
  "acked r = map_option (\<lambda>(x, db, s). (map_sum (\<lambda>y. y) (\<lambda>_. Ack) x, db, s)) r"

fun run_db_command ::
  "(bytes \<Rightarrow> u32) \<Rightarrow> (bytes \<Rightarrow> 128 word) \<Rightarrow> options \<Rightarrow> 'r rng_lib \<Rightarrow> hnsw_params \<Rightarrow> db_command \<Rightarrow> 'r db \<Rightarrow> fs \<Rightarrow>
     ((error + db_reply) \<times> 'r db \<times> fs) option" where
  "run_db_command crc xxh opts lib ps (DbPut ky v) db s = acked (db_put crc xxh opts ky v db s)"
| "run_db_command crc xxh opts lib ps (DbPutIndexed ky v) db s = acked (db_put_indexed crc xxh opts lib ky v db s)"
| "run_db_command crc xxh opts lib ps (DbDelete ky) db s = acked (db_delete crc xxh opts ky db s)"
| "run_db_command crc xxh opts lib ps (DbGet ky) db s =
     (case db_get crc xxh ky db s of (r, s) \<Rightarrow> Some (map_sum (\<lambda>y. y) Value r, db, s))"
| "run_db_command crc xxh opts lib ps (DbNearest query k) db s =
     Some (map_sum (\<lambda>y. y) Hits (db_nearest query k db), db, s)"
| "run_db_command crc xxh opts lib ps (DbNearestFiltered query k p) db s =
     map_option (\<lambda>r. (map_sum (\<lambda>y. y) Hits r, db, s)) (db_nearest_filtered query k p db)"
| "run_db_command crc xxh opts lib ps DbFlush db s = acked (db_flush crc xxh opts db s)"
| "run_db_command crc xxh opts lib ps DbReopen db s =
     (case db_close db s of
        (Inl err, db, s) \<Rightarrow> Some (Inl err, db, s)
      | (Inr _, db, s) \<Rightarrow>
          (case db_open crc lib ps s of
             None \<Rightarrow> None
           | Some (Inl err, s) \<Rightarrow> Some (Inl err, db, s)
           | Some (Inr db, s) \<Rightarrow> Some (Inr Ack, db, s)))"

fun run_db ::
  "(bytes \<Rightarrow> u32) \<Rightarrow> (bytes \<Rightarrow> 128 word) \<Rightarrow> options \<Rightarrow> 'r rng_lib \<Rightarrow> hnsw_params \<Rightarrow> db_command list \<Rightarrow> 'r db \<Rightarrow> fs \<Rightarrow>
     ((error + db_reply) list \<times> 'r db \<times> fs) option" where
  "run_db crc xxh opts lib ps [] db s = Some ([], db, s)"
| "run_db crc xxh opts lib ps (c # cs) db s =
     (case run_db_command crc xxh opts lib ps c db s of
        None \<Rightarrow> None
      | Some (r, db, s) \<Rightarrow>
          (case run_db crc xxh opts lib ps cs db s of
             None \<Rightarrow> None
           | Some (rs, db, s) \<Rightarrow> Some (r # rs, db, s)))"

section \<open>The specification\<close>

text \<open>
  A map from keys to entries, with the keys whose vector a plain value shadows. Vectors of shadowed
  keys may still be found, those of all other keys are exactly the ones in the map.
\<close>

fun db_spec :: "db_command \<Rightarrow> (bytes \<Rightarrow> entry option) \<times> bytes set \<Rightarrow> (bytes \<Rightarrow> entry option) \<times> bytes set" where
  "db_spec (DbPut ky v) (m, P) = (m(ky \<mapsto> Put v), shadow m P ky)"
| "db_spec (DbPutIndexed ky v) (m, P) = (m(ky \<mapsto> Vector (encode_vector v)), P - {ky})"
| "db_spec (DbDelete ky) (m, P) = (m(ky := None), P - {ky})"
| "db_spec c (m, P) = (m, P)"

definition near ::
  "distance_metric \<Rightarrow> nat \<Rightarrow> (bytes \<Rightarrow> f32 list option) \<Rightarrow> f32 list \<Rightarrow> nat \<Rightarrow> error + db_reply \<Rightarrow> bool" where
  "near mt d vm query k r =
     (case r of
        Inr (Hits rs) \<Rightarrow> length rs \<le> k \<and> answers vm (metric_distance mt query) rs
      | Inr _ \<Rightarrow> False
      | Inl e \<Rightarrow> (\<exists>msg. e = InvalidArgument msg) \<and> (length query \<noteq> d \<or> preprocess_vector mt query = None))"

fun db_replies ::
  "distance_metric \<Rightarrow> nat \<Rightarrow> db_command \<Rightarrow> (bytes \<Rightarrow> entry option) \<times> bytes set \<Rightarrow> error + db_reply \<Rightarrow> bool" where
  "db_replies mt d (DbGet ky) (m, P) r = (r = Inr (Value (visible (m ky))))"
| "db_replies mt d (DbNearest query k) (m, P) r = (\<exists>vm. agrees mt P m vm \<and> near mt d vm query k r)"
| "db_replies mt d (DbNearestFiltered query k p) (m, P) r =
     (\<exists>vm. agrees mt P m vm \<and> near mt d (vm |` {ky. p ky}) query k r)"
| "db_replies mt d c (m, P) r = (r = Inr Ack)"

fun db_run_spec ::
  "distance_metric \<Rightarrow> nat \<Rightarrow> db_command list \<Rightarrow> (bytes \<Rightarrow> entry option) \<times> bytes set \<Rightarrow>
     (error + db_reply) list \<Rightarrow> bool" where
  "db_run_spec mt d [] st rs = (rs = [])"
| "db_run_spec mt d (c # cs) st rs =
     (case rs of [] \<Rightarrow> False | r # rs \<Rightarrow> db_replies mt d c st r \<and> db_run_spec mt d cs (db_spec c st) rs)"

fun db_command_ok :: "distance_metric \<Rightarrow> nat \<Rightarrow> db_command \<Rightarrow> bool" where
  "db_command_ok mt d (DbPut ky v) \<longleftrightarrow> valid_key ky \<and> valid_value v"
| "db_command_ok mt d (DbPutIndexed ky v) \<longleftrightarrow> valid_key ky \<and> valid_vector mt d v"
| "db_command_ok mt d (DbDelete ky) \<longleftrightarrow> valid_key ky"
| "db_command_ok mt d c \<longleftrightarrow> True"

text \<open>What a command adds to the data, and at most to the nodes of the graph.\<close>

fun db_bound :: "db_command \<Rightarrow> nat" where
  "db_bound (DbPut ky v) = entry_bound ky (Put v)"
| "db_bound (DbPutIndexed ky v) = entry_bound ky (Vector (encode_vector v))"
| "db_bound (DbDelete ky) = entry_bound ky Tombstone"
| "db_bound c = 0"

fun node_bound :: "nat \<Rightarrow> db_command \<Rightarrow> nat" where
  "node_bound B (DbPutIndexed ky v) = 1"
| "node_bound B DbReopen = B div 29"
| "node_bound B c = 0"

section \<open>Histories\<close>

lemma run_db_command_rep:
  fixes db :: "'r db" and lib :: "'r rng_lib"
  assumes rep: "db_rep crc xxh mt d db s m P N I H" and c: "db_command_ok mt d c"
    and ps: "fit_params ps d" "hp_metric ps = mt" and N: "N + db_bound c \<le> B" "B < 2 ^ 62"
    and I: "I + 2 < 2 ^ 64" and H: "H + node_bound B c < 2 ^ 32"
  shows "\<exists>r db' s'. run_db_command crc xxh opts lib ps c db s = Some (r, db', s') \<and> db_replies mt d c (m, P) r \<and>
    db_rep crc xxh mt d db' s' (fst (db_spec c (m, P))) (snd (db_spec c (m, P)))
      (N + db_bound c) (I + 2) (H + node_bound B c) \<and>
    (c = DbReopen \<or> keeps_safe (db_inner db) s (db_inner db') s')"
proof -
  have d: "d < 2 ^ 32" using ps by (simp add: fit_params_def)
  have N': "N + db_bound c < 2 ^ 62" using N by simp
  note mono = db_rep_mono [OF rep order_refl _ order_refl, of "I + 2"] keeps_safe_refl
  show ?thesis
  proof (cases c)
    case (DbPut ky v)
    with db_put_rep [OF rep _ _ _ I d, of ky v opts] c N' H show ?thesis by (auto simp: acked_def)
  next
    case (DbPutIndexed ky v)
    with db_put_indexed_rep [OF rep _ _ _ I d, of ky v opts lib] c N' H show ?thesis by (auto simp: acked_def)
  next
    case (DbDelete ky)
    with db_delete_rep [OF rep _ _ I d, of ky opts] c N' H show ?thesis by (auto simp: acked_def)
  next
    case (DbGet ky)
    with db_get_rep [OF rep, of ky] mono show ?thesis by simp
  next
    case (DbNearest query k)
    with db_nearest_rep [OF rep, of query k] mono show ?thesis
      by (cases "db_nearest query k db") (auto simp: near_def)
  next
    case (DbNearestFiltered query k p)
    from db_nearest_filtered_rep [OF rep, of query k p] obtain vm r where
      r: "agrees mt P m vm" "db_nearest_filtered query k p db = Some r" "case r of
       Inr rs \<Rightarrow> length rs \<le> k \<and> answers (vm |` {ky. p ky}) (metric_distance mt query) rs
     | Inl e \<Rightarrow> (\<exists>msg. e = InvalidArgument msg) \<and> (length query \<noteq> d \<or> preprocess_vector mt query = None)" by blast
    then have "near mt d (vm |` {ky. p ky}) query k (map_sum (\<lambda>y. y) Hits r)" by (cases r) (simp_all add: near_def)
    with DbNearestFiltered r(1,2) mono show ?thesis by auto
  next
    case DbFlush
    with db_flush_rep [OF rep _ I d, of opts] N' H show ?thesis by (auto simp: acked_def)
  next
    case DbReopen
    have N29: "N div 29 \<le> B div 29" using N by (intro div_le_mono) simp
    then have "H + N div 29 < 2 ^ 32" using H DbReopen by simp
    from db_reopen_rep [OF rep ps this, of lib] obtain db1 s1 db2 where
      "db_close db s = (Inr (), db1, s1)" "db_open crc lib ps s1 = Some (Inr db2, s1)"
      "db_rep crc xxh mt d db2 s1 m P N I (H + N div 29)" by blast
    with DbReopen db_rep_mono [of crc xxh mt d db2 s1 m P N I "H + N div 29" N "I + 2" "H + B div 29"] N29
    show ?thesis by simp
  qed
qed

lemma run_db_rep:
  fixes db :: "'r db" and lib :: "'r rng_lib"
  assumes "fit_params ps d" and "hp_metric ps = mt" and "B < 2 ^ 62"
  shows "db_rep crc xxh mt d db s (fst st) (snd st) N I H \<Longrightarrow> \<forall>c \<in> set cs. db_command_ok mt d c \<Longrightarrow>
    N + sum_list (map db_bound cs) \<le> B \<Longrightarrow> I + 2 * length cs < 2 ^ 64 \<Longrightarrow>
    H + sum_list (map (node_bound B) cs) < 2 ^ 32 \<Longrightarrow>
    \<exists>rs db' s'. run_db crc xxh opts lib ps cs db s = Some (rs, db', s') \<and> db_run_spec mt d cs st rs"
proof (induction cs arbitrary: db s st N I H)
  case Nil
  then show ?case by simp
next
  case (Cons c cs)
  have "db_command_ok mt d c" "N + db_bound c \<le> B" "I + 2 < 2 ^ 64" "H + node_bound B c < 2 ^ 32"
    using Cons.prems by simp_all
  from run_db_command_rep [OF Cons.prems(1) this(1) assms(1,2) this(2) assms(3) this(3,4), of opts lib]
  obtain r db1 s1 where 1: "run_db_command crc xxh opts lib ps c db s = Some (r, db1, s1)" "db_replies mt d c st r"
    "db_rep crc xxh mt d db1 s1 (fst (db_spec c st)) (snd (db_spec c st)) (N + db_bound c) (I + 2) (H + node_bound B c)"
    by auto
  from Cons.IH [OF 1(3)] Cons.prems obtain rs db2 s2 where
    "run_db crc xxh opts lib ps cs db1 s1 = Some (rs, db2, s2)" "db_run_spec mt d cs (db_spec c st) rs" by auto
  with 1 show ?case by simp
qed

section \<open>From an empty directory\<close>

lemma open_inner_fresh_state:
  assumes "plan s = []" and "names s = []" and "open_inner crc s = (Inr e, s')"
  shows "names s' = [(WAL_FILENAME, next_ino s)]" and "en_memtable e = mt_new"
    and "en_levels e = \<lparr>lv_l0 = [], lv_l1 = []\<rparr>" and "stable_names s' = names s'"
proof -
  have "bt_get (names s) WAL_FILENAME = None" by (simp add: assms(2))
  note wal_open_new [OF assms(1) this]
  moreover have "discover_sstables crc s = (Inr (\<lparr>lv_l0 = [], lv_l1 = []\<rparr>, 0), s)"
    using assms by (simp add: discover_sstables_def list_dir_ok reconcile_l1_def reconcile_l0_def)
  moreover have "wal_file_exists s = (Inr False, s)"
    using assms by (simp add: wal_file_exists_def list_dir_ok)
  ultimately have "open_inner crc s =
      (Inr e, s') \<longrightarrow> names s' = [(WAL_FILENAME, next_ino s)] \<and> en_memtable e = mt_new \<and>
        en_levels e = \<lparr>lv_l0 = [], lv_l1 = []\<rparr> \<and> stable_names s' = names s'"
    using assms(1,2) by (auto simp: open_inner_def create_dir_all_ok)
  with assms(3) show "names s' = [(WAL_FILENAME, next_ino s)]" "en_memtable e = mt_new"
    "en_levels e = \<lparr>lv_l0 = [], lv_l1 = []\<rparr>" "stable_names s' = names s'" by simp_all
qed

lemma db_open_fresh:
  fixes lib :: "'r rng_lib"
  assumes "plan s = []" and "names s = []" and ps: "fit_params ps d" "hp_metric ps = mt"
  shows "\<exists>db s'. db_open crc lib ps s = Some (Inr db, s') \<and> db_rep crc xxh mt d db s' Map.empty {} 0 0 0 \<and>
    (\<forall>j. bt_get (names s') (snapshot_filename j) = None) \<and> en_memtable (db_inner db) = mt_new \<and>
    en_levels (db_inner db) = \<lparr>lv_l0 = [], lv_l1 = []\<rparr> \<and> (\<forall>n. snapshots_safe n s')"
proof -
  from open_inner_fresh [OF assms(1,2), of crc xxh] obtain e s' where
    e: "open_inner crc s = (Inr e, s')" "engine_rep crc xxh e s' Map.empty 0 0" by blast
  then obtain ts0 ts1 rs where on: "engine_on crc xxh e s' ts0 ts1 rs" "load (en_memtable e) (ts0 @ ts1) \<le> 0"
    "unat (en_next_sst_id e) \<le> 0" "\<not> en_closed e" by (auto simp: engine_rep_def)
  have none: "lsm_ents (en_memtable e) (ts0 @ ts1) = Map.empty"
  proof -
    have "mt_map (en_memtable e) @ concat (ts0 @ ts1) = []" using length_load [OF on(2)] by simp
    then show ?thesis by (simp only: lsm_ents_def fun_eq_iff) simp
  qed
  define db0 :: "'r db" where "db0 = \<lparr>db_inner = e, db_index = vi_new lib ps\<rparr>"
  have none': "bt_get (names s') (snapshot_filename j) = None" for j
    using open_inner_fresh_state(1) [OF assms(1,2) e(1)] filenames_distinct by (auto simp: bt_get_map_of)
  have safe: "snapshots_safe n s'" for n
    using none' open_inner_fresh_state(4) [OF assms(1,2) e(1)] by (simp add: snapshots_safe_def)
  from none' have fits: "snapshot_fits crc mt d 0 {} db (s' :: fs) ts" for db :: "'r db" and ts by (simp add: snapshot_fits_def)
  have e0: "db_inner db0 = e" by (simp add: db0_def)
  have "engine_on crc xxh (db_inner db0) s' ts0 ts1 rs" "load (en_memtable (db_inner db0)) (ts0 @ ts1) \<le> 0"
    using on(1,2) by (simp_all add: e0)
  from recovered_fits [OF this(1) fits ps _ refl _ this(2), of lib] none e0 obtain ix where
    ix: "recover_vector_index crc lib ps e s' = Some (Inr ix, s')" "fit_index mt d 0 ix" "agrees mt {} Map.empty (vi_abs ix)"
    by (auto simp: all_fine_def)
  define db' :: "'r db" where "db' = \<lparr>db_inner = e, db_index = ix\<rparr>"
  have "db_on crc xxh mt d 0 {} db' s' (ts0 @ ts1)"
    using on ix(2,3) none fits unfolding db_on_def engine_at_def by (auto simp: db'_def all_fine_def)
  then have "db_rep crc xxh mt d db' s' Map.empty {} 0 0 0"
    using on(2,3) none unfolding db_rep_def by (auto simp: db'_def)
  moreover have "db_open crc lib ps s = Some (Inr db', s')" using e(1) ix(1) by (simp add: db_open_def db'_def)
  moreover have "en_memtable (db_inner db') = mt_new" "en_levels (db_inner db') = \<lparr>lv_l0 = [], lv_l1 = []\<rparr>"
    using open_inner_fresh_state(2,3) [OF assms(1,2) e(1)] by (simp_all add: db'_def)
  ultimately show ?thesis using none' safe by blast
qed

text \<open>C1: On an empty directory every sequence of puts, vector writes, deletes, lookups, nearest-neighbour
  queries, filtered queries, flushes and restarts returns without error, and refines a map from keys
  to entries. A lookup answers the bytes of its key. A query answers with at most \<open>k\<close> different keys,
  each with the metric's distance to the vector the map holds for it; the only exceptions are keys whose
  vector a plain put has shadowed. So a deleted or overwritten vector is never found again, across
  flushes, compactions, snapshots and restarts. A query is refused only for a wrong dimension or a vector
  the metric cannot use. The bounds keep the data below \<open>2 ^ 62\<close> bytes and the graph below \<open>2 ^ 32\<close> nodes.
\<close>
theorem database_refines_map:
  fixes lib :: "'r rng_lib"
  assumes "plan s = []" and "names s = []" and "fit_params ps d"
    and "\<forall>c \<in> set cs. db_command_ok (hp_metric ps) d c"
    and "sum_list (map db_bound cs) \<le> B" and "B < 2 ^ 62" and "2 * length cs < 2 ^ 64"
    and "sum_list (map (node_bound B) cs) < 2 ^ 32"
  shows "\<exists>db s0 rs db' s'. db_open crc lib ps s = Some (Inr db, s0) \<and>
    run_db crc xxh opts lib ps cs db s0 = Some (rs, db', s') \<and>
    db_run_spec (hp_metric ps) d cs (Map.empty, {}) rs"
proof -
  from db_open_fresh [OF assms(1-3) refl, of crc lib xxh] obtain db s0 where
    db: "db_open crc lib ps s = Some (Inr db, s0)"
      "db_rep crc xxh (hp_metric ps) d db s0 Map.empty {} 0 0 0" by blast
  have "0 + sum_list (map db_bound cs) \<le> B" "0 + 2 * length cs < 2 ^ 64" "0 + sum_list (map (node_bound B) cs) < 2 ^ 32"
    using assms(5,7,8) by simp_all
  from run_db_rep [OF assms(3) refl assms(6) _ assms(4) this, of _ _ db s0 "(Map.empty, {})", OF _, of crc xxh opts lib]
    db(2) obtain rs db' s' where
    "run_db crc xxh opts lib ps cs db s0 = Some (rs, db', s')" "db_run_spec (hp_metric ps) d cs (Map.empty, {}) rs"
    by auto
  with db(1) show ?thesis by blast
qed

theorem database_refines_map_witness:
  "\<exists>db s0 rs db' s'. db_open (\<lambda>_. 7) sample_rng line_params empty_fs = Some (Inr db, s0) \<and>
    run_db (\<lambda>_. 7) (\<lambda>_. 9) small_options sample_rng line_params
      [DbPutIndexed [1] [F32_ONE], DbPutIndexed [2] [F32_ZERO], DbDelete [1], DbReopen, DbNearest [F32_ONE] 5,
       DbGet [2]] db s0 =
    Some ([Inr Ack, Inr Ack, Inr Ack, Inr Ack, Inr (Hits rs), Inr (Value (Some (encode_vector [F32_ZERO])))], db', s') \<and>
    nr_key ` set rs \<subseteq> {[2]}"
proof -
  let ?cs = "[DbPutIndexed [1] [F32_ONE], DbPutIndexed [2] [F32_ZERO], DbDelete [1], DbReopen,
    DbNearest [F32_ONE] 5, DbGet [2]]"
  have mt: "hp_metric line_params = EuclideanSquared" and ps: "fit_params line_params 1"
    by (simp_all add: line_params_def default_params_def fit_params_def small_params_def Let_def)
  have v: "preprocess_vector EuclideanSquared [F32_ONE] = Some [F32_ONE]"
    "preprocess_vector EuclideanSquared [F32_ZERO] = Some [F32_ZERO]" by (simp_all add: preprocess_vector_def line_finite)
  have ok: "\<forall>c \<in> set ?cs. db_command_ok (hp_metric line_params) 1 c"
    by (simp add: mt valid_vector_def v line_finite valid_key_def valid_value_def MAX_KEY_LEN_def MAX_VALUE_LEN_def)
  have b: "sum_list (map db_bound ?cs) \<le> 290" "(290 :: nat) < 2 ^ 62" "2 * length ?cs < 2 ^ 64"
    "sum_list (map (node_bound 290) ?cs) < 2 ^ 32" by (simp_all add: entry_bound_def)
  have "plan empty_fs = []" "names empty_fs = []" by (simp_all add: empty_fs_def)
  from database_refines_map [OF this ps ok b, of "\<lambda>_. 7" sample_rng "\<lambda>_. 9" small_options] obtain db s0 rs db' s' where
    run: "db_open (\<lambda>_. 7) sample_rng line_params empty_fs = Some (Inr db, s0)"
      "run_db (\<lambda>_. 7) (\<lambda>_. 9) small_options sample_rng line_params ?cs db s0 = Some (rs, db', s')"
    and spec: "db_run_spec EuclideanSquared 1 ?cs (Map.empty, {}) rs" unfolding mt by blast
  define m :: "bytes \<Rightarrow> entry option" where "m = Map.empty([1] \<mapsto> Vector (encode_vector [F32_ONE]), [2] \<mapsto> Vector (encode_vector [F32_ZERO]), [1] := None)"
  from spec obtain q where rs: "rs = [Inr Ack, Inr Ack, Inr Ack, Inr Ack, q, Inr (Value (Some (encode_vector [F32_ZERO])))]"
    and q: "db_replies EuclideanSquared 1 (DbNearest [F32_ONE] 5) (m, {}) q"
    by (auto simp: m_def split: list.splits)
  from q obtain vm where "agrees EuclideanSquared {} m vm" and near: "near EuclideanSquared 1 vm [F32_ONE] 5 q" by auto
  then have "vm = indexed EuclideanSquared m" by (simp add: agrees_def fun_eq_iff)
  with near obtain hs where hs: "q = Inr (Hits hs)" "answers (indexed EuclideanSquared m) (metric_distance EuclideanSquared [F32_ONE]) hs"
    by (cases q) (auto simp: near_def v split: sum.splits db_reply.splits)
  have "ky = [2]" if "indexed EuclideanSquared m ky \<noteq> None" for ky
    using that by (auto simp: indexed_def m_def split: if_splits)
  then have "nr_key ` set hs \<subseteq> {[2]}" using hs(2) by (fastforce simp: answers_def)
  with run rs hs(1) show ?thesis by blast
qed

end
