(* ===== verification/Database_Recovery.thy ===== *)
theory Database_Recovery
  imports Database_History
begin

text \<open>
  What opening brings back: the vectors of the newest entries from a rebuild, the saved index with the
  memtable over it from a snapshot. And two behaviours a client should know: a plain put over a vector
  leaves the vector to be found, and a vector that the index refuses is kept by the store and blocks
  the next open.
\<close>

section \<open>Rebuilding and loading\<close>

text \<open>A database with one vector, for concrete instances.\<close>

lemma one_vector_db:
  "\<exists>(db :: unit db) s. db_rep (\<lambda>_. 7) (\<lambda>_. 9) EuclideanSquared 1 db s [[1] \<mapsto> Vector (encode_vector [F32_ONE])] {} 35 2 1"
proof -
  have ps: "fit_params line_params 1" "hp_metric line_params = EuclideanSquared"
    by (simp_all add: line_params_def default_params_def fit_params_def small_params_def Let_def)
  have "plan empty_fs = []" "names empty_fs = []" by (simp_all add: empty_fs_def)
  from db_open_fresh [OF this ps, of "\<lambda>_. 7" sample_rng "\<lambda>_. 9"] obtain db :: "unit db" and s where
    db: "db_rep (\<lambda>_. 7) (\<lambda>_. 9) EuclideanSquared 1 db s Map.empty {} 0 0 0" by blast
  have "valid_key [1]" by (simp add: valid_key_def MAX_KEY_LEN_def)
  moreover have "valid_vector EuclideanSquared 1 [F32_ONE]"
    by (simp add: valid_vector_def valid_value_def MAX_VALUE_LEN_def preprocess_vector_def line_finite)
  moreover have b: "entry_bound [1] (Vector (encode_vector [F32_ONE])) = 35" by (simp add: entry_bound_def)
  moreover have n: "(0 :: nat) + 35 < 2 ^ 62" "(0 :: nat) + 2 < 2 ^ 64" "(1 :: nat) < 2 ^ 32" "Suc 0 < 2 ^ 32" by simp_all
  note db_put_indexed_rep [OF db _ _ _ n(2-4), of "[1]" "[F32_ONE]" small_options sample_rng, unfolded b, OF _ _ n(1)]
  ultimately have "\<exists>(db' :: unit db) s'. db_rep (\<lambda>_. 7) (\<lambda>_. 9) EuclideanSquared 1 db' s'
      (Map.empty([1] \<mapsto> Vector (encode_vector [F32_ONE]))) ({} - {[1]}) (0 + 35) (0 + 2) (Suc 0)" by blast
  moreover have "({} :: bytes set) - {[1]} = {}" "(0 :: nat) + 35 = 35" "(0 :: nat) + 2 = 2" "Suc 0 = 1" by simp_all
  ultimately show ?thesis by (simp only:)
qed

text \<open>C8: A full rebuild ends, and the index stands for exactly the vectors of the newest entries: an
  older vector behind a tombstone, a plain value or a newer vector is never indexed, wherever in memtable,
  L0 and L1 the entries lie.
\<close>
theorem rebuild_indexes_newest_vectors:
  assumes "engine_at crc xxh e s ts" and "fit_params ps d"
    and "all_fine (hp_metric ps) d (lsm_ents (en_memtable e) ts)" and "load (en_memtable e) ts < 29 * 2 ^ 32"
  shows "\<exists>ix. full_rebuild_index_from_lsm crc lib ps e s = Some (Inr ix, s) \<and> index_ok ix \<and>
    vi_abs ix = indexed (hp_metric ps) (lsm_ents (en_memtable e) ts)"
proof -
  obtain ts0 ts1 rs where e: "engine_on crc xxh e s ts0 ts1 rs" and ts: "ts = ts0 @ ts1"
    using assms(1) by (auto simp: engine_at_def)
  have "load (en_memtable e) ts div 29 < 2 ^ 32" using assms(4) by simp
  from rebuilt_fits [OF e assms(2) refl length_load [OF order_refl] this [unfolded ts] assms(3) [unfolded ts], of lib "{}"]
  show ?thesis unfolding ts by (auto simp: fit_index_def agrees_def fun_eq_iff)
qed

theorem rebuild_indexes_newest_vectors_witness:
  "\<exists>e s (ix :: unit vector_index). full_rebuild_index_from_lsm (\<lambda>_. 7) sample_rng line_params e s = Some (Inr ix, s) \<and>
    vi_abs ix [1] = Some [F32_ONE]"
proof -
  obtain db :: "unit db" and s where
    db: "db_rep (\<lambda>_. 7) (\<lambda>_. 9) EuclideanSquared 1 db s [[1] \<mapsto> Vector (encode_vector [F32_ONE])] {} 35 2 1"
    using one_vector_db by blast
  then obtain ts where ts: "engine_at (\<lambda>_. 7) (\<lambda>_. 9) (db_inner db) s ts"
    "lsm_ents (en_memtable (db_inner db)) ts = [[1] \<mapsto> Vector (encode_vector [F32_ONE])]"
    "all_fine EuclideanSquared 1 (lsm_ents (en_memtable (db_inner db)) ts)" "load (en_memtable (db_inner db)) ts \<le> 35"
    by (auto simp: db_rep_def db_on_def)
  have ps: "fit_params line_params 1" "hp_metric line_params = EuclideanSquared"
    by (simp_all add: line_params_def default_params_def fit_params_def small_params_def Let_def)
  from rebuild_indexes_newest_vectors [OF ts(1) ps(1), of sample_rng] ts(2-4) ps(2) obtain ix where
    ix: "full_rebuild_index_from_lsm (\<lambda>_. 7) sample_rng line_params (db_inner db) s = Some (Inr ix, s)"
      "vi_abs ix = indexed EuclideanSquared [[1] \<mapsto> Vector (encode_vector [F32_ONE])]" by auto
  have "vi_abs ix [1] = Some [F32_ONE]"
    by (simp add: ix(2) indexed_def meaning_of_def preprocess_vector_def line_finite)
  with ix(1) show ?thesis by blast
qed

text \<open>C7: What the engine saves it gets back. After a snapshot of a well-formed index, the recovery finds
  that snapshot among all files, loads it, and applies the memtable over it: the keys with an entry in
  memory stand for that entry, all others for what was saved. The engine and its tables are untouched.
\<close>
theorem snapshot_then_recover:
  fixes ix :: "'r vector_index" and lib :: "'r rng_lib"
  assumes e: "engine_at crc xxh e s ts" and ix: "fit_index mt d H ix" "d < 2 ^ 32"
    and H: "H + load (en_memtable e) ts div 29 < 2 ^ 32" and fine: "all_fine mt d (lsm_ents (en_memtable e) ts)"
  shows "\<exists>s' ix'. write_snapshot crc (en_next_sst_id e) ix s = (Inr (), s') \<and> engine_at crc xxh e s' ts \<and>
    recover_vector_index crc lib ps e s' = Some (Inr ix', s') \<and> index_ok ix' \<and>
    vi_abs ix' = (\<lambda>ky. case map_of (mt_map (en_memtable e)) ky of
      None \<Rightarrow> vi_abs ix ky | Some x \<Rightarrow> meaning_of mt x)"
proof -
  let ?i = "en_next_sst_id e"
  from write_snapshot_ok [OF e, of ?i ix] obtain s' where
    w: "write_snapshot crc ?i ix s = (Inr (), s')" "engine_at crc xxh e s' ts" "saved_as crc s' (snapshot_filename ?i) ?i ix"
      "\<And>j. j \<noteq> ?i \<Longrightarrow> bt_get (names s') (snapshot_filename j) = None" by blast
  then obtain ts0 ts1 rs where on: "engine_on crc xxh e s' ts0 ts1 rs" and ts: "ts = ts0 @ ts1"
    by (auto simp: engine_at_def)
  note found = discover_saved [OF w(2,3,4)]
  have ids: "\<forall>t \<in> table_ids e. t < ?i" by (intro ballI table_ids_less [OF w(2)])
  have n: "length (mt_map (en_memtable e)) \<le> load (en_memtable e) ts div 29"
    using length_load [OF order_refl, of "en_memtable e" ts] by simp
  from loaded_overlay [OF on w(3) ix ids n H fine [unfolded ts], of lib] obtain ix' where
    "load_snapshot_and_apply_delta crc lib e (snapshot_filename ?i) s' = Some (Inr ix', s')" "index_ok ix'"
    "vi_abs ix' = (\<lambda>ky. case map_of (mt_map (en_memtable e)) ky of None \<Rightarrow> vi_abs ix ky | Some x \<Rightarrow> meaning_of mt x)"
    by (auto simp: fit_index_def)
  with w(1,2) found show ?thesis
    by (intro exI [of _ s'] exI [of _ ix']) (simp add: recover_vector_index_def)
qed

theorem snapshot_then_recover_witness:
  "\<exists>e s s' (ix :: unit vector_index) ix'. write_snapshot (\<lambda>_. 7) (en_next_sst_id e) ix s = (Inr (), s') \<and>
    recover_vector_index (\<lambda>_. 7) sample_rng line_params e s' = Some (Inr ix', s') \<and> vi_abs ix' [1] = Some [F32_ONE]"
proof -
  obtain db :: "unit db" and s where
    db: "db_rep (\<lambda>_. 7) (\<lambda>_. 9) EuclideanSquared 1 db s [[1] \<mapsto> Vector (encode_vector [F32_ONE])] {} 35 2 1"
    using one_vector_db by blast
  then obtain ts where ts: "engine_at (\<lambda>_. 7) (\<lambda>_. 9) (db_inner db) s ts"
    "lsm_ents (en_memtable (db_inner db)) ts = [[1] \<mapsto> Vector (encode_vector [F32_ONE])]"
    "all_fine EuclideanSquared 1 (lsm_ents (en_memtable (db_inner db)) ts)" "load (en_memtable (db_inner db)) ts \<le> 35"
    by (auto simp: db_rep_def db_on_def)
  have ix: "fit_index EuclideanSquared 1 1 (db_index db)" using db_repD(1) [OF db] .
  have v: "meaning_of EuclideanSquared (Vector (encode_vector [F32_ONE])) = Some [F32_ONE]"
    by (simp add: meaning_of_def preprocess_vector_def line_finite)
  have here: "vi_abs (db_index db) [1] = Some [F32_ONE]"
    using db_repD(2) [OF db] v by (simp add: agrees_def indexed_def)
  have mem: "meaning_of EuclideanSquared x = Some [F32_ONE]" if "map_of (mt_map (en_memtable (db_inner db))) [1] = Some x" for x
    using mem_decides [OF that, of ts] ts(2) v by (cases x) simp_all
  have "load (en_memtable (db_inner db)) ts div 29 \<le> 35 div 29" using ts(4) by (rule div_le_mono)
  then have "1 + load (en_memtable (db_inner db)) ts div 29 < 2 ^ 32" by simp
  from snapshot_then_recover [OF ts(1) ix _ this ts(3), of sample_rng line_params] obtain s' ix' where
    r: "write_snapshot (\<lambda>_. 7) (en_next_sst_id (db_inner db)) (db_index db) s = (Inr (), s')"
      "recover_vector_index (\<lambda>_. 7) sample_rng line_params (db_inner db) s' = Some (Inr ix', s')"
      "vi_abs ix' = (\<lambda>ky. case map_of (mt_map (en_memtable (db_inner db))) ky of
         None \<Rightarrow> vi_abs (db_index db) ky | Some x \<Rightarrow> meaning_of EuclideanSquared x)" by auto
  have "vi_abs ix' [1] = Some [F32_ONE]" using here mem by (auto simp: r(3) split: option.split)
  with r(1,2) show ?thesis by blast
qed

section \<open>A plain put over a vector\<close>

text \<open>C37: A plain put over a vector succeeds and the lookup answers the new value, but the vector stays in
  the index: queries go on finding a key whose value is no vector any more.
\<close>
theorem plain_put_leaves_vector:
  fixes db :: "'r db"
  assumes rep: "db_rep crc xxh mt d db s m {} N I H" and vec: "m ky = Some (Vector bs)"
    and "valid_key ky" and "valid_value v" and "N + entry_bound ky (Put v) < 2 ^ 62" and "I + 2 < 2 ^ 64"
    and "d < 2 ^ 32" and "H < 2 ^ 32"
  shows "\<exists>db' s'. db_put crc xxh opts ky v db s = Some (Inr (), db', s') \<and>
    db_get crc xxh ky db' s' = (Inr (Some v), s') \<and> db_index db' = db_index db \<and>
    vi_abs (db_index db') ky = meaning_of mt (Vector bs) \<and> meaning_of mt (Vector bs) \<noteq> None"
proof -
  from db_put_rep [OF rep assms(3-8), of opts] obtain db' s' where
    put: "db_put crc xxh opts ky v db s = Some (Inr (), db', s')"
      "db_rep crc xxh mt d db' s' (m(ky \<mapsto> Put v)) (shadow m {} ky) (N + entry_bound ky (Put v)) (I + 2) H" by blast
  have "db_index db' = db_index db"
    using put(1) by (auto simp: db_put_def split: option.splits sum.splits prod.splits)
  moreover have "vi_abs (db_index db) ky = meaning_of mt (Vector bs)"
    using db_repD(2) [OF rep] vec by (simp add: agrees_def indexed_def)
  moreover have "entry_fine mt d ky (Vector bs)"
    using rep vec by (auto simp: db_rep_def db_on_def all_fine_def)
  then have "meaning_of mt (Vector bs) \<noteq> None" by (auto simp: entry_fine_def meaning_of_def)
  moreover have "db_get crc xxh ky db' s' = (Inr (Some v), s')" using db_get_rep [OF put(2), of ky] by simp
  ultimately show ?thesis using put(1) by (intro exI [of _ db'] exI [of _ s']) simp
qed

theorem plain_put_leaves_vector_witness:
  "\<exists>(db :: unit db) s db' s'. db_put (\<lambda>_. 7) (\<lambda>_. 9) small_options [1] [5] db s = Some (Inr (), db', s') \<and>
    db_get (\<lambda>_. 7) (\<lambda>_. 9) [1] db' s' = (Inr (Some [5]), s') \<and> vi_abs (db_index db') [1] = Some [F32_ONE]"
proof -
  obtain db :: "unit db" and s where
    db: "db_rep (\<lambda>_. 7) (\<lambda>_. 9) EuclideanSquared 1 db s [[1] \<mapsto> Vector (encode_vector [F32_ONE])] {} 35 2 1"
    using one_vector_db by blast
  have "meaning_of EuclideanSquared (Vector (encode_vector [F32_ONE])) = Some [F32_ONE]"
    by (simp add: meaning_of_def preprocess_vector_def line_finite)
  then show ?thesis
    using plain_put_leaves_vector [OF db, of "[1]" "encode_vector [F32_ONE]" "[5]" small_options]
    by (auto simp: valid_key_def valid_value_def MAX_KEY_LEN_def MAX_VALUE_LEN_def entry_bound_def)
qed

section \<open>A vector the index refuses\<close>

text \<open>The walk of a rebuild fails at a newest entry whose vector the metric cannot use.\<close>

lemma rebuild_poisoned:
  assumes ready: "rebuild_ready ps mt d (length es) (length es) (ix, {})"
    and bad: "map_of es ky = Some (Vector bs)" "decode_vector bs = Inr v" "preprocess_vector mt v = None"
    and fine: "\<And>k e. k \<noteq> ky \<Longrightarrow> map_of es k = Some e \<Longrightarrow> entry_fine mt d k e"
  shows "\<exists>err. fold_entries (rebuild_entry lib) es (ix, {}) = Inl err"
proof -
  obtain es1 es2 where es: "es = es1 @ (ky, Vector bs) # es2" and out: "ky \<notin> fst ` set es1"
  proof -
    have "\<exists>es1 es2. es = es1 @ (ky, Vector bs) # es2 \<and> ky \<notin> fst ` set es1" using bad(1)
    proof (induction es)
      case (Cons a es)
      show ?case
      proof (cases "fst a = ky")
        case True
        with Cons.prems show ?thesis by (intro exI [of _ "[]"] exI [of _ es]) (cases a, simp)
      next
        case False
        with Cons obtain es1 es2 where "es = es1 @ (ky, Vector bs) # es2" "ky \<notin> fst ` set es1"
          by (cases a) auto
        with False show ?thesis by (intro exI [of _ "a # es1"] exI [of _ es2]) auto
      qed
    qed simp
    with that show ?thesis by blast
  qed
  have "rebuild_ready ps mt d (length es) (length es1) (ix, {})"
    using ready by (auto simp: rebuild_ready_def delta_ready_def es)
  moreover have "entry_fine mt d k e" if "map_of es1 k = Some e" for k e
  proof (rule fine)
    show "k \<noteq> ky" using out that by (metis domI dom_map_of_conv_image_fst)
    show "map_of es k = Some e" using that by (simp add: es map_add_def)
  qed
  ultimately obtain ix1 where w: "fold_entries (rebuild_entry lib) es1 (ix, {}) = Inr (ix1, fst ` set es1)"
    "rebuild_ready ps mt d (length es) 0 (ix1, fst ` set es1)"
    using rebuild.walk [of ps mt d "length es" es1 ix "{}" lib] by auto
  then have ok: "index_ok ix1" "hi_metric (vi_hnsw ix1) = mt" by (simp_all add: rebuild_ready_def delta_ready_def)
  then have g: "graph_ok (vi_hnsw ix1)" by (simp add: index_ok_def)
  have "\<not> dim_fits (vi_hnsw ix1) v \<or> preprocess_vector (hi_metric (vi_hnsw ix1)) v = None" using bad(3) ok(2) by simp
  from hnsw_insert_refused [OF g this, of lib] obtain msg g' where
    "hnsw_insert lib v (vi_hnsw ix1) = (Inl (InvalidArgument msg), g')" by blast
  then have "\<exists>err. insert_into_index lib ky bs ix1 = Inl err"
    by (simp add: insert_into_index_def bad(2) add_vector_def kept_def)
  then have "\<exists>err. rebuild_entry lib (ix1, fst ` set es1) ky (Vector bs) = Inl err"
    using out by (auto simp: rebuild_entry_def Let_def)
  then show ?thesis using w(1) by (auto simp: es fold_entries_append)
qed

lemma open_poisoned:
  fixes lib :: "'r rng_lib"
  assumes e: "engine_at crc xxh e s ts" and none: "\<And>j. bt_get (names s) (snapshot_filename j) = None"
    and ps: "fit_params ps d" and n: "load (en_memtable e) ts < 29 * 2 ^ 32"
    and ents: "lsm_ents (en_memtable e) ts = m(ky \<mapsto> Vector bs)" and fine: "all_fine (hp_metric ps) d m"
    and bad: "decode_vector bs = Inr v" "preprocess_vector (hp_metric ps) v = None"
  shows "\<exists>err. db_open crc lib ps s = Some (Inl err, s)"
proof -
  obtain ts0 ts1 rs where on: "engine_on crc xxh e s ts0 ts1 rs" and ts: "ts = ts0 @ ts1"
    using e by (auto simp: engine_at_def)
  from open_inner_ok [OF on] obtain e2 where e2: "open_inner crc s = (Inr e2, s)" "engine_on crc xxh e2 s ts0 ts1 rs"
    "en_memtable e2 = en_memtable e" by auto
  define es where "es = mt_map (en_memtable e) @ concat ts"
  have shown: "shown (map_of es k) = (m(ky \<mapsto> Vector bs)) k" for k
    using fun_cong [OF ents, of k] by (simp only: es_def lsm_ents_def)
  have "length es \<le> load (en_memtable e) ts div 29" unfolding es_def by (rule length_load [OF order_refl])
  then have "length es \<le> 2 ^ 32" using n by simp
  then have ready: "rebuild_ready ps (hp_metric ps) d (length es) (length es) (vi_new lib ps, {})"
    using ps by (auto simp: rebuild_ready_def delta_ready_def index_new_ok index_dim_def fit_params_def)
      (simp_all add: vi_new_def hnsw_new_def hnsw_len_def)
  have "map_of es ky = Some (Vector bs)"
    using shown [of ky] by (cases "map_of es ky" rule: shown.cases) simp_all
  moreover have "entry_fine (hp_metric ps) d k x" if "k \<noteq> ky" "map_of es k = Some x" for k x
  proof -
    have "m k = shown (Some x)" using shown [of k] that by simp
    then show ?thesis using fine by (cases x) (simp_all add: all_fine_def entry_fine_def)
  qed
  ultimately obtain err where "fold_entries (rebuild_entry lib) es (vi_new lib ps, {}) = Inl err"
    using rebuild_poisoned [OF ready _ bad, of ky lib] by blast
  then have "full_rebuild_index_from_lsm crc lib ps e2 s = Some (Inl err, s)"
    using full_rebuild_walk [OF e2(2), of lib ps] by (simp add: e2(3) es_def ts)
  moreover have "engine_at crc xxh e2 s ts" using e2(2) unfolding engine_at_def ts by blast
  from discover_latest_snapshot_ok [OF this, of 0] none have "discover_latest_snapshot s = (Inr None, s)" by simp
  ultimately show ?thesis using e2(1) by (simp add: db_open_def recover_vector_index_def)
qed

text \<open>C14: A vector the metric cannot use, such as the zero vector under cosine, is refused with
  \<open>InvalidArgument\<close>, but only after the store has logged it: the lookup answers the refused vector, and
  without a snapshot every later open of the directory fails.
\<close>
theorem refused_vector_blocks_open:
  fixes db :: "'r db" and lib :: "'r rng_lib"
  assumes rep: "db_rep crc xxh (hp_metric ps) d db s m P N I H" and ky: "valid_key ky"
    and v: "v \<noteq> []" "list_all f32_is_finite v" "length v = d" "valid_value (encode_vector v)"
    and bad: "preprocess_vector (hp_metric ps) v = None"
    and none: "\<And>j. bt_get (names s) (snapshot_filename j) = None" and ps: "fit_params ps d"
    and N: "N + entry_bound ky (Vector (encode_vector v)) < 29 * 2 ^ 32" and I: "I + 2 < 2 ^ 64"
  shows "\<exists>msg db' s' err. db_put_indexed crc xxh opts lib ky v db s = Some (Inl (InvalidArgument msg), db', s') \<and>
    db_get crc xxh ky db' s' = (Inr (Some (encode_vector v)), s') \<and>
    db_open crc lib ps s' = Some (Inl err, s')"
proof -
  let ?bs = "encode_vector v" and ?e = "db_inner db"
  let ?r = "\<lparr>rec_kind = record_kind.Vector, rec_key = ky, rec_value = ?bs\<rparr>"
  obtain ts where on: "db_on crc xxh (hp_metric ps) d H P db s ts" and m: "m = lsm_ents (en_memtable ?e) ts"
    and le: "load (en_memtable ?e) ts \<le> N" "unat (en_next_sst_id ?e) \<le> I"
    using rep by (auto simp: db_rep_def)
  have e: "engine_at crc xxh ?e s ts" "\<not> en_closed ?e" and fine: "all_fine (hp_metric ps) d m"
    and ix: "fit_index (hp_metric ps) d H (db_index db)" using on m by (simp_all add: db_on_def)
  have r: "valid_record ?r" using ky v(4) by (simp add: valid_record_def valid_key_def valid_value_def)
  have "load (en_memtable ?e) ts + entry_bound ky (Vector ?bs) < 2 ^ 62" "unat (en_next_sst_id ?e) + 2 < 2 ^ 64"
    using le N I by simp_all
  with lsm_write_evolves [OF e(1) r e(2), of "mt_put_vector ky ?bs" opts] obtain e1 s1 e' s' ts' where
    run: "lsm_put_vector crc xxh opts ky ?bs ?e s = Some (Inr (moved_id e1 e'), e', s')"
    and mem: "mt_map (en_memtable e1) = bt_insert (mt_map (en_memtable ?e)) ky (Vector ?bs)"
    and e1: "en_next_sst_id e1 = en_next_sst_id ?e" "en_closed e1 = en_closed ?e" "keeps_snapshots s s1"
    and ev: "evolves crc xxh 2 e1 s1 ts e' s' ts'" by (auto simp: apply_record_def lsm_put_vector_def)
  have m': "lsm_ents (en_memtable e') ts' = m(ky \<mapsto> Vector ?bs)" and load': "load (en_memtable e') ts' < 29 * 2 ^ 32"
    and at': "engine_at crc xxh e' s' ts'" "\<not> en_closed e'"
    using ev e1(2) e(2) lsm_ents_insert [OF mem, of ts] load_insert [OF mem, of ts] le N m by (simp_all add: evolves_def)
  have none': "bt_get (names s') (snapshot_filename j) = None" for j
    using none ev e1(3) by (simp add: evolves_def keeps_snapshots_def)
  from open_poisoned [OF at'(1) none' ps load' m' fine decode_encode_vector bad, of lib] obtain err where
    err: "db_open crc lib ps s' = Some (Inl err, s')" by blast
  have "index_ok (db_index db)" "\<not> accepts (db_index db) v"
    using ix bad by (simp_all add: fit_index_def accepts_def)
  from index_put_refused [OF this, of lib ky] obtain msg ix' where
    put: "index_put lib ky v (db_index db) = (Inl (InvalidArgument msg), ix')" by blast
  define db' :: "'r db" where "db' = \<lparr>db_inner = e', db_index = ix'\<rparr>"
  have "engine_rep crc xxh e' s' (lsm_map (en_memtable e') ts') (load (en_memtable e') ts') (unat (en_next_sst_id e'))"
    using at' unfolding engine_rep_at by blast
  from engine_get_rep [OF this, of ky] have "db_get crc xxh ky db' s' = (Inr (Some ?bs), s')"
    by (simp add: db_get_def db'_def lsm_map_ents m')
  moreover have "vi_expected_dim (db_index db) = None \<or> vi_expected_dim (db_index db) = Some (length v)"
    using ix v(3) by (simp add: fit_index_def index_dim_def)
  then have "db_put_indexed crc xxh opts lib ky v db s = Some (Inl (InvalidArgument msg), db', s')"
    using run put v by (auto simp: db_put_indexed_def db'_def)
  ultimately show ?thesis using err by blast
qed

theorem refused_vector_blocks_open_witness:
  "\<exists>(db :: unit db) s msg db' s' err.
    db_put_indexed (\<lambda>_. 7) (\<lambda>_. 9) small_options sample_rng [1] [F32_ZERO] db s = Some (Inl (InvalidArgument msg), db', s') \<and>
    db_open (\<lambda>_. 7) sample_rng default_params s' = Some (Inl err, s')"
proof -
  have ps: "fit_params default_params 1" and mt: "hp_metric default_params = Cosine"
    by (simp_all add: default_params_def fit_params_def small_params_def Let_def)
  have fs: "plan empty_fs = []" "names empty_fs = []" by (simp_all add: empty_fs_def)
  from db_open_fresh [OF fs ps mt, of "\<lambda>_. 7" sample_rng "\<lambda>_. 9"] obtain db :: "unit db" and s where
    db: "db_open (\<lambda>_. 7) sample_rng default_params empty_fs = Some (Inr db, s)"
      "db_rep (\<lambda>_. 7) (\<lambda>_. 9) (hp_metric default_params) 1 db s Map.empty {} 0 0 0"
      "\<forall>j. bt_get (names s) (snapshot_filename j) = None" unfolding mt by blast
  have "f32_eq (f32_sqrt (f32_sum (map (\<lambda>x. f32_mul x x) [F32_ZERO]))) F32_ZERO"
    by (simp add: f32_sum_def f32_eq_def float_eval)
  then have bad: "preprocess_vector (hp_metric default_params) [F32_ZERO] = None"
    by (simp add: mt preprocess_vector_def normalize_def)
  have none: "bt_get (names s) (snapshot_filename j) = None" for j
    using db(3) by simp
  from refused_vector_blocks_open [OF db(2) _ _ _ _ _ bad none ps, of "[1]" small_options sample_rng] have
    "\<exists>msg db' s' err.
      db_put_indexed (\<lambda>_. 7) (\<lambda>_. 9) small_options sample_rng [1] [F32_ZERO] db s = Some (Inl (InvalidArgument msg), db', s') \<and>
      db_get (\<lambda>_. 7) (\<lambda>_. 9) [1] db' s' = (Inr (Some (encode_vector [F32_ZERO])), s') \<and>
      db_open (\<lambda>_. 7) sample_rng default_params s' = Some (Inl err, s')"
    by (simp add: valid_key_def valid_value_def MAX_KEY_LEN_def MAX_VALUE_LEN_def entry_bound_def line_finite)
  then show ?thesis by blast
qed

end
