(* ===== verification/Threads.thy ===== *)
theory Threads
  imports Database_Recovery
begin

text \<open>
  Writes of several threads. An operation of \<^verbatim>\<open>Engine\<close> holds the mutex of the store and the lock of
  the vector index one after the other and never both, so it is a sequence of atomic steps, and other
  threads may run in between. Run alone the steps are the operation. Interleaved they keep store and
  index in agreement as long as no two writes of one key overlap.
\<close>

section \<open>Operations as steps\<close>

datatype write_op =
    PutOp bytes bytes
  | PutIndexedOp bytes "f32 list"
  | DeleteOp bytes
  | FlushOp

text \<open>Where a thread stands between two locks.\<close>

datatype phase =
    Validated bytes "f32 list"
  | VectorLogged bytes "f32 list" "u64 option"
  | DeleteLogged bytes "u64 option"
  | SnapshotDue u64
  | SnapshotTaken u64 bytes

datatype progress =
    Finished "error + unit"
  | Busy phase

definition snapshot_next :: "u64 option \<Rightarrow> progress" where
  "snapshot_next next_id_after =
     (case next_id_after of None \<Rightarrow> Finished (Inr ()) | Some next_id \<Rightarrow> Busy (SnapshotDue next_id))"

definition lsm_step ::
  "((error + u64 option) \<times> engine \<times> fs) option \<Rightarrow> (u64 option \<Rightarrow> progress) \<Rightarrow> 'r db \<Rightarrow>
     (progress \<times> 'r db \<times> fs) option" where
  "lsm_step r next db =
     (case r of
        None \<Rightarrow> None
      | Some (Inl err, e, s) \<Rightarrow> Some (Finished (Inl err), db\<lparr>db_inner := e\<rparr>, s)
      | Some (Inr n, e, s) \<Rightarrow> Some (next n, db\<lparr>db_inner := e\<rparr>, s))"

definition index_step ::
  "(error + unit) \<times> 'r vector_index \<Rightarrow> u64 option \<Rightarrow> 'r db \<Rightarrow> fs \<Rightarrow> (progress \<times> 'r db \<times> fs) option" where
  "index_step r n db s =
     (case r of
        (Inl err, ix) \<Rightarrow> Some (Finished (Inl err), db\<lparr>db_index := ix\<rparr>, s)
      | (Inr _, ix) \<Rightarrow> Some (snapshot_next n, db\<lparr>db_index := ix\<rparr>, s))"

fun start_op ::
  "(bytes \<Rightarrow> u32) \<Rightarrow> (bytes \<Rightarrow> 128 word) \<Rightarrow> options \<Rightarrow> write_op \<Rightarrow> 'r db \<Rightarrow> fs \<Rightarrow>
     (progress \<times> 'r db \<times> fs) option" where
  "start_op crc xxh opts (PutOp ky v) db s =
     lsm_step (lsm_put crc xxh opts ky v (db_inner db) s) snapshot_next db"
| "start_op crc xxh opts (PutIndexedOp ky v) db s =
     (if v = []
      then Some (Finished (Inl (InvalidArgument ''embedding must have at least one dimension'')), db, s)
      else if \<not> list_all f32_is_finite v
      then Some (Finished (Inl (InvalidArgument ''embedding contains non-finite values (NaN or infinity)'')), db, s)
      else if vi_expected_dim (db_index db) \<noteq> None \<and> vi_expected_dim (db_index db) \<noteq> Some (length v)
      then Some (Finished (Inl (InvalidArgument ''embedding dimension does not match established dimension'')), db, s)
      else Some (Busy (Validated ky v), db, s))"
| "start_op crc xxh opts (DeleteOp ky) db s =
     lsm_step (lsm_delete crc xxh opts ky (db_inner db) s) (\<lambda>n. Busy (DeleteLogged ky n)) db"
| "start_op crc xxh opts FlushOp db s =
     lsm_step (lsm_flush crc xxh opts (db_inner db) s) snapshot_next db"

fun resume_op ::
  "(bytes \<Rightarrow> u32) \<Rightarrow> (bytes \<Rightarrow> 128 word) \<Rightarrow> options \<Rightarrow> 'r rng_lib \<Rightarrow> phase \<Rightarrow> 'r db \<Rightarrow> fs \<Rightarrow>
     (progress \<times> 'r db \<times> fs) option" where
  "resume_op crc xxh opts lib (Validated ky v) db s =
     lsm_step (lsm_put_vector crc xxh opts ky (encode_vector v) (db_inner db) s)
       (\<lambda>n. Busy (VectorLogged ky v n)) db"
| "resume_op crc xxh opts lib (VectorLogged ky v n) db s = index_step (index_put lib ky v (db_index db)) n db s"
| "resume_op crc xxh opts lib (DeleteLogged ky n) db s = index_step (forget_key ky (db_index db)) n db s"
| "resume_op crc xxh opts lib (SnapshotDue i) db s =
     Some (Busy (SnapshotTaken i
       (encode_snapshot crc (vi_hnsw (db_index db)) i (vi_key_to_node (db_index db)))), db, s)"
| "resume_op crc xxh opts lib (SnapshotTaken i bs) db s =
     (case publish_snapshot i bs s of (r, s) \<Rightarrow> Some (Finished r, db, s))"

section \<open>Run alone, the steps are the operation\<close>

primrec run_alone ::
  "nat \<Rightarrow> (bytes \<Rightarrow> u32) \<Rightarrow> (bytes \<Rightarrow> 128 word) \<Rightarrow> options \<Rightarrow> 'r rng_lib \<Rightarrow> progress \<Rightarrow> 'r db \<Rightarrow> fs \<Rightarrow>
     ((error + unit) \<times> 'r db \<times> fs) option" where
  "run_alone 0 crc xxh opts lib pr db s =
     (case pr of Finished r \<Rightarrow> Some (r, db, s) | Busy ph \<Rightarrow> None)"
| "run_alone (Suc n) crc xxh opts lib pr db s =
     (case pr of
        Finished r \<Rightarrow> Some (r, db, s)
      | Busy ph \<Rightarrow>
          (case resume_op crc xxh opts lib ph db s of
             None \<Rightarrow> None
           | Some (pr, db, s) \<Rightarrow> run_alone n crc xxh opts lib pr db s))"

definition run_op_alone ::
  "(bytes \<Rightarrow> u32) \<Rightarrow> (bytes \<Rightarrow> 128 word) \<Rightarrow> options \<Rightarrow> 'r rng_lib \<Rightarrow> write_op \<Rightarrow> 'r db \<Rightarrow> fs \<Rightarrow>
     ((error + unit) \<times> 'r db \<times> fs) option" where
  "run_op_alone crc xxh opts lib op db s =
     (case start_op crc xxh opts op db s of
        None \<Rightarrow> None
      | Some (pr, db, s) \<Rightarrow> run_alone 4 crc xxh opts lib pr db s)"

fun db_op ::
  "(bytes \<Rightarrow> u32) \<Rightarrow> (bytes \<Rightarrow> 128 word) \<Rightarrow> options \<Rightarrow> 'r rng_lib \<Rightarrow> write_op \<Rightarrow> 'r db \<Rightarrow> fs \<Rightarrow>
     ((error + unit) \<times> 'r db \<times> fs) option" where
  "db_op crc xxh opts lib (PutOp ky v) db s = db_put crc xxh opts ky v db s"
| "db_op crc xxh opts lib (PutIndexedOp ky v) db s = db_put_indexed crc xxh opts lib ky v db s"
| "db_op crc xxh opts lib (DeleteOp ky) db s = db_delete crc xxh opts ky db s"
| "db_op crc xxh opts lib FlushOp db s = db_flush crc xxh opts db s"

lemma run_alone_finished [simp]: "run_alone n crc xxh opts lib (Finished r) db s = Some (r, db, s)"
  by (cases n) simp_all

lemma run_alone_busy:
  "run_alone (Suc n) crc xxh opts lib (Busy ph) db s =
     (case resume_op crc xxh opts lib ph db s of
        None \<Rightarrow> None
      | Some (pr, db, s) \<Rightarrow> run_alone n crc xxh opts lib pr db s)"
  by simp

lemma run_alone_snapshot:
  "run_alone (Suc (Suc n)) crc xxh opts lib (snapshot_next i) db s =
     (case snapshot_if_moved crc i (db_index db) s of (r, s) \<Rightarrow> Some (r, db, s))"
  by (cases i) (simp_all add: snapshot_next_def snapshot_if_moved_def write_snapshot_def split: prod.split)

lemma run_alone_index:
  "(case index_step r i db s of None \<Rightarrow> None
    | Some (pr, db, s) \<Rightarrow> run_alone (Suc (Suc n)) crc xxh opts lib pr db s) =
   (case r of
      (Inl err, ix) \<Rightarrow> Some (Inl err, db\<lparr>db_index := ix\<rparr>, s)
    | (Inr _, ix) \<Rightarrow>
        (case snapshot_if_moved crc i ix s of (r, s) \<Rightarrow> Some (r, db\<lparr>db_index := ix\<rparr>, s)))"
  by (auto simp: index_step_def run_alone_snapshot split: prod.split sum.split simp del: run_alone.simps)

lemmas run_steps = run_op_alone_def lsm_step_def run_alone_busy run_alone_snapshot run_alone_index numeral_eq_Suc

text \<open>Run one after the other, the atomic steps into which the locks cut a write are the operation: same
  result, same database, same files, on every branch and with failing files too.
\<close>
theorem steps_compose: "run_op_alone crc xxh opts lib op db s = db_op crc xxh opts lib op db s"
proof (cases op)
  case (PutOp ky v)
  then show ?thesis
    by (simp add: run_steps db_put_def split: option.split prod.split sum.split del: run_alone.simps)
next
  case (PutIndexedOp ky v)
  then show ?thesis
    by (cases db) (auto simp: run_steps db_put_indexed_def split: option.split prod.split sum.split simp del: run_alone.simps)
next
  case (DeleteOp ky)
  then show ?thesis
    by (cases db) (auto simp: run_steps db_delete_def split: option.split prod.split sum.split simp del: run_alone.simps)
next
  case FlushOp
  then show ?thesis
    by (simp add: run_steps db_flush_def split: option.split prod.split sum.split del: run_alone.simps)
qed

section \<open>Interleavings\<close>

text \<open>
  A thread that is in no operation may start one, a thread between two steps may take the next. A
  schedule is the list of events with the outcome of each; \<open>ok\<close> is a discipline on the events.
\<close>

datatype event =
    Start nat write_op
  | Resume nat

record 'r system =
  sys_pool :: "nat \<Rightarrow> phase option"
  sys_db :: "'r db"
  sys_fs :: fs

definition waiting :: "progress \<Rightarrow> phase option" where
  "waiting pr = (case pr of Finished _ \<Rightarrow> None | Busy ph \<Rightarrow> Some ph)"

inductive sys_step ::
  "(bytes \<Rightarrow> u32) \<Rightarrow> (bytes \<Rightarrow> 128 word) \<Rightarrow> options \<Rightarrow> 'r rng_lib \<Rightarrow> event \<Rightarrow> progress \<Rightarrow> 'r system \<Rightarrow> 'r system \<Rightarrow> bool"
  for crc xxh opts lib where
  start: "sys_pool \<sigma> t = None \<Longrightarrow> start_op crc xxh opts op (sys_db \<sigma>) (sys_fs \<sigma>) = Some (pr, db, s) \<Longrightarrow>
    sys_step crc xxh opts lib (Start t op) pr \<sigma> \<lparr>sys_pool = (sys_pool \<sigma>)(t := waiting pr), sys_db = db, sys_fs = s\<rparr>"
| resume: "sys_pool \<sigma> t = Some ph \<Longrightarrow> resume_op crc xxh opts lib ph (sys_db \<sigma>) (sys_fs \<sigma>) = Some (pr, db, s) \<Longrightarrow>
    sys_step crc xxh opts lib (Resume t) pr \<sigma> \<lparr>sys_pool = (sys_pool \<sigma>)(t := waiting pr), sys_db = db, sys_fs = s\<rparr>"

inductive_cases start_stepE: "sys_step crc xxh opts lib (Start t op) pr \<sigma> \<sigma>'"
inductive_cases resume_stepE: "sys_step crc xxh opts lib (Resume t) pr \<sigma> \<sigma>'"

inductive sys_run ::
  "(bytes \<Rightarrow> u32) \<Rightarrow> (bytes \<Rightarrow> 128 word) \<Rightarrow> options \<Rightarrow> 'r rng_lib \<Rightarrow> (event \<Rightarrow> 'r system \<Rightarrow> bool) \<Rightarrow>
     (event \<times> progress) list \<Rightarrow> 'r system \<Rightarrow> 'r system \<Rightarrow> bool"
  for crc xxh opts lib ok where
  done_run: "sys_run crc xxh opts lib ok [] \<sigma> \<sigma>"
| more: "sys_run crc xxh opts lib ok evs \<sigma> \<sigma>1 \<Longrightarrow> ok ev \<sigma>1 \<Longrightarrow> sys_step crc xxh opts lib ev pr \<sigma>1 \<sigma>2 \<Longrightarrow>
    sys_run crc xxh opts lib ok (evs @ [(ev, pr)]) \<sigma> \<sigma>2"

text \<open>The key a thread works on, and the keys whose index step is still to come.\<close>

fun op_key :: "write_op \<Rightarrow> bytes set" where
  "op_key (PutOp ky v) = {ky}"
| "op_key (PutIndexedOp ky v) = {ky}"
| "op_key (DeleteOp ky) = {ky}"
| "op_key FlushOp = {}"

fun phase_key :: "phase \<Rightarrow> bytes set" where
  "phase_key (Validated ky v) = {ky}"
| "phase_key (VectorLogged ky v n) = {ky}"
| "phase_key (DeleteLogged ky n) = {ky}"
| "phase_key ph = {}"

fun logged_key :: "phase \<Rightarrow> bytes set" where
  "logged_key (VectorLogged ky v n) = {ky}"
| "logged_key (DeleteLogged ky n) = {ky}"
| "logged_key ph = {}"

definition busy_keys :: "(nat \<Rightarrow> phase option) \<Rightarrow> bytes set" where
  "busy_keys pool = {ky. \<exists>t ph. pool t = Some ph \<and> ky \<in> phase_key ph}"

definition open_keys :: "(nat \<Rightarrow> phase option) \<Rightarrow> bytes set" where
  "open_keys pool = {ky. \<exists>t ph. pool t = Some ph \<and> ky \<in> logged_key ph}"

text \<open>No write starts on a key that another thread is writing.\<close>

definition exclusive :: "event \<Rightarrow> 'r system \<Rightarrow> bool" where
  "exclusive ev \<sigma> \<longleftrightarrow> (\<forall>t op. ev = Start t op \<longrightarrow> op_key op \<inter> busy_keys (sys_pool \<sigma>) = {})"

definition plain_keys :: "(bytes \<Rightarrow> entry option) \<Rightarrow> bytes set" where
  "plain_keys m = {ky. \<exists>v. m ky = Some (Put v)}"

fun op_ok :: "distance_metric \<Rightarrow> nat \<Rightarrow> nat \<Rightarrow> write_op \<Rightarrow> bool" where
  "op_ok mt d W (PutOp ky v) \<longleftrightarrow> valid_key ky \<and> valid_value v \<and> entry_bound ky (Put v) \<le> W"
| "op_ok mt d W (PutIndexedOp ky v) \<longleftrightarrow> valid_key ky \<and> valid_vector mt d v \<and>
     entry_bound ky (Vector (encode_vector v)) \<le> W"
| "op_ok mt d W (DeleteOp ky) \<longleftrightarrow> valid_key ky \<and> entry_bound ky Tombstone \<le> W"
| "op_ok mt d W FlushOp \<longleftrightarrow> True"

fun phase_ok :: "distance_metric \<Rightarrow> nat \<Rightarrow> nat \<Rightarrow> (bytes \<Rightarrow> entry option) \<Rightarrow> phase \<Rightarrow> bool" where
  "phase_ok mt d W m (Validated ky v) \<longleftrightarrow> op_ok mt d W (PutIndexedOp ky v)"
| "phase_ok mt d W m (VectorLogged ky v n) \<longleftrightarrow> op_ok mt d W (PutIndexedOp ky v) \<and> m ky = Some (Vector (encode_vector v))"
| "phase_ok mt d W m (DeleteLogged ky n) \<longleftrightarrow> valid_key ky \<and> m ky = None"
| "phase_ok mt d W m ph \<longleftrightarrow> True"

definition store_on ::
  "(bytes \<Rightarrow> u32) \<Rightarrow> (bytes \<Rightarrow> 128 word) \<Rightarrow> engine \<Rightarrow> fs \<Rightarrow> (bytes \<Rightarrow> entry option) \<Rightarrow> nat \<Rightarrow> nat \<Rightarrow> bool" where
  "store_on crc xxh e s m N I \<longleftrightarrow> \<not> en_closed e \<and> unat (en_next_sst_id e) \<le> I \<and>
     (\<exists>ts. engine_at crc xxh e s ts \<and> m = lsm_ents (en_memtable e) ts \<and> load (en_memtable e) ts \<le> N)"

definition sys_ok ::
  "(bytes \<Rightarrow> u32) \<Rightarrow> (bytes \<Rightarrow> 128 word) \<Rightarrow> distance_metric \<Rightarrow> nat \<Rightarrow> nat \<Rightarrow> 'r system \<Rightarrow>
     (bytes \<Rightarrow> entry option) \<Rightarrow> nat \<Rightarrow> nat \<Rightarrow> nat \<Rightarrow> bool" where
  "sys_ok crc xxh mt d W \<sigma> m N I H \<longleftrightarrow>
     store_on crc xxh (db_inner (sys_db \<sigma>)) (sys_fs \<sigma>) m N I \<and> fit_index mt d H (db_index (sys_db \<sigma>)) \<and>
     agrees mt (plain_keys m \<union> open_keys (sys_pool \<sigma>)) m (vi_abs (db_index (sys_db \<sigma>))) \<and>
     (\<forall>t ph. sys_pool \<sigma> t = Some ph \<longrightarrow> phase_ok mt d W m ph) \<and>
     (\<forall>t t' ph ph'. sys_pool \<sigma> t = Some ph \<longrightarrow> sys_pool \<sigma> t' = Some ph' \<longrightarrow> t \<noteq> t' \<longrightarrow> phase_key ph \<inter> phase_key ph' = {})"

section \<open>The steps on the store\<close>

lemma store_get: "store_on crc xxh e s m N I \<Longrightarrow> engine_get crc xxh ky e s = (Inr (visible (m ky)), s)"
  by (rule engine_get_rep [of crc xxh e s _ N I]) (auto simp: store_on_def engine_rep_at lsm_map_ents fun_eq_iff)

lemma evolves_store:
  assumes "evolves crc xxh k e s ts e' s' ts'" and "\<not> en_closed e" and "unat (en_next_sst_id e) \<le> I"
    and "load (en_memtable e) ts \<le> N"
  shows "store_on crc xxh e' s' (lsm_ents (en_memtable e) ts) N (I + k)"
  using assms unfolding store_on_def evolves_def by auto

lemma store_write:
  fixes r
  defines "ky \<equiv> rec_key r" and "ent \<equiv> record_entry r"
  assumes st: "store_on crc xxh e s m N I" and r: "valid_record r"
    and upd: "upd (en_memtable e) = apply_record r (en_memtable e)"
    and "entry_bound ky ent \<le> W" and "N + W < 2 ^ 62" and "I + 2 < 2 ^ 64"
  shows "\<exists>n e' s'. lsm_write crc xxh opts (rec_kind r) ky (rec_value r) upd e s = Some (Inr n, e', s') \<and>
    store_on crc xxh e' s' (m(ky := shown (Some ent))) (N + W) (I + 2)"
proof -
  obtain ts where ts: "engine_at crc xxh e s ts" "m = lsm_ents (en_memtable e) ts" "load (en_memtable e) ts \<le> N"
    and o: "\<not> en_closed e" "unat (en_next_sst_id e) \<le> I" using st by (auto simp: store_on_def)
  have "load (en_memtable e) ts + entry_bound ky ent < 2 ^ 62" "unat (en_next_sst_id e) + 2 < 2 ^ 64"
    using ts(3) o(2) assms(6-8) by simp_all
  from lsm_write_evolves [OF ts(1) r o(1), of upd opts, folded ky_def ent_def, OF upd this] obtain e1 s1 e' s' ts' where
    run: "lsm_write crc xxh opts (rec_kind r) ky (rec_value r) upd e s = Some (Inr (moved_id e1 e'), e', s')"
    and mem: "mt_map (en_memtable e1) = bt_insert (mt_map (en_memtable e)) ky ent"
    and e1: "en_next_sst_id e1 = en_next_sst_id e" "en_closed e1 = en_closed e" and ev: "evolves crc xxh 2 e1 s1 ts e' s' ts'"
    by blast
  have "load (en_memtable e1) ts \<le> N + W" using load_insert [OF mem, of ts] ts(3) assms(6) by simp
  from evolves_store [OF ev _ _ this] e1 o lsm_ents_insert [OF mem, of ts] ts(2) run show ?thesis by auto
qed

lemma store_put_vector:
  assumes st: "store_on crc xxh e s m N I" and op: "op_ok mt d W (PutIndexedOp ky v)"
    and N: "N + W < 2 ^ 62" and I: "I + 2 < 2 ^ 64"
  shows "\<exists>n e' s'. lsm_put_vector crc xxh opts ky (encode_vector v) e s = Some (Inr n, e', s') \<and>
    store_on crc xxh e' s' (m(ky \<mapsto> Vector (encode_vector v))) (N + W) (I + 2)"
  using store_write [OF st vector_record_valid, of ky mt d v "mt_put_vector ky (encode_vector v)" W opts] op N I
  by (auto simp: lsm_put_vector_def apply_record_def)

lemma store_flush:
  assumes "store_on crc xxh e s m N I" and "N < 2 ^ 62" and "I + 2 < 2 ^ 64"
  shows "\<exists>n e' s'. lsm_flush crc xxh opts e s = Some (Inr n, e', s') \<and> store_on crc xxh e' s' m N (I + 2)"
proof -
  obtain ts where ts: "engine_at crc xxh e s ts" "m = lsm_ents (en_memtable e) ts" "load (en_memtable e) ts \<le> N"
    and o: "\<not> en_closed e" "unat (en_next_sst_id e) \<le> I" using assms(1) by (auto simp: store_on_def)
  have "load (en_memtable e) ts < 2 ^ 62" "unat (en_next_sst_id e) + 2 < 2 ^ 64" using ts(3) o(2) assms(2,3) by simp_all
  from lsm_flush_evolves [OF ts(1) this o(1), of opts] obtain e' s' ts' where
    "lsm_flush crc xxh opts e s = Some (Inr (moved_id e e'), e', s')" "evolves crc xxh 2 e s ts e' s' ts'" by blast
  with evolves_store [OF this(2) o ts(3)] ts(2) show ?thesis by blast
qed

lemma store_publish:
  assumes "store_on crc xxh e s m N I"
  shows "\<exists>s'. publish_snapshot i bs s = (Inr (), s') \<and> store_on crc xxh e s' m N I"
proof -
  obtain ts where ts: "engine_at crc xxh e s ts" "m = lsm_ents (en_memtable e) ts" "load (en_memtable e) ts \<le> N"
    using assms by (auto simp: store_on_def)
  from publish_snapshot_ok [OF ts(1), of i bs] obtain s' where
    "publish_snapshot i bs s = (Inr (), s')" "engine_at crc xxh e s' ts" by blast
  with ts assms show ?thesis by (auto simp: store_on_def)
qed

lemma store_mono: "store_on crc xxh e s m N I \<Longrightarrow> N \<le> N' \<Longrightarrow> I \<le> I' \<Longrightarrow> store_on crc xxh e s m N' I'"
  unfolding store_on_def by (auto intro: order_trans)

section \<open>Every step keeps the agreement\<close>

lemma phase_ok_other: "ky \<notin> phase_key ph \<Longrightarrow> phase_ok mt d W (m(ky := x)) ph = phase_ok mt d W m ph"
  by (cases ph) auto

lemma sys_ok_update:
  assumes ok: "sys_ok crc xxh mt d W \<sigma> m N I H"
    and store: "store_on crc xxh (db_inner db) s m' N' I'" and fit: "fit_index mt d H' (db_index db)"
    and mine: "\<And>ph. q = Some ph \<Longrightarrow> phase_ok mt d W m' ph"
      "\<And>ph t' ph'. q = Some ph \<Longrightarrow> t' \<noteq> t \<Longrightarrow> sys_pool \<sigma> t' = Some ph' \<Longrightarrow> phase_key ph \<inter> phase_key ph' = {}"
    and others: "\<And>t' ph'. t' \<noteq> t \<Longrightarrow> sys_pool \<sigma> t' = Some ph' \<Longrightarrow> phase_ok mt d W m' ph'"
    and agr: "agrees mt (plain_keys m' \<union> open_keys ((sys_pool \<sigma>)(t := q))) m' (vi_abs (db_index db))"
  shows "sys_ok crc xxh mt d W \<lparr>sys_pool = (sys_pool \<sigma>)(t := q), sys_db = db, sys_fs = s\<rparr> m' N' I' H'"
proof -
  have apart: "phase_key ph \<inter> phase_key ph' = {}"
    if "sys_pool \<sigma> a = Some ph" "sys_pool \<sigma> b = Some ph'" "a \<noteq> b" for a b ph ph'
    using ok that unfolding sys_ok_def by blast
  have "phase_key ph \<inter> phase_key ph' = {}"
    if "((sys_pool \<sigma>)(t := q)) a = Some ph" "((sys_pool \<sigma>)(t := q)) b = Some ph'" "a \<noteq> b" for a b ph ph'
    using that mine(2) [of ph b ph'] mine(2) [of ph' a ph] apart [of a ph b ph'] by (auto split: if_splits)
  moreover have "phase_ok mt d W m' ph" if "((sys_pool \<sigma>)(t := q)) a = Some ph" for a ph
    using that mine(1) others by (auto split: if_splits)
  ultimately show ?thesis using store fit agr unfolding sys_ok_def by simp
qed

lemma open_keysI: "pool t = Some ph \<Longrightarrow> ky \<in> logged_key ph \<Longrightarrow> ky \<in> open_keys pool"
  by (auto simp: open_keys_def)

lemma open_keys_other:
  assumes "k \<in> open_keys pool" and "\<And>ph. pool t = Some ph \<Longrightarrow> k \<notin> logged_key ph"
  shows "k \<in> open_keys (pool(t := q))"
proof -
  obtain t' ph where "pool t' = Some ph" "k \<in> logged_key ph" using assms(1) by (auto simp: open_keys_def)
  moreover from this assms(2) have "t' \<noteq> t" by auto
  ultimately show ?thesis by (intro open_keysI [of _ t' ph]) simp_all
qed

lemma write_agrees:
  assumes agr: "agrees mt (plain_keys m \<union> open_keys pool) m vm"
    and old: "\<And>ph. pool t = Some ph \<Longrightarrow> logged_key ph = {}"
    and new: "(\<exists>v. x = Some (Put v)) \<or> (\<exists>ph. q = Some ph \<and> ky \<in> logged_key ph)"
  shows "agrees mt (plain_keys (m(ky := x)) \<union> open_keys (pool(t := q))) (m(ky := x)) vm"
  unfolding agrees_def
proof (intro allI impI)
  fix k
  assume out: "k \<notin> plain_keys (m(ky := x)) \<union> open_keys (pool(t := q))"
  then have "k \<noteq> ky" using new open_keysI [of "pool(t := q)" t _ ky] by (auto simp: plain_keys_def)
  moreover have "k \<notin> open_keys pool" using out old open_keys_other [of k pool t q] by auto
  moreover have "k \<notin> plain_keys m" using out \<open>k \<noteq> ky\<close> by (auto simp: plain_keys_def)
  ultimately show "vm k = indexed mt (m(ky := x)) k"
    using agr by (simp add: agrees_def indexed_other)
qed

lemma index_agrees:
  assumes agr: "agrees mt (plain_keys m \<union> open_keys pool) m vm" and old: "pool t = Some ph" "logged_key ph \<subseteq> {ky}"
    and new: "\<And>ph. q = Some ph \<Longrightarrow> logged_key ph = {}" and x: "x = indexed mt m ky"
  shows "agrees mt (plain_keys m \<union> open_keys (pool(t := q))) m (vm(ky := x))"
  unfolding agrees_def
proof (intro allI impI)
  fix k
  assume out: "k \<notin> plain_keys m \<union> open_keys (pool(t := q))"
  show "(vm(ky := x)) k = indexed mt m k"
  proof (cases "k = ky")
    case False
    then have "k \<notin> open_keys pool" using out old open_keys_other [of k pool t q] by auto
    with out agr False show ?thesis by (simp add: agrees_def)
  qed (simp add: x)
qed

lemma waiting_simps [simp]: "waiting (Finished r) = None" "waiting (Busy ph) = Some ph"
  by (simp_all add: waiting_def)

lemma waiting_snapshot: "waiting (snapshot_next n) = Some ph \<Longrightarrow> phase_key ph = {} \<and> logged_key ph = {} \<and> phase_ok mt d W m ph"
  by (cases n) (auto simp: snapshot_next_def)

text \<open>A step on the store by a thread that holds the key it writes.\<close>

lemma write_step_ok:
  assumes ok: "sys_ok crc xxh mt d W \<sigma> m N I H"
    and run: "store_on crc xxh e' s' (m(ky := x)) N' I'"
    and old: "\<And>ph. sys_pool \<sigma> t = Some ph \<Longrightarrow> logged_key ph = {}"
    and free: "\<And>t' ph'. t' \<noteq> t \<Longrightarrow> sys_pool \<sigma> t' = Some ph' \<Longrightarrow> ky \<notin> phase_key ph'"
    and mine: "\<And>ph. waiting pr = Some ph \<Longrightarrow> phase_ok mt d W (m(ky := x)) ph \<and> phase_key ph \<subseteq> {ky}"
    and new: "(\<exists>v. x = Some (Put v)) \<or> (\<exists>ph. waiting pr = Some ph \<and> ky \<in> logged_key ph)"
  shows "sys_ok crc xxh mt d W \<lparr>sys_pool = (sys_pool \<sigma>)(t := waiting pr), sys_db = (sys_db \<sigma>)\<lparr>db_inner := e'\<rparr>, sys_fs = s'\<rparr>
    (m(ky := x)) N' I' H"
proof (rule sys_ok_update [OF ok])
  show "fit_index mt d H (db_index ((sys_db \<sigma>)\<lparr>db_inner := e'\<rparr>))" using ok by (simp add: sys_ok_def)
  show "phase_key ph \<inter> phase_key ph' = {}"
    if "waiting pr = Some ph" "t' \<noteq> t" "sys_pool \<sigma> t' = Some ph'" for ph t' ph'
    using mine [OF that(1)] free [OF that(2,3)] by blast
  show "phase_ok mt d W (m(ky := x)) ph'" if "t' \<noteq> t" "sys_pool \<sigma> t' = Some ph'" for t' ph'
    using ok that free [OF that] by (simp add: sys_ok_def phase_ok_other)
  have "agrees mt (plain_keys m \<union> open_keys (sys_pool \<sigma>)) m (vi_abs (db_index (sys_db \<sigma>)))"
    using ok by (simp add: sys_ok_def)
  from write_agrees [where t = t and q = "waiting pr", OF this old new]
  show "agrees mt (plain_keys (m(ky := x)) \<union> open_keys ((sys_pool \<sigma>)(t := waiting pr))) (m(ky := x))
      (vi_abs (db_index ((sys_db \<sigma>)\<lparr>db_inner := e'\<rparr>)))" by simp
qed (use run mine in simp_all)

lemma index_step_ok:
  assumes ok: "sys_ok crc xxh mt d W \<sigma> m N I H" and t: "sys_pool \<sigma> t = Some ph" "logged_key ph \<subseteq> {ky}"
    and ix: "fit_index mt d H' ix" "vi_abs ix = (vi_abs (db_index (sys_db \<sigma>)))(ky := indexed mt m ky)"
  shows "sys_ok crc xxh mt d W
    \<lparr>sys_pool = (sys_pool \<sigma>)(t := waiting (snapshot_next n)), sys_db = (sys_db \<sigma>)\<lparr>db_index := ix\<rparr>, sys_fs = sys_fs \<sigma>\<rparr>
    m N I H'"
proof (rule sys_ok_update [OF ok])
  show "store_on crc xxh (db_inner ((sys_db \<sigma>)\<lparr>db_index := ix\<rparr>)) (sys_fs \<sigma>) m N I" using ok by (simp add: sys_ok_def)
  show "phase_key ph \<inter> phase_key ph' = {}" if "waiting (snapshot_next n) = Some ph" for ph ph'
    using waiting_snapshot [OF that] by simp
  have agr: "agrees mt (plain_keys m \<union> open_keys (sys_pool \<sigma>)) m (vi_abs (db_index (sys_db \<sigma>)))"
    using ok by (simp add: sys_ok_def)
  have "logged_key ph = {}" if "waiting (snapshot_next n) = Some ph" for ph using waiting_snapshot [OF that] by simp
  from index_agrees [where q = "waiting (snapshot_next n)", OF agr t this refl]
  show "agrees mt (plain_keys m \<union> open_keys ((sys_pool \<sigma>)(t := waiting (snapshot_next n)))) m
      (vi_abs (db_index ((sys_db \<sigma>)\<lparr>db_index := ix\<rparr>)))" by (simp add: ix(2))
qed (use ok ix(1) in \<open>auto simp: sys_ok_def dest: waiting_snapshot\<close>)

lemma sys_ok_mono:
  assumes "sys_ok crc xxh mt d W \<sigma> m N I H" and "N \<le> N'" and "I \<le> I'" and "H \<le> H'"
  shows "sys_ok crc xxh mt d W \<sigma> m N' I' H'"
proof -
  have "store_on crc xxh (db_inner (sys_db \<sigma>)) (sys_fs \<sigma>) m N' I'"
    by (rule store_mono [OF _ assms(2,3)]) (use assms(1) in \<open>simp add: sys_ok_def\<close>)
  moreover have "fit_index mt d H' (db_index (sys_db \<sigma>))"
    by (rule fit_index_mono [OF _ assms(4)]) (use assms(1) in \<open>simp add: sys_ok_def\<close>)
  ultimately show ?thesis using assms(1) by (simp add: sys_ok_def)
qed

text \<open>The outcome of a good step of thread \<open>t\<close>: no error, and the invariant afterwards.\<close>

definition good_step ::
  "(bytes \<Rightarrow> u32) \<Rightarrow> (bytes \<Rightarrow> 128 word) \<Rightarrow> distance_metric \<Rightarrow> nat \<Rightarrow> nat \<Rightarrow> nat \<Rightarrow> nat \<Rightarrow> nat \<Rightarrow> 'r system \<Rightarrow> nat \<Rightarrow>
     (progress \<times> 'r db \<times> fs) option \<Rightarrow> bool" where
  "good_step crc xxh mt d W N I H \<sigma> t r \<longleftrightarrow>
     (\<exists>pr db s m. r = Some (pr, db, s) \<and> (\<forall>err. pr \<noteq> Finished (Inl err)) \<and>
        sys_ok crc xxh mt d W \<lparr>sys_pool = (sys_pool \<sigma>)(t := waiting pr), sys_db = db, sys_fs = s\<rparr> m N I H)"

lemma good_stepI:
  "r = Some (pr, db, s) \<Longrightarrow> (\<And>err. pr \<noteq> Finished (Inl err)) \<Longrightarrow>
   sys_ok crc xxh mt d W \<lparr>sys_pool = (sys_pool \<sigma>)(t := waiting pr), sys_db = db, sys_fs = s\<rparr> m N I H \<Longrightarrow>
   good_step crc xxh mt d W N I H \<sigma> t r"
  unfolding good_step_def by blast

lemma snapshot_next_fine [simp]: "snapshot_next n \<noteq> Finished (Inl err)"
  by (simp add: snapshot_next_def split: option.split)

lemma sys_okD:
  assumes "sys_ok crc xxh mt d W \<sigma> m N I H"
  shows "store_on crc xxh (db_inner (sys_db \<sigma>)) (sys_fs \<sigma>) m N I" and "fit_index mt d H (db_index (sys_db \<sigma>))"
    and "agrees mt (plain_keys m \<union> open_keys (sys_pool \<sigma>)) m (vi_abs (db_index (sys_db \<sigma>)))"
    and "sys_pool \<sigma> t = Some ph \<Longrightarrow> phase_ok mt d W m ph"
    and "sys_pool \<sigma> t = Some ph \<Longrightarrow> sys_pool \<sigma> t' = Some ph' \<Longrightarrow> t \<noteq> t' \<Longrightarrow> phase_key ph \<inter> phase_key ph' = {}"
  using assms unfolding sys_ok_def by blast+

lemma free_key: "op_key op \<inter> busy_keys pool = {} \<Longrightarrow> ky \<in> op_key op \<Longrightarrow> pool t = Some ph \<Longrightarrow> ky \<notin> phase_key ph"
  unfolding busy_keys_def by blast

lemma start_put_ok:
  assumes ok: "sys_ok crc xxh mt d W \<sigma> m N I H" and t: "sys_pool \<sigma> t = None"
    and free: "op_key (PutOp ky v) \<inter> busy_keys (sys_pool \<sigma>) = {}" and op: "op_ok mt d W (PutOp ky v)"
    and N: "N + W < 2 ^ 62" and I: "I + 2 < 2 ^ 64"
  shows "good_step crc xxh mt d W (N + W) (I + 2) H \<sigma> t (start_op crc xxh opts (PutOp ky v) (sys_db \<sigma>) (sys_fs \<sigma>))"
proof -
  let ?r = "\<lparr>rec_kind = record_kind.Put, rec_key = ky, rec_value = v\<rparr>"
  have "valid_record ?r" using op by (simp add: valid_record_def valid_key_def valid_value_def)
  with store_write [OF sys_okD(1) [OF ok], of ?r "mt_put ky v" W opts] op N I obtain n e' s' where
    w: "lsm_put crc xxh opts ky v (db_inner (sys_db \<sigma>)) (sys_fs \<sigma>) = Some (Inr n, e', s')"
      "store_on crc xxh e' s' (m(ky \<mapsto> Put v)) (N + W) (I + 2)"
    by (auto simp: lsm_put_def apply_record_def)
  show ?thesis
  proof (rule good_stepI)
    show "start_op crc xxh opts (PutOp ky v) (sys_db \<sigma>) (sys_fs \<sigma>) =
        Some (snapshot_next n, (sys_db \<sigma>)\<lparr>db_inner := e'\<rparr>, s')" using w(1) by (simp add: lsm_step_def)
    show "sys_ok crc xxh mt d W \<lparr>sys_pool = (sys_pool \<sigma>)(t := waiting (snapshot_next n)),
        sys_db = (sys_db \<sigma>)\<lparr>db_inner := e'\<rparr>, sys_fs = s'\<rparr> (m(ky \<mapsto> Put v)) (N + W) (I + 2) H"
      by (rule write_step_ok [OF ok w(2)]) (use t free_key [OF free] waiting_snapshot in simp_all)
  qed simp
qed

lemma start_delete_ok:
  assumes ok: "sys_ok crc xxh mt d W \<sigma> m N I H" and t: "sys_pool \<sigma> t = None"
    and free: "op_key (DeleteOp ky) \<inter> busy_keys (sys_pool \<sigma>) = {}" and op: "op_ok mt d W (DeleteOp ky)"
    and N: "N + W < 2 ^ 62" and I: "I + 2 < 2 ^ 64"
  shows "good_step crc xxh mt d W (N + W) (I + 2) H \<sigma> t (start_op crc xxh opts (DeleteOp ky) (sys_db \<sigma>) (sys_fs \<sigma>))"
proof -
  let ?r = "\<lparr>rec_kind = record_kind.Delete, rec_key = ky, rec_value = []\<rparr>"
  have "valid_record ?r" using op by (simp add: valid_record_def valid_key_def)
  with store_write [OF sys_okD(1) [OF ok], of ?r "mt_delete ky" W opts] op N I obtain n e' s' where
    w: "lsm_delete crc xxh opts ky (db_inner (sys_db \<sigma>)) (sys_fs \<sigma>) = Some (Inr n, e', s')"
      "store_on crc xxh e' s' (m(ky := None)) (N + W) (I + 2)"
    by (auto simp: lsm_delete_def apply_record_def)
  show ?thesis
  proof (rule good_stepI)
    show "start_op crc xxh opts (DeleteOp ky) (sys_db \<sigma>) (sys_fs \<sigma>) =
        Some (Busy (DeleteLogged ky n), (sys_db \<sigma>)\<lparr>db_inner := e'\<rparr>, s')" using w(1) by (simp add: lsm_step_def)
    show "sys_ok crc xxh mt d W \<lparr>sys_pool = (sys_pool \<sigma>)(t := waiting (Busy (DeleteLogged ky n))),
        sys_db = (sys_db \<sigma>)\<lparr>db_inner := e'\<rparr>, sys_fs = s'\<rparr> (m(ky := None)) (N + W) (I + 2) H"
      by (rule write_step_ok [OF ok w(2)]) (use t op free_key [OF free] in simp_all)
  qed simp
qed

text \<open>Steps that change neither the store's map nor the index.\<close>

lemma quiet_step_ok:
  assumes ok: "sys_ok crc xxh mt d W \<sigma> m N I H" and store: "store_on crc xxh e' s' m N' I'"
    and old: "\<And>ph. sys_pool \<sigma> t = Some ph \<Longrightarrow> logged_key ph = {}"
    and mine: "\<And>ph. waiting pr = Some ph \<Longrightarrow> phase_ok mt d W m ph"
      "\<And>ph t' ph'. waiting pr = Some ph \<Longrightarrow> sys_pool \<sigma> t' = Some ph' \<Longrightarrow> phase_key ph \<inter> phase_key ph' = {}"
  shows "sys_ok crc xxh mt d W
    \<lparr>sys_pool = (sys_pool \<sigma>)(t := waiting pr), sys_db = (sys_db \<sigma>)\<lparr>db_inner := e'\<rparr>, sys_fs = s'\<rparr> m N' I' H"
proof (rule sys_ok_update [OF ok])
  have "open_keys (sys_pool \<sigma>) \<subseteq> open_keys ((sys_pool \<sigma>)(t := waiting pr))"
  proof
    fix k
    assume "k \<in> open_keys (sys_pool \<sigma>)"
    then show "k \<in> open_keys ((sys_pool \<sigma>)(t := waiting pr))" using old by (intro open_keys_other) auto
  qed
  then have "plain_keys m \<union> open_keys (sys_pool \<sigma>) \<subseteq> plain_keys m \<union> open_keys ((sys_pool \<sigma>)(t := waiting pr))" by blast
  from agrees_mono [OF sys_okD(3) [OF ok] this]
  show "agrees mt (plain_keys m \<union> open_keys ((sys_pool \<sigma>)(t := waiting pr))) m
      (vi_abs (db_index ((sys_db \<sigma>)\<lparr>db_inner := e'\<rparr>)))" by simp
qed (use store mine sys_okD(2,4) [OF ok] in simp_all)

lemma start_put_indexed_ok:
  assumes ok: "sys_ok crc xxh mt d W \<sigma> m N I H" and t: "sys_pool \<sigma> t = None"
    and free: "op_key (PutIndexedOp ky v) \<inter> busy_keys (sys_pool \<sigma>) = {}" and op: "op_ok mt d W (PutIndexedOp ky v)"
  shows "good_step crc xxh mt d W N I H \<sigma> t (start_op crc xxh opts (PutIndexedOp ky v) (sys_db \<sigma>) (sys_fs \<sigma>))"
proof (rule good_stepI)
  have "v \<noteq> []" "list_all f32_is_finite v" "length v = d" using op by (simp_all add: valid_vector_def)
  moreover have "vi_expected_dim (db_index (sys_db \<sigma>)) = None \<or> vi_expected_dim (db_index (sys_db \<sigma>)) = Some d"
    using sys_okD(2) [OF ok] by (simp add: fit_index_def index_dim_def)
  ultimately show "start_op crc xxh opts (PutIndexedOp ky v) (sys_db \<sigma>) (sys_fs \<sigma>) =
      Some (Busy (Validated ky v), (sys_db \<sigma>)\<lparr>db_inner := db_inner (sys_db \<sigma>)\<rparr>, sys_fs \<sigma>)" by auto
  show "sys_ok crc xxh mt d W \<lparr>sys_pool = (sys_pool \<sigma>)(t := waiting (Busy (Validated ky v))),
      sys_db = (sys_db \<sigma>)\<lparr>db_inner := db_inner (sys_db \<sigma>)\<rparr>, sys_fs = sys_fs \<sigma>\<rparr> m N I H"
    by (rule quiet_step_ok [OF ok sys_okD(1) [OF ok]]) (use t op free_key [OF free] in auto)
qed simp

lemma start_flush_ok:
  assumes ok: "sys_ok crc xxh mt d W \<sigma> m N I H" and t: "sys_pool \<sigma> t = None"
    and N: "N < 2 ^ 62" and I: "I + 2 < 2 ^ 64"
  shows "good_step crc xxh mt d W N (I + 2) H \<sigma> t (start_op crc xxh opts FlushOp (sys_db \<sigma>) (sys_fs \<sigma>))"
proof -
  from store_flush [OF sys_okD(1) [OF ok] N I, of opts] obtain n e' s' where
    w: "lsm_flush crc xxh opts (db_inner (sys_db \<sigma>)) (sys_fs \<sigma>) = Some (Inr n, e', s')"
      "store_on crc xxh e' s' m N (I + 2)" by blast
  show ?thesis
  proof (rule good_stepI)
    show "start_op crc xxh opts FlushOp (sys_db \<sigma>) (sys_fs \<sigma>) =
        Some (snapshot_next n, (sys_db \<sigma>)\<lparr>db_inner := e'\<rparr>, s')" using w(1) by (simp add: lsm_step_def)
    show "sys_ok crc xxh mt d W \<lparr>sys_pool = (sys_pool \<sigma>)(t := waiting (snapshot_next n)),
        sys_db = (sys_db \<sigma>)\<lparr>db_inner := e'\<rparr>, sys_fs = s'\<rparr> m N (I + 2) H"
      by (rule quiet_step_ok [OF ok w(2)]) (use t waiting_snapshot in auto)
  qed simp
qed

lemma good_step_mono:
  assumes "good_step crc xxh mt d W N I H \<sigma> t r" and "N \<le> N'" and "I \<le> I'" and "H \<le> H'"
  shows "good_step crc xxh mt d W N' I' H' \<sigma> t r"
  using assms(1) sys_ok_mono [OF _ assms(2-4)] unfolding good_step_def by blast

lemma start_ok:
  assumes ok: "sys_ok crc xxh mt d W \<sigma> m N I H" and t: "sys_pool \<sigma> t = None"
    and free: "op_key op \<inter> busy_keys (sys_pool \<sigma>) = {}" and op: "op_ok mt d W op"
    and N: "N + W < 2 ^ 62" and I: "I + 2 < 2 ^ 64"
  shows "good_step crc xxh mt d W (N + W) (I + 2) (Suc H) \<sigma> t (start_op crc xxh opts op (sys_db \<sigma>) (sys_fs \<sigma>))"
proof -
  have N': "N < 2 ^ 62" using N by simp
  note mono = good_step_mono [where N' = "N + W" and I' = "I + 2" and H' = "Suc H"]
  show ?thesis
  proof (cases op)
    case (PutOp ky v)
    show ?thesis unfolding PutOp
      by (rule mono [OF start_put_ok [OF ok t free [unfolded PutOp] op [unfolded PutOp] N I]]) simp_all
  next
    case (PutIndexedOp ky v)
    show ?thesis unfolding PutIndexedOp
      by (rule mono [OF start_put_indexed_ok [OF ok t free [unfolded PutIndexedOp] op [unfolded PutIndexedOp]]]) simp_all
  next
    case (DeleteOp ky)
    show ?thesis unfolding DeleteOp
      by (rule mono [OF start_delete_ok [OF ok t free [unfolded DeleteOp] op [unfolded DeleteOp] N I]]) simp_all
  next
    case FlushOp
    show ?thesis unfolding FlushOp by (rule mono [OF start_flush_ok [OF ok t N' I]]) simp_all
  qed
qed

lemma log_vector_ok:
  assumes ok: "sys_ok crc xxh mt d W \<sigma> m N I H" and t: "sys_pool \<sigma> t = Some (Validated ky v)"
    and N: "N + W < 2 ^ 62" and I: "I + 2 < 2 ^ 64"
  shows "good_step crc xxh mt d W (N + W) (I + 2) H \<sigma> t (resume_op crc xxh opts lib (Validated ky v) (sys_db \<sigma>) (sys_fs \<sigma>))"
proof -
  have op: "op_ok mt d W (PutIndexedOp ky v)" using sys_okD(4) [OF ok t] by simp
  from store_put_vector [OF sys_okD(1) [OF ok] op N I, of opts] obtain n e' s' where
    w: "lsm_put_vector crc xxh opts ky (encode_vector v) (db_inner (sys_db \<sigma>)) (sys_fs \<sigma>) = Some (Inr n, e', s')"
      "store_on crc xxh e' s' (m(ky \<mapsto> Vector (encode_vector v))) (N + W) (I + 2)" by blast
  have free: "ky \<notin> phase_key ph'" if "t' \<noteq> t" "sys_pool \<sigma> t' = Some ph'" for t' ph'
    using sys_okD(5) [OF ok that(2) t that(1)] by simp
  show ?thesis
  proof (rule good_stepI)
    show "resume_op crc xxh opts lib (Validated ky v) (sys_db \<sigma>) (sys_fs \<sigma>) =
        Some (Busy (VectorLogged ky v n), (sys_db \<sigma>)\<lparr>db_inner := e'\<rparr>, s')" using w(1) by (simp add: lsm_step_def)
    show "sys_ok crc xxh mt d W \<lparr>sys_pool = (sys_pool \<sigma>)(t := waiting (Busy (VectorLogged ky v n))),
        sys_db = (sys_db \<sigma>)\<lparr>db_inner := e'\<rparr>, sys_fs = s'\<rparr> (m(ky \<mapsto> Vector (encode_vector v))) (N + W) (I + 2) H"
      by (rule write_step_ok [OF ok w(2)]) (use t op free in simp_all)
  qed simp
qed

lemma index_vector_ok:
  assumes ok: "sys_ok crc xxh mt d W \<sigma> m N I H" and t: "sys_pool \<sigma> t = Some (VectorLogged ky v n)"
    and H: "Suc H < 2 ^ 32"
  shows "good_step crc xxh mt d W N I (Suc H) \<sigma> t (resume_op crc xxh opts lib (VectorLogged ky v n) (sys_db \<sigma>) (sys_fs \<sigma>))"
proof -
  let ?ix = "db_index (sys_db \<sigma>)"
  have op: "valid_key ky" "valid_vector mt d v" "m ky = Some (Vector (encode_vector v))"
    using sys_okD(4) [OF ok t] by simp_all
  from index_put_fits [OF sys_okD(2) [OF ok] op(1,2) H, of lib] obtain ix' where
    put: "index_put lib ky v ?ix = (Inr (), ix')" "fit_index mt d (Suc H) ix'"
      "vi_abs ix' = (vi_abs ?ix)(ky := preprocess_vector mt v)" by blast
  have abs': "vi_abs ix' = (vi_abs ?ix)(ky := indexed mt m ky)" by (simp add: put(3) indexed_def op(3) meaning_of_def)
  show ?thesis
  proof (rule good_stepI)
    show "resume_op crc xxh opts lib (VectorLogged ky v n) (sys_db \<sigma>) (sys_fs \<sigma>) =
        Some (snapshot_next n, (sys_db \<sigma>)\<lparr>db_index := ix'\<rparr>, sys_fs \<sigma>)" using put(1) by (simp add: index_step_def)
    show "sys_ok crc xxh mt d W \<lparr>sys_pool = (sys_pool \<sigma>)(t := waiting (snapshot_next n)),
        sys_db = (sys_db \<sigma>)\<lparr>db_index := ix'\<rparr>, sys_fs = sys_fs \<sigma>\<rparr> m N I (Suc H)"
      by (rule index_step_ok [OF ok t _ put(2) abs']) simp
  qed simp
qed

lemma index_delete_ok:
  assumes ok: "sys_ok crc xxh mt d W \<sigma> m N I H" and t: "sys_pool \<sigma> t = Some (DeleteLogged ky n)"
  shows "good_step crc xxh mt d W N I H \<sigma> t (resume_op crc xxh opts lib (DeleteLogged ky n) (sys_db \<sigma>) (sys_fs \<sigma>))"
proof -
  let ?ix = "db_index (sys_db \<sigma>)"
  have "m ky = None" using sys_okD(4) [OF ok t] by simp
  from forget_key_fits [OF sys_okD(2) [OF ok], of ky] obtain ix' where
    ix': "forget_key ky ?ix = (Inr (), ix')" "fit_index mt d H ix'" "vi_abs ix' = (vi_abs ?ix)(ky := None)" by blast
  have abs': "vi_abs ix' = (vi_abs ?ix)(ky := indexed mt m ky)" by (simp add: ix'(3) indexed_def \<open>m ky = None\<close>)
  show ?thesis
  proof (rule good_stepI)
    show "resume_op crc xxh opts lib (DeleteLogged ky n) (sys_db \<sigma>) (sys_fs \<sigma>) =
        Some (snapshot_next n, (sys_db \<sigma>)\<lparr>db_index := ix'\<rparr>, sys_fs \<sigma>)" using ix'(1) by (simp add: index_step_def)
    show "sys_ok crc xxh mt d W \<lparr>sys_pool = (sys_pool \<sigma>)(t := waiting (snapshot_next n)),
        sys_db = (sys_db \<sigma>)\<lparr>db_index := ix'\<rparr>, sys_fs = sys_fs \<sigma>\<rparr> m N I H"
      by (rule index_step_ok [OF ok t _ ix'(2) abs']) simp
  qed simp
qed

lemma db_inner_same: "db\<lparr>db_inner := db_inner db\<rparr> = (db :: 'r db)"
  by (cases db) simp

lemma snapshot_ok:
  assumes ok: "sys_ok crc xxh mt d W \<sigma> m N I H" and t: "sys_pool \<sigma> t = Some ph"
    and ph: "ph = SnapshotDue i \<or> ph = SnapshotTaken i bs"
  shows "good_step crc xxh mt d W N I H \<sigma> t (resume_op crc xxh opts lib ph (sys_db \<sigma>) (sys_fs \<sigma>))"
proof -
  have old: "logged_key ph = {}" using ph by auto
  from store_publish [OF sys_okD(1) [OF ok], of i bs] obtain s' where
    w: "publish_snapshot i bs (sys_fs \<sigma>) = (Inr (), s')" "store_on crc xxh (db_inner (sys_db \<sigma>)) s' m N I" by blast
  have quiet: "sys_ok crc xxh mt d W \<lparr>sys_pool = (sys_pool \<sigma>)(t := waiting pr), sys_db = sys_db \<sigma>, sys_fs = s\<rparr> m N I H"
    if s: "store_on crc xxh (db_inner (sys_db \<sigma>)) s m N I"
      and pr: "\<forall>ph. waiting pr = Some ph \<longrightarrow> (\<exists>i bs. ph = SnapshotTaken i bs)" for pr s
  proof -
    have "phase_ok mt d W m p \<and> phase_key p = {}" if "waiting pr = Some p" for p using pr that by auto
    then show ?thesis using quiet_step_ok [OF ok s, of t pr] t old by (simp add: db_inner_same)
  qed
  from ph show ?thesis
  proof
    assume due: "ph = SnapshotDue i"
    let ?bs = "encode_snapshot crc (vi_hnsw (db_index (sys_db \<sigma>))) i (vi_key_to_node (db_index (sys_db \<sigma>)))"
    have "resume_op crc xxh opts lib ph (sys_db \<sigma>) (sys_fs \<sigma>) = Some (Busy (SnapshotTaken i ?bs), sys_db \<sigma>, sys_fs \<sigma>)"
      by (simp add: due)
    from good_stepI [OF this, where \<sigma> = \<sigma> and t = t] quiet [OF sys_okD(1) [OF ok], of "Busy (SnapshotTaken i ?bs)"]
    show ?thesis by simp
  next
    assume taken: "ph = SnapshotTaken i bs"
    have "resume_op crc xxh opts lib ph (sys_db \<sigma>) (sys_fs \<sigma>) = Some (Finished (Inr ()), sys_db \<sigma>, s')"
      using w(1) by (simp add: taken)
    from good_stepI [OF this, where \<sigma> = \<sigma> and t = t] quiet [OF w(2), of "Finished (Inr ())"] show ?thesis by simp
  qed
qed

lemma resume_ok:
  assumes ok: "sys_ok crc xxh mt d W \<sigma> m N I H" and t: "sys_pool \<sigma> t = Some ph"
    and N: "N + W < 2 ^ 62" and I: "I + 2 < 2 ^ 64" and H: "Suc H < 2 ^ 32"
  shows "good_step crc xxh mt d W (N + W) (I + 2) (Suc H) \<sigma> t (resume_op crc xxh opts lib ph (sys_db \<sigma>) (sys_fs \<sigma>))"
proof -
  note mono = good_step_mono [where N' = "N + W" and I' = "I + 2" and H' = "Suc H"]
  show ?thesis
  proof (cases ph)
    case (Validated ky v)
    show ?thesis unfolding Validated by (rule mono [OF log_vector_ok [OF ok t [unfolded Validated] N I]]) simp_all
  next
    case (VectorLogged ky v n)
    show ?thesis unfolding VectorLogged
      by (rule mono [OF index_vector_ok [OF ok t [unfolded VectorLogged] H]]) simp_all
  next
    case (DeleteLogged ky n)
    show ?thesis unfolding DeleteLogged by (rule mono [OF index_delete_ok [OF ok t [unfolded DeleteLogged]]]) simp_all
  next
    case (SnapshotDue i)
    show ?thesis by (rule mono [OF snapshot_ok [OF ok t]]) (simp_all add: SnapshotDue)
  next
    case (SnapshotTaken i bs)
    show ?thesis by (rule mono [OF snapshot_ok [OF ok t]]) (simp_all add: SnapshotTaken)
  qed
qed

section \<open>Whole schedules\<close>

fun event_ok :: "distance_metric \<Rightarrow> nat \<Rightarrow> nat \<Rightarrow> event \<Rightarrow> bool" where
  "event_ok mt d W (Start t op) \<longleftrightarrow> op_ok mt d W op"
| "event_ok mt d W (Resume t) \<longleftrightarrow> True"

lemma sys_step_good:
  assumes ok: "sys_ok crc xxh mt d W \<sigma> m N I H" and st: "sys_step crc xxh opts lib ev pr \<sigma> \<sigma>'"
    and ex: "exclusive ev \<sigma>" and ev: "event_ok mt d W ev"
    and N: "N + W < 2 ^ 62" and I: "I + 2 < 2 ^ 64" and H: "Suc H < 2 ^ 32"
  shows "(\<forall>err. pr \<noteq> Finished (Inl err)) \<and> (\<exists>m'. sys_ok crc xxh mt d W \<sigma>' m' (N + W) (I + 2) (Suc H))"
  using st
proof cases
  case (start t op db s)
  have "op_key op \<inter> busy_keys (sys_pool \<sigma>) = {}" "op_ok mt d W op" using ex ev start(1) by (simp_all add: exclusive_def)
  from start_ok [OF ok start(3) this N I, of opts] start show ?thesis by (auto simp: good_step_def)
next
  case (resume t ph db s)
  from resume_ok [OF ok resume(3) N I H, of opts lib] resume show ?thesis by (auto simp: good_step_def)
qed

lemma sys_run_good:
  assumes "sys_run crc xxh opts lib exclusive evs \<sigma> \<sigma>'" and "sys_ok crc xxh mt d W \<sigma> m N I H"
    and "\<forall>(ev, pr) \<in> set evs. event_ok mt d W ev"
    and "N + length evs * W < 2 ^ 62" and "I + 2 * length evs < 2 ^ 64" and "H + length evs < 2 ^ 32"
  shows "(\<forall>(ev, pr) \<in> set evs. \<forall>err. pr \<noteq> Finished (Inl err)) \<and>
    (\<exists>m'. sys_ok crc xxh mt d W \<sigma>' m' (N + length evs * W) (I + 2 * length evs) (H + length evs))"
  using assms
proof (induction rule: sys_run.induct)
  case (done_run \<sigma>)
  then show ?case by auto
next
  case (more evs \<sigma> \<sigma>1 ev \<sigma>2 pr)
  from more have IH: "\<forall>(ev, pr) \<in> set evs. \<forall>err. pr \<noteq> Finished (Inl err)"
    "\<exists>m'. sys_ok crc xxh mt d W \<sigma>1 m' (N + length evs * W) (I + 2 * length evs) (H + length evs)" by auto
  then obtain m1 where ok1: "sys_ok crc xxh mt d W \<sigma>1 m1 (N + length evs * W) (I + 2 * length evs) (H + length evs)" by blast
  have "event_ok mt d W ev" "N + length evs * W + W < 2 ^ 62" "I + 2 * length evs + 2 < 2 ^ 64" "Suc (H + length evs) < 2 ^ 32"
    using more.prems by simp_all
  from sys_step_good [OF ok1 more.hyps(3,2) this] IH(1) show ?case by (auto simp: algebra_simps)
qed

lemma sys_ok_idle:
  assumes "db_rep crc xxh mt d db s m {} N I H"
  shows "sys_ok crc xxh mt d W \<lparr>sys_pool = (\<lambda>_. None), sys_db = db, sys_fs = s\<rparr> m N I H"
proof -
  have "agrees mt (plain_keys m \<union> open_keys (\<lambda>_. None)) m (vi_abs (db_index db))"
    using db_repD(2) [OF assms] by (rule agrees_mono) simp
  moreover have "store_on crc xxh (db_inner db) s m N I"
    using assms unfolding db_rep_def db_on_def store_on_def by auto
  ultimately show ?thesis using db_repD(1) [OF assms] by (simp add: sys_ok_def)
qed

text \<open>C5: Whatever the schedule of the threads, as long as no write starts on a key that another thread is
  writing: no operation reports an error, no thread is ever stuck, the maps of the index stay inverse to
  each other and cover the live nodes, lookups answer from one map, and the index holds exactly the vectors
  of that map, except for keys whose index step is still to come and keys with a plain value.
\<close>
theorem threads_keep_agreement:
  fixes lib :: "'r rng_lib"
  assumes fresh: "plan s = []" "names s = []" "fit_params ps d" "db_open crc lib ps s = Some (Inr db, s0)"
    and run: "sys_run crc xxh opts lib exclusive evs \<lparr>sys_pool = (\<lambda>_. None), sys_db = db, sys_fs = s0\<rparr> \<sigma>"
    and evs: "\<forall>(ev, pr) \<in> set evs. event_ok (hp_metric ps) d W ev"
    and bounds: "Suc (length evs) * W < 2 ^ 62" "2 * Suc (length evs) < 2 ^ 64" "Suc (length evs) < 2 ^ 32"
  shows "(\<forall>(ev, pr) \<in> set evs. \<forall>err. pr \<noteq> Finished (Inl err)) \<and> index_ok (db_index (sys_db \<sigma>)) \<and>
    (\<forall>t ph. sys_pool \<sigma> t = Some ph \<longrightarrow> (\<exists>pr \<sigma>'. sys_step crc xxh opts lib (Resume t) pr \<sigma> \<sigma>')) \<and>
    (\<exists>m. (\<forall>ky. db_get crc xxh ky (sys_db \<sigma>) (sys_fs \<sigma>) = (Inr (visible (m ky)), sys_fs \<sigma>)) \<and>
      (\<forall>ky. ky \<notin> open_keys (sys_pool \<sigma>) \<longrightarrow> (\<forall>v. m ky \<noteq> Some (Put v)) \<longrightarrow>
        vi_abs (db_index (sys_db \<sigma>)) ky = indexed (hp_metric ps) m ky))"
proof -
  let ?mt = "hp_metric ps" and ?n = "length evs"
  from db_open_fresh [OF fresh(1-3) refl, of crc lib xxh] fresh(4)
  have rep: "db_rep crc xxh ?mt d db s0 Map.empty {} 0 0 0" by auto
  have "0 + ?n * W < 2 ^ 62" "0 + 2 * ?n < 2 ^ 64" "0 + ?n < 2 ^ 32" using bounds by simp_all
  from sys_run_good [OF run sys_ok_idle [OF rep] evs this] obtain m where
    good: "\<forall>(ev, pr) \<in> set evs. \<forall>err. pr \<noteq> Finished (Inl err)" and
    ok: "sys_ok crc xxh ?mt d W \<sigma> m (0 + ?n * W) (0 + 2 * ?n) (0 + ?n)" by blast
  have "\<exists>pr \<sigma>'. sys_step crc xxh opts lib (Resume t) pr \<sigma> \<sigma>'" if "sys_pool \<sigma> t = Some ph" for t ph
  proof -
    have "0 + ?n * W + W < 2 ^ 62" "0 + 2 * ?n + 2 < 2 ^ 64" "Suc (0 + ?n) < 2 ^ 32" using bounds by simp_all
    from resume_ok [OF ok that this, of opts lib] show ?thesis
      by (auto simp: good_step_def intro: sys_step.resume [OF that])
  qed
  moreover have "index_ok (db_index (sys_db \<sigma>))" using sys_okD(2) [OF ok] by (simp add: fit_index_def)
  moreover have "db_get crc xxh ky (sys_db \<sigma>) (sys_fs \<sigma>) = (Inr (visible (m ky)), sys_fs \<sigma>)" for ky
    using store_get [OF sys_okD(1) [OF ok]] by (simp add: db_get_def)
  moreover have "vi_abs (db_index (sys_db \<sigma>)) ky = indexed ?mt m ky"
    if "ky \<notin> open_keys (sys_pool \<sigma>)" "\<forall>v. m ky \<noteq> Some (Put v)" for ky
    using sys_okD(3) [OF ok] that by (auto simp: agrees_def plain_keys_def)
  ultimately show ?thesis using good by blast
qed

lemma run_start:
  assumes run: "sys_run crc xxh opts lib exclusive evs \<sigma>0 \<sigma>" and ok: "sys_ok crc xxh mt d W \<sigma> m N I H"
    and t: "sys_pool \<sigma> t = None" and free: "op_key op \<inter> busy_keys (sys_pool \<sigma>) = {}" and op: "op_ok mt d W op"
    and N: "N + W < 2 ^ 62" and I: "I + 2 < 2 ^ 64"
  shows "\<exists>pr \<sigma>' m'. sys_run crc xxh opts lib exclusive (evs @ [(Start t op, pr)]) \<sigma>0 \<sigma>' \<and>
    sys_ok crc xxh mt d W \<sigma>' m' (N + W) (I + 2) (Suc H) \<and> (\<forall>t'. t' \<noteq> t \<longrightarrow> sys_pool \<sigma>' t' = sys_pool \<sigma> t')"
proof -
  from start_ok [OF ok t free op N I, of opts] obtain pr db s m' where
    st: "start_op crc xxh opts op (sys_db \<sigma>) (sys_fs \<sigma>) = Some (pr, db, s)"
      "sys_ok crc xxh mt d W \<lparr>sys_pool = (sys_pool \<sigma>)(t := waiting pr), sys_db = db, sys_fs = s\<rparr> m' (N + W) (I + 2) (Suc H)"
    unfolding good_step_def by blast
  have "exclusive (Start t op) \<sigma>" using free by (simp add: exclusive_def)
  from sys_run.more [where ok = exclusive, OF run this sys_step.start [where \<sigma> = \<sigma>, OF t st(1), where lib = lib]] st(2)
  show ?thesis
    by (intro exI [of _ pr] exI [of _ "\<lparr>sys_pool = (sys_pool \<sigma>)(t := waiting pr), sys_db = db, sys_fs = s\<rparr>"] exI [of _ m']) simp
qed

theorem threads_keep_agreement_witness:
  "\<exists>(db :: unit db) s0 pr0 pr1 \<sigma>. db_open (\<lambda>_. 7) sample_rng line_params empty_fs = Some (Inr db, s0) \<and>
    sys_run (\<lambda>_. 7) (\<lambda>_. 9) small_options sample_rng exclusive
      [(Start 0 (PutIndexedOp [1] [F32_ONE]), pr0), (Start 1 FlushOp, pr1)]
      \<lparr>sys_pool = (\<lambda>_. None), sys_db = db, sys_fs = s0\<rparr> \<sigma> \<and>
    index_ok (db_index (sys_db \<sigma>))"
proof -
  have ps: "fit_params line_params 1" and mt: "hp_metric line_params = EuclideanSquared"
    by (simp_all add: line_params_def default_params_def fit_params_def small_params_def Let_def)
  have fs: "plan empty_fs = []" "names empty_fs = []" by (simp_all add: empty_fs_def)
  from db_open_fresh [OF fs ps mt, of "\<lambda>_. 7" sample_rng "\<lambda>_. 9"] obtain db :: "unit db" and s0 where
    db: "db_open (\<lambda>_. 7) sample_rng line_params empty_fs = Some (Inr db, s0)"
      "db_rep (\<lambda>_. 7) (\<lambda>_. 9) EuclideanSquared 1 db s0 Map.empty {} 0 0 0" by blast
  let ?\<sigma> = "\<lparr>sys_pool = (\<lambda>_. None), sys_db = db, sys_fs = s0\<rparr>"
  have op: "op_ok EuclideanSquared 1 35 (PutIndexedOp [1] [F32_ONE])" "op_ok EuclideanSquared 1 35 FlushOp"
    by (simp_all add: valid_vector_def valid_key_def valid_value_def MAX_KEY_LEN_def MAX_VALUE_LEN_def
        preprocess_vector_def line_finite entry_bound_def)
  have b: "0 + 35 < (2 :: nat) ^ 62" "0 + 2 < (2 :: nat) ^ 64" "0 + 35 + 35 < (2 :: nat) ^ 62" "0 + 2 + 2 < (2 :: nat) ^ 64"
    by simp_all
  have "op_key (PutIndexedOp [1] [F32_ONE]) \<inter> busy_keys (sys_pool ?\<sigma>) = {}" "sys_pool ?\<sigma> 0 = None"
    by (simp_all add: busy_keys_def)
  from run_start [OF sys_run.done_run sys_ok_idle [OF db(2)] this(2,1) op(1) b(1,2), of small_options sample_rng]
  obtain pr0 \<sigma>1 m1 where
    1: "sys_run (\<lambda>_. 7) (\<lambda>_. 9) small_options sample_rng exclusive ([] @ [(Start 0 (PutIndexedOp [1] [F32_ONE]), pr0)]) ?\<sigma> \<sigma>1"
      "sys_ok (\<lambda>_. 7) (\<lambda>_. 9) EuclideanSquared 1 35 \<sigma>1 m1 (0 + 35) (0 + 2) (Suc 0)"
      "\<forall>t'. t' \<noteq> 0 \<longrightarrow> sys_pool \<sigma>1 t' = sys_pool ?\<sigma> t'" by blast
  have "sys_pool \<sigma>1 1 = None" "op_key FlushOp \<inter> busy_keys (sys_pool \<sigma>1) = {}" using 1(3) by simp_all
  from run_start [OF 1(1,2) this op(2) b(3,4)] obtain pr1 \<sigma>2 where
    2: "sys_run (\<lambda>_. 7) (\<lambda>_. 9) small_options sample_rng exclusive
      [(Start 0 (PutIndexedOp [1] [F32_ONE]), pr0), (Start 1 FlushOp, pr1)] ?\<sigma> \<sigma>2" by auto
  have ev: "\<forall>(ev, pr) \<in> set [(Start 0 (PutIndexedOp [1] [F32_ONE]), pr0), (Start 1 FlushOp, pr1)].
      event_ok (hp_metric line_params) 1 35 ev"
    using op(1) by (simp add: mt)
  have "index_ok (db_index (sys_db \<sigma>2))"
    using threads_keep_agreement [OF fs ps db(1) 2 ev] by simp
  with db(1) 2 show ?thesis by blast
qed

end
