(* ===== verification/Races.thy ===== *)
theory Races
  imports Threads
begin

text \<open>
  What happens when writes of one key do overlap, and what a snapshot taken between the two steps of
  another thread's write costs.
\<close>

section \<open>Schedules\<close>

text \<open>Any schedule, with no discipline on the events.\<close>

definition anything :: "event \<Rightarrow> 'r system \<Rightarrow> bool" where
  "anything ev \<sigma> = True"

lemma anythingI: "anything ev \<sigma>"
  by (simp add: anything_def)

text \<open>Playing a schedule.\<close>

fun play ::
  "(bytes \<Rightarrow> u32) \<Rightarrow> (bytes \<Rightarrow> 128 word) \<Rightarrow> options \<Rightarrow> 'r rng_lib \<Rightarrow> event list \<Rightarrow> 'r system \<Rightarrow>
     ((event \<times> progress) list \<times> 'r system) option" where
  "play crc xxh opts lib [] \<sigma> = Some ([], \<sigma>)"
| "play crc xxh opts lib (ev # evs) \<sigma> =
     (let (t, r) = (case ev of
          Start t op \<Rightarrow>
            (t, if sys_pool \<sigma> t = None then start_op crc xxh opts op (sys_db \<sigma>) (sys_fs \<sigma>) else None)
        | Resume t \<Rightarrow>
            (t, case sys_pool \<sigma> t of
                  None \<Rightarrow> None
                | Some ph \<Rightarrow> resume_op crc xxh opts lib ph (sys_db \<sigma>) (sys_fs \<sigma>)))
      in case r of
           None \<Rightarrow> None
         | Some (pr, db, s) \<Rightarrow>
             (case play crc xxh opts lib evs \<lparr>sys_pool = (sys_pool \<sigma>)(t := waiting pr), sys_db = db, sys_fs = s\<rparr> of
                None \<Rightarrow> None
              | Some (rs, \<sigma>) \<Rightarrow> Some ((ev, pr) # rs, \<sigma>)))"

lemma sys_run_cons:
  assumes "sys_run crc xxh opts lib ok evs \<sigma>1 \<sigma>2" and "ok ev \<sigma>" and "sys_step crc xxh opts lib ev pr \<sigma> \<sigma>1"
  shows "sys_run crc xxh opts lib ok ((ev, pr) # evs) \<sigma> \<sigma>2"
  using assms
proof (induction rule: sys_run.induct)
  case (done_run \<sigma>1)
  from sys_run.more [where evs = "[]" and ok = ok, OF sys_run.done_run done_run] show ?case by simp
next
  case (more evs \<sigma>1 \<sigma>a ev' \<sigma>b pr')
  from sys_run.more [OF more.IH [OF more.prems] more.hyps(2,3)] show ?case by simp
qed

lemma play_run: "play crc xxh opts lib evs \<sigma> = Some (rs, \<sigma>') \<Longrightarrow> sys_run crc xxh opts lib anything rs \<sigma> \<sigma>'"
proof (induction evs arbitrary: \<sigma> rs)
  case Nil
  then show ?case by (simp add: sys_run.done_run)
next
  case (Cons ev evs)
  show ?case
  proof (cases ev)
    case (Start t op)
    with Cons.prems obtain pr db s rs' where "sys_pool \<sigma> t = None"
      "start_op crc xxh opts op (sys_db \<sigma>) (sys_fs \<sigma>) = Some (pr, db, s)" "rs = (Start t op, pr) # rs'"
      "play crc xxh opts lib evs \<lparr>sys_pool = (sys_pool \<sigma>)(t := waiting pr), sys_db = db, sys_fs = s\<rparr> = Some (rs', \<sigma>')"
      by (auto split: option.splits prod.splits if_splits)
    from sys_run_cons [where ok = anything, OF Cons.IH [OF this(4)] anythingI sys_step.start [where \<sigma> = \<sigma>, OF this(1,2)]] this(3)
    show ?thesis by simp
  next
    case (Resume t)
    with Cons.prems obtain ph pr db s rs' where "sys_pool \<sigma> t = Some ph"
      "resume_op crc xxh opts lib ph (sys_db \<sigma>) (sys_fs \<sigma>) = Some (pr, db, s)" "rs = (Resume t, pr) # rs'"
      "play crc xxh opts lib evs \<lparr>sys_pool = (sys_pool \<sigma>)(t := waiting pr), sys_db = db, sys_fs = s\<rparr> = Some (rs', \<sigma>')"
      by (auto split: option.splits prod.splits)
    from sys_run_cons [where ok = anything, OF Cons.IH [OF this(4)] anythingI sys_step.resume [where \<sigma> = \<sigma>, OF this(1,2)]] this(3)
    show ?thesis by simp
  qed
qed

lemma start_validates:
  assumes "valid_vector mt d v" and "fit_index mt d H (db_index db)"
  shows "start_op crc xxh opts (PutIndexedOp ky v) db s = Some (Busy (Validated ky v), db, s)"
  using assms by (auto simp: valid_vector_def fit_index_def index_dim_def)

section \<open>Two writes of one key\<close>

text \<open>C12: Two threads that write vectors to one key can leave store and index in disagreement for good: the
  store keeps the vector of one, the index finds the key by the vector of the other. Neither thread sees
  an error, since store and index are locked one after the other.
\<close>
theorem write_race_splits_index:
  fixes lib :: "'r rng_lib"
  assumes idle: "sys_pool \<sigma> = (\<lambda>_. None)"
    and store: "store_on crc xxh (db_inner (sys_db \<sigma>)) (sys_fs \<sigma>) m N I"
    and ix: "fit_index mt d H (db_index (sys_db \<sigma>))"
    and v: "op_ok mt d W (PutIndexedOp ky v)" and w: "op_ok mt d W (PutIndexedOp ky w)"
    and N: "N + W + W < 2 ^ 62" and I: "I + 4 < 2 ^ 64" and H: "H + 2 < 2 ^ 32"
  shows "\<exists>evs \<sigma>'. sys_run crc xxh opts lib anything evs \<sigma> \<sigma>' \<and>
    (\<forall>(ev, pr) \<in> set evs. \<forall>err. pr \<noteq> Finished (Inl err)) \<and> open_keys (sys_pool \<sigma>') = {} \<and>
    db_get crc xxh ky (sys_db \<sigma>') (sys_fs \<sigma>') = (Inr (Some (encode_vector w)), sys_fs \<sigma>') \<and>
    vi_abs (db_index (sys_db \<sigma>')) ky = preprocess_vector mt v"
proof -
  obtain e s ix where db: "sys_db \<sigma> = \<lparr>db_inner = e, db_index = ix\<rparr>" and s: "sys_fs \<sigma> = s"
    by (cases "sys_db \<sigma>") auto
  have \<sigma>_eq: "\<sigma> = \<lparr>sys_pool = (\<lambda>_. None), sys_db = \<lparr>db_inner = e, db_index = ix\<rparr>, sys_fs = s\<rparr>"
    using idle db s by (cases \<sigma>) simp
  have vv: "valid_key ky" "valid_vector mt d v" "valid_vector mt d w" using v w by simp_all
  have ix0: "fit_index mt d H ix" and st0: "store_on crc xxh e s m N I" using store ix by (simp_all add: \<sigma>_eq)
  have "N + W < 2 ^ 62" "I + 2 < 2 ^ 64" using N I by simp_all
  from store_put_vector [OF st0 v this, of opts] obtain n1 e1 s1 where
    1: "lsm_put_vector crc xxh opts ky (encode_vector v) e s = Some (Inr n1, e1, s1)"
      "store_on crc xxh e1 s1 (m(ky \<mapsto> Vector (encode_vector v))) (N + W) (I + 2)" by blast
  have "I + 2 + 2 < 2 ^ 64" using I by simp
  from store_put_vector [OF 1(2) w N this, of opts] obtain n2 e2 s2 where
    2: "lsm_put_vector crc xxh opts ky (encode_vector w) e1 s1 = Some (Inr n2, e2, s2)"
      "store_on crc xxh e2 s2 (m(ky \<mapsto> Vector (encode_vector w))) (N + W + W) (I + 2 + 2)" by auto
  have "Suc H < 2 ^ 32" "Suc (Suc H) < 2 ^ 32" using H by simp_all
  from index_put_fits [OF ix0 vv(1,3) this(1), of lib] index_put_fits [OF _ vv(1,2) this(2), of _ lib] obtain ix1 ix2 where
    3: "index_put lib ky w ix = (Inr (), ix1)" "index_put lib ky v ix1 = (Inr (), ix2)"
      "vi_abs ix2 = (vi_abs ix1)(ky := preprocess_vector mt v)" by blast
  define evs where "evs = [Start 0 (PutIndexedOp ky v), Start 1 (PutIndexedOp ky w), Resume 0, Resume 1, Resume 1, Resume 0]"
  define rs where "rs = zip evs [Busy (Validated ky v), Busy (Validated ky w), Busy (VectorLogged ky v n1),
    Busy (VectorLogged ky w n2), snapshot_next n2, snapshot_next n1]"
  define \<sigma>' where "\<sigma>' = \<lparr>sys_pool = (\<lambda>_. None)(0 := waiting (snapshot_next n1), 1 := waiting (snapshot_next n2)),
    sys_db = \<lparr>db_inner = e2, db_index = ix2\<rparr>, sys_fs = s2\<rparr>"
  have valid: "start_op crc xxh opts (PutIndexedOp ky u) \<lparr>db_inner = e, db_index = ix\<rparr> s =
      Some (Busy (Validated ky u), \<lparr>db_inner = e, db_index = ix\<rparr>, s)" if "valid_vector mt d u" for u
    using that ix0 by (intro start_validates) simp_all
  have "play crc xxh opts lib evs \<sigma> = Some (rs, \<sigma>')"
    using 1(1) 2(1) 3(1,2) valid [OF vv(2)] valid [OF vv(3)]
    by (simp add: evs_def rs_def \<sigma>_eq \<sigma>'_def lsm_step_def index_step_def fun_upd_twist del: start_op.simps)
  then have "sys_run crc xxh opts lib anything rs \<sigma> \<sigma>'" by (rule play_run)
  moreover have "\<forall>(ev, pr) \<in> set rs. \<forall>err. pr \<noteq> Finished (Inl err)" by (simp add: rs_def evs_def)
  moreover have "open_keys (sys_pool \<sigma>') = {}"
    by (auto simp: open_keys_def \<sigma>'_def dest: waiting_snapshot split: if_splits)
  moreover have "db_get crc xxh ky (sys_db \<sigma>') (sys_fs \<sigma>') = (Inr (Some (encode_vector w)), sys_fs \<sigma>')"
    using store_get [OF 2(2), of ky] by (simp add: db_get_def \<sigma>'_def)
  moreover have "vi_abs (db_index (sys_db \<sigma>')) ky = preprocess_vector mt v" by (simp add: \<sigma>'_def 3(3))
  ultimately show ?thesis by blast
qed

text \<open>A fresh database, for concrete instances.\<close>

lemma fresh_line_db:
  "\<exists>(db :: unit db) s. store_on (\<lambda>_. 7) (\<lambda>_. 9) (db_inner db) s Map.empty 0 0 \<and>
    fit_index EuclideanSquared 1 0 (db_index db) \<and> vi_abs (db_index db) = Map.empty \<and>
    en_memtable (db_inner db) = mt_new \<and> en_levels (db_inner db) = \<lparr>lv_l0 = [], lv_l1 = []\<rparr>"
proof -
  have ps: "fit_params line_params 1" and mt: "hp_metric line_params = EuclideanSquared"
    by (simp_all add: line_params_def default_params_def fit_params_def small_params_def Let_def)
  have fs: "plan empty_fs = []" "names empty_fs = []" by (simp_all add: empty_fs_def)
  from db_open_fresh [OF fs ps mt, of "\<lambda>_. 7" sample_rng "\<lambda>_. 9"] obtain db :: "unit db" and s where
    db: "db_rep (\<lambda>_. 7) (\<lambda>_. 9) EuclideanSquared 1 db s Map.empty {} 0 0 0" and new: "en_memtable (db_inner db) = mt_new"
      "en_levels (db_inner db) = \<lparr>lv_l0 = [], lv_l1 = []\<rparr>" by blast
  from db have "store_on (\<lambda>_. 7) (\<lambda>_. 9) (db_inner db) s Map.empty 0 0"
    unfolding db_rep_def db_on_def store_on_def by auto
  moreover have "vi_abs (db_index db) = Map.empty"
    using db_repD(2) [OF db] by (simp add: agrees_def indexed_def fun_eq_iff)
  ultimately show ?thesis using db_repD(1) [OF db] new by blast
qed

lemma line_vector_ok: "f \<in> {F32_ZERO, F32_ONE} \<Longrightarrow> op_ok EuclideanSquared 1 35 (PutIndexedOp [1] [f])"
  by (auto simp: valid_vector_def valid_key_def valid_value_def MAX_KEY_LEN_def MAX_VALUE_LEN_def
      preprocess_vector_def line_finite entry_bound_def)

theorem write_race_splits_index_witness:
  "\<exists>(db :: unit db) s evs \<sigma>'.
    sys_run (\<lambda>_. 7) (\<lambda>_. 9) small_options sample_rng anything evs \<lparr>sys_pool = (\<lambda>_. None), sys_db = db, sys_fs = s\<rparr> \<sigma>' \<and>
    db_get (\<lambda>_. 7) (\<lambda>_. 9) [1] (sys_db \<sigma>') (sys_fs \<sigma>') = (Inr (Some (encode_vector [F32_ZERO])), sys_fs \<sigma>') \<and>
    vi_abs (db_index (sys_db \<sigma>')) [1] = Some [F32_ONE]"
proof -
  obtain db :: "unit db" and s where db: "store_on (\<lambda>_. 7) (\<lambda>_. 9) (db_inner db) s Map.empty 0 0"
    "fit_index EuclideanSquared 1 0 (db_index db)" using fresh_line_db by blast
  let ?\<sigma> = "\<lparr>sys_pool = (\<lambda>_. None), sys_db = db, sys_fs = s\<rparr>"
  have v: "op_ok EuclideanSquared 1 35 (PutIndexedOp [1] [F32_ONE])"
    "op_ok EuclideanSquared 1 35 (PutIndexedOp [1] [F32_ZERO])" by (rule line_vector_ok, simp)+
  have p: "preprocess_vector EuclideanSquared [F32_ONE] = Some [F32_ONE]" by (simp add: preprocess_vector_def line_finite)
  have "sys_pool ?\<sigma> = (\<lambda>_. None)" "store_on (\<lambda>_. 7) (\<lambda>_. 9) (db_inner (sys_db ?\<sigma>)) (sys_fs ?\<sigma>) Map.empty 0 0"
    "fit_index EuclideanSquared 1 0 (db_index (sys_db ?\<sigma>))" using db by simp_all
  from write_race_splits_index [OF this v, of small_options sample_rng] show ?thesis unfolding p by auto
qed

section \<open>A snapshot between the two steps of a write\<close>

text \<open>The state after the snapshot: the vector is in a table that the snapshot takes for known.\<close>

lemma flush_and_snapshot:
  fixes ix :: "'r vector_index"
  assumes e: "engine_at crc xxh e s ts" and o: "\<not> en_closed e" and some: "\<not> mt_is_empty (en_memtable e)"
    and N: "load (en_memtable e) ts < 2 ^ 62" and I: "unat (en_next_sst_id e) + 2 < 2 ^ 64"
  shows "\<exists>i e' s' s'' ts'. lsm_flush crc xxh opts e s = Some (Inr (Some i), e', s') \<and>
    publish_snapshot i (encode_snapshot crc (vi_hnsw ix) i (vi_key_to_node ix)) s' = (Inr (), s'') \<and>
    engine_at crc xxh e' s'' ts' \<and> \<not> en_closed e' \<and> mt_is_empty (en_memtable e') \<and>
    lsm_ents (en_memtable e') ts' = lsm_ents (en_memtable e) ts \<and> load (en_memtable e') ts' \<le> load (en_memtable e) ts \<and>
    saved_as crc s'' (snapshot_filename i) i ix \<and>
    (\<forall>j. j \<noteq> i \<longrightarrow> bt_get (names s'') (snapshot_filename j) = None) \<and> (\<forall>t \<in> table_ids e'. t < i)"
proof -
  from lsm_flush_empties [OF e N I o, of opts] obtain e' s' ts' where
    f: "lsm_flush crc xxh opts e s = Some (Inr (moved_id e e'), e', s')" "evolves crc xxh 2 e s ts e' s' ts'"
      "mt_is_empty (en_memtable e')" by blast
  let ?i = "en_next_sst_id e'"
  have "?i \<noteq> en_next_sst_id e" using f(2,3) some by (auto simp: evolves_def)
  then have n: "moved_id e e' = Some ?i" by (simp add: moved_id_def)
  have e': "engine_at crc xxh e' s' ts'" using f(2) by (simp add: evolves_def)
  from write_snapshot_ok [OF e', of ?i ix] obtain s'' where
    w: "publish_snapshot ?i (encode_snapshot crc (vi_hnsw ix) ?i (vi_key_to_node ix)) s' = (Inr (), s'')"
      "engine_at crc xxh e' s'' ts'" "saved_as crc s'' (snapshot_filename ?i) ?i ix"
      "\<forall>j. j \<noteq> ?i \<longrightarrow> bt_get (names s'') (snapshot_filename j) = None" unfolding write_snapshot_def by blast
  have "\<forall>t \<in> table_ids e'. t < ?i" by (intro ballI table_ids_less [OF w(2)])
  with f(1,3) f(2) [unfolded evolves_def] n w o show ?thesis
    by (intro exI [of _ ?i] exI [of _ e'] exI [of _ s'] exI [of _ s''] exI [of _ ts']) simp
qed

text \<open>What opening makes of it: the index that was saved, since nothing is newer.\<close>

lemma reopen_saved:
  fixes ix0 :: "'r vector_index" and lib :: "'r rng_lib" and db :: "'r db"
  assumes e: "engine_at crc xxh (db_inner db) s ts" and o: "\<not> en_closed (db_inner db)" and ps: "fit_params ps d"
    and mem: "mt_is_empty (en_memtable (db_inner db))"
    and sv: "saved_as crc s (snapshot_filename i) i ix0" "\<forall>j. j \<noteq> i \<longrightarrow> bt_get (names s) (snapshot_filename j) = None"
      "\<forall>t \<in> table_ids (db_inner db). t < i"
    and ix0: "fit_index mt d H ix0" and H: "H < 2 ^ 32" and fine: "all_fine mt d (lsm_ents (en_memtable (db_inner db)) ts)"
  shows "\<exists>db1 s1 db2. db_close db s = (Inr (), db1, s1) \<and> db_open crc lib ps s1 = Some (Inr db2, s1) \<and>
    vi_abs (db_index db2) = vi_abs ix0 \<and>
    (\<forall>ky. db_get crc xxh ky db2 s1 = (Inr (visible (lsm_ents (en_memtable (db_inner db)) ts ky)), s1))"
proof -
  let ?e = "db_inner db"
  obtain ts0 ts1 rs where on: "engine_on crc xxh ?e s ts0 ts1 rs" and ts: "ts = ts0 @ ts1" using e by (auto simp: engine_at_def)
  obtain s1 where s1: "engine_close ?e s = (Inr (), ?e\<lparr>en_closed := True\<rparr>, s1)"
      "engine_on crc xxh (?e\<lparr>en_closed := True\<rparr>) s1 ts0 ts1 rs" using engine_close_on [OF on o] by blast
  have keeps: "keeps_snapshots s s1" using on s1(1) by (auto simp: engine_on_def intro: engine_close_keeps)
  from open_inner_ok [OF s1(2)] obtain e2 where e2: "open_inner crc s1 = (Inr e2, s1)"
    "engine_on crc xxh e2 s1 ts0 ts1 rs" "en_memtable e2 = en_memtable ?e" "\<not> en_closed e2" by auto
  have at2: "engine_at crc xxh e2 s1 ts" using e2(2) unfolding engine_at_def ts by blast
  have ids: "\<forall>t \<in> table_ids e2. t < i" using table_ids_same [OF s1(2) e2(2)] sv(3) by (simp add: table_ids_def)
  have sv1: "saved_as crc s1 (snapshot_filename i) i ix0" by (rule saved_as_keeps [OF keeps sv(1)])
  have "bt_get (names s1) (snapshot_filename j) = None" if "j \<noteq> i" for j
    using sv(2) keeps that by (simp add: keeps_snapshots_def)
  note found = discover_saved [OF at2 sv1 this]
  have none: "mt_map (en_memtable e2) = []" using mem by (simp add: e2(3) mt_is_empty_def)
  have fine2: "all_fine mt d (lsm_ents (en_memtable e2) (ts0 @ ts1))" using fine by (simp add: e2(3) ts)
  have d: "d < 2 ^ 32" using ps by (simp add: fit_params_def)
  have len: "length (mt_map (en_memtable e2)) \<le> 0" "H + 0 < 2 ^ 32" using none H by simp_all
  from loaded_overlay [OF e2(2) sv1 ix0 d ids len fine2, of lib] obtain ix where
    ix: "load_snapshot_and_apply_delta crc lib e2 (snapshot_filename i) s1 = Some (Inr ix, s1)" "vi_abs ix = vi_abs ix0"
    by (auto simp: none)
  define db2 :: "'r db" where "db2 = \<lparr>db_inner = e2, db_index = ix\<rparr>"
  have "db_open crc lib ps s1 = Some (Inr db2, s1)"
    by (simp add: db_open_def e2(1) recover_vector_index_def found ix(1) db2_def)
  moreover have "db_close db s = (Inr (), db\<lparr>db_inner := ?e\<lparr>en_closed := True\<rparr>\<rparr>, s1)" using s1(1) by (simp add: db_close_def)
  moreover have "store_on crc xxh e2 s1 (lsm_ents (en_memtable ?e) ts) (load (en_memtable e2) ts) (unat (en_next_sst_id e2))"
    using at2 e2(3,4) unfolding store_on_def by auto
  from store_get [OF this] have "db_get crc xxh ky db2 s1 = (Inr (visible (lsm_ents (en_memtable ?e) ts ky)), s1)" for ky
    by (simp add: db_get_def db2_def)
  ultimately show ?thesis using ix(2) by (intro exI conjI) (auto simp: db2_def)
qed

text \<open>C13: A flush by one thread between the two steps of another thread's vector write can lose the vector:
  the flush moves it to a table, the snapshot that follows counts the table as known but does not have the
  vector yet. Both calls succeed, and the running index finds the key. But after a clean close and open the
  lookup still answers the vector and no query finds it.
\<close>
theorem snapshot_race_loses_vector:
  fixes lib :: "'r rng_lib"
  assumes idle: "sys_pool \<sigma> = (\<lambda>_. None)" and e: "engine_at crc xxh (db_inner (sys_db \<sigma>)) (sys_fs \<sigma>) ts"
    and o: "\<not> en_closed (db_inner (sys_db \<sigma>))" and ix: "fit_index mt d H (db_index (sys_db \<sigma>))"
    and fine: "all_fine mt d (lsm_ents (en_memtable (db_inner (sys_db \<sigma>))) ts)"
    and unknown: "vi_abs (db_index (sys_db \<sigma>)) ky = None" and v: "valid_key ky" "valid_vector mt d v"
    and quiet: "approximate_size (mt_put_vector ky (encode_vector v) (en_memtable (db_inner (sys_db \<sigma>))))
        < op_memtable_max_size_bytes opts"
      "length (lv_l0 (en_levels (db_inner (sys_db \<sigma>)))) < op_l0_compaction_trigger opts"
    and N: "load (en_memtable (db_inner (sys_db \<sigma>))) ts + entry_bound ky (Vector (encode_vector v)) < 2 ^ 62"
    and I: "unat (en_next_sst_id (db_inner (sys_db \<sigma>))) + 2 < 2 ^ 64" and H: "Suc H < 2 ^ 32" and ps: "fit_params ps d"
  shows "\<exists>evs \<sigma>'. sys_run crc xxh opts lib anything evs \<sigma> \<sigma>' \<and> sys_pool \<sigma>' = (\<lambda>_. None) \<and>
    (\<forall>(ev, pr) \<in> set evs. \<forall>err. pr \<noteq> Finished (Inl err)) \<and>
    vi_abs (db_index (sys_db \<sigma>')) ky = preprocess_vector mt v \<and>
    (\<exists>db1 s1 db2. db_close (sys_db \<sigma>') (sys_fs \<sigma>') = (Inr (), db1, s1) \<and> db_open crc lib ps s1 = Some (Inr db2, s1) \<and>
       db_get crc xxh ky db2 s1 = (Inr (Some (encode_vector v)), s1) \<and> vi_abs (db_index db2) ky = None)"
proof -
  obtain e s ix where \<sigma>_eq: "\<sigma> = \<lparr>sys_pool = (\<lambda>_. None), sys_db = \<lparr>db_inner = e, db_index = ix\<rparr>, sys_fs = s\<rparr>"
    using idle by (cases \<sigma>, cases "sys_db \<sigma>") simp
  let ?bs = "encode_vector v"
  let ?r = "\<lparr>rec_kind = record_kind.Vector, rec_key = ky, rec_value = ?bs\<rparr>"
  have at: "engine_at crc xxh e s ts" "\<not> en_closed e" and ix0: "fit_index mt d H ix" "vi_abs ix ky = None"
    using e o ix unknown by (simp_all add: \<sigma>_eq)
  from lsm_write_quiet [OF at(1) vector_record_valid [OF v] at(2), of "mt_put_vector ky ?bs" opts] quiet obtain e1 s1 where
    1: "lsm_put_vector crc xxh opts ky ?bs e s = Some (Inr None, e1, s1)" "engine_at crc xxh e1 s1 ts"
      "en_memtable e1 = mt_put_vector ky ?bs (en_memtable e)" "en_next_sst_id e1 = en_next_sst_id e" "\<not> en_closed e1"
    using at(2) by (auto simp: \<sigma>_eq lsm_put_vector_def apply_record_def)
  have mem: "mt_map (en_memtable e1) = bt_insert (mt_map (en_memtable e)) ky (Vector ?bs)"
    using mt_map_apply_record [of ?r "en_memtable e"] by (simp add: 1(3) apply_record_def)
  have "ky \<in> fst ` set (mt_map (en_memtable e1))" by (simp add: mem set_fst_bt_insert)
  then have "\<not> mt_is_empty (en_memtable e1)" by (auto simp: mt_is_empty_def)
  moreover have "load (en_memtable e1) ts < 2 ^ 62" using load_insert [OF mem, of ts] N by (simp add: \<sigma>_eq)
  moreover have "unat (en_next_sst_id e1) + 2 < 2 ^ 64" using I by (simp add: 1(4) \<sigma>_eq)
  ultimately obtain i e2 s2 s3 ts2 where
    2: "lsm_flush crc xxh opts e1 s1 = Some (Inr (Some i), e2, s2)"
      "publish_snapshot i (encode_snapshot crc (vi_hnsw ix) i (vi_key_to_node ix)) s2 = (Inr (), s3)"
      "engine_at crc xxh e2 s3 ts2" "\<not> en_closed e2" "mt_is_empty (en_memtable e2)"
      "lsm_ents (en_memtable e2) ts2 = lsm_ents (en_memtable e1) ts"
      "saved_as crc s3 (snapshot_filename i) i ix" "\<forall>j. j \<noteq> i \<longrightarrow> bt_get (names s3) (snapshot_filename j) = None"
      "\<forall>t \<in> table_ids e2. t < i"
    using flush_and_snapshot [OF 1(2,5), of opts ix] by blast
  from index_put_fits [OF ix0(1) v H, of lib] obtain ix1 where
    3: "index_put lib ky v ix = (Inr (), ix1)" "vi_abs ix1 = (vi_abs ix)(ky := preprocess_vector mt v)" by blast
  define evs where "evs = [Start 0 (PutIndexedOp ky v), Resume 0, Start 1 FlushOp, Resume 1, Resume 1, Resume 0]"
  define rs where "rs = zip evs [Busy (Validated ky v), Busy (VectorLogged ky v None), Busy (SnapshotDue i),
    Busy (SnapshotTaken i (encode_snapshot crc (vi_hnsw ix) i (vi_key_to_node ix))), Finished (Inr ()), Finished (Inr ())]"
  define \<sigma>' where "\<sigma>' = \<lparr>sys_pool = (\<lambda>_ :: nat. None :: phase option), sys_db = \<lparr>db_inner = e2, db_index = ix1\<rparr>, sys_fs = s3\<rparr>"
  have valid: "start_op crc xxh opts (PutIndexedOp ky v) \<lparr>db_inner = e, db_index = ix\<rparr> s =
      Some (Busy (Validated ky v), \<lparr>db_inner = e, db_index = ix\<rparr>, s)"
    using v(2) ix0(1) by (intro start_validates) simp_all
  have "play crc xxh opts lib evs \<sigma> = Some (rs, \<sigma>')"
    using 1(1) 2(1,2) 3(1) valid
    by (simp add: evs_def rs_def \<sigma>_eq \<sigma>'_def lsm_step_def index_step_def snapshot_next_def fun_eq_iff
        del: start_op.simps(2))
  then have "sys_run crc xxh opts lib anything rs \<sigma> \<sigma>'" by (rule play_run)
  moreover have "\<forall>(ev, pr) \<in> set rs. \<forall>err. pr \<noteq> Finished (Inl err)" by (simp add: rs_def evs_def)
  moreover have ents: "lsm_ents (en_memtable e2) ts2 = (lsm_ents (en_memtable e) ts)(ky \<mapsto> Vector ?bs)"
    using lsm_ents_insert [OF mem, of ts] 2(6) by simp
  have "all_fine mt d (lsm_ents (en_memtable e2) ts2)"
    using all_fine_insert [OF _ vector_entry_fine [OF v], of "lsm_ents (en_memtable e) ts"] fine by (simp add: ents \<sigma>_eq)
  moreover have "H < 2 ^ 32" using H by simp
  ultimately show ?thesis
    using reopen_saved [of crc xxh "\<lparr>db_inner = e2, db_index = ix1\<rparr>" s3 ts2 ps d i ix mt H lib] 2(3-5,7-9) ps ix0 3(2) ents
    by (intro exI [of _ rs] exI [of _ \<sigma>']) (auto simp: \<sigma>'_def)
qed

definition roomy_options :: options where
  "roomy_options = \<lparr>op_memtable_max_size_bytes = 1000, op_l0_compaction_trigger = 4, op_bloom_bits_per_key = 10\<rparr>"

theorem snapshot_race_loses_vector_witness:
  "\<exists>(db :: unit db) s evs \<sigma>' db1 s1 db2.
    sys_run (\<lambda>_. 7) (\<lambda>_. 9) roomy_options sample_rng anything evs \<lparr>sys_pool = (\<lambda>_. None), sys_db = db, sys_fs = s\<rparr> \<sigma>' \<and>
    vi_abs (db_index (sys_db \<sigma>')) [1] = Some [F32_ONE] \<and>
    db_close (sys_db \<sigma>') (sys_fs \<sigma>') = (Inr (), db1, s1) \<and>
    db_open (\<lambda>_. 7) sample_rng line_params s1 = Some (Inr db2, s1) \<and> vi_abs (db_index db2) [1] = None"
proof -
  obtain db :: "unit db" and s where db: "store_on (\<lambda>_. 7) (\<lambda>_. 9) (db_inner db) s Map.empty 0 0"
    "fit_index EuclideanSquared 1 0 (db_index db)" "vi_abs (db_index db) = Map.empty"
    "en_memtable (db_inner db) = mt_new" "en_levels (db_inner db) = \<lparr>lv_l0 = [], lv_l1 = []\<rparr>"
    using fresh_line_db by blast
  then obtain ts where ts: "engine_at (\<lambda>_. 7) (\<lambda>_. 9) (db_inner db) s ts" "\<not> en_closed (db_inner db)"
    "lsm_ents (en_memtable (db_inner db)) ts = Map.empty" "load (en_memtable (db_inner db)) ts \<le> 0"
    "unat (en_next_sst_id (db_inner db)) \<le> 0" unfolding store_on_def by auto
  let ?\<sigma> = "\<lparr>sys_pool = (\<lambda>_. None), sys_db = db, sys_fs = s\<rparr>"
  have ps: "fit_params line_params 1"
    by (simp_all add: line_params_def default_params_def fit_params_def small_params_def Let_def)
  have v: "valid_key [1]" "valid_vector EuclideanSquared 1 [F32_ONE]" using line_vector_ok [of F32_ONE] by simp_all
  have p: "preprocess_vector EuclideanSquared [F32_ONE] = Some [F32_ONE]" by (simp add: preprocess_vector_def line_finite)
  have q: "approximate_size (mt_put_vector [1] (encode_vector [F32_ONE]) mt_new) < op_memtable_max_size_bytes roomy_options"
    by (simp add: mt_put_vector_def roomy_options_def approximate_size_def mt_new_def)
  have "sys_pool ?\<sigma> = (\<lambda>_. None)" "engine_at (\<lambda>_. 7) (\<lambda>_. 9) (db_inner (sys_db ?\<sigma>)) (sys_fs ?\<sigma>) ts"
    "\<not> en_closed (db_inner (sys_db ?\<sigma>))" "fit_index EuclideanSquared 1 0 (db_index (sys_db ?\<sigma>))"
    "all_fine EuclideanSquared 1 (lsm_ents (en_memtable (db_inner (sys_db ?\<sigma>))) ts)"
    "vi_abs (db_index (sys_db ?\<sigma>)) [1] = None" using db ts by (simp_all add: all_fine_def)
  from snapshot_race_loses_vector [OF this v _ _ _ _ _ ps, of roomy_options sample_rng] q ts(4,5) db(4,5)
  obtain evs \<sigma>' db1 s1 db2 where
    "sys_run (\<lambda>_. 7) (\<lambda>_. 9) roomy_options sample_rng anything evs ?\<sigma> \<sigma>' \<and>
    vi_abs (db_index (sys_db \<sigma>')) [1] = Some [F32_ONE] \<and>
    db_close (sys_db \<sigma>') (sys_fs \<sigma>') = (Inr (), db1, s1) \<and>
    db_open (\<lambda>_. 7) sample_rng line_params s1 = Some (Inr db2, s1) \<and> vi_abs (db_index db2) [1] = None"
    unfolding p by (auto simp: entry_bound_def roomy_options_def)
  then show ?thesis by (intro exI)
qed

end
