(* ===== verification/Faults.thy ===== *)
theory Faults
  imports History
begin

text \<open>
  Faults and power loss in the middle of an operation. A plan of faults makes any call of the operating
  system fail; since the code returns at the first failure of a write, the state it leaves is the state
  at that call. Followed by a power loss this is a loss of power at any point of the operation. A write
  or a flush that is cut so leaves a directory that opens to the map before or after it, unless it was cut
  in the rotation of the log and left a log shorter than its header.
\<close>

section \<open>Work beside a state\<close>

text \<open>
  \<open>aside N s u\<close>: since \<open>s\<close>, only files that are newer than \<open>s\<close> were written, only the names in \<open>N\<close> changed,
  and the directory was not synced. After a power loss at most these names differ from \<open>s\<close>.
\<close>

named_theorems aside_rules \<open>operations on new files stay aside\<close>

definition aside :: "fname set \<Rightarrow> fs \<Rightarrow> fs \<Rightarrow> bool" where
  "aside N s u \<longleftrightarrow> stable_names u = stable_names s \<and> next_ino s \<le> next_ino u \<and> ksorted (names u) \<and>
     (\<forall>h < next_ino s. content u h = content s h \<and> stable u h = stable s h) \<and>
     (\<forall>p. p \<notin> N \<longrightarrow> bt_get (names u) p = bt_get (names s) p)"

definition calm :: "fs \<Rightarrow> fs" where
  "calm s = s\<lparr>plan := []\<rparr>"

lemma calm_simps [simp]:
  "names (calm s) = names s" "content (calm s) = content s" "stable_names (calm s) = stable_names s"
  "stable (calm s) = stable s" "next_ino (calm s) = next_ino s" "plan (calm s) = []"
  "calm (calm s) = calm s" "calm (s\<lparr>plan := os\<rparr>) = calm s"
  by (simp_all add: calm_def)

lemma calm_id [simp]: "plan s = [] \<Longrightarrow> calm s = s"
  by (cases s) (simp add: calm_def)

lemma aside_refl: "ksorted (names s) \<Longrightarrow> aside N s s"
  by (simp add: aside_def)

lemma aside_calm [simp]: "aside N (calm s) u = aside N s u" "aside N s (calm u) = aside N s u"
  "aside N s (u\<lparr>plan := os\<rparr>) = aside N s u"
  by (simp_all add: aside_def)

lemma aside_mono: "aside N s u \<Longrightarrow> N \<subseteq> M \<Longrightarrow> aside M s u"
  by (auto simp: aside_def)

lemma take_outcome_eq:
  "take_outcome s = (case plan s of [] \<Rightarrow> Good | o1 # _ \<Rightarrow> o1, s\<lparr>plan := tl (plan s)\<rparr>)"
  by (cases s) (simp add: take_outcome.simps split: list.split)

lemmas fault_defs = take_outcome_eq open_append_def open_read_def append_file_def sync_file_def file_len_def
  file_is_empty_def read_at_def sync_dir_def rename_file_def remove_file_def Let_def

lemmas fault_splits = outcome.split_asm option.split_asm if_split_asm prod.split_asm sum.split_asm list.split_asm

lemma open_append_aside [aside_rules]:
  assumes "open_append p u = (r, v)" and "aside N s u" and "p \<in> N"
  shows "aside N s v"
  using assms by (auto simp: fault_defs aside_def bt_get_map_of bt_insert_sorted split: fault_splits)

lemma open_append_fresh:
  assumes "open_append p u = (Inr h, v)" and "aside N s u" and "bt_get (names u) p = None"
  shows "next_ino s \<le> h"
  using assms by (auto simp: fault_defs aside_def split: fault_splits)

lemma append_file_aside [aside_rules]:
  assumes "append_file h bs u = (r, v)" and "aside N s u" and "next_ino s \<le> h"
  shows "aside N s v"
  using assms by (auto simp: fault_defs aside_def split: fault_splits)

lemma sync_file_aside [aside_rules]:
  assumes "sync_file h u = (r, v)" and "aside N s u" and "next_ino s \<le> h"
  shows "aside N s v"
  using assms by (auto simp: fault_defs aside_def split: fault_splits)

lemma file_is_empty_aside [aside_rules]:
  assumes "file_is_empty h u = (r, v)" and "aside N s u"
  shows "aside N s v"
  using assms by (auto simp: fault_defs aside_def split: fault_splits)

lemma rename_file_aside [aside_rules]:
  assumes "rename_file p q u = (r, v)" and "aside N s u" and "p \<in> N" and "q \<in> N"
  shows "aside N s v"
  using assms by (auto simp: fault_defs aside_def bt_get_map_of bt_insert_sorted bt_remove_sorted split: fault_splits)

lemma remove_file_aside [aside_rules]:
  assumes "remove_file p u = (r, v)" and "aside N s u" and "p \<in> N"
  shows "aside N s v"
  using assms by (auto simp: fault_defs aside_def bt_get_map_of bt_remove_sorted split: fault_splits)

lemma sync_dir_failed_aside [aside_rules]:
  assumes "sync_dir u = (Inl err, v)" and "aside N s u"
  shows "aside N s v"
  using assms by (auto simp: fault_defs aside_def split: fault_splits)

section \<open>Success is faultless\<close>

text \<open>An operation that reports success has done what it does when nothing can fail.\<close>

named_theorems calm_rules \<open>successful operations without faults\<close>

lemma basic_calm [calm_rules]:
  "\<not> isl (fst (open_append p s)) \<Longrightarrow> open_append p (calm s) = map_prod id calm (open_append p s)"
  "\<not> isl (fst (append_file h bs s)) \<Longrightarrow> append_file h bs (calm s) = map_prod id calm (append_file h bs s)"
  "\<not> isl (fst (sync_file h s)) \<Longrightarrow> sync_file h (calm s) = map_prod id calm (sync_file h s)"
  "\<not> isl (fst (file_is_empty h s)) \<Longrightarrow> file_is_empty h (calm s) = map_prod id calm (file_is_empty h s)"
  "\<not> isl (fst (rename_file p q s)) \<Longrightarrow> rename_file p q (calm s) = map_prod id calm (rename_file p q s)"
  "\<not> isl (fst (remove_file p s)) \<Longrightarrow> remove_file p (calm s) = map_prod id calm (remove_file p s)"
  "\<not> isl (fst (sync_dir s)) \<Longrightarrow> sync_dir (calm s) = map_prod id calm (sync_dir s)"
  by (auto simp: fault_defs calm_def split: outcome.splits option.splits list.splits)

section \<open>Writing a table\<close>

lemma sst_create_file:
  assumes "sst_create p n b u = (Inr w, v)" and "aside N s u" and "bt_get (names u) p = None"
  shows "next_ino s \<le> sw_file w"
  using assms open_append_fresh [OF _ assms(2,3)] by (auto simp: sst_create_def split: fault_splits)

lemma sst_create_aside [aside_rules]:
  assumes "sst_create p n b u = (r, v)" and "aside N s u" and "p \<in> N"
  shows "aside N s v"
  using assms by (auto simp: sst_create_def split: fault_splits) (blast intro: aside_rules)+

lemma flush_current_block_file: "flush_current_block crc w u = (r, w', v) \<Longrightarrow> sw_file w' = sw_file w"
  by (auto simp: flush_current_block_def Let_def split: fault_splits)

lemma flush_current_block_aside [aside_rules]:
  assumes "flush_current_block crc w u = (r, w', v)" and "aside N s u" and "next_ino s \<le> sw_file w"
  shows "aside N s v"
  using assms by (auto simp: flush_current_block_def Let_def split: fault_splits) (blast intro: aside_rules)+

lemma sst_add_file: "sst_add crc xxh ky e w u = (r, w', v) \<Longrightarrow> sw_file w' = sw_file w"
  by (auto simp: sst_add_def Let_def split: fault_splits dest: flush_current_block_file)

lemma sst_add_aside [aside_rules]:
  assumes "sst_add crc xxh ky e w u = (r, w', v)" and "aside N s u" and "next_ino s \<le> sw_file w"
  shows "aside N s v"
  using assms by (auto simp: sst_add_def Let_def split: fault_splits) (blast intro: aside_rules)+

lemma sst_add_all_aside:
  "sst_add_all crc xxh es w u = (r, w', v) \<Longrightarrow> aside N s u \<Longrightarrow> next_ino s \<le> sw_file w \<Longrightarrow>
    aside N s v \<and> sw_file w' = sw_file w"
proof (induction es arbitrary: w u)
  case Nil
  then show ?case by simp
next
  case (Cons x es)
  obtain ky e where x: "x = (ky, e)" by fastforce
  obtain r1 w1 u1 where add: "sst_add crc xxh ky e w u = (r1, w1, u1)" by (cases "sst_add crc xxh ky e w u") auto
  note 1 = sst_add_aside [OF add Cons.prems(2,3)] sst_add_file [OF add]
  show ?case
  proof (cases r1)
    case (Inl err)
    with 1 add Cons.prems(1) show ?thesis by (simp add: x)
  next
    case (Inr a)
    with add Cons.prems(1) have "sst_add_all crc xxh es w1 u1 = (r, w', v)" by (simp add: x)
    from Cons.IH [OF this 1(1)] 1(2) Cons.prems(3) show ?thesis by simp
  qed
qed

lemma finish_index_aside [aside_rules]:
  assumes "finish_index crc a b w u = (r, v)" and "aside N s u" and "next_ino s \<le> sw_file w"
  shows "aside N s v"
  using assms by (auto simp: finish_index_def Let_def split: fault_splits) (blast intro: aside_rules)+

lemma sst_finish_aside [aside_rules]:
  assumes "sst_finish crc w u = (r, v)" and "aside N s u" and f: "next_ino s \<le> sw_file w"
  shows "aside N s v"
proof -
  obtain r1 w1 u1 where 1: "(if sw_block w \<noteq> [] then flush_current_block crc w u else (Inr (), w, u)) = (r1, w1, u1)"
    by (cases "if sw_block w \<noteq> [] then flush_current_block crc w u else (Inr (), w, u)") auto
  have a: "aside N s u1" "next_ino s \<le> sw_file w1"
    using 1 assms(2) f flush_current_block_aside [of crc w u r1 w1 u1 N s] flush_current_block_file [of crc w u r1 w1 u1]
    by (auto split: fault_splits)
  show ?thesis
  proof (cases "sw_bloom w1")
    case None
    with 1 a assms(1) show ?thesis
      by (auto simp: sst_finish_def split: fault_splits intro: finish_index_aside)
  next
    case (Some bf)
    obtain r2 u2 where 2: "append_file (sw_file w1) (bloom_encode crc bf) u1 = (r2, u2)" by fastforce
    note b = append_file_aside [OF 2 a]
    show ?thesis
    proof (cases r2)
      case (Inl err)
      with 1 2 Some a b assms(1) show ?thesis by (auto simp: sst_finish_def Let_def split: fault_splits)
    next
      case (Inr y)
      show ?thesis
      proof (cases r1)
        case (Inr z)
        with 1 2 Some \<open>r2 = Inr y\<close> assms(1) have "finish_index crc (sw_next_offset w1) (word_of_nat (length (bloom_encode crc bf)))
            (w1\<lparr>sw_next_offset := sw_next_offset w1 + word_of_nat (length (bloom_encode crc bf))\<rparr>) u2 = (r, v)"
          by (simp add: sst_finish_def Let_def)
        from finish_index_aside [OF this b] a(2) show ?thesis by simp
      qed (use 1 a assms(1) in \<open>simp add: sst_finish_def\<close>)
    qed
  qed
qed

lemma write_table_aside [aside_rules]:
  assumes "write_table crc xxh opts tmp m u = (r, v)" and u: "aside N s u" and new: "bt_get (names u) tmp = None"
    and N: "tmp \<in> N"
  shows "aside N s v"
proof -
  obtain r1 u1 where 1: "sst_create tmp (mt_len m) (op_bloom_bits_per_key opts) u = (r1, u1)" by fastforce
  note a1 = sst_create_aside [OF 1 u N]
  show ?thesis
  proof (cases r1)
    case (Inl err)
    with 1 a1 assms(1) show ?thesis by (simp add: write_table_def)
  next
    case (Inr w)
    have f: "next_ino s \<le> sw_file w" using sst_create_file [OF _ u new] 1 Inr by blast
    obtain r2 w2 u2 where 2: "sst_add_all crc xxh (mt_iter m) w u1 = (r2, w2, u2)"
      by (cases "sst_add_all crc xxh (mt_iter m) w u1") auto
    from sst_add_all_aside [OF this a1 f] have a2: "aside N s u2" "next_ino s \<le> sw_file w2" using f by simp_all
    show ?thesis
    proof (cases r2)
      case (Inl err)
      with 1 2 Inr a2 assms(1) show ?thesis by (simp add: write_table_def)
    next
      case (Inr a)
      with 1 2 \<open>r1 = Inr w\<close> assms(1) have "sst_finish crc w2 u2 = (r, v)" by (simp add: write_table_def)
      from sst_finish_aside [OF this a2] show ?thesis .
    qed
  qed
qed

lemma sst_create_calm [calm_rules]:
  "\<not> isl (fst (sst_create p n b s)) \<Longrightarrow> sst_create p n b (calm s) = map_prod id calm (sst_create p n b s)"
  by (cases "sst_create p n b s") (auto simp: sst_create_def calm_rules split: fault_splits)

definition calm_writer :: "('a \<times> 'w \<times> fs) \<Rightarrow> 'a \<times> 'w \<times> fs" where
  "calm_writer = map_prod id (map_prod id calm)"

lemma calm_writer_simp [simp]: "calm_writer (r, w, s) = (r, w, calm s)"
  by (simp add: calm_writer_def)

lemma flush_current_block_calm [calm_rules]:
  "\<not> isl (fst (flush_current_block crc w s)) \<Longrightarrow>
    flush_current_block crc w (calm s) = calm_writer (flush_current_block crc w s)"
  by (cases "flush_current_block crc w s") (auto simp: flush_current_block_def Let_def calm_rules split: fault_splits)

lemma sst_add_calm [calm_rules]:
  "\<not> isl (fst (sst_add crc xxh ky e w s)) \<Longrightarrow> sst_add crc xxh ky e w (calm s) = calm_writer (sst_add crc xxh ky e w s)"
  by (cases "sst_add crc xxh ky e w s") (auto simp: sst_add_def Let_def calm_rules split: fault_splits)

lemma sst_add_all_calm [calm_rules]:
  "\<not> isl (fst (sst_add_all crc xxh es w s)) \<Longrightarrow>
    sst_add_all crc xxh es w (calm s) = calm_writer (sst_add_all crc xxh es w s)"
proof (induction es arbitrary: w s)
  case Nil
  then show ?case by simp
next
  case (Cons x es)
  obtain ky e where x: "x = (ky, e)" by fastforce
  obtain r1 w1 s1 where add: "sst_add crc xxh ky e w s = (r1, w1, s1)" by (cases "sst_add crc xxh ky e w s") auto
  with Cons show ?case by (cases r1) (auto simp: x calm_rules)
qed

lemma finish_index_calm [calm_rules]:
  "\<not> isl (fst (finish_index crc a b w s)) \<Longrightarrow> finish_index crc a b w (calm s) = map_prod id calm (finish_index crc a b w s)"
  by (cases "finish_index crc a b w s") (auto simp: finish_index_def Let_def calm_rules split: fault_splits)

lemma sst_finish_calm [calm_rules]:
  "\<not> isl (fst (sst_finish crc w s)) \<Longrightarrow> sst_finish crc w (calm s) = map_prod id calm (sst_finish crc w s)"
  by (cases "sst_finish crc w s") (auto simp: sst_finish_def Let_def calm_rules split: fault_splits)

lemma write_table_calm [calm_rules]:
  "\<not> isl (fst (write_table crc xxh opts tmp m s)) \<Longrightarrow>
    write_table crc xxh opts tmp m (calm s) = map_prod id calm (write_table crc xxh opts tmp m s)"
  by (cases "write_table crc xxh opts tmp m s") (auto simp: write_table_def calm_rules split: fault_splits)

lemma wal_open_calm [calm_rules]:
  "\<not> isl (fst (wal_open p s)) \<Longrightarrow> wal_open p (calm s) = map_prod id calm (wal_open p s)"
  by (cases "wal_open p s") (auto simp: wal_open_def calm_rules split: fault_splits)

lemma rotate_wal_calm [calm_rules]:
  "\<not> isl (fst (rotate_wal s)) \<Longrightarrow> rotate_wal (calm s) = map_prod id calm (rotate_wal s)"
  by (cases "rotate_wal s") (auto simp: rotate_wal_def calm_rules split: fault_splits)

section \<open>Opening what is left\<close>

text \<open>\<open>recovers t M\<close>: the directory opens, and lookups answer from \<open>M\<close>.\<close>

definition recovers :: "(bytes \<Rightarrow> u32) \<Rightarrow> (bytes \<Rightarrow> 128 word) \<Rightarrow> fs \<Rightarrow> (bytes \<Rightarrow> bytes option) \<Rightarrow> bool" where
  "recovers crc xxh t M \<longleftrightarrow>
     (\<exists>e u. open_inner crc t = (Inr e, u) \<and> (\<forall>ky. engine_get crc xxh ky e u = (Inr (M ky), u)))"

text \<open>
  The one way in which the code fails to: a log shorter than its header, which is refused as corrupt. When
  that file is removed by hand the directory opens.
\<close>

definition short_log :: "(bytes \<Rightarrow> u32) \<Rightarrow> (bytes \<Rightarrow> 128 word) \<Rightarrow> fs \<Rightarrow> (bytes \<Rightarrow> bytes option) \<Rightarrow> bool" where
  "short_log crc xxh t M \<longleftrightarrow>
     (\<exists>h. bt_get (names t) WAL_FILENAME = Some h \<and> length (content t h) < FILE_HEADER_LEN) \<and>
     (\<exists>msg u. open_inner crc t = (Inl (Corruption msg), u)) \<and>
     recovers crc xxh (t\<lparr>names := bt_remove (names t) WAL_FILENAME\<rparr>) M"

text \<open>A temporary file is removed by the scan, wherever it stands among the names.\<close>

lemma discover_scan_append:
  "discover_scan (ps @ qs) f s = (case discover_scan ps f s of (f, s) \<Rightarrow> discover_scan qs f s)"
  by (induction ps f s rule: discover_scan.induct) (auto simp: Let_def split: option.split)

lemma bt_remove_split:
  "ksorted xs \<Longrightarrow> bt_get xs k = Some v \<Longrightarrow> \<exists>ys zs. xs = ys @ (k, v) # zs \<and> bt_remove xs k = ys @ zs"
proof (induction xs)
  case (Cons x xs)
  obtain a w where x: "x = (a, w)" by fastforce
  show ?case
  proof (cases "k = a")
    case True
    with Cons.prems(2) show ?thesis by (intro exI [of _ "[]"] exI [of _ xs]) (simp add: x)
  next
    case False
    with Cons obtain ys zs where "xs = ys @ (k, v) # zs" "bt_remove xs k = ys @ zs" by (auto simp: x)
    with False show ?thesis by (intro exI [of _ "x # ys"] exI [of _ zs]) (simp add: x)
  qed
qed simp

lemma open_inner_leftover:
  assumes t: "plan t = []" "ksorted (names t)" and tmp: "extension tmp = Some ''tmp''"
    and known: "\<And>p. bt_get (names t) p \<noteq> None \<Longrightarrow> p = tmp \<or> known_name p"
  shows "open_inner crc t = open_inner crc (t\<lparr>names := bt_remove (names t) tmp\<rparr>)"
proof (cases "bt_get (names t) tmp")
  case None
  then have "bt_remove (names t) tmp = names t" by (simp add: bt_get_map_of bt_remove_missing)
  then show ?thesis by simp
next
  case (Some h)
  define t' where "t' = t\<lparr>names := bt_remove (names t) tmp\<rparr>"
  obtain xs ys where split: "names t = xs @ (tmp, h) # ys" "bt_remove (names t) tmp = xs @ ys"
    using bt_remove_split [OF t(2) Some] by blast
  have "distinct (map fst (names t))" using t(2) by (rule ksorted_distinct)
  then have "tmp \<notin> fst ` set xs" "tmp \<notin> fst ` set ys" by (auto simp: split)
  moreover have "known_name p" if "p \<in> fst ` set xs \<union> fst ` set ys" "p \<noteq> tmp" for p
    using known [of p] that by (auto simp: split(1) bt_get_map_of map_of_eq_None_iff simp del: map_of_append)
  ultimately have k: "\<forall>p \<in> set (map fst xs). known_name p" "\<forall>p \<in> set (map fst ys). known_name p" by force+
  have rm: "snd (remove_file tmp t) = t'" unfolding t'_def using t(1) by (rule remove_file_state)
  have ns: "map fst (names t) = map fst xs @ tmp # map fst ys" "map fst (names t') = map fst xs @ map fst ys"
    by (simp_all add: t'_def split(2)) (simp add: split(1))
  have "discover_scan (map fst (names t)) f t = discover_scan (map fst (names t')) f t'" for f
    unfolding ns using k by (simp add: discover_scan_append discover_scan_ok tmp rm)
  moreover have plan: "plan t' = []" using t(1) by (simp add: t'_def)
  ultimately have "discover_sstables crc t = discover_sstables crc t'"
    using t(1) by (simp add: discover_sstables_def list_dir_ok)
  then show ?thesis using t(1) plan unfolding t'_def [symmetric] by (simp add: open_inner_def create_dir_all_ok)
qed

lemma engine_get_levels:
  assumes lv: "levels_on crc xxh (en_levels e) i s ts0 ts1" and "plan s = []" and "\<not> en_closed e"
  shows "engine_get crc xxh ky e s = (Inr (lsm_map (en_memtable e) (ts0 @ ts1) ky), s)"
proof -
  have "get_tables crc xxh (lv_l0 (en_levels e)) ky s = (Inr (sst_lookup_of (map_of (concat ts0) ky)), s)"
    "get_tables crc xxh (lv_l1 (en_levels e)) ky s = (Inr (sst_lookup_of (map_of (concat ts1) ky)), s)"
    using assms by (auto simp: levels_on_def intro: get_tables_ok)
  moreover obtain x y z where "map_of (mt_map (en_memtable e)) ky = x" "map_of (concat ts0) ky = y"
    "map_of (concat ts1) ky = z" by blast
  ultimately show ?thesis
    using assms(3)
    by (cases x rule: visible.cases; cases y rule: visible.cases; cases z rule: visible.cases)
       (simp_all add: engine_get_def mt_get_abs mt_abs_def lsm_map_def map_add_def)
qed

text \<open>Opening needs the tables, and a log that replays.\<close>

lemma open_inner_replay:
  assumes s: "plan s = []" "fs_ok s" "dir_ok lv s" "levels_on crc xxh lv i s ts0 ts1"
    and log: "bt_get (names s) WAL_FILENAME = Some h" "content s h \<noteq> []"
      "replay_wal crc WAL_FILENAME mt_new s = (Inr (), m, s)"
  shows "\<exists>e. open_inner crc s = (Inr e, s) \<and> en_memtable e = m \<and> \<not> en_closed e \<and>
    (\<forall>ky. engine_get crc xxh ky e s = (Inr (lsm_map m (ts0 @ ts1) ky), s))"
proof -
  obtain lv' i' where disc: "discover_sstables crc s = (Inr (lv', i'), s)" "levels_on crc xxh lv' i' s ts0 ts1"
    using discover_ok [OF s] by blast
  have "WAL_FILENAME \<in> set (map fst (names s))" using log(1) unfolding name_present by simp
  then have "wal_file_exists s = (Inr True, s)" using s(1) by (simp add: wal_file_exists_def list_dir_ok)
  moreover have "wal_open WAL_FILENAME s = (Inr \<lparr>w_file = h, w_scratch = []\<rparr>, s)"
    by (rule wal_open_old [OF s(1) log(1,2)])
  ultimately have "open_inner crc s = (Inr \<lparr>en_writer = \<lparr>w_file = h, w_scratch = []\<rparr>, en_memtable = m, en_levels = lv',
      en_next_sst_id = i', en_closed = False\<rparr>, s)"
    using s(1) disc(1) log(3) by (simp add: open_inner_def create_dir_all_ok)
  then show ?thesis using engine_get_levels [of crc xxh _ i' s ts0 ts1] disc(2) s(1) by simp
qed

lemma open_inner_no_log:
  assumes s: "plan s = []" "fs_ok s" "dir_ok lv s" "levels_on crc xxh lv i s ts0 ts1"
    and log: "bt_get (names s) WAL_FILENAME = None"
  shows "recovers crc xxh s (lsm_map mt_new (ts0 @ ts1))"
proof -
  obtain lv' i' where disc: "discover_sstables crc s = (Inr (lv', i'), s)" "levels_on crc xxh lv' i' s ts0 ts1"
    using discover_ok [OF s] by blast
  have "wal_file_exists s = (Inr False, s)"
    using s(1) log name_present [of WAL_FILENAME s] by (simp add: wal_file_exists_def list_dir_ok del: set_map)
  moreover define s' where "s' = s\<lparr>names := bt_insert (names s) WAL_FILENAME (next_ino s),
       content := (content s)(next_ino s := wal_header), stable := (stable s)(next_ino s := wal_header),
       stable_names := bt_insert (names s) WAL_FILENAME (next_ino s), next_ino := Suc (next_ino s)\<rparr>"
  have "wal_open WAL_FILENAME s = (Inr \<lparr>w_file = next_ino s, w_scratch = []\<rparr>, s')"
    unfolding s'_def by (rule wal_open_new [OF s(1) log])
  ultimately have "open_inner crc s = (Inr \<lparr>en_writer = \<lparr>w_file = next_ino s, w_scratch = []\<rparr>, en_memtable = mt_new,
      en_levels = lv', en_next_sst_id = i', en_closed = False\<rparr>, s')"
    using s(1) disc(1) by (simp add: open_inner_def create_dir_all_ok)
  moreover have "keeps_tables s s'"
    using s(2) by (auto simp: keeps_tables_def s'_def bt_get_map_of dest: fs_ok_names_less [unfolded bt_get_map_of])
  then have "levels_on crc xxh lv' i' s' ts0 ts1" using disc(2) by (rule levels_on_frame)
  moreover have "plan s' = []" using s(1) by (simp add: s'_def)
  ultimately show ?thesis using engine_get_levels [of crc xxh _ i' s' ts0 ts1] by (simp add: recovers_def)
qed

lemma open_inner_short:
  assumes s: "plan s = []" "fs_ok s" "dir_ok lv s" "levels_on crc xxh lv i s ts0 ts1"
    and log: "bt_get (names s) WAL_FILENAME = Some h" "length (content s h) < FILE_HEADER_LEN"
  shows "\<exists>msg. open_inner crc s = (Inl (Corruption msg), s)"
proof -
  obtain lv' i' where disc: "discover_sstables crc s = (Inr (lv', i'), s)" using discover_ok [OF s] by blast
  have "WAL_FILENAME \<in> set (map fst (names s))" using log(1) unfolding name_present by simp
  then have "wal_file_exists s = (Inr True, s)" using s(1) by (simp add: wal_file_exists_def list_dir_ok)
  moreover have "\<exists>msg. wal_reader_open WAL_FILENAME s = (Inl (Corruption msg), s)"
    using s(1) log by (simp add: wal_reader_open_def open_read_old file_len_ok)
  then obtain msg where "replay_wal crc WAL_FILENAME mt_new s = (Inl (Corruption msg), mt_new, s)"
    by (auto simp: replay_wal_def)
  ultimately show ?thesis using s(1) disc by (simp add: open_inner_def create_dir_all_ok)
qed

text \<open>
  \<open>leaves tmp s t\<close>: the tables of \<open>s\<close> are in \<open>t\<close>, and nothing else but the log, snapshots and perhaps
  a temporary file.
\<close>

definition leaves :: "fname \<Rightarrow> fs \<Rightarrow> fs \<Rightarrow> bool" where
  "leaves tmp s t \<longleftrightarrow> plan t = [] \<and> fs_ok t \<and> extension tmp = Some ''tmp'' \<and> bt_get (names s) tmp = None \<and>
     (\<forall>p. p \<notin> range snapshot_filename \<longrightarrow> p \<noteq> WAL_FILENAME \<longrightarrow> p \<noteq> tmp \<longrightarrow> bt_get (names t) p = bt_get (names s) p) \<and>
     (\<forall>p h. bt_get (names s) p = Some h \<longrightarrow> p \<notin> range snapshot_filename \<longrightarrow> p \<noteq> WAL_FILENAME \<longrightarrow>
        content t h = content s h)"

lemma leaves_clean:
  assumes e: "engine_on crc xxh e s ts0 ts1 rs" and t: "leaves tmp s t"
  defines "t' \<equiv> t\<lparr>names := bt_remove (names t) tmp\<rparr>"
  shows "open_inner crc t = open_inner crc t'"
    and "plan t' = []" "fs_ok t'" "dir_ok (en_levels e) t'" "levels_on crc xxh (en_levels e) (en_next_sst_id e) t' ts0 ts1"
    and "bt_get (names t') WAL_FILENAME = bt_get (names t) WAL_FILENAME"
proof -
  have dir: "dir_ok (en_levels e) s" and lv: "levels_on crc xxh (en_levels e) (en_next_sst_id e) s ts0 ts1"
    using e by (simp_all add: engine_on_def)
  have st: "plan t = []" "fs_ok t" "extension tmp = Some ''tmp''" and none: "bt_get (names s) tmp = None"
    and names: "p \<notin> range snapshot_filename \<Longrightarrow> p \<noteq> WAL_FILENAME \<Longrightarrow> p \<noteq> tmp \<Longrightarrow> bt_get (names t) p = bt_get (names s) p"
    and cont: "bt_get (names s) p = Some h \<Longrightarrow> p \<notin> range snapshot_filename \<Longrightarrow> p \<noteq> WAL_FILENAME \<Longrightarrow> content t h = content s h"
    for p h using t by (auto simp: leaves_def)
  have get: "bt_get (names t') p = (if p = tmp then None else bt_get (names t) p)" for p
    using fs_ok_sorted [OF st(2)] by (simp add: t'_def bt_get_map_of)
  have wal: "WAL_FILENAME \<noteq> tmp" using st(3) extension_wal by auto
  show "bt_get (names t') WAL_FILENAME = bt_get (names t) WAL_FILENAME" using wal by (simp add: get)
  show "plan t' = []" using st(1) by (simp add: t'_def)
  show "fs_ok t'" by (rule fs_ok_remove [OF st(2), of t' tmp]) (simp_all add: t'_def)
  have snap: "sst_filename l i \<notin> range snapshot_filename" "sst_filename l i \<noteq> WAL_FILENAME" for l i by auto
  have "keeps_tables s t'"
    unfolding keeps_tables_def
  proof (intro allI impI conjI)
    fix l i h
    assume g: "bt_get (names s) (sst_filename l i) = Some h"
    then have "sst_filename l i \<noteq> tmp" using none by auto
    with g names [OF snap] show "bt_get (names t') (sst_filename l i) = Some h" by (simp add: get)
    show "content t' h = content s h" using cont [OF g snap] by (simp add: t'_def)
  qed
  then show "levels_on crc xxh (en_levels e) (en_next_sst_id e) t' ts0 ts1" using lv by (rule levels_on_frame)
  show dir': "dir_ok (en_levels e) t'"
    using dir names unfolding dir_ok_def get by metis
  have "p = tmp \<or> known_name p" if "bt_get (names t) p \<noteq> None" for p
    using dir_ok_known [OF dir', of p] that name_present [of p t'] by (cases "p = tmp") (simp_all add: get del: set_map)
  then show "open_inner crc t = open_inner crc t'"
    unfolding t'_def using st by (intro open_inner_leftover fs_ok_sorted)
qed

text \<open>With a log the records of the log count, with none the tables do, and a short one is refused.\<close>

lemma leaves_log:
  assumes e: "engine_on crc xxh e s ts0 ts1 rs" and t: "leaves tmp s t"
    and log: "bt_get (names t) WAL_FILENAME = Some h" "content t h = log_bytes crc rs'" "\<forall>r \<in> set rs'. valid_record r"
  shows "recovers crc xxh t (lsm_map (replay_all rs' mt_new) (ts0 @ ts1))"
proof -
  note c = leaves_clean [OF e t]
  let ?t = "t\<lparr>names := bt_remove (names t) tmp\<rparr>"
  have w: "bt_get (names ?t) WAL_FILENAME = Some h" "content ?t h = log_bytes crc rs'" using c(6) log by simp_all
  have "content ?t h \<noteq> []" unfolding w(2) by (simp add: log_bytes_def)
  from open_inner_replay [OF c(2-5) w(1) this replay_wal_log [OF c(2) w log(3)]] show ?thesis
    unfolding recovers_def c(1) by blast
qed

lemma leaves_torn_log:
  assumes e: "engine_on crc xxh e s ts0 ts1 rs" and t: "leaves tmp s t"
    and log: "bt_get (names t) WAL_FILENAME = Some h" "content t h = log_bytes crc rs' @ take k (frame crc r)"
      "\<forall>r \<in> set rs'. valid_record r" "valid_record r" "k < length (frame crc r)"
  shows "recovers crc xxh t (lsm_map (replay_all rs' mt_new) (ts0 @ ts1))"
proof -
  note c = leaves_clean [OF e t]
  let ?t = "t\<lparr>names := bt_remove (names t) tmp\<rparr>"
  have w: "bt_get (names ?t) WAL_FILENAME = Some h"
    "content ?t h = wal_header @ concat (map (frame crc) rs') @ take k (frame crc r)"
    using c(6) log by (simp_all add: log_bytes_def)
  have "replay_wal crc WAL_FILENAME mt_new ?t = (Inr (), replay_all rs' mt_new, ?t)"
    using replay_wal_parse [OF c(2) w, of crc mt_new] parse_log_complete [OF log(3-5)] by simp
  moreover have "content ?t h \<noteq> []" unfolding w(2) by simp
  ultimately show ?thesis using open_inner_replay [OF c(2-5) w(1)] unfolding recovers_def c(1) by blast
qed

lemma leaves_no_log:
  assumes e: "engine_on crc xxh e s ts0 ts1 rs" and t: "leaves tmp s t" and log: "bt_get (names t) WAL_FILENAME = None"
  shows "recovers crc xxh t (lsm_map mt_new (ts0 @ ts1))"
proof -
  note c = leaves_clean [OF e t]
  have "bt_get (names (t\<lparr>names := bt_remove (names t) tmp\<rparr>)) WAL_FILENAME = None" using c(6) log by simp
  from open_inner_no_log [OF c(2-5) this] show ?thesis unfolding recovers_def c(1) .
qed

lemma leaves_short_log:
  assumes e: "engine_on crc xxh e s ts0 ts1 rs" and t: "leaves tmp s t"
    and log: "bt_get (names t) WAL_FILENAME = Some h" "length (content t h) < FILE_HEADER_LEN"
  shows "short_log crc xxh t (lsm_map mt_new (ts0 @ ts1))"
proof -
  note c = leaves_clean [OF e t]
  let ?u = "t\<lparr>names := bt_remove (names t) WAL_FILENAME\<rparr>"
  have w: "bt_get (names (t\<lparr>names := bt_remove (names t) tmp\<rparr>)) WAL_FILENAME = Some h" using c(6) log(1) by simp
  have "\<exists>msg u. open_inner crc t = (Inl (Corruption msg), u)"
    using open_inner_short [OF c(2-5) w] log(2) unfolding c(1) by auto
  moreover have get: "bt_get (names ?u) p = (if p = WAL_FILENAME then None else bt_get (names t) p)" for p
    using t by (simp add: leaves_def bt_get_map_of fs_ok_sorted)
  have "fs_ok ?u" using t by (intro fs_ok_remove [of t ?u WAL_FILENAME]) (simp_all add: leaves_def)
  then have "leaves tmp s ?u" using t unfolding leaves_def get by simp
  from leaves_no_log [OF e this] get have "recovers crc xxh ?u (lsm_map mt_new (ts0 @ ts1))" by simp
  ultimately show ?thesis using log unfolding short_log_def by blast
qed

section \<open>A flush that is cut\<close>

lemma crashed_calm [simp]: "crashed (calm u) t = crashed u t"
  by (simp add: crashed_def)

text \<open>
  \<open>survives failed u M\<close>: some power loss in \<open>u\<close> is possible, and whatever it leaves recovers to \<open>M\<close>, or else
  the operation had failed and left a short log.
\<close>

definition survives :: "(bytes \<Rightarrow> u32) \<Rightarrow> (bytes \<Rightarrow> 128 word) \<Rightarrow> bool \<Rightarrow> fs \<Rightarrow> (bytes \<Rightarrow> bytes option) \<Rightarrow> bool" where
  "survives crc xxh failed u M \<longleftrightarrow> fs_ok (u\<lparr>names := stable_names u\<rparr>) \<and>
     (\<forall>t. crashed u t \<longrightarrow> recovers crc xxh t M \<or> failed \<and> short_log crc xxh t M)"

lemma survives_calm [simp]: "survives crc xxh failed (calm u) M = survives crc xxh failed u M"
  by (simp add: survives_def fs_ok_def)

lemma lsm_map_twice: "lsm_map m (mt_map m # ts) = lsm_map m ts"
  by (auto simp: lsm_map_def map_add_def fun_eq_iff split: option.split)

lemma aside_stable:
  assumes "durable s" and "aside N s u"
  shows "fs_ok (u\<lparr>names := stable_names u\<rparr>)"
proof -
  have "fs_ok (s\<lparr>names := stable_names s\<rparr>)" using assms(1) by (simp add: durable_def)
  moreover have "stable_names u = stable_names s" "next_ino s \<le> next_ino u" using assms(2) by (simp_all add: aside_def)
  ultimately show ?thesis by (fastforce simp: fs_ok_def)
qed

lemma engine_on_opens:
  assumes "engine_on crc xxh e t ts0 ts1 rs"
  shows "recovers crc xxh t (lsm_map (en_memtable e) (ts0 @ ts1))"
proof -
  from open_inner_ok [OF assms] obtain e2 where "open_inner crc t = (Inr e2, t)" "engine_on crc xxh e2 t ts0 ts1 rs"
    "en_memtable e2 = en_memtable e" "\<not> en_closed e2" by blast
  with engine_get_ok [of crc xxh e2 t ts0 ts1 rs] show ?thesis unfolding recovers_def by auto
qed

lemma survives_on:
  assumes "engine_on crc xxh e s ts0 ts1 rs"
  shows "survives crc xxh failed s (lsm_map (en_memtable e) (ts0 @ ts1))"
  unfolding survives_def
proof (intro conjI allI impI disjI1)
  show "fs_ok (s\<lparr>names := stable_names s\<rparr>)" using assms by (simp add: engine_on_def durable_def)
  show "recovers crc xxh t (lsm_map (en_memtable e) (ts0 @ ts1))" if "crashed s t" for t
    by (rule engine_on_opens [OF crashed_on [OF assms that]])
qed

lemma aside_leaves:
  assumes e: "engine_on crc xxh e s ts0 ts1 rs" and u: "aside N s u" "N \<subseteq> {tmp, WAL_FILENAME}" and c: "crashed u t"
    and tmp: "extension tmp = Some ''tmp''" "bt_get (names s) tmp = None"
  shows "leaves tmp s t"
    and "bt_get (names s) p = Some h \<Longrightarrow> content t h = content s h"
    and "bt_get (names t) WAL_FILENAME = bt_get (names s) WAL_FILENAME \<or>
      bt_get (names t) WAL_FILENAME = bt_get (names u) WAL_FILENAME"
proof -
  have d: "durable s" and ok: "fs_ok s" using e by (simp_all add: engine_on_def)
  have names: "bt_get (names t) p = bt_get (stable_names s) p \<or> bt_get (names t) p = bt_get (names u) p" for p
    using c u by (simp add: crashed_def aside_def)
  have st: "bt_get (stable_names s) p = bt_get (names s) p" if "p \<notin> range snapshot_filename" for p
    using d that by (simp add: durable_def)
  show cont: "content t h = content s h" if "bt_get (names s) p = Some h" for p h
  proof -
    have "h < next_ino s" using fs_ok_names_less [OF ok that] .
    then have "content u h = content s h" "stable u h = content s h" using u d that by (simp_all add: aside_def durable_def)
    then show ?thesis using crashed_content [OF c, of h] by simp
  qed
  have "bt_get (names t) p = bt_get (names s) p"
    if "p \<notin> range snapshot_filename" "p \<noteq> WAL_FILENAME" "p \<noteq> tmp" for p
  proof -
    have "bt_get (names u) p = bt_get (names s) p" using u that by (auto simp: aside_def)
    then show ?thesis using names [of p] st [OF that(1)] by simp
  qed
  then show "leaves tmp s t" using c tmp cont unfolding leaves_def crashed_def by blast
  have "WAL_FILENAME \<notin> range snapshot_filename" by auto
  then show "bt_get (names t) WAL_FILENAME = bt_get (names s) WAL_FILENAME \<or>
      bt_get (names t) WAL_FILENAME = bt_get (names u) WAL_FILENAME"
    using names [of WAL_FILENAME] st [of WAL_FILENAME] by simp
qed

text \<open>While the table is written the log has everything.\<close>

lemma survives_before:
  assumes e: "engine_on crc xxh e s ts0 ts1 rs" and u: "aside {tmp} s u"
    and tmp: "extension tmp = Some ''tmp''" "bt_get (names s) tmp = None"
  shows "survives crc xxh failed u (lsm_map (en_memtable e) (ts0 @ ts1))"
  unfolding survives_def
proof (intro conjI allI impI disjI1)
  show "fs_ok (u\<lparr>names := stable_names u\<rparr>)" using e u by (intro aside_stable) (simp_all add: engine_on_def)
  fix t
  assume c: "crashed u t"
  have wal: "bt_get (names s) WAL_FILENAME = Some (w_file (en_writer e))" "content s (w_file (en_writer e)) = log_bytes crc rs"
    "\<forall>r \<in> set rs. valid_record r" and mem: "en_memtable e = replay_all rs mt_new"
    using e by (simp_all add: engine_on_def wal_on_def)
  note l = aside_leaves [OF e u _ c tmp]
  have "WAL_FILENAME \<noteq> tmp" using tmp(1) extension_wal by auto
  then have "bt_get (names u) WAL_FILENAME = bt_get (names s) WAL_FILENAME" using u by (simp add: aside_def)
  with l(3) wal(1) have "bt_get (names t) WAL_FILENAME = Some (w_file (en_writer e))" by auto
  from leaves_log [OF e l(1) this] l(2) [OF _ wal(1)] wal(2,3) show "recovers crc xxh t (lsm_map (en_memtable e) (ts0 @ ts1))"
    by (simp add: mem)
qed

lemma sst_open_reads: "sst_open crc p u = (r, v) \<Longrightarrow> calm v = calm u"
  by (auto simp: sst_open_def open_with_footer_def read_vec_def fault_defs split: fault_splits)

text \<open>
  Between the rename of the table and the sync of the directory the table may be there or not: it is complete,
  and the log still has everything.
\<close>

lemma survives_renamed:
  assumes e: "engine_on crc xxh e s ts0 ts1 rs" and e2: "engine_on crc xxh e2 s2 (ts # ts0) ts1 rs"
    and mem: "en_memtable e2 = en_memtable e" "ts = mt_map (en_memtable e)"
    and u: "aside {tmp, path} s u" "names s2 = names u" "content s2 = content u" "stable s2 = stable u"
    and tmp: "extension tmp = Some ''tmp''" "bt_get (names s) tmp = None" "bt_get (names s2) tmp = None"
    and path: "bt_get (names s) path = None" "path \<notin> range snapshot_filename" "path \<noteq> WAL_FILENAME"
  shows "survives crc xxh failed u (lsm_map (en_memtable e) (ts0 @ ts1))"
  unfolding survives_def
proof (intro conjI allI impI disjI1)
  show "fs_ok (u\<lparr>names := stable_names u\<rparr>)" using e u(1) by (intro aside_stable) (simp_all add: engine_on_def)
  fix t
  assume c: "crashed u t"
  have d: "durable s" "durable s2" and ok: "fs_ok s" using e e2 by (simp_all add: engine_on_def)
  have names: "bt_get (names t) p = bt_get (names s) p \<or> bt_get (names t) p = bt_get (names s2) p"
    if "p \<notin> range snapshot_filename" for p
  proof -
    have "bt_get (names t) p = bt_get (stable_names u) p \<or> bt_get (names t) p = bt_get (names u) p"
      using c by (simp add: crashed_def)
    moreover have "stable_names u = stable_names s" using u(1) by (simp add: aside_def)
    moreover have "bt_get (stable_names s) p = bt_get (names s) p" using d(1) that by (simp add: durable_def)
    ultimately show ?thesis using u(2) by simp
  qed
  have same: "bt_get (names s2) p = bt_get (names s) p" if "p \<noteq> tmp" "p \<noteq> path" for p
    using u(1,2) that by (simp add: aside_def)
  have cont: "content t h = content s2 h" if "bt_get (names s2) p = Some h" for p h
    using crashed_content [OF c, of h] d(2) that u(3,4) by (simp add: durable_def)
  have old: "content t h = content s h" if "bt_get (names s) p = Some h" for p h
  proof -
    have "h < next_ino s" using fs_ok_names_less [OF ok that] .
    then have "content u h = content s h" "stable u h = content s h" using u(1) d(1) that by (simp_all add: aside_def durable_def)
    then show ?thesis using crashed_content [OF c, of h] by simp
  qed
  have wal: "bt_get (names s) WAL_FILENAME = Some (w_file (en_writer e))" "content s (w_file (en_writer e)) = log_bytes crc rs"
    "\<forall>r \<in> set rs. valid_record r" and replay: "en_memtable e = replay_all rs mt_new"
    using e by (simp_all add: engine_on_def wal_on_def)
  have "WAL_FILENAME \<noteq> tmp" using tmp(1) extension_wal by auto
  moreover have "WAL_FILENAME \<notin> range snapshot_filename" by auto
  ultimately have w: "bt_get (names t) WAL_FILENAME = Some (w_file (en_writer e))"
    "content t (w_file (en_writer e)) = log_bytes crc rs"
    using names [of WAL_FILENAME] same [of WAL_FILENAME] path(3) wal(1,2) old [OF wal(1)] by auto
  show "recovers crc xxh t (lsm_map (en_memtable e) (ts0 @ ts1))"
  proof (cases "bt_get (names t) path = bt_get (names s2) path")
    case True
    have "bt_get (names t) p = bt_get (names s2) p" if "p \<notin> range snapshot_filename" "p \<noteq> tmp" for p
      using that names [of p] same [of p] True by (cases "p = path") auto
    then have "leaves tmp s2 t" using c tmp(1,3) cont unfolding leaves_def crashed_def by blast
    from leaves_log [OF e2 this w wal(3)] show ?thesis using lsm_map_twice [of "en_memtable e" "ts0 @ ts1"]
      by (simp add: mem(2)) (simp add: replay)
  next
    case False
    then have "bt_get (names t) p = bt_get (names s) p" if "p \<notin> range snapshot_filename" "p \<noteq> tmp" for p
      using that names [of p] same [of p] by (cases "p = path") auto
    then have "leaves tmp s t" using c tmp(1,2) old unfolding leaves_def crashed_def by blast
    from leaves_log [OF e this w wal(3)] show ?thesis by (simp add: replay)
  qed
qed

text \<open>A rotation that fails leaves the old log, none, or a new one with a part of its header.\<close>

lemma rotate_wal_failed:
  assumes run: "rotate_wal u = (Inl err, v)" and u: "aside {} s u"
  shows "aside {WAL_FILENAME} s v \<and> (bt_get (names v) WAL_FILENAME = bt_get (names s) WAL_FILENAME \<or>
    bt_get (names v) WAL_FILENAME = None \<or>
    (\<exists>h n. bt_get (names v) WAL_FILENAME = Some h \<and> content v h = take n wal_header))"
proof -
  let ?N = "{WAL_FILENAME}"
  have a0: "aside ?N s u" using u by (rule aside_mono) simp
  obtain r1 u1 where 1: "remove_file WAL_FILENAME u = (r1, u1)" by fastforce
  note a1 = remove_file_aside [OF 1 a0, simplified]
  show ?thesis
  proof (cases r1)
    case (Inl err')
    then have "names u1 = names u" using 1 by (auto simp: fault_defs split: fault_splits)
    with 1 Inl a1 run u show ?thesis by (simp add: rotate_wal_def aside_def)
  next
    case (Inr x)
    with 1 run have wo: "wal_open WAL_FILENAME u1 = (Inl err, v)" by (simp add: rotate_wal_def)
    have "ksorted (names u)" using u by (simp add: aside_def)
    then have none: "bt_get (names u1) WAL_FILENAME = None"
      using 1 Inr by (auto simp: fault_defs bt_get_map_of split: fault_splits)
    obtain r2 u2 where 2: "open_append WAL_FILENAME u1 = (r2, u2)" by fastforce
    note a2 = open_append_aside [OF 2 a1, simplified]
    show ?thesis
    proof (cases r2)
      case (Inl err')
      then have "names u2 = names u1" using 2 none by (auto simp: fault_defs split: fault_splits)
      with 2 Inl a2 none wo show ?thesis by (simp add: wal_open_def)
    next
      case (Inr h)
      have h: "next_ino s \<le> h" using open_append_fresh [OF _ a1 none] 2 Inr by blast
      have n2: "bt_get (names u2) WAL_FILENAME = Some h \<and> content u2 h = []"
        using 2 Inr none by (auto simp: fault_defs bt_get_map_of split: fault_splits)
      obtain r3 u3 where 3: "file_is_empty h u2 = (r3, u3)" by fastforce
      note a3 = file_is_empty_aside [OF 3 a2]
      have n3: "names u3 = names u2" "content u3 = content u2" using 3 by (auto simp: fault_defs split: fault_splits)
      obtain r4 u4 where 4: "append_file h (WAL_MAGIC @ u32_to_le FORMAT_VERSION) u3 = (r4, u4)" by fastforce
      note a4 = append_file_aside [OF 4 a3 h]
      have n4: "names u4 = names u2" "\<exists>n. content u4 h = take n wal_header"
        using 4 n2 n3 by (auto simp: fault_defs wal_header_def split: fault_splits intro: exI [of _ "length wal_header"])
      obtain r5 u5 where 5: "sync_file h u4 = (r5, u5)" by fastforce
      note a5 = sync_file_aside [OF 5 a4 h]
      have n5: "names u5 = names u2" "\<exists>n. content u5 h = take n wal_header"
        using 5 n4 by (auto simp: fault_defs split: fault_splits)
      obtain r6 u6 where 6: "sync_dir u5 = (r6, u6)" by fastforce
      have a6: "aside ?N s u6" if "r6 = Inl e" for e using sync_dir_failed_aside [of u5 e u6 ?N s] 6 a5 that by simp
      have n6: "names u6 = names u2" "\<exists>n. content u6 h = take n wal_header"
        using 6 n5 by (auto simp: fault_defs split: fault_splits)
      have n3': "\<exists>n. content u3 h = take n wal_header" using n2 n3(2) by (intro exI [of _ 0]) simp
      from wo 2 Inr 3 4 5 6 consider "v = u3" | "v = u4" | "v = u5" | "v = u6" "r6 = Inl err"
        by (auto simp: wal_open_def split: sum.split_asm if_split_asm)
      then show ?thesis using a3 a4 a5 a6 n2 n3(1) n3' n4 n5 n6 by cases auto
    qed
  qed
qed

lemma take_take_prefix: "\<exists>k. take n (take j xs) = take k xs"
  by (intro exI [of _ "min n j"]) simp

lemma survives_rotating:
  assumes e: "engine_on crc xxh e s (mt_map (en_memtable e) # ts0) ts1 rs" and run: "rotate_wal u = (Inl err, v)"
    and u: "aside {} s u" and tmp: "extension tmp = Some ''tmp''" "bt_get (names s) tmp = None"
  shows "survives crc xxh True v (lsm_map (en_memtable e) (ts0 @ ts1))"
  unfolding survives_def
proof (intro conjI allI impI)
  note rot = rotate_wal_failed [OF run u]
  then show "fs_ok (v\<lparr>names := stable_names v\<rparr>)" using e by (intro aside_stable [of s]) (auto simp: engine_on_def)
  fix t
  assume c: "crashed v t"
  let ?f = "w_file (en_writer e)" and ?m = "mt_map (en_memtable e)"
  have wal: "bt_get (names s) WAL_FILENAME = Some ?f" "content s ?f = log_bytes crc rs"
    "\<forall>r \<in> set rs. valid_record r" and mem: "en_memtable e = replay_all rs mt_new"
    using e by (simp_all add: engine_on_def wal_on_def)
  note l = aside_leaves [OF e conjunct1 [OF rot] _ c tmp]
  have same: "lsm_map mt_new ((?m # ts0) @ ts1) = lsm_map (en_memtable e) (ts0 @ ts1)"
    "lsm_map (replay_all rs mt_new) ((?m # ts0) @ ts1) = lsm_map (en_memtable e) (ts0 @ ts1)"
    using lsm_map_twice [of "en_memtable e" "ts0 @ ts1"] by (simp_all add: lsm_map_flush flip: mem)
  consider "bt_get (names t) WAL_FILENAME = Some ?f" | "bt_get (names t) WAL_FILENAME = None"
    | h n where "bt_get (names t) WAL_FILENAME = Some h" "content v h = take n wal_header"
    using l(3) rot wal(1) by auto
  then show "recovers crc xxh t (lsm_map (en_memtable e) (ts0 @ ts1)) \<or>
      True \<and> short_log crc xxh t (lsm_map (en_memtable e) (ts0 @ ts1))"
  proof cases
    case 1
    have "content t ?f = log_bytes crc rs" using l(2) [OF _ wal(1)] wal(2) by simp
    from leaves_log [OF e l(1) 1 this wal(3)] same(2) show ?thesis by simp
  next
    case 2
    from leaves_no_log [OF e l(1) 2] same(1) show ?thesis by simp
  next
    case (3 h n)
    obtain j where "content t h = take j (content v h)" using c unfolding crashed_def by blast
    with 3(2) take_take_prefix obtain k where k: "content t h = take k wal_header" by metis
    show ?thesis
    proof (cases "length wal_header \<le> k")
      case True
      then have "content t h = log_bytes crc []" using k by (simp add: log_bytes_Nil)
      from leaves_log [OF e l(1) 3(1) this] same(1) show ?thesis by simp
    next
      case False
      then have "length (content t h) < FILE_HEADER_LEN" using k by (simp add: FILE_HEADER_LEN_def wal_header_def)
      from leaves_short_log [OF e l(1) 3(1) this] same(1) show ?thesis by simp
    qed
  qed
qed

text \<open>Whatever fails in a flush, what is left is the map the engine stood for.\<close>

lemma flush_faulty:
  assumes e: "engine_on crc xxh e s ts0 ts1 rs" and size: "table_bound (mt_map (en_memtable e)) < 2 ^ 62"
    and ids: "unat (en_next_sst_id e) + 1 < 2 ^ 64" and some: "\<not> mt_is_empty (en_memtable e)"
    and run: "flush_inner crc xxh opts e (s\<lparr>plan := os\<rparr>) = (r, e', u)"
  shows "survives crc xxh (isl r) u (lsm_map (en_memtable e) (ts0 @ ts1))"
proof -
  let ?m = "mt_map (en_memtable e)" and ?path = "sst_filename 0 (en_next_sst_id e)"
  let ?tmp = "?path @ TMP_SUFFIX" and ?u0 = "s\<lparr>plan := os\<rparr>" and ?M = "lsm_map (en_memtable e) (ts0 @ ts1)"
  have st: "plan s = []" "fs_ok s" and dir: "dir_ok (en_levels e) s"
    and lv: "levels_on crc xxh (en_levels e) (en_next_sst_id e) s ts0 ts1"
    using e by (simp_all add: engine_on_def)
  note fresh = dir_ok_fresh [OF dir lv order_refl, of 0, simplified]
  have tmp: "extension ?tmp = Some ''tmp''" by (rule extension_tmp) simp
  note before = survives_before [OF e _ tmp fresh(2)]
  from flush_published [OF e size ids, of opts] obtain rd s1 s2 where
    1: "write_table crc xxh opts ?tmp (en_memtable e) s = (Inr (), s1)" "publish crc ?tmp ?path s1 = (Inr rd, s2)"
      "engine_on crc xxh (with_table rd e) s2 (?m # ts0) ts1 rs" by blast
  have mem: "en_memtable (with_table rd e) = en_memtable e" by (simp add: with_table_def)
  have p2: "plan s2 = []" and srt2: "ksorted (names s2)" using 1(3) by (simp_all add: engine_on_def fs_ok_sorted)
  have tmp2: "bt_get (names s2) ?tmp = None"
  proof (rule ccontr)
    assume "bt_get (names s2) ?tmp \<noteq> None"
    then have "known_name ?tmp" using dir_ok_known [of _ s2 ?tmp] 1(3) unfolding name_present engine_on_def by blast
    then show False using tmp by (cases rule: known_name_cases [where l = 0]) (simp_all add: SST_EXT_def)
  qed
  have between: "survives crc xxh failed v ?M" if "calm v = s2" for v failed
    using survives_on [OF 1(3), of failed] lsm_map_twice [of "en_memtable e" "ts0 @ ts1"] that
    by (simp add: mem flip: survives_calm [of crc xxh failed v])
  obtain r1 u1 where w: "write_table crc xxh opts ?tmp (en_memtable e) ?u0 = (r1, u1)" by fastforce
  have "aside {?tmp} s ?u0" using aside_refl [of s] st(2) by (simp add: fs_ok_sorted)
  then have a1: "aside {?tmp} s u1" using fresh(2) by (intro write_table_aside [OF w]) simp_all
  show ?thesis
  proof (cases r1)
    case (Inl err)
    with w run a1 show ?thesis by (intro before) (simp add: flush_inner_steps [OF some] Let_def)
  next
    case (Inr x1)
    with write_table_calm [of crc xxh opts ?tmp "en_memtable e" ?u0] w 1(1) st have s1: "calm u1 = s1" by simp
    obtain r2 u2 where p: "publish crc ?tmp ?path u1 = (r2, u2)" by fastforce
    have run2: "(case r2 of Inl err \<Rightarrow> (Inl err, e, u2)
        | Inr rd \<Rightarrow> (case rotate_wal u2 of (Inl err, s) \<Rightarrow> (Inl err, with_table rd e, s)
            | (Inr w, s) \<Rightarrow> (Inr (), (with_table rd e)\<lparr>en_writer := w, en_memtable := mt_new\<rparr>, s))) = (r, e', u)"
      using run w Inr p by (simp add: flush_inner_steps [OF some] Let_def split: sum.splits)
    obtain r3 u3 where 3: "rename_file ?tmp ?path u1 = (r3, u3)" by fastforce
    obtain r4 u4 where 4: "sync_dir u3 = (r4, u4)" by fastforce
    show ?thesis
    proof (cases r3)
      case (Inl err)
      then have "aside {?tmp} s u3" using 3 a1 by (auto simp: fault_defs aside_def split: fault_splits)
      moreover have "u = u3" using p 3 Inl run2 by (auto simp: publish_def)
      ultimately show ?thesis by (intro before) simp
    next
      case (Inr x3)
      note r3 = this
      have v3: "publish crc ?tmp ?path (calm u1) = (case sync_dir (calm u3) of (Inl err, s) \<Rightarrow> (Inl err, s)
          | (Inr _, s) \<Rightarrow> sst_open crc ?path s)"
        using 3 r3 by (simp add: publish_def basic_calm)
      have "sync_dir (calm u3) = (Inr (), (calm u3)\<lparr>stable_names := names u3\<rparr>)" by (simp add: sync_dir_ok)
      then have "sst_open crc ?path ((calm u3)\<lparr>stable_names := names u3\<rparr>) = (Inr rd, s2)" using v3 1(2) s1 by simp
      from sst_open_reads [OF this] p2 have s2: "s2 = (calm u3)\<lparr>stable_names := names u3\<rparr>"
        by (cases u3; cases s2) (simp add: calm_def)
      show ?thesis
      proof (cases r4)
        case (Inl err)
        have a3: "aside {?tmp, ?path} s u3"
          by (rule rename_file_aside [OF 3 aside_mono [OF a1]]) simp_all
        have "aside {?tmp, ?path} s u4" using sync_dir_failed_aside [of u3 err u4] 4 Inl a3 by simp
        moreover have "names u4 = names u3" "content u4 = content u3" "stable u4 = stable u3"
          using 4 Inl by (auto simp: fault_defs split: fault_splits)
        ultimately have "survives crc xxh (isl r) u4 ?M"
          by (intro survives_renamed [OF e 1(3) mem refl, where tmp = ?tmp and path = ?path])
            (use tmp tmp2 fresh in \<open>auto simp: s2\<close>)
        moreover have "u = u4" using p 3 4 r3 Inl run2 by (auto simp: publish_def)
        ultimately show ?thesis by simp
      next
        case (Inr x4)
        have "sst_open crc ?path u4 = (r2, u2)" using p 3 4 r3 Inr by (simp add: publish_def)
        from sst_open_reads [OF this] have "calm u2 = calm u4" .
        also have "\<dots> = s2" using 4 Inr unfolding s2 by (auto simp: fault_defs calm_def split: fault_splits)
        finally have u2: "calm u2 = s2" .
        show ?thesis
        proof (cases r2)
          case (Inl err)
          with run2 u2 show ?thesis by (intro between) simp
        next
          case (Inr rd')
          obtain r5 u5 where 5: "rotate_wal u2 = (r5, u5)" by fastforce
          show ?thesis
          proof (cases r5)
            case (Inl err)
            have "aside {} s2 u2" using aside_refl [OF srt2] unfolding u2 [symmetric] by simp
            with 1(3) mem have "survives crc xxh True u5 ?M"
              using survives_rotating [of crc xxh "with_table rd e" s2 ts0 ts1 rs u2 err u5 ?tmp] 5 Inl tmp tmp2 by simp
            then show ?thesis using run2 Inr 5 Inl by auto
          next
            case (Inr w)
            from rotate_wal_on [OF 1(3)] obtain w' s3 where
              6: "rotate_wal s2 = (Inr w', s3)"
                "engine_on crc xxh ((with_table rd e)\<lparr>en_writer := w', en_memtable := mt_new\<rparr>) s3 (?m # ts0) ts1 []" by blast
            have "s3 = calm u5" using rotate_wal_calm [of u2] 5 Inr 6(1) u2 by simp
            moreover have "u = u5" using run2 \<open>r2 = Inr rd'\<close> 5 Inr by simp
            ultimately show ?thesis
              using survives_on [OF 6(2), of "isl r"] lsm_map_flush [of "en_memtable e" "ts0 @ ts1"] by simp
          qed
        qed
      qed
    qed
  qed
qed

lemma flush_cut:
  assumes e: "engine_on crc xxh e s ts0 ts1 rs" and size: "table_bound (mt_map (en_memtable e)) < 2 ^ 62"
    and ids: "unat (en_next_sst_id e) + 1 < 2 ^ 64" and u0: "calm u0 = s"
    and run: "flush_inner crc xxh opts e u0 = (r, e', u)"
  shows "survives crc xxh (isl r) u (lsm_map (en_memtable e) (ts0 @ ts1))"
proof (cases "mt_is_empty (en_memtable e)")
  case True
  then have "names u = names s" "stable_names u = stable_names s" "next_ino u = next_ino s" "content u = content s"
    "stable u = stable s \<or> stable u = (stable s)(w_file (en_writer e) := content s (w_file (en_writer e)))"
    using run u0 by (auto simp: flush_inner_def wal_sync_def fault_defs calm_def split: fault_splits)
  moreover have "stable s (w_file (en_writer e)) = content s (w_file (en_writer e))"
    using e by (auto simp: engine_on_def wal_on_def durable_def)
  ultimately have "names u = names s" "stable_names u = stable_names s" "next_ino u = next_ino s" "content u = content s"
    "stable u = stable s"
    by (auto simp: fun_eq_iff)
  then have "calm u = calm s" by (simp add: calm_def)
  then show ?thesis using survives_on [OF e, of "isl r"] survives_calm [of crc xxh "isl r" u] survives_calm [of crc xxh "isl r" s]
    by metis
next
  case False
  have "u0 = s\<lparr>plan := plan u0\<rparr>" using u0 by (auto simp: calm_def)
  with run have "flush_inner crc xxh opts e (s\<lparr>plan := plan u0\<rparr>) = (r, e', u)" by simp
  from flush_faulty [OF e size ids False this] show ?thesis .
qed

section \<open>A log whose last record is cut\<close>

lemma log_cut:
  assumes e: "engine_on crc xxh e s ts0 ts1 rs" and r: "valid_record r"
    and u: "names u = names s" "stable_names u = stable_names s" "next_ino u = next_ino s" "stable u = stable s"
      "content u = (content s)(w_file (en_writer e) := log_bytes crc rs @ take j (frame crc r))"
    and c: "crashed u t"
  shows "recovers crc xxh t (lsm_map (en_memtable e) (ts0 @ ts1)) \<or>
    recovers crc xxh t (lsm_map (apply_record r (en_memtable e)) (ts0 @ ts1))"
proof -
  let ?f = "w_file (en_writer e)" and ?tmp = "sst_filename 0 (en_next_sst_id e) @ TMP_SUFFIX"
  have st: "fs_ok s" and d: "durable s" and dir: "dir_ok (en_levels e) s"
    and lv: "levels_on crc xxh (en_levels e) (en_next_sst_id e) s ts0 ts1"
    and wal: "bt_get (names s) WAL_FILENAME = Some ?f" "content s ?f = log_bytes crc rs" "\<forall>r \<in> set rs. valid_record r"
    and mem: "en_memtable e = replay_all rs mt_new" using e by (simp_all add: engine_on_def wal_on_def)
  have names: "bt_get (names t) p = bt_get (names s) p" if "p \<notin> range snapshot_filename" for p
  proof -
    have "bt_get (names t) p = bt_get (stable_names s) p \<or> bt_get (names t) p = bt_get (names s) p"
      using c u(1,2) by (simp add: crashed_def)
    then show ?thesis using d that by (auto simp: durable_def)
  qed
  have "content t h = content s h" if "bt_get (names s) p = Some h" "p \<noteq> WAL_FILENAME" for p h
  proof -
    have "h \<noteq> ?f" using fs_ok_inj [OF st that(1) wal(1) that(2)] .
    then show ?thesis using crashed_content [OF c, of h] d that(1) by (simp add: u(4,5) durable_def)
  qed
  moreover have "extension ?tmp = Some ''tmp''" by (rule extension_tmp) simp
  moreover have "bt_get (names s) ?tmp = None" using dir_ok_fresh(2) [OF dir lv order_refl, of 0] by simp
  ultimately have l: "leaves ?tmp s t" using c names unfolding leaves_def crashed_def by blast
  have "WAL_FILENAME \<notin> range snapshot_filename" by auto
  then have w: "bt_get (names t) WAL_FILENAME = Some ?f" using names [of WAL_FILENAME] wal(1) by simp
  have "length (log_bytes crc rs) = length (stable u ?f)" using d wal by (simp add: u(4) durable_def)
  moreover obtain n where "n \<ge> length (stable u ?f)" "content t ?f = take n (content u ?f)" using c unfolding crashed_def by blast
  ultimately obtain k where k: "content t ?f = log_bytes crc rs @ take k (frame crc r)" by (auto simp: u(5) min_def)
  show ?thesis
  proof (cases "k < length (frame crc r)")
    case True
    from leaves_torn_log [OF e l w k wal(3) r True] show ?thesis by (simp add: mem)
  next
    case False
    then have "content t ?f = log_bytes crc (rs @ [r])" using k by (simp add: log_bytes_snoc)
    moreover have "\<forall>r \<in> set (rs @ [r]). valid_record r" using wal(3) r by simp
    ultimately have "recovers crc xxh t (lsm_map (replay_all (rs @ [r]) mt_new) (ts0 @ ts1))" by (rule leaves_log [OF e l w])
    then show ?thesis by (simp add: mem)
  qed
qed

section \<open>Operations that are cut\<close>

lemma flush_inner_levels:
  "flush_inner crc xxh opts e s = (r, e', s') \<Longrightarrow> length (lv_l0 (en_levels e')) \<le> Suc (length (lv_l0 (en_levels e)))"
  by (auto simp: flush_inner_def Let_def split: fault_splits)

lemma after_write_few:
  assumes "Suc (length (lv_l0 (en_levels e))) < op_l0_compaction_trigger opts"
  shows "\<exists>x e' u. after_write crc xxh opts e s = Some (x, e', u) \<and> maybe_auto_flush crc xxh opts e s = (map_sum id (\<lambda>_. ()) x, e', u)"
proof -
  obtain r e1 u where 1: "maybe_auto_flush crc xxh opts e s = (r, e1, u)" by (cases "maybe_auto_flush crc xxh opts e s") auto
  then have "length (lv_l0 (en_levels e1)) \<le> Suc (length (lv_l0 (en_levels e)))"
    using flush_inner_levels by (fastforce simp: maybe_auto_flush_def split: if_splits)
  then have "maybe_compact crc xxh opts e1 u = Some (Inr (), e1, u)" using assms by (simp add: maybe_compact_def)
  with 1 show ?thesis by (cases r) (simp_all add: after_write_def)
qed

text \<open>
  \<open>atomic failed u M0 M1\<close>: some power loss in \<open>u\<close> is possible, and each leaves the map before or after, the one
  after if the operation had succeeded; or the operation had failed and left a short log beside the data.
\<close>

definition atomic :: "(bytes \<Rightarrow> u32) \<Rightarrow> (bytes \<Rightarrow> 128 word) \<Rightarrow> bool \<Rightarrow> fs \<Rightarrow>
    (bytes \<Rightarrow> bytes option) \<Rightarrow> (bytes \<Rightarrow> bytes option) \<Rightarrow> bool" where
  "atomic crc xxh failed u M0 M1 \<longleftrightarrow> (\<exists>t. crashed u t) \<and>
     (\<forall>t. crashed u t \<longrightarrow> (\<exists>M. (M = M0 \<and> failed \<or> M = M1) \<and>
        (recovers crc xxh t M \<or> failed \<and> short_log crc xxh t M)))"

lemma survives_atomic: "survives crc xxh failed u M1 \<Longrightarrow> atomic crc xxh failed u M0 M1"
  using crash_possible [of u] unfolding survives_def atomic_def by blast

text \<open>A write: the log decides whether it has happened.\<close>

lemma write_cut:
  fixes r
  defines "ky \<equiv> rec_key r" and "ent \<equiv> record_entry r"
  assumes e: "engine_on crc xxh e s ts0 ts1 rs" and r: "valid_record r" and o: "\<not> en_closed e"
    and upd: "upd (en_memtable e) = apply_record r (en_memtable e)"
    and N: "load (en_memtable e) (ts0 @ ts1) + entry_bound ky ent < 2 ^ 62" and I: "unat (en_next_sst_id e) + 1 < 2 ^ 64"
    and few: "Suc (length (lv_l0 (en_levels e))) < op_l0_compaction_trigger opts"
  shows "\<exists>x e' u. lsm_write crc xxh opts (rec_kind r) ky (rec_value r) upd e (s\<lparr>plan := os\<rparr>) = Some (x, e', u) \<and>
    atomic crc xxh (isl x) u (lsm_map (en_memtable e) (ts0 @ ts1)) (lsm_map (apply_record r (en_memtable e)) (ts0 @ ts1))"
proof -
  let ?f = "w_file (en_writer e)" and ?w = "en_writer e\<lparr>w_scratch := frame crc r\<rparr>" and ?u0 = "s\<lparr>plan := os\<rparr>"
  let ?M0 = "lsm_map (en_memtable e) (ts0 @ ts1)" and ?M1 = "lsm_map (apply_record r (en_memtable e)) (ts0 @ ts1)"
  have plan: "plan s = []" and wal: "content s ?f = log_bytes crc rs" and d: "durable s"
    using e by (simp_all add: engine_on_def wal_on_def)
  have r_eq: "\<lparr>rec_kind = rec_kind r, rec_key = ky, rec_value = rec_value r\<rparr> = r" by (simp add: ky_def)
  have enc: "encode crc (rec_kind r) ky (rec_value r) [] = Inr (length (frame crc r), frame crc r)"
    using r unfolding encode_frame r_eq by (simp add: ky_def)
  obtain r1 u1 where 1: "append_file ?f (frame crc r) ?u0 = (r1, u1)" by fastforce
  have app: "wal_append crc (rec_kind r) ky (rec_value r) (en_writer e) ?u0 = (r1, ?w, u1)"
    using 1 by (cases r1) (simp_all add: wal_append_def enc Let_def)
  have cut: "atomic crc xxh True u ?M0 ?M1"
    if u: "names u = names s" "stable_names u = stable_names s" "next_ino u = next_ino s" "stable u = stable s"
      "\<exists>j. content u = (content s)(?f := log_bytes crc rs @ take j (frame crc r))" for u
  proof -
    have "fs_ok (u\<lparr>names := stable_names u\<rparr>)" using d u(2,3) by (simp add: durable_def fs_ok_def)
    moreover obtain j where j: "content u = (content s)(?f := log_bytes crc rs @ take j (frame crc r))" using u(5) by blast
    note log_cut [OF e r u(1-4) j]
    ultimately show ?thesis using crash_possible [of u] unfolding atomic_def by blast
  qed
  have u1: "names u1 = names s" "stable_names u1 = stable_names s" "next_ino u1 = next_ino s" "stable u1 = stable s"
    "\<exists>j. content u1 = (content s)(?f := log_bytes crc rs @ take j (frame crc r))"
    using 1 by (auto simp: fault_defs wal split: fault_splits intro: exI [of _ "length (frame crc r)"])
  show ?thesis
  proof (cases r1)
    case (Inl err)
    with app o have "lsm_write crc xxh opts (rec_kind r) ky (rec_value r) upd e ?u0 = Some (Inl err, e\<lparr>en_writer := ?w\<rparr>, u1)"
      by (simp add: lsm_write_def)
    then show ?thesis using cut [OF u1] by simp
  next
    case (Inr x1)
    obtain r2 u2 where 2: "sync_file ?f u1 = (r2, u2)" by fastforce
    show ?thesis
    proof (cases r2)
      case (Inl err)
      then have "names u2 = names u1" "stable_names u2 = stable_names u1" "next_ino u2 = next_ino u1" "stable u2 = stable u1"
        "content u2 = content u1"
        using 2 by (auto simp: fault_defs split: fault_splits)
      then have "atomic crc xxh True u2 ?M0 ?M1" by (intro cut) (simp_all only: u1)
      moreover have "lsm_write crc xxh opts (rec_kind r) ky (rec_value r) upd e ?u0 = Some (Inl err, e\<lparr>en_writer := ?w\<rparr>, u2)"
        using app Inr 2 Inl o by (simp add: lsm_write_def wal_sync_def)
      ultimately show ?thesis by simp
    next
      case (Inr x2)
      define e1 where "e1 = e\<lparr>en_writer := ?w, en_memtable := upd (en_memtable e)\<rparr>"
      have run: "lsm_write crc xxh opts (rec_kind r) ky (rec_value r) upd e ?u0 = after_write crc xxh opts e1 u2"
        using app \<open>r1 = Inr x1\<close> 2 Inr o by (simp add: lsm_write_def wal_sync_def e1_def)
      have "calm u1 = s\<lparr>content := (content s)(?f := content s ?f @ frame crc r)\<rparr>"
        using 1 \<open>r1 = Inr x1\<close> plan by (auto simp: fault_defs calm_def split: fault_splits)
      moreover have "calm u2 = (calm u1)\<lparr>stable := (stable (calm u1))(?f := content (calm u1) ?f)\<rparr>"
        using 2 Inr by (auto simp: fault_defs calm_def split: fault_splits)
      ultimately have on1: "engine_on crc xxh e1 (calm u2) ts0 ts1 (rs @ [r])"
        by (intro wal_append_engine(1) [OF e r, of e1 "frame crc r"]) (simp_all add: e1_def upd plan)
      have mem1: "en_memtable e1 = apply_record r (en_memtable e)" by (simp add: e1_def upd)
      have "table_bound (mt_map (en_memtable e1)) \<le> load (en_memtable e) (ts0 @ ts1) + entry_bound ky ent"
        using load_insert [of "en_memtable e1" "en_memtable e" ky ent "ts0 @ ts1"]
        by (simp add: mem1 mt_map_apply_record ky_def ent_def load_def del: record_entry.simps)
      then have size: "table_bound (mt_map (en_memtable e1)) < 2 ^ 62" using N by simp
      have I1: "unat (en_next_sst_id e1) + 1 < 2 ^ 64" using I by (simp add: e1_def)
      have "Suc (length (lv_l0 (en_levels e1))) < op_l0_compaction_trigger opts" using few by (simp add: e1_def)
      from after_write_few [OF this, of crc xxh u2] obtain x e' u where
        3: "after_write crc xxh opts e1 u2 = Some (x, e', u)" "maybe_auto_flush crc xxh opts e1 u2 = (map_sum id (\<lambda>_. ()) x, e', u)"
        by blast
      have "survives crc xxh (isl x) u ?M1"
      proof (cases "approximate_size (en_memtable e1) \<ge> op_memtable_max_size_bytes opts")
        case True
        then have "flush_inner crc xxh opts e1 u2 = (map_sum id (\<lambda>_. ()) x, e', u)" using 3(2) by (simp add: maybe_auto_flush_def)
        from flush_cut [OF on1 size I1 refl this] show ?thesis by (simp add: mem1 isl_map_sum)
      next
        case False
        then have "u = u2" using 3(2) by (simp add: maybe_auto_flush_def)
        with survives_on [OF on1, of "isl x"] show ?thesis by (simp add: mem1)
      qed
      from survives_atomic [OF this] run 3(1) show ?thesis by (intro exI [of _ x] exI [of _ e'] exI [of _ u]) simp
    qed
  qed
qed

definition is_write :: "command \<Rightarrow> bool" where
  "is_write c \<longleftrightarrow> (case c of GetCmd _ \<Rightarrow> False | ReopenCmd \<Rightarrow> False | CrashCmd \<Rightarrow> False | _ \<Rightarrow> True)"

text \<open>C4: A write that does not compact is atomic. Whatever calls of the operating system fail during a put, a
  vector write, a delete or a flush, and whenever the process is killed or the power goes off, with any
  of the unsynced changes of the directory and any prefix of the unsynced bytes of a file kept: the operation returns, and lookups
  after the next open answer either as before the write or as after it, and as after it if the write was
  acknowledged. There is one exception, the window in which a flush has created the new log and not yet
  synced its header: then the operation was not acknowledged, \<^verbatim>\<open>wal.log\<close> may be shorter than its header, and the open refuses
  it as corrupt; without that file the directory opens to the same map. The write may flush the memtable,
  but must not reach the compaction trigger; a compaction that writes no output and is cut is not atomic.
\<close>
theorem cut_write_is_atomic:
  assumes rep: "engine_rep crc xxh e s m N I" and c: "command_ok c" "is_write c"
    and N: "N + command_bound c < 2 ^ 62" and I: "I + 1 < 2 ^ 64"
    and few: "Suc (length (lv_l0 (en_levels e))) < op_l0_compaction_trigger opts"
  shows "\<exists>x e' u. run_command crc xxh opts c e (s\<lparr>plan := os\<rparr>) = Some (x, e', u) \<and> (\<exists>t. crashed u t) \<and>
    (\<forall>t. crashed u t \<longrightarrow> (\<exists>M. (M = m \<and> isl x \<or> M = snd (spec_command c m)) \<and>
      (recovers crc xxh t M \<or> isl x \<and> short_log crc xxh t M)))"
proof -
  obtain ts0 ts1 rs where on: "engine_on crc xxh e s ts0 ts1 rs" and m: "m = lsm_map (en_memtable e) (ts0 @ ts1)"
    and le: "load (en_memtable e) (ts0 @ ts1) \<le> N" "unat (en_next_sst_id e) \<le> I" and o: "\<not> en_closed e"
    using rep by (auto simp: engine_rep_def)
  have ids: "unat (en_next_sst_id e) + 1 < 2 ^ 64" using le(2) I by simp
  have logged: ?thesis if r: "valid_record r" and upd: "upd (en_memtable e) = apply_record r (en_memtable e)"
    and run: "run_command crc xxh opts c e (s\<lparr>plan := os\<rparr>) =
      done_with (lsm_write crc xxh opts (rec_kind r) (rec_key r) (rec_value r) upd e (s\<lparr>plan := os\<rparr>))"
    and b: "command_bound c = entry_bound (rec_key r) (record_entry r)"
    and m': "lsm_map (apply_record r (en_memtable e)) (ts0 @ ts1) = snd (spec_command c m)" for r upd
  proof -
    have "load (en_memtable e) (ts0 @ ts1) + entry_bound (rec_key r) (record_entry r) < 2 ^ 62" using le(1) N b by simp
    from write_cut [OF on r o, of upd opts os, OF upd this ids few] obtain x e' u where
      1: "lsm_write crc xxh opts (rec_kind r) (rec_key r) (rec_value r) upd e (s\<lparr>plan := os\<rparr>) = Some (x, e', u)"
      "atomic crc xxh (isl x) u m (snd (spec_command c m))" unfolding m' m [symmetric] by blast
    have "isl (map_sum (\<lambda>y. y) (\<lambda>_. None) x :: error + bytes option) = isl x" by (simp add: isl_map_sum)
    then show ?thesis using run 1 unfolding atomic_def
      by (intro exI [of _ "map_sum (\<lambda>y. y) (\<lambda>_. None) x"] exI [of _ e'] exI [of _ u]) (simp add: done_with_def)
  qed
  show ?thesis
  proof (cases c)
    case (PutCmd ky v)
    with c show ?thesis
      by (intro logged [of "\<lparr>rec_kind = record_kind.Put, rec_key = ky, rec_value = v\<rparr>" "mt_put ky v"])
        (simp_all add: valid_record_def valid_key_def valid_value_def apply_record_def lsm_put_def m)
  next
    case (VectorCmd ky v)
    with c show ?thesis
      by (intro logged [of "\<lparr>rec_kind = record_kind.Vector, rec_key = ky, rec_value = v\<rparr>" "mt_put_vector ky v"])
        (simp_all add: valid_record_def valid_key_def valid_value_def apply_record_def lsm_put_vector_def m)
  next
    case (DeleteCmd ky)
    with c show ?thesis
      by (intro logged [of "\<lparr>rec_kind = record_kind.Delete, rec_key = ky, rec_value = []\<rparr>" "mt_delete ky"])
        (simp_all add: valid_record_def valid_key_def apply_record_def lsm_delete_def m)
  next
    case FlushCmd
    obtain r e' u where 1: "flush_inner crc xxh opts e (s\<lparr>plan := os\<rparr>) = (r, e', u)"
      by (cases "flush_inner crc xxh opts e (s\<lparr>plan := os\<rparr>)") auto
    have "maybe_compact crc xxh opts e' u = Some (Inr (), e', u)"
      using flush_inner_levels [OF 1] few by (simp add: maybe_compact_def)
    then have "\<exists>x. run_command crc xxh opts c e (s\<lparr>plan := os\<rparr>) = Some (x, e', u) \<and> isl x = isl r"
      using 1 o FlushCmd by (cases r) (simp_all add: lsm_flush_def done_with_def Let_def)
    moreover have "calm (s\<lparr>plan := os\<rparr>) = s" "table_bound (mt_map (en_memtable e)) < 2 ^ 62"
      using on le(1) N FlushCmd by (simp_all add: engine_on_def load_def)
    note survives_atomic [OF flush_cut [OF on this(2) ids this(1) 1], of m]
    ultimately show ?thesis using FlushCmd m unfolding atomic_def by fastforce
  qed (use c in \<open>simp_all add: is_write_def\<close>)
qed

theorem cut_write_is_atomic_witness:
  "\<exists>e s opts x e' u t M. engine_rep (\<lambda>_. 7) (\<lambda>_. 9) e s Map.empty 0 0 \<and>
    run_command (\<lambda>_. 7) (\<lambda>_. 9) opts (PutCmd [1] [5]) e (s\<lparr>plan := [Good, Fail 0]\<rparr>) = Some (x, e', u) \<and> crashed u t \<and>
    (M = Map.empty \<or> M = [[1] \<mapsto> [5]]) \<and> (recovers (\<lambda>_. 7) (\<lambda>_. 9) t M \<or> isl x \<and> short_log (\<lambda>_. 7) (\<lambda>_. 9) t M)"
proof -
  obtain e s where e: "engine_rep (\<lambda>_. 7) (\<lambda>_. 9) e s Map.empty 0 0" using fresh_engine by blast
  define opts where "opts = small_options\<lparr>op_l0_compaction_trigger := length (lv_l0 (en_levels e)) + 2\<rparr>"
  have ok: "command_ok (PutCmd [1] [5])" "is_write (PutCmd [1] [5])" "0 + command_bound (PutCmd [1] [5]) < 2 ^ 62"
    "(0 :: nat) + 1 < 2 ^ 64" "Suc (length (lv_l0 (en_levels e))) < op_l0_compaction_trigger opts"
    by (simp_all add: valid_key_def valid_value_def entry_bound_def is_write_def opts_def)
  from cut_write_is_atomic [OF e ok, of "[Good, Fail 0]"] obtain x e' u t where
    1: "run_command (\<lambda>_. 7) (\<lambda>_. 9) opts (PutCmd [1] [5]) e (s\<lparr>plan := [Good, Fail 0]\<rparr>) = Some (x, e', u)" "crashed u t"
    and 2: "\<forall>t. crashed u t \<longrightarrow> (\<exists>M. (M = Map.empty \<and> isl x \<or> M = snd (spec_command (PutCmd [1] [5]) Map.empty)) \<and>
      (recovers (\<lambda>_. 7) (\<lambda>_. 9) t M \<or> isl x \<and> short_log (\<lambda>_. 7) (\<lambda>_. 9) t M))" by blast
  from 2 [rule_format, OF 1(2)] have "\<exists>M. (M = Map.empty \<or> M = [[1] \<mapsto> [5]]) \<and>
      (recovers (\<lambda>_. 7) (\<lambda>_. 9) t M \<or> isl x \<and> short_log (\<lambda>_. 7) (\<lambda>_. 9) t M)" by fastforce
  with e 1 show ?thesis by blast
qed

section \<open>A rotation that fails\<close>

text \<open>C36: When the header of the new log cannot be written during the rotation that ends a flush (the disk is
  full, say, or the process is killed there), the flush reports an error and the engine goes on, can even
  be closed without error. But the directory does not open again: the log that is shorter than its header
  is taken for corruption, although every entry is safe in the tables.
\<close>
theorem failed_rotation_blocks_open:
  assumes e: "engine_on crc xxh e s ts0 ts1 rs" and o: "\<not> en_closed e" and n: "n < 12"
  shows "\<exists>u e1 u1 msg. rotate_wal (s\<lparr>plan := [Good, Good, Good, Fail n]\<rparr>) = (Inl (Io OsError), u) \<and>
    engine_close e u = (Inr (), e1, u1) \<and> open_inner crc u1 = (Inl (Corruption msg), u1)"
proof -
  have st: "plan s = []" "fs_ok s" and dir: "dir_ok (en_levels e) s"
    and lv: "levels_on crc xxh (en_levels e) (en_next_sst_id e) s ts0 ts1"
    and wal: "bt_get (names s) WAL_FILENAME = Some (w_file (en_writer e))" using e by (simp_all add: engine_on_def wal_on_def)
  let ?h = "next_ino s" and ?f = "w_file (en_writer e)"
  define ns where "ns = bt_insert (bt_remove (names s) WAL_FILENAME) WAL_FILENAME ?h"
  define u where "u = s\<lparr>names := ns, content := (content s)(?h := take n wal_header), stable := (stable s)(?h := []),
    next_ino := Suc ?h\<rparr>"
  define u1 where "u1 = u\<lparr>stable := (stable u)(?f := content u ?f)\<rparr>"
  have srt: "ksorted (names s)" using st(2) by (simp add: fs_ok_sorted)
  have get: "bt_get ns p = (if p = WAL_FILENAME then Some ?h else bt_get (names s) p)" for p
    using srt by (simp add: ns_def bt_get_map_of bt_remove_sorted)
  have rot: "rotate_wal (s\<lparr>plan := [Good, Good, Good, Fail n]\<rparr>) = (Inl (Io OsError), u)"
    using wal st(1) srt
    by (simp add: rotate_wal_def wal_open_def fault_defs bt_get_map_of bt_remove_sorted u_def ns_def wal_header_def)
  have plan: "plan u = []" "plan u1 = []" using st(1) by (simp_all add: u_def u1_def)
  have close: "engine_close e u = (Inr (), e\<lparr>en_closed := True\<rparr>, u1)"
    using o plan(1) by (simp add: engine_close_def wal_sync_ok u1_def)
  have names1: "names u1 = ns" and cont1: "content u1 = (content s)(?h := take n wal_header)" by (simp_all add: u1_def u_def)
  have ok: "fs_ok u1"
  proof -
    have "fs_ok (s\<lparr>names := bt_remove (names s) WAL_FILENAME\<rparr>)" by (rule fs_ok_remove [OF st(2)]) simp_all
    from fs_ok_fresh [OF this, of u1 WAL_FILENAME] show ?thesis by (simp add: u1_def u_def ns_def)
  qed
  have "keeps_tables s u1"
    using fs_ok_names_less [OF st(2)] unfolding keeps_tables_def names1 cont1 get by fastforce
  note lv' = levels_on_frame [OF this lv]
  have dir': "dir_ok (en_levels e) u1" using dir unfolding dir_ok_def names1 get by auto
  obtain lv1 i1 where disc: "discover_sstables crc u1 = (Inr (lv1, i1), u1)"
    using discover_ok [OF plan(2) ok dir' lv'] by blast
  have w: "bt_get (names u1) WAL_FILENAME = Some ?h" by (simp add: names1 get)
  then have "WAL_FILENAME \<in> set (map fst (names u1))" unfolding name_present by simp
  then have ex: "wal_file_exists u1 = (Inr True, u1)" using plan(2) by (simp add: wal_file_exists_def list_dir_ok)
  have "content u1 ?h = take n wal_header" by (simp add: cont1)
  then have "\<exists>msg. wal_reader_open WAL_FILENAME u1 = (Inl (Corruption msg), u1)"
    using plan(2) w n by (simp add: wal_reader_open_def open_read_old file_len_ok)
  then obtain msg where "replay_wal crc WAL_FILENAME mt_new u1 = (Inl (Corruption msg), mt_new, u1)"
    by (auto simp: replay_wal_def)
  then have "open_inner crc u1 = (Inl (Corruption msg), u1)"
    using plan(2) disc ex by (simp add: open_inner_def create_dir_all_ok)
  with rot close show ?thesis by blast
qed

theorem failed_rotation_blocks_open_witness:
  "\<exists>e s u e1 u1 msg. rotate_wal (s\<lparr>plan := [Good, Good, Good, Fail 0]\<rparr>) = (Inl (Io OsError), u) \<and>
    engine_close e u = (Inr (), e1, u1) \<and> open_inner (\<lambda>_. 7) u1 = (Inl (Corruption msg), u1)"
proof -
  obtain e s where "engine_rep (\<lambda>_. 7) (\<lambda>_. 9) e s Map.empty 0 0" using fresh_engine by blast
  then obtain ts0 ts1 rs where "engine_on (\<lambda>_. 7) (\<lambda>_. 9) e s ts0 ts1 rs" "\<not> en_closed e" by (auto simp: engine_rep_def)
  from failed_rotation_blocks_open [OF this, of 0] have "\<exists>u e1 u1 msg.
    rotate_wal (s\<lparr>plan := [Good, Good, Good, Fail 0]\<rparr>) = (Inl (Io OsError), u) \<and>
    engine_close e u = (Inr (), e1, u1) \<and> open_inner (\<lambda>_. 7) u1 = (Inl (Corruption msg), u1)" by simp
  then show ?thesis by blast
qed

end
