(* ===== verification/Database_Crash.thy ===== *)
theory Database_Crash
  imports Database_History Faults
begin

text \<open>
  Power loss in the life of a database. Snapshots that were removed without a sync may come back; the
  recovery takes the one with the largest number and removes the others, and as long as numbers only
  grew that is the one the database had.
\<close>

section \<open>Finding the newest of several snapshots\<close>

lemma snapshot_paths:
  "map snd (List.map_filter (\<lambda>p. map_option (\<lambda>j. (j, p)) (f p)) ps) = [p \<leftarrow> ps. f p \<noteq> None]"
  "(j, p) \<in> set (List.map_filter (\<lambda>p. map_option (\<lambda>j. (j, p)) (f p)) ps) \<longleftrightarrow> p \<in> set ps \<and> f p = Some j"
  by (induction ps) (auto simp: map_filter_simps split: option.split)

lemma last_of_sorted:
  assumes "distinct xs" and "x \<in> set xs" and "\<And>y. y \<in> set xs \<Longrightarrow> y \<noteq> x \<Longrightarrow> f y < (f x :: 'k :: linorder)"
  shows "last (sort_key f xs) = x" and "set (butlast (sort_key f xs)) = set xs - {x}"
proof -
  have ne: "sort_key f xs \<noteq> []" using assms(2) by (metis empty_iff empty_set set_sort)
  then have split: "sort_key f xs = butlast (sort_key f xs) @ [last (sort_key f xs)]" by simp
  let ?l = "last (sort_key f xs)" and ?b = "butlast (sort_key f xs)"
  have "sorted (map f (?b @ [?l]))" unfolding split [symmetric] by (rule sorted_sort_key)
  then have "\<forall>y \<in> set ?b. f y \<le> f ?l" by (simp add: sorted_append)
  moreover have "set xs = insert ?l (set ?b)" using split by (metis Un_insert_right append_Nil2 empty_set list.simps(15) set_append set_sort sup_bot.right_neutral)
  ultimately have max: "f y \<le> f ?l" if "y \<in> set xs" for y using that by auto
  show last: "last (sort_key f xs) = x"
    using max [OF assms(2)] assms(3) [of "last (sort_key f xs)"] last_in_set [OF ne] by force
  have "distinct (butlast (sort_key f xs) @ [x])" using split assms(1) last by (metis distinct_sort)
  moreover have "set (butlast (sort_key f xs) @ [x]) = set xs" using split last by (metis set_sort)
  ultimately show "set (butlast (sort_key f xs)) = set xs - {x}" by auto
qed

lemma discover_newest:
  assumes e: "engine_on crc xxh e s ts0 ts1 rs" and top: "bt_get (names s) (snapshot_filename i) \<noteq> None"
    and le: "\<And>j. bt_get (names s) (snapshot_filename j) \<noteq> None \<Longrightarrow> j \<le> i"
  shows "\<exists>s2. discover_latest_snapshot s = (Inr (Some (snapshot_filename i)), s2) \<and> engine_on crc xxh e s2 ts0 ts1 rs \<and>
    content s2 = content s \<and> bt_get (names s2) (snapshot_filename i) = bt_get (names s) (snapshot_filename i) \<and>
    (\<forall>j. j \<noteq> i \<longrightarrow> bt_get (names s2) (snapshot_filename j) = None)"
proof -
  have st: "plan s = []" "fs_ok s" "durable s" and dir: "dir_ok (en_levels e) s" using e by (simp_all add: engine_on_def)
  let ?f = "snapshot_filename i" and ?ps = "map fst (names s)"
  define cs where "cs = List.map_filter (\<lambda>p. map_option (\<lambda>j. (j, p)) (parse_snapshot_filename p)) ?ps"
  define rm where "rm = map snd (butlast (sort_key fst cs))"
  define s2 where "s2 = s\<lparr>names := foldl bt_remove (names s) rm\<rparr>"
  have known: "known_name p" if "p \<in> set ?ps" for p using that by (intro dir_ok_known [OF dir])
  have cs: "(j, p) \<in> set cs \<longleftrightarrow> p = snapshot_filename j \<and> bt_get (names s) p \<noteq> None" for j p
    using known [of p] parse_snapshot_known [of p j] unfolding cs_def snapshot_paths(2) name_present [symmetric]
    by (auto simp: parse_snapshot_snapshot)
  have "distinct ?ps" using st(2) by (simp add: fs_ok_sorted ksorted_distinct)
  then have "distinct (map snd cs)" unfolding cs_def snapshot_paths(1) by (rule distinct_filter)
  then have d: "distinct cs" by (simp add: distinct_map)
  have in_cs: "(i, ?f) \<in> set cs" using top by (simp add: cs)
  have less: "fst y < fst (i, ?f)" if "y \<in> set cs" "y \<noteq> (i, ?f)" for y
  proof -
    obtain j p where y: "y = (j, p)" by fastforce
    with that(1) have "p = snapshot_filename j" "j \<le> i" using le [of j] by (auto simp: cs)
    with that(2) show ?thesis by (auto simp: y)
  qed
  note last = last_of_sorted [where f = fst, OF d in_cs less]
  have rm: "p \<in> set rm \<longleftrightarrow> (\<exists>j. j \<noteq> i \<and> p = snapshot_filename j \<and> bt_get (names s) p \<noteq> None)" for p
  proof -
    have "p \<in> set rm \<longleftrightarrow> (\<exists>j. (j, p) \<in> set cs - {(i, ?f)})" using last(2) by (force simp: rm_def)
    then show ?thesis by (auto simp: cs)
  qed
  have run: "discover_latest_snapshot s = (Inr (Some ?f), s2)"
    using st(1) in_cs last(1)
    by (auto simp: discover_latest_snapshot_def list_dir_ok cs_def [symmetric] rm_def [symmetric] Let_def remove_all_state s2_def)
  have get: "bt_get (names s2) p = (if p \<in> set rm then None else bt_get (names s) p)" for p
    using foldl_remove [of "names s" rm] st(2) by (simp add: s2_def bt_get_map_of fs_ok_sorted restrict_map_def)
  have "engine_on crc xxh e s2 ts0 ts1 rs"
  proof (rule engine_on_frame [OF e])
    show "plan s2 = []" using st by (simp add: s2_def)
    show "fs_ok s2" by (rule fs_ok_remove_all [OF st(2)]) (simp_all add: s2_def)
    show "bt_get (names s2) p = bt_get (names s) p" if "p \<notin> range snapshot_filename" for p
      using that by (auto simp: get rm)
    show "durable s2"
      using st(3) unfolding durable_def get by (auto simp: s2_def rm)
  qed (simp add: s2_def)
  moreover have "bt_get (names s2) (snapshot_filename j) = None" if "j \<noteq> i" for j using that by (auto simp: get rm)
  moreover have "bt_get (names s2) ?f = bt_get (names s) ?f" by (auto simp: get rm)
  ultimately show ?thesis using run by (intro exI [of _ s2]) (simp add: s2_def)
qed

section \<open>Opening after a power loss\<close>

lemma db_open_crashed:
  fixes db :: "'r db" and lib :: "'r rng_lib"
  assumes rep: "db_rep crc xxh mt d db s m P N I H" and safe: "snapshots_safe (en_next_sst_id (db_inner db)) s"
    and c: "crashed s s'" and ps: "fit_params ps d" "hp_metric ps = mt" and H: "H + N div 29 < 2 ^ 32"
  shows "\<exists>db' s2. db_open crc lib ps s' = Some (Inr db', s2) \<and> db_rep crc xxh mt d db' s2 m P N I (H + N div 29)"
proof -
  let ?e = "db_inner db"
  obtain ts where on: "db_on crc xxh mt d H P db s ts" and m: "m = lsm_ents (en_memtable ?e) ts"
    and le: "load (en_memtable ?e) ts \<le> N" "unat (en_next_sst_id ?e) \<le> I"
    using rep by (auto simp: db_rep_def)
  have fine: "all_fine mt d m" and fits: "snapshot_fits crc mt d H P db s ts" using on m by (simp_all add: db_on_def)
  obtain ts0 ts1 rs where e: "engine_on crc xxh ?e s ts0 ts1 rs" and ts: "ts = ts0 @ ts1"
    using on by (auto simp: db_on_def engine_at_def)
  note e' = crashed_on [OF e c]
  from open_inner_ok [OF e'] obtain e1 where e1: "open_inner crc s' = (Inr e1, s')"
    "engine_on crc xxh e1 s' ts0 ts1 rs" "en_memtable e1 = en_memtable ?e" "en_next_sst_id e1 \<le> en_next_sst_id ?e"
    "\<not> en_closed e1" by auto
  have names: "bt_get (names s') p = bt_get (stable_names s) p \<or> bt_get (names s') p = bt_get (names s) p" for p
    using c by (simp add: crashed_def)
  show ?thesis
  proof (cases "\<forall>j. bt_get (names s) (snapshot_filename j) = None")
    case True
    then have "\<forall>j. bt_get (names s') (snapshot_filename j) = None"
      using safe names unfolding snapshots_safe_def by metis
    then have "snapshot_fits crc mt d H P db s' (ts0 @ ts1)" by (simp add: snapshot_fits_def)
    from db_open_rep [OF e' this ps H, of m I lib] m fine le show ?thesis by (auto simp: ts)
  next
    case False
    with fits obtain i and ix0 :: "'r vector_index" where
      sn: "saved_as crc s (snapshot_filename i) i ix0" "fit_index mt d H ix0"
        "\<forall>j. j \<noteq> i \<longrightarrow> bt_get (names s) (snapshot_filename j) = None" "\<forall>t \<in> table_ids ?e. t < i"
        "agrees mt (P \<union> dom (map_of (mt_map (en_memtable ?e)))) (lsm_ents (en_memtable ?e) ts) (vi_abs ix0)"
      unfolding snapshot_fits_def by blast
    obtain h where h: "bt_get (names s) (snapshot_filename i) = Some h"
      "content s h = encode_snapshot crc (vi_hnsw ix0) i (vi_key_to_node ix0)" using sn(1) by (auto simp only: saved_as_def)
    have h': "bt_get (names s') (snapshot_filename i) = Some h"
      using safe h(1) names [of "snapshot_filename i"] unfolding snapshots_safe_def by (metis option.distinct(1))
    have "j \<le> i" if "bt_get (names s') (snapshot_filename j) \<noteq> None" for j
      using safe sn(3) that names [of "snapshot_filename j"] unfolding snapshots_safe_def by (metis order_refl)
    from discover_newest [OF e1(2) _ this] h' obtain s2 where
      s2: "discover_latest_snapshot s' = (Inr (Some (snapshot_filename i)), s2)" "engine_on crc xxh e1 s2 ts0 ts1 rs"
        "content s2 = content s'" "bt_get (names s2) (snapshot_filename i) = Some h"
        "\<forall>j. j \<noteq> i \<longrightarrow> bt_get (names s2) (snapshot_filename j) = None" by auto
    have "content s' h = content s h"
      using e h(1) by (intro crashed_content [OF c]) (auto simp: engine_on_def durable_def)
    then have sv: "saved_as crc s2 (snapshot_filename i) i ix0" using h(2) s2(3,4) by (simp add: saved_as_def)
    have fits2: "snapshot_fits crc mt d H P db s2 (ts0 @ ts1)"
      unfolding snapshot_fits_def using sv sn(2,4,5) s2(5) unfolding ts by blast
    have "unat (en_next_sst_id e1) \<le> I" using e1(4) le(2) by (simp add: word_le_nat_alt)
    from opened_rep [OF s2(2) e1(3) table_ids_same [OF e' e1(2)] e1(5) this fits2 ps H _ fine, of lib] m le(1) obtain ix where
      ix: "recover_vector_index crc lib ps e1 s2 = Some (Inr ix, s2)"
        "db_rep crc xxh mt d \<lparr>db_inner = e1, db_index = ix\<rparr> s2 m P N I (H + N div 29)" by (auto simp: ts)
    have "engine_at crc xxh e1 s2 (ts0 @ ts1)" using s2(2) unfolding engine_at_def by blast
    from discover_saved [OF this sv] s2(5) have "discover_latest_snapshot s2 = discover_latest_snapshot s'" using s2(1) by simp
    then have "recover_vector_index crc lib ps e1 s' = Some (Inr ix, s2)" using ix(1) by (simp add: recover_vector_index_def)
    with e1(1) ix(2) show ?thesis
      by (intro exI [of _ "\<lparr>db_inner = e1, db_index = ix\<rparr>"] exI [of _ s2]) (simp add: db_open_def)
  qed
qed

section \<open>Histories with a power loss\<close>

fun restarts :: "db_command \<Rightarrow> bool" where
  "restarts DbReopen = True"
| "restarts c = False"

fun db_spec_all :: "db_command list \<Rightarrow> (bytes \<Rightarrow> entry option) \<times> bytes set \<Rightarrow> (bytes \<Rightarrow> entry option) \<times> bytes set" where
  "db_spec_all [] st = st"
| "db_spec_all (c # cs) st = db_spec_all cs (db_spec c st)"

lemma run_spec_append:
  "length rs = length cs \<Longrightarrow>
    db_run_spec mt d (cs @ cs') st (rs @ rs') \<longleftrightarrow> db_run_spec mt d cs st rs \<and> db_run_spec mt d cs' (db_spec_all cs st) rs'"
  by (induction rs cs arbitrary: st rule: list_induct2) auto

lemma run_db_safe:
  fixes db :: "'r db" and lib :: "'r rng_lib"
  assumes "fit_params ps d" and "hp_metric ps = mt" and "B < 2 ^ 62"
  shows "db_rep crc xxh mt d db s (fst st) (snd st) N I H \<Longrightarrow> snapshots_safe (en_next_sst_id (db_inner db)) s \<Longrightarrow>
    \<forall>c \<in> set cs. db_command_ok mt d c \<and> \<not> restarts c \<Longrightarrow>
    N + sum_list (map db_bound cs) \<le> B \<Longrightarrow> I + 2 * length cs < 2 ^ 64 \<Longrightarrow>
    H + sum_list (map (node_bound B) cs) < 2 ^ 32 \<Longrightarrow>
    \<exists>rs db' s'. run_db crc xxh opts lib ps cs db s = Some (rs, db', s') \<and> length rs = length cs \<and>
      db_run_spec mt d cs st rs \<and> snapshots_safe (en_next_sst_id (db_inner db')) s' \<and>
      db_rep crc xxh mt d db' s' (fst (db_spec_all cs st)) (snd (db_spec_all cs st))
        (N + sum_list (map db_bound cs)) (I + 2 * length cs) (H + sum_list (map (node_bound B) cs))"
proof (induction cs arbitrary: db s st N I H)
  case Nil
  then show ?case by simp
next
  case (Cons c cs)
  have c: "db_command_ok mt d c" "N + db_bound c \<le> B" "I + 2 < 2 ^ 64" "H + node_bound B c < 2 ^ 32" "c \<noteq> DbReopen"
    using Cons.prems by auto
  from run_db_command_rep [OF Cons.prems(1) c(1) assms(1,2) c(2) assms(3) c(3,4), of opts lib] c(5)
  obtain r db1 s1 where 1: "run_db_command crc xxh opts lib ps c db s = Some (r, db1, s1)" "db_replies mt d c st r"
    "db_rep crc xxh mt d db1 s1 (fst (db_spec c st)) (snd (db_spec c st)) (N + db_bound c) (I + 2) (H + node_bound B c)"
    "keeps_safe (db_inner db) s (db_inner db1) s1" by auto
  have "snapshots_safe (en_next_sst_id (db_inner db1)) s1" using 1(4) Cons.prems(2) by (simp add: keeps_safe_def)
  from Cons.IH [OF 1(3) this] Cons.prems obtain rs db2 s2 where
    2: "run_db crc xxh opts lib ps cs db1 s1 = Some (rs, db2, s2)" "length rs = length cs" "db_run_spec mt d cs (db_spec c st) rs"
      "snapshots_safe (en_next_sst_id (db_inner db2)) s2"
      "db_rep crc xxh mt d db2 s2 (fst (db_spec_all cs (db_spec c st))) (snd (db_spec_all cs (db_spec c st)))
        (N + db_bound c + sum_list (map db_bound cs)) (I + 2 + 2 * length cs)
        (H + node_bound B c + sum_list (map (node_bound B) cs))" by (auto simp: add.assoc)
  show ?case
    using 1(1,2) 2 by (intro exI [of _ "r # rs"] exI [of _ db2] exI [of _ s2]) (simp add: add.assoc)
qed

text \<open>C2: The database survives a power loss. After any sequence of writes, queries and flushes on an empty
  directory the power may fail, and anything not yet on stable storage be lost or kept: any of the snapshots
  that were removed may be back, unsynced bytes gone. The directory opens without error, and all that follows,
  restarts included, answers as if the power had not failed: no acknowledged write is lost, from the
  store or from the index, and no deleted or overwritten vector returns.
\<close>
theorem database_survives_power_loss:
  fixes lib :: "'r rng_lib"
  assumes fresh: "plan s = []" "names s = []" "fit_params ps d"
    and cs: "\<forall>c \<in> set cs. db_command_ok (hp_metric ps) d c \<and> \<not> restarts c"
    and cs': "\<forall>c \<in> set cs'. db_command_ok (hp_metric ps) d c"
    and B: "sum_list (map db_bound (cs @ cs')) \<le> B" "B < 2 ^ 62" and I: "2 * length (cs @ cs') < 2 ^ 64"
    and H: "sum_list (map (node_bound B) (cs @ DbReopen # cs')) < 2 ^ 32"
  shows "\<exists>db s0 rs db' s'. db_open crc lib ps s = Some (Inr db, s0) \<and>
    run_db crc xxh opts lib ps cs db s0 = Some (rs, db', s') \<and> (\<exists>t. crashed s' t) \<and>
    (\<forall>t. crashed s' t \<longrightarrow>
      (\<exists>db1 t1 rs' db2 t2. db_open crc lib ps t = Some (Inr db1, t1) \<and>
        run_db crc xxh opts lib ps cs' db1 t1 = Some (rs', db2, t2) \<and>
        db_run_spec (hp_metric ps) d (cs @ cs') (Map.empty, {}) (rs @ rs')))"
proof -
  let ?mt = "hp_metric ps" and ?N = "sum_list (map db_bound cs)" and ?H = "sum_list (map (node_bound B) cs)"
  let ?st = "db_spec_all cs (Map.empty, {})"
  from db_open_fresh [OF fresh refl, of crc lib xxh] obtain db s0 where
    db: "db_open crc lib ps s = Some (Inr db, s0)" "db_rep crc xxh ?mt d db s0 Map.empty {} 0 0 0"
      "snapshots_safe (en_next_sst_id (db_inner db)) s0" by blast
  have bounds: "0 + ?N \<le> B" "0 + 2 * length cs < 2 ^ 64" "0 + ?H < 2 ^ 32" using B I H by simp_all
  from run_db_safe [where st = "(Map.empty, {})" and crc = crc and xxh = xxh and opts = opts and lib = lib, OF fresh(3) refl B(2) _ db(3) cs bounds] db(2) obtain rs db' s' where
    1: "run_db crc xxh opts lib ps cs db s0 = Some (rs, db', s')" "length rs = length cs" "db_run_spec ?mt d cs (Map.empty, {}) rs"
      "snapshots_safe (en_next_sst_id (db_inner db')) s'"
      "db_rep crc xxh ?mt d db' s' (fst ?st) (snd ?st) ?N (2 * length cs) ?H" by auto
  have "\<exists>db1 t1 rs' db2 t2. db_open crc lib ps t = Some (Inr db1, t1) \<and>
      run_db crc xxh opts lib ps cs' db1 t1 = Some (rs', db2, t2) \<and>
      db_run_spec ?mt d (cs @ cs') (Map.empty, {}) (rs @ rs')" if c: "crashed s' t" for t
  proof -
    have "?N div 29 \<le> B div 29" using B by (intro div_le_mono) simp
    then have n: "?H + ?N div 29 < 2 ^ 32" "?H + ?N div 29 + sum_list (map (node_bound B) cs') < 2 ^ 32"
      using H by simp_all
    from db_open_crashed [OF 1(5,4) c fresh(3) refl n(1), of lib] obtain db1 t1 where
      2: "db_open crc lib ps t = Some (Inr db1, t1)"
        "db_rep crc xxh ?mt d db1 t1 (fst ?st) (snd ?st) ?N (2 * length cs) (?H + ?N div 29)" by blast
    have "?N + sum_list (map db_bound cs') \<le> B" "2 * length cs + 2 * length cs' < 2 ^ 64" using B I by simp_all
    from run_db_rep [OF fresh(3) refl B(2) 2(2) cs' this n(2), of opts lib] obtain rs' db2 t2 where
      "run_db crc xxh opts lib ps cs' db1 t1 = Some (rs', db2, t2)" "db_run_spec ?mt d cs' ?st rs'" by blast
    with 2(1) 1(3) run_spec_append [OF 1(2), of ?mt d cs' "(Map.empty, {})" rs'] show ?thesis by blast
  qed
  moreover have "\<exists>t. crashed s' t"
    using 1(5) crash_possible [of s'] by (auto simp: db_rep_def db_on_def engine_at_def engine_on_def durable_def)
  ultimately show ?thesis using db(1) 1(1) by blast
qed

theorem database_survives_power_loss_witness:
  "\<exists>(db :: unit db) s0 rs db' s' t db1 t1 db2 t2. db_open (\<lambda>_. 7) sample_rng line_params empty_fs = Some (Inr db, s0) \<and>
    run_db (\<lambda>_. 7) (\<lambda>_. 9) small_options sample_rng line_params [DbPutIndexed [1] [F32_ONE], DbFlush] db s0 =
      Some (rs, db', s') \<and> crashed s' t \<and>
    db_open (\<lambda>_. 7) sample_rng line_params t = Some (Inr db1, t1) \<and>
    run_db (\<lambda>_. 7) (\<lambda>_. 9) small_options sample_rng line_params [DbGet [1]] db1 t1 =
      Some ([Inr (Value (Some (encode_vector [F32_ONE])))], db2, t2)"
proof -
  let ?cs = "[DbPutIndexed [1] [F32_ONE], DbFlush]" and ?cs' = "[DbGet [1]]"
  have mt: "hp_metric line_params = EuclideanSquared" and ps: "fit_params line_params 1"
    by (simp_all add: line_params_def default_params_def fit_params_def small_params_def Let_def)
  have v: "preprocess_vector EuclideanSquared [F32_ONE] = Some [F32_ONE]" by (simp add: preprocess_vector_def line_finite)
  have ok: "\<forall>c \<in> set ?cs. db_command_ok (hp_metric line_params) 1 c \<and> \<not> restarts c"
    "\<forall>c \<in> set ?cs'. db_command_ok (hp_metric line_params) 1 c"
    by (simp_all add: mt valid_vector_def v line_finite valid_key_def valid_value_def MAX_KEY_LEN_def MAX_VALUE_LEN_def)
  have b: "sum_list (map db_bound (?cs @ ?cs')) \<le> 290" "(290 :: nat) < 2 ^ 62" "2 * length (?cs @ ?cs') < 2 ^ 64"
    "sum_list (map (node_bound 290) (?cs @ DbReopen # ?cs')) < 2 ^ 32" by (simp_all add: entry_bound_def)
  have fs: "plan empty_fs = []" "names empty_fs = []" by (simp_all add: empty_fs_def)
  from database_survives_power_loss [OF fs ps ok b, of "\<lambda>_. 7" sample_rng "\<lambda>_. 9" small_options]
  obtain db :: "unit db" and s0 rs db' s' t where
    1: "db_open (\<lambda>_. 7) sample_rng line_params empty_fs = Some (Inr db, s0)"
      "run_db (\<lambda>_. 7) (\<lambda>_. 9) small_options sample_rng line_params ?cs db s0 = Some (rs, db', s')"
    and t: "crashed s' t"
    and after: "\<forall>t. crashed s' t \<longrightarrow>
      (\<exists>(db1 :: unit db) t1 rs' db2 t2. db_open (\<lambda>_. 7) sample_rng line_params t = Some (Inr db1, t1) \<and>
        run_db (\<lambda>_. 7) (\<lambda>_. 9) small_options sample_rng line_params ?cs' db1 t1 = Some (rs', db2, t2) \<and>
        db_run_spec EuclideanSquared 1 (?cs @ ?cs') (Map.empty, {}) (rs @ rs'))" unfolding mt by blast
  from after [rule_format, OF t] obtain db1 :: "unit db" and t1 rs' db2 t2 where
    2: "db_open (\<lambda>_. 7) sample_rng line_params t = Some (Inr db1, t1)"
      "run_db (\<lambda>_. 7) (\<lambda>_. 9) small_options sample_rng line_params ?cs' db1 t1 = Some (rs', db2, t2)"
    and spec: "db_run_spec EuclideanSquared 1 (?cs @ ?cs') (Map.empty, {}) (rs @ rs')" by blast
  have "length rs = 2" using 1(2) by (auto split: option.splits prod.splits)
  then obtain r1 r2 where "rs = [r1, r2]" by (auto simp: numeral_2_eq_2 length_Suc_conv)
  with spec have "rs' = [Inr (Value (Some (encode_vector [F32_ONE])))]" by (auto split: list.splits)
  with 1 2 t show ?thesis by blast
qed

end
