(* ===== verification/Quantize.thy ===== *)
theory Quantize
  imports F32
begin

text \<open>
  The scalar quantizer of \<^verbatim>\<open>src/src/quantize.rs\<close>: training by the minimum and maximum of each
  dimension, quantization to one byte per dimension, and back.
\<close>

section \<open>The quantizer\<close>

record scalar_quantizer =
  sq_min :: "f32 list"
  sq_max :: "f32 list"

text \<open>The inner loop of \<^verbatim>\<open>train\<close>, over the components of one vector from dimension \<open>d\<close> on.\<close>

fun train_components ::
  "nat \<Rightarrow> f32 list \<Rightarrow> scalar_quantizer \<Rightarrow> error + scalar_quantizer" where
  "train_components d [] q = Inr q"
| "train_components d (x # xs) q =
     (if \<not> f32_is_finite x then Inl (InvalidArgument ''training vector component is non-finite'')
      else
        (let q = (if f32_lt x (sq_min q ! d) then q\<lparr>sq_min := (sq_min q)[d := x]\<rparr> else q);
             q = (if f32_lt (sq_max q ! d) x then q\<lparr>sq_max := (sq_max q)[d := x]\<rparr> else q)
         in train_components (d + 1) xs q))"

fun train_vectors ::
  "nat \<Rightarrow> f32 list list \<Rightarrow> scalar_quantizer \<Rightarrow> error + scalar_quantizer" where
  "train_vectors dim [] q = Inr q"
| "train_vectors dim (v # vs) q =
     (if length v \<noteq> dim then Inl (InvalidArgument ''training vector has an unexpected dimension'')
      else
        (case train_components 0 v q of
           Inl e \<Rightarrow> Inl e
         | Inr q \<Rightarrow> train_vectors dim vs q))"

definition train :: "f32 list list \<Rightarrow> error + scalar_quantizer" where
  "train sample =
     (case sample of
        [] \<Rightarrow> Inl (InvalidArgument ''cannot train quantizer on empty sample'')
      | first # _ \<Rightarrow>
          (let dim = length first
           in if dim = 0 then Inl (InvalidArgument ''cannot train quantizer on zero-dimension vectors'')
              else train_vectors dim sample
                     \<lparr>sq_min = replicate dim F32_INFINITY, sq_max = replicate dim F32_NEG_INFINITY\<rparr>))"

definition sq_dim :: "scalar_quantizer \<Rightarrow> nat" where
  "sq_dim q = length (sq_min q)"

definition quantize_component :: "f32 \<Rightarrow> f32 \<Rightarrow> f32 \<Rightarrow> u8" where
  "quantize_component lo hi x =
     (let range = f32_sub hi lo
      in if f32_eq range F32_ZERO then 0
         else
           (let scaled = f32_mul (f32_div (f32_sub x lo) range) F32_255
            in f32_to_u8 (f32_clamp F32_ZERO F32_255 (f32_round scaled))))"

definition quantize :: "scalar_quantizer \<Rightarrow> f32 list \<Rightarrow> error + bytes" where
  "quantize q v =
     (if length v \<noteq> sq_dim q then Inl (InvalidArgument ''quantize: dimension mismatch'')
      else Inr (map (\<lambda>d. quantize_component (sq_min q ! d) (sq_max q ! d) (v ! d)) [0..<length v]))"

definition dequantize_component :: "f32 \<Rightarrow> f32 \<Rightarrow> u8 \<Rightarrow> f32" where
  "dequantize_component lo hi b =
     (let range = f32_sub hi lo
      in if f32_eq range F32_ZERO then lo
         else f32_add lo (f32_mul (f32_div (f32_of_nat (unat b)) F32_255) range))"

definition dequantize :: "scalar_quantizer \<Rightarrow> bytes \<Rightarrow> error + f32 list" where
  "dequantize q bs =
     (if length bs \<noteq> sq_dim q then Inl (InvalidArgument ''dequantize: dimension mismatch'')
      else Inr (map (\<lambda>d. dequantize_component (sq_min q ! d) (sq_max q ! d) (bs ! d)) [0..<length bs]))"

definition sq_round_trip :: "scalar_quantizer \<Rightarrow> f32 list \<Rightarrow> error + f32 list" where
  "sq_round_trip q v = (case quantize q v of Inl e \<Rightarrow> Inl e | Inr bs \<Rightarrow> dequantize q bs)"

section \<open>Training\<close>

text \<open>\<open>covers q d x\<close>: the learned range of dimension \<open>d\<close> contains \<open>x\<close>.\<close>

definition covers :: "scalar_quantizer \<Rightarrow> nat \<Rightarrow> f32 \<Rightarrow> bool" where
  "covers q d x \<longleftrightarrow> \<not> f32_lt x (sq_min q ! d) \<and> \<not> f32_lt (sq_max q ! d) x"

definition sq_ok :: "nat \<Rightarrow> scalar_quantizer \<Rightarrow> bool" where
  "sq_ok n q \<longleftrightarrow> length (sq_min q) = n \<and> length (sq_max q) = n \<and>
     (\<forall>d < n. \<not> f32_is_nan (sq_min q ! d) \<and> \<not> f32_is_nan (sq_max q ! d))"

text \<open>Training only widens ranges.\<close>

definition widens :: "scalar_quantizer \<Rightarrow> scalar_quantizer \<Rightarrow> bool" where
  "widens q q' \<longleftrightarrow> (\<forall>d x. \<not> f32_is_nan x \<longrightarrow> d < length (sq_min q) \<longrightarrow> covers q d x \<longrightarrow> covers q' d x)"

lemma covers_key:
  "sq_ok n q \<Longrightarrow> d < n \<Longrightarrow> \<not> f32_is_nan x \<Longrightarrow>
   covers q d x \<longleftrightarrow> f32_key (sq_min q ! d) \<le> f32_key x \<and> f32_key x \<le> f32_key (sq_max q ! d)"
  by (auto simp: covers_def sq_ok_def f32_lt_key not_less)

definition widen_at :: "nat \<Rightarrow> f32 \<Rightarrow> scalar_quantizer \<Rightarrow> scalar_quantizer" where
  "widen_at d x q =
     (let q = (if f32_lt x (sq_min q ! d) then q\<lparr>sq_min := (sq_min q)[d := x]\<rparr> else q)
      in if f32_lt (sq_max q ! d) x then q\<lparr>sq_max := (sq_max q)[d := x]\<rparr> else q)"

lemma widen_at_sel:
  "length (sq_min (widen_at d x q)) = length (sq_min q)"
  "length (sq_max (widen_at d x q)) = length (sq_max q)"
  "c < length (sq_min q) \<Longrightarrow>
   sq_min (widen_at d x q) ! c = (if c = d \<and> f32_lt x (sq_min q ! d) then x else sq_min q ! c)"
  "c < length (sq_max q) \<Longrightarrow>
   sq_max (widen_at d x q) ! c = (if c = d \<and> f32_lt (sq_max q ! d) x then x else sq_max q ! c)"
  by (auto simp: widen_at_def Let_def nth_list_update)

lemma widen_at:
  assumes q: "sq_ok n q" and d: "d < n" and "f32_is_finite x"
  shows "sq_ok n (widen_at d x q) \<and> widens q (widen_at d x q) \<and> covers (widen_at d x q) d x"
proof -
  have x: "\<not> f32_is_nan x" using assms(3) by (rule f32_finite_not_nan)
  have len: "length (sq_min q) = n" "length (sq_max q) = n" using q by (simp_all add: sq_ok_def)
  note sel = widen_at_sel [where q = q, unfolded len]
  have ok: "sq_ok n (widen_at d x q)" using q x by (simp add: sq_ok_def sel)
  have nan: "\<not> f32_is_nan (sq_min q ! d)" "\<not> f32_is_nan (sq_max q ! d)"
    using q d by (simp_all add: sq_ok_def)
  have "covers (widen_at d x q) d x"
    using nan x d by (simp add: covers_key [OF ok] sel f32_lt_key)
  moreover have "covers (widen_at d x q) c y"
    if y: "\<not> f32_is_nan y" "c < length (sq_min q)" "covers q c y" for c y
  proof -
    have c: "c < n" using y(2) len by simp
    have "f32_key (sq_min q ! c) \<le> f32_key y \<and> f32_key y \<le> f32_key (sq_max q ! c)"
      using y(3) covers_key [OF q c y(1)] by simp
    with nan x c show ?thesis by (auto simp: covers_key [OF ok c y(1)] sel f32_lt_key)
  qed
  ultimately show ?thesis using ok by (auto simp: widens_def)
qed

lemma widens_refl: "widens q q"
  by (simp add: widens_def)

lemma widens_trans: "sq_ok n q \<Longrightarrow> sq_ok n q' \<Longrightarrow> widens q q' \<Longrightarrow> widens q' q'' \<Longrightarrow> widens q q''"
  by (auto simp: widens_def sq_ok_def)

lemma train_components_step:
  "train_components d (x # xs) q =
     (if \<not> f32_is_finite x then Inl (InvalidArgument ''training vector component is non-finite'')
      else train_components (d + 1) xs (widen_at d x q))"
  by (simp add: widen_at_def Let_def)

lemma train_components_ok:
  "sq_ok n q \<Longrightarrow> d + length xs \<le> n \<Longrightarrow> list_all f32_is_finite xs \<Longrightarrow>
   \<exists>q'. train_components d xs q = Inr q' \<and> sq_ok n q' \<and> widens q q' \<and>
     (\<forall>i < length xs. covers q' (d + i) (xs ! i))"
proof (induction xs arbitrary: d q)
  case Nil
  then show ?case by (simp add: widens_refl)
next
  case (Cons x xs)
  from Cons.prems have x: "f32_is_finite x" "d < n" by simp_all
  note w = widen_at [OF Cons.prems(1) x(2,1)]
  from Cons.IH [of "widen_at d x q" "d + 1"] w Cons.prems obtain q' where
    q': "train_components (d + 1) xs (widen_at d x q) = Inr q'" "sq_ok n q'" "widens (widen_at d x q) q'"
      "\<forall>i < length xs. covers q' (d + 1 + i) (xs ! i)" by auto
  have "covers q' d x"
    using q'(3) w x f32_finite_not_nan unfolding widens_def sq_ok_def by metis
  then have "covers q' (d + i) ((x # xs) ! i)" if "i < length (x # xs)" for i
    using q'(4) that by (cases i) auto
  then show ?case
    using q' w x widens_trans [of n q "widen_at d x q" q'] Cons.prems(1)
    by (simp add: train_components_step del: train_components.simps(2))
qed

lemma train_components_msg: "train_components d xs q = Inl e \<Longrightarrow> \<exists>msg. e = InvalidArgument msg"
  by (induction d xs q rule: train_components.induct) (auto simp: Let_def split: if_splits)

lemma train_components_error:
  "\<not> list_all f32_is_finite xs \<Longrightarrow> \<exists>msg. train_components d xs q = Inl (InvalidArgument msg)"
  by (induction d xs q rule: train_components.induct) (auto simp: Let_def)

definition vector_ok :: "nat \<Rightarrow> f32 list \<Rightarrow> bool" where
  "vector_ok n v \<longleftrightarrow> length v = n \<and> list_all f32_is_finite v"

lemma train_vectors_ok:
  "sq_ok n q \<Longrightarrow> \<forall>v \<in> set vs. vector_ok n v \<Longrightarrow>
   \<exists>q'. train_vectors n vs q = Inr q' \<and> sq_ok n q' \<and> widens q q' \<and>
     (\<forall>v \<in> set vs. \<forall>d < n. covers q' d (v ! d))"
proof (induction vs arbitrary: q)
  case Nil
  then show ?case by (simp add: widens_refl)
next
  case (Cons v vs)
  then have v: "length v = n" "list_all f32_is_finite v" by (simp_all add: vector_ok_def)
  from train_components_ok [OF Cons.prems(1), of 0 v] v obtain q1 where
    q1: "train_components 0 v q = Inr q1" "sq_ok n q1" "widens q q1" "\<forall>i < n. covers q1 i (v ! i)"
    by auto
  from Cons.IH [OF q1(2)] Cons.prems obtain q' where
    q': "train_vectors n vs q1 = Inr q'" "sq_ok n q'" "widens q1 q'"
      "\<forall>v \<in> set vs. \<forall>d < n. covers q' d (v ! d)" by auto
  have "covers q' d (v ! d)" if "d < n" for d
  proof -
    have "\<not> f32_is_nan (v ! d)" using v that by (simp add: list_all_length f32_finite_not_nan)
    with that q'(3) q1 show ?thesis by (simp add: widens_def sq_ok_def)
  qed
  with q1 q' v widens_trans [of n q q1 q'] Cons.prems(1) show ?case by auto
qed

lemma train_vectors_error:
  "\<not> (\<forall>v \<in> set vs. vector_ok n v) \<Longrightarrow> \<exists>msg. train_vectors n vs q = Inl (InvalidArgument msg)"
proof (induction vs arbitrary: q)
  case (Cons v vs)
  show ?case
  proof (cases "vector_ok n v")
    case True
    then have "\<not> (\<forall>v \<in> set vs. vector_ok n v)" using Cons.prems by simp
    with Cons.IH True show ?thesis by (auto simp: vector_ok_def split: sum.split dest!: train_components_msg)
  next
    case False
    then show ?thesis using train_components_error [of v 0 q] by (auto simp: vector_ok_def)
  qed
qed simp


text \<open>Every bound is the one it started from or a component of the sample.\<close>

lemma train_components_attained:
  "train_components d xs q = Inr q' \<Longrightarrow> length (sq_min q) = n \<Longrightarrow> length (sq_max q) = n \<Longrightarrow> d + length xs \<le> n \<Longrightarrow> c < n \<Longrightarrow>
   (sq_min q' ! c = sq_min q ! c \<or> (\<exists>i < length xs. c = d + i \<and> sq_min q' ! c = xs ! i)) \<and>
   (sq_max q' ! c = sq_max q ! c \<or> (\<exists>i < length xs. c = d + i \<and> sq_max q' ! c = xs ! i))"
proof (induction xs arbitrary: d q)
  case (Cons x xs)
  have run: "train_components (d + 1) xs (widen_at d x q) = Inr q'"
    using Cons.prems(1) by (simp add: train_components_step del: train_components.simps(2) split: if_split_asm)
  have one: "(sq_min (widen_at d x q) ! c = sq_min q ! c \<or> c = d \<and> sq_min (widen_at d x q) ! c = x) \<and>
    (sq_max (widen_at d x q) ! c = sq_max q ! c \<or> c = d \<and> sq_max (widen_at d x q) ! c = x)"
    using Cons.prems(2,3,5) by (auto simp: widen_at_sel)
  have shift: "\<exists>j < length (x # xs). c = d + j \<and> y = (x # xs) ! j"
    if "\<exists>i < length xs. c = d + 1 + i \<and> y = xs ! i" for y
    using that by (metis Suc_less_eq add.assoc length_Cons nth_Cons_Suc plus_1_eq_Suc)
  have here: "\<exists>j < length (x # xs). c = d + j \<and> y = (x # xs) ! j" if "c = d \<and> y = x" for y
    using that by (intro exI [of _ 0]) simp
  have "length (sq_min (widen_at d x q)) = n" "length (sq_max (widen_at d x q)) = n" "d + 1 + length xs \<le> n"
    using Cons.prems(2-4) by (simp_all add: widen_at_sel)
  note ih = Cons.IH [OF run this Cons.prems(5)]
  have "y = b \<or> (\<exists>j < length (x # xs). c = d + j \<and> y = (x # xs) ! j)"
    if "y = a \<or> (\<exists>i < length xs. c = d + 1 + i \<and> y = xs ! i)" and "a = b \<or> c = d \<and> a = x" for y a b
    using that shift [of y] here [of y] by blast
  with ih one show ?case by blast
qed simp

lemma train_vectors_attained:
  "train_vectors n vs q = Inr q' \<Longrightarrow> sq_ok n q \<Longrightarrow> c < n \<Longrightarrow>
   (sq_min q' ! c = sq_min q ! c \<or> (\<exists>v \<in> set vs. sq_min q' ! c = v ! c)) \<and>
   (sq_max q' ! c = sq_max q ! c \<or> (\<exists>v \<in> set vs. sq_max q' ! c = v ! c))"
proof (induction vs arbitrary: q)
  case (Cons v vs)
  then have v: "length v = n" by (simp split: if_split_asm)
  with Cons.prems(1) obtain q1 where q1: "train_components 0 v q = Inr q1" "train_vectors n vs q1 = Inr q'"
    by (auto split: sum.split_asm)
  have "list_all f32_is_finite v" using train_components_error [of v 0 q] q1(1) by auto
  from train_components_ok [OF Cons.prems(2) _ this, of 0] v obtain q2 where
    "train_components 0 v q = Inr q2" "sq_ok n q2" by auto
  then have ok: "sq_ok n q1" using q1(1) by simp
  have "length (sq_min q) = n" "length (sq_max q) = n" using Cons.prems(2) by (simp_all add: sq_ok_def)
  from train_components_attained [OF q1(1) this _ Cons.prems(3)] v
  have "sq_min q1 ! c \<in> {sq_min q ! c, v ! c}" "sq_max q1 ! c \<in> {sq_max q ! c, v ! c}" by auto
  with Cons.IH [OF q1(2) ok Cons.prems(3)] show ?case by auto
qed simp

text \<open>
  The least and the greatest of a set of floats: members that no member is below, or above. Negative and
  positive zero are equal in this order, and the first to come stays.
\<close>

definition f32_least :: "f32 set \<Rightarrow> f32 \<Rightarrow> bool" where
  "f32_least X x \<longleftrightarrow> x \<in> X \<and> (\<forall>y \<in> X. \<not> f32_lt y x)"

definition f32_greatest :: "f32 set \<Rightarrow> f32 \<Rightarrow> bool" where
  "f32_greatest X x \<longleftrightarrow> x \<in> X \<and> (\<forall>y \<in> X. \<not> f32_lt x y)"

lemma finite_below_infinity:
  assumes "f32_is_finite x"
  shows "f32_lt x F32_INFINITY" and "f32_lt F32_NEG_INFINITY x"
proof -
  have "unpack32 F32_INFINITY = FInf False" "unpack32 F32_NEG_INFINITY = FInf True" by (simp_all add: float_eval)
  then show "f32_lt x F32_INFINITY" "f32_lt F32_NEG_INFINITY x"
    using assms unfolding f32_lt_def f32_is_finite_def by (cases "unpack32 x"; simp)+
qed

text \<open>C26: Training succeeds exactly on a non-empty sample of finite vectors of one non-zero dimension,
  with an invalid-argument error otherwise. In every dimension the learned bounds are the minimum and the
  maximum of that component over the sample: each is the component of a training vector, and no training
  vector lies outside them.\<close>

theorem train_learns_ranges:
  "case train sample of
     Inl e \<Rightarrow> (\<exists>msg. e = InvalidArgument msg) \<and>
       \<not> (\<exists>n. 0 < n \<and> sample \<noteq> [] \<and> (\<forall>v \<in> set sample. vector_ok n v))
   | Inr q \<Rightarrow> 0 < sq_dim q \<and> sq_ok (sq_dim q) q \<and> sample \<noteq> [] \<and> (\<forall>v \<in> set sample. vector_ok (sq_dim q) v) \<and>
       (\<forall>d < sq_dim q. f32_least ((\<lambda>v. v ! d) ` set sample) (sq_min q ! d) \<and>
          f32_greatest ((\<lambda>v. v ! d) ` set sample) (sq_max q ! d))"
proof (cases "\<exists>n. 0 < n \<and> sample \<noteq> [] \<and> (\<forall>v \<in> set sample. vector_ok n v)")
  case True
  then obtain n v vs where n: "0 < n" "\<forall>v \<in> set sample. vector_ok n v" and s: "sample = v # vs"
    by (metis list.exhaust)
  then have v: "length v = n" by (simp add: vector_ok_def)
  define q0 where "q0 = \<lparr>sq_min = replicate n F32_INFINITY, sq_max = replicate n F32_NEG_INFINITY\<rparr>"
  have "\<not> f32_is_nan F32_INFINITY" "\<not> f32_is_nan F32_NEG_INFINITY"
    by (simp_all add: f32_is_nan_def float_eval)
  then have q0: "sq_ok n q0" by (simp add: sq_ok_def q0_def)
  from train_vectors_ok [OF this n(2)] obtain q where q: "train_vectors n sample q0 = Inr q" "sq_ok n q"
    "\<forall>v \<in> set sample. \<forall>d < n. covers q d (v ! d)" by blast
  have "f32_least ((\<lambda>v. v ! d) ` set sample) (sq_min q ! d) \<and> f32_greatest ((\<lambda>v. v ! d) ` set sample) (sq_max q ! d)"
    if d: "d < n" for d
  proof -
    have "f32_is_finite (v ! d)" using n(2) s d by (simp add: vector_ok_def list_all_length)
    moreover have "covers q d (v ! d)" using q(3) s d by simp
    ultimately have "sq_min q ! d \<noteq> F32_INFINITY" "sq_max q ! d \<noteq> F32_NEG_INFINITY"
      using finite_below_infinity by (auto simp: covers_def)
    with train_vectors_attained [OF q(1) q0 d] d show ?thesis
      using q(3) by (auto simp: q0_def f32_least_def f32_greatest_def covers_def)
  qed
  moreover have "sq_dim q = n" using q(2) by (simp add: sq_ok_def sq_dim_def)
  moreover have "train sample = Inr q" using q(1) n(1) v by (simp add: train_def s Let_def q0_def)
  ultimately show ?thesis using n q(2) s by simp
next
  case False
  have "\<exists>msg. train sample = Inl (InvalidArgument msg)"
  proof (cases sample)
    case (Cons v vs)
    with False have "length v = 0 \<or> \<not> (\<forall>u \<in> set sample. vector_ok (length v) u)" by auto
    then show ?thesis
      using train_vectors_error [of sample "length v"] by (auto simp: train_def Cons Let_def)
  qed (simp add: train_def)
  with False show ?thesis by auto
qed

theorem train_learns_ranges_witness:
  "\<exists>q. train [[F32_ZERO], [F32_ONE]] = Inr q \<and> sq_min q ! 0 = F32_ZERO \<and> sq_max q ! 0 = F32_ONE"
proof -
  have fin: "f32_is_finite F32_ZERO" "f32_is_finite F32_ONE" and lt: "f32_lt F32_ZERO F32_ONE"
    by (simp_all add: f32_is_finite_def f32_lt_def float_eval)
  then have ok: "\<forall>v \<in> set [[F32_ZERO], [F32_ONE]]. vector_ok 1 v" by (simp add: vector_ok_def)
  show ?thesis
  proof (cases "train [[F32_ZERO], [F32_ONE]]")
    case (Inl e)
    with train_learns_ranges [of "[[F32_ZERO], [F32_ONE]]"] ok show ?thesis by force
  next
    case (Inr q)
    with train_learns_ranges [of "[[F32_ZERO], [F32_ONE]]"]
    have "f32_least {F32_ZERO, F32_ONE} (sq_min q ! 0)" "f32_greatest {F32_ZERO, F32_ONE} (sq_max q ! 0)" by auto
    with Inr lt show ?thesis by (auto simp: f32_least_def f32_greatest_def)
  qed
qed

section \<open>Quantization\<close>

text \<open>
  Every step of the computation is a monotone function of the position in the order of floats.
  \<open>odd_ext F\<close> extends a function on magnitudes to signed counts of units.
\<close>

definition odd_ext :: "(nat \<Rightarrow> nat) \<Rightarrow> int \<Rightarrow> int" where
  "odd_ext F v = with_sign (v < 0) (F (nat \<bar>v\<bar>))"

lemma odd_ext_mono: "mono F \<Longrightarrow> v \<le> u \<Longrightarrow> odd_ext F v \<le> odd_ext F u"
  unfolding odd_ext_def by (rule with_sign_mono) (auto dest: monoD)

lemma odd_ext_with_sign: "F 0 = 0 \<Longrightarrow> odd_ext F (with_sign s n) = with_sign s (F n)"
  by (cases "n = 0") (auto simp: odd_ext_def with_sign_def)

definition unit32 :: nat where "unit32 = 2 ^ fscale 23 8"

lemma unit32: "unit32 = 2 ^ 149"
  by (simp add: unit32_def fscale_def)

text \<open>A number whose position is \<open>v\<close>.\<close>

definition at_key :: "fnum \<Rightarrow> int \<Rightarrow> bool" where
  "at_key x v \<longleftrightarrow> x \<noteq> FNan \<and> fnum_ok 23 8 x \<and> fkey 23 8 x = v"

definition sub_key :: "int \<Rightarrow> int \<Rightarrow> int" where
  "sub_key l v = (if v = int (fover 23 8) \<or> v = - int (fover 23 8) then v
     else odd_ext (\<lambda>n. fsat 23 8 n 1) (v - l))"

definition div_key :: "nat \<Rightarrow> int \<Rightarrow> int" where
  "div_key r v = (if v = int (fover 23 8) \<or> v = - int (fover 23 8) then v
     else odd_ext (\<lambda>n. fsat 23 8 (n * unit32) r) v)"

definition mul_key :: "nat \<Rightarrow> int \<Rightarrow> int" where
  "mul_key r v = (if v = int (fover 23 8) \<or> v = - int (fover 23 8) then v
     else odd_ext (\<lambda>n. fsat 23 8 (n * r) unit32) v)"

definition round_key :: "int \<Rightarrow> int" where
  "round_key v = (if v = int (fover 23 8) \<or> v = - int (fover 23 8) then v
     else odd_ext (\<lambda>n. fsat 23 8 ((2 * n + unit32) div (2 * unit32) * unit32) 1) v)"

lemma fkey_bound: "fnum_ok p w x \<Longrightarrow> \<bar>fkey p w x\<bar> \<le> int (fover p w)"
  by (cases x) (auto simp: with_sign_def)

lemma at_key_cases:
  assumes "at_key x v"
  obtains s where "x = FInf s" "v = with_sign s (fover 23 8)"
  | s n where "x = FNum s n" "v = with_sign s n" "n < fover 23 8"
  using assms by (cases x) (auto simp: at_key_def)

lemma with_sign_fover: "n < fover p w \<Longrightarrow> with_sign s n \<noteq> int (fover p w) \<and> with_sign s n \<noteq> - int (fover p w)"
  by (auto simp: with_sign_def)

lemma at_key_sub:
  assumes "at_key x v" and "at_key (FNum s l) k"
  shows "at_key (fsub 23 8 x (FNum s l)) (sub_key k v)"
  using assms(1)
proof (cases rule: at_key_cases)
  case (1 t)
  then show ?thesis by (auto simp: at_key_def fsub_def sub_key_def with_sign_def)
next
  case (2 t n)
  have "with_sign t n + with_sign (\<not> s) l = v - k"
    using assms(2) 2 by (auto simp: at_key_def with_sign_def)
  then have "fkey 23 8 (fsub 23 8 x (FNum s l)) = odd_ext (\<lambda>n. fsat 23 8 n 1) (v - k)"
    by (simp add: fsub_def 2(1) fkey_fadd odd_ext_def del: fadd.simps)
  moreover have "fsub 23 8 x (FNum s l) \<noteq> FNan" by (simp add: fsub_def 2(1) Let_def)
  ultimately show ?thesis
    using assms 2 with_sign_fover [OF 2(3)] by (simp add: at_key_def sub_key_def)
qed

lemma at_key_div:
  assumes "at_key x v" and "0 < r"
  shows "at_key (fdiv 23 8 x (FNum False r)) (div_key r v)"
  using assms(1)
proof (cases rule: at_key_cases)
  case (1 t)
  then show ?thesis by (auto simp: at_key_def div_key_def with_sign_def)
next
  case (2 t n)
  then show ?thesis using with_sign_fover [OF 2(3)] assms(2)
    by (simp add: at_key_def div_key_def fkey_frnd odd_ext_with_sign unit32_def)
qed

lemma at_key_mul:
  assumes "at_key x v" and "0 < r"
  shows "at_key (fmul 23 8 x (FNum False r)) (mul_key r v)"
  using assms(1)
proof (cases rule: at_key_cases)
  case (1 t)
  then show ?thesis using assms(2) by (auto simp: at_key_def mul_key_def with_sign_def)
next
  case (2 t n)
  then show ?thesis using with_sign_fover [OF 2(3)] assms(2)
    by (simp add: at_key_def mul_key_def fkey_frnd odd_ext_with_sign unit32_def)
qed

lemma at_key_round:
  assumes "at_key x v" shows "at_key (fround_half 23 8 x) (round_key v)"
  using assms
proof (cases rule: at_key_cases)
  case (1 t)
  then show ?thesis by (auto simp: at_key_def round_key_def with_sign_def)
next
  case (2 t n)
  then show ?thesis using with_sign_fover [OF 2(3)]
    by (simp add: at_key_def round_key_def fkey_frnd odd_ext_with_sign unit32_def)
qed


lemma mono_fsat: "0 < d \<Longrightarrow> mono (\<lambda>n. fsat 23 8 n d)"
  by (rule monoI) (simp add: fsat_mono)

lemma mono_saturated:
  assumes "mono (f :: int \<Rightarrow> int)" and "\<And>v. \<bar>f v\<bar> \<le> m" and "\<bar>u\<bar> \<le> m" and "\<bar>v\<bar> \<le> m" and "v \<le> u"
  shows "(if v = m \<or> v = - m then v else f v) \<le> (if u = m \<or> u = - m then u else f u)"
  using assms(2) [of v] assms(2) [of u] assms(3-5) monoD [OF assms(1,5)] by auto

lemma odd_ext_fsat_bound: "\<bar>odd_ext (\<lambda>n. fsat 23 8 (f n) d) v\<bar> \<le> int (fover 23 8)"
  by (simp add: odd_ext_def with_sign_def fsat_def)

lemma key_steps_mono:
  assumes "v \<le> u" and "\<bar>u\<bar> \<le> int (fover 23 8)" and "\<bar>v\<bar> \<le> int (fover 23 8)"
  shows "sub_key k v \<le> sub_key k u" and "0 < r \<Longrightarrow> div_key r v \<le> div_key r u"
    and "mul_key r v \<le> mul_key r u" and "round_key v \<le> round_key u"
proof -
  have u: "0 < unit32" by (simp add: unit32)
  note m = mono_saturated [OF _ _ assms(2,3,1)]
  show "sub_key k v \<le> sub_key k u"
    unfolding sub_key_def
    by (rule m) (auto intro!: monoI odd_ext_mono odd_ext_fsat_bound fsat_mono)
  show "div_key r v \<le> div_key r u" if "0 < r"
    unfolding div_key_def using that
    by (intro m) (auto intro!: monoI odd_ext_mono odd_ext_fsat_bound fsat_mono)
  show "mul_key r v \<le> mul_key r u"
    unfolding mul_key_def using u
    by (intro m) (auto intro!: monoI odd_ext_mono odd_ext_fsat_bound fsat_mono)
  show "round_key v \<le> round_key u"
    unfolding round_key_def using u
    by (intro m) (auto intro!: monoI odd_ext_mono odd_ext_fsat_bound fsat_mono div_le_mono)
qed

lemma at_key_bound: "at_key x v \<Longrightarrow> \<bar>v\<bar> \<le> int (fover 23 8)"
  using fkey_bound [of 23 8 x] by (auto simp: at_key_def)

text \<open>The last step: clamp and cast.\<close>

definition byte_key :: "int \<Rightarrow> u8" where
  "byte_key v = word_of_nat (min 255 (nat v div unit32))"

lemma f32_consts:
  "unpack32 F32_ZERO = FNum False 0" "unpack32 F32_255 = FNum False (255 * unit32)"
  "255 * unit32 < fover 23 8"
  by (simp_all add: float_eval unit32 fover_def)

lemma at_key_byte:
  assumes "at_key x v"
  shows "fto_u8 23 8 (fclamp (FNum False 0) (FNum False (255 * unit32)) x) = byte_key v"
proof -
  have u: "0 < unit32" by (simp add: unit32)
  have "255 \<le> nat v div unit32" if "255 * int unit32 \<le> v"
  proof -
    have "255 * unit32 \<le> nat v" using that by linarith
    then show ?thesis using u by (simp add: less_eq_div_iff_mult_less_eq)
  qed
  with assms f32_consts(3) u show ?thesis
    by (cases rule: at_key_cases)
      (auto simp: fclamp_def byte_key_def with_sign_def unit32_def [symmetric] of_nat_less_iff [symmetric]
        simp del: of_nat_less_iff)
qed

definition component_key :: "nat \<Rightarrow> int \<Rightarrow> int \<Rightarrow> int" where
  "component_key r l v = round_key (mul_key (255 * unit32) (div_key r (sub_key l v)))"

lemma quantize_component_key:
  assumes lo: "f32_is_finite lo" and r: "unpack32 (f32_sub hi lo) = FNum False r" "0 < r"
    and x: "\<not> f32_is_nan x"
  shows "quantize_component lo hi x = byte_key (component_key r (f32_key lo) (f32_key x))"
proof -
  obtain s l where l: "unpack32 lo = FNum s l" using lo by (cases "unpack32 lo") (auto simp: f32_is_finite_def)
  have "at_key (unpack32 x) (f32_key x)" "at_key (FNum s l) (f32_key lo)"
    using x l unpack32_ok [of lo] by (simp_all add: at_key_def f32_key_def f32_is_nan_def)
  from at_key_sub [OF this] have
    "at_key (fsub 23 8 (unpack32 x) (unpack32 lo)) (sub_key (f32_key lo) (f32_key x))" by (simp add: l)
  from at_key_div [OF this r(2)]
  have "at_key (unpack32 (f32_div (f32_sub x lo) (f32_sub hi lo))) (div_key r (sub_key (f32_key lo) (f32_key x)))"
    using r(1) by (simp only: f32_unpack)
  from at_key_mul [OF this, of "255 * unit32"]
  have "at_key (unpack32 (f32_mul (f32_div (f32_sub x lo) (f32_sub hi lo)) F32_255))
      (mul_key (255 * unit32) (div_key r (sub_key (f32_key lo) (f32_key x))))"
    by (simp add: f32_consts unit32)
  from at_key_round [OF this] have
    "at_key (unpack32 (f32_round (f32_mul (f32_div (f32_sub x lo) (f32_sub hi lo)) F32_255)))
      (component_key r (f32_key lo) (f32_key x))" by (simp add: component_key_def)
  from at_key_byte [OF this] have
    "f32_to_u8 (f32_clamp F32_ZERO F32_255 (f32_round (f32_mul (f32_div (f32_sub x lo) (f32_sub hi lo)) F32_255)))
      = byte_key (component_key r (f32_key lo) (f32_key x))"
    by (simp add: f32_to_u8_def f32_consts del: f32_unpack) (simp add: f32_consts)
  moreover have "\<not> f32_eq (f32_sub hi lo) F32_ZERO"
    using r by (simp add: f32_eq_def f32_consts with_sign_def del: f32_unpack)
  ultimately show ?thesis by (simp add: quantize_component_def Let_def)
qed


lemma component_key_mono:
  assumes "0 < r" and "v \<le> u" and "\<bar>u\<bar> \<le> int (fover 23 8)" and "\<bar>v\<bar> \<le> int (fover 23 8)"
  shows "component_key r l v \<le> component_key r l u"
proof -
  have b: "\<bar>sub_key l w\<bar> \<le> int (fover 23 8)" "\<bar>div_key r w\<bar> \<le> int (fover 23 8)"
    "\<bar>mul_key c w\<bar> \<le> int (fover 23 8)" for w c
    using odd_ext_fsat_bound by (auto simp: sub_key_def div_key_def mul_key_def)
  show ?thesis
    unfolding component_key_def
    by (intro key_steps_mono b) (use assms in simp_all)
qed

lemma byte_key_mono: "v \<le> u \<Longrightarrow> byte_key v \<le> byte_key u"
proof -
  assume "v \<le> u"
  then have "min 255 (nat v div unit32) \<le> min 255 (nat u div unit32)"
    by (intro min.mono div_le_mono nat_mono) simp_all
  then show ?thesis by (simp add: byte_key_def word_le_nat_alt unsigned_of_nat take_bit_eq_mod)
qed

lemma range_key:
  assumes "f32_is_finite lo" and "f32_is_finite hi" and "f32_lt lo hi" and "f32_is_finite (f32_sub hi lo)"
  shows "\<exists>r. unpack32 (f32_sub hi lo) = FNum False r \<and> 0 < r \<and> fits_in 23 r \<and> r < fover 23 8 \<and>
    sub_key (f32_key lo) (f32_key hi) = int r"
proof -
  obtain s l t h where l: "unpack32 lo = FNum s l" and h: "unpack32 hi = FNum t h"
    using assms(1,2) by (cases "unpack32 lo"; cases "unpack32 hi") (auto simp: f32_is_finite_def)
  have k: "f32_key lo = with_sign s l" "f32_key hi = with_sign t h" by (simp_all add: f32_key_def l h)
  have "at_key (unpack32 hi) (f32_key hi)" "at_key (FNum s l) (f32_key lo)"
    using unpack32_ok [of hi] unpack32_ok [of lo] by (simp_all add: at_key_def f32_key_def l h)
  from at_key_sub [OF this] have sub: "at_key (unpack32 (f32_sub hi lo)) (sub_key (f32_key lo) (f32_key hi))"
    by (simp add: l)
  define d where "d = f32_key hi - f32_key lo"
  have d: "0 < d" using assms(3) by (simp add: d_def f32_lt_def l h k)
  have "fits_in 23 1" by (simp add: fits_in_small)
  then have "fsat 23 8 (1 * 1) 1 = 1" by (intro fsat_exact) (simp_all add: fover_def)
  then have "1 \<le> fsat 23 8 (nat d) 1" using fsat_mono [of 1 1 1 "nat d" 23 8] d by simp
  moreover have "f32_key hi \<noteq> int (fover 23 8) \<and> f32_key hi \<noteq> - int (fover 23 8)"
    unfolding k(2) by (rule with_sign_fover) (use unpack32_ok [of hi] in \<open>simp add: h\<close>)
  then have "sub_key (f32_key lo) (f32_key hi) = odd_ext (\<lambda>n. fsat 23 8 n 1) d"
    by (simp add: sub_key_def d_def)
  then have "sub_key (f32_key lo) (f32_key hi) = int (fsat 23 8 (nat d) 1)"
    using d by (simp add: odd_ext_def with_sign_def)
  moreover obtain r u where "unpack32 (f32_sub hi lo) = FNum u r"
    using assms(4) by (cases "unpack32 (f32_sub hi lo)") (auto simp: f32_is_finite_def)
  ultimately show ?thesis
    using sub unpack32_ok [of "f32_sub hi lo"]
    by (cases u) (auto simp: at_key_def with_sign_def simp del: f32_unpack)
qed

lemma range_key_zero:
  "f32_is_finite lo \<Longrightarrow> round_key (mul_key c (div_key r (sub_key (f32_key lo) (f32_key lo)))) = 0"
proof -
  assume "f32_is_finite lo"
  then obtain s l where l: "unpack32 lo = FNum s l" by (cases "unpack32 lo") (auto simp: f32_is_finite_def)
  have z: "int (fover 23 8) \<noteq> 0" by (simp add: fover_def)
  have "f32_key lo \<noteq> int (fover 23 8)" "f32_key lo \<noteq> - int (fover 23 8)"
    using unpack32_ok [of lo] with_sign_fover [of l 23 8 s] by (simp_all add: f32_key_def l)
  then have "sub_key (f32_key lo) (f32_key lo) = 0" by (simp add: sub_key_def odd_ext_def with_sign_def)
  then show ?thesis
    using z by (simp add: div_key_def mul_key_def round_key_def odd_ext_def with_sign_def unit32)
qed

lemma fits_255: "fits_in 23 (255 * unit32)"
  using fits_in_shift [of 255 23 149] by (simp add: unit32)

lemma range_key_one:
  assumes "0 < r" and "fits_in 23 r" and "r < fover 23 8"
  shows "round_key (mul_key (255 * unit32) (div_key r (int r))) = int (255 * unit32)"
proof -
  have u: "fits_in 23 unit32" "unit32 < fover 23 8" "0 < unit32"
    using fits_in_shift [of 1 23 149] by (simp_all add: unit32 fover_def)
  have "fsat 23 8 (unit32 * r) r = unit32" using assms u by (intro fsat_exact) simp_all
  then have 1: "div_key r (int r) = int unit32"
    using assms by (simp add: div_key_def odd_ext_def with_sign_def mult.commute)
  have "fsat 23 8 (255 * unit32 * unit32) unit32 = 255 * unit32"
    using u fits_255 f32_consts(3) by (intro fsat_exact) simp_all
  then have 2: "mul_key (255 * unit32) (int unit32) = int (255 * unit32)"
    using u by (simp add: mul_key_def odd_ext_def with_sign_def mult_ac)
  define m where "m = 255 * unit32"
  have "(2 * m + unit32) div (2 * unit32) * unit32 = m"
    by (simp add: unit32 m_def)
  moreover have "fsat 23 8 (m * 1) 1 = m"
    using fits_255 f32_consts(3) by (intro fsat_exact) (simp_all add: m_def)
  moreover have "m < fover 23 8" using f32_consts(3) by (simp add: m_def)
  ultimately have "round_key (int m) = int m"
    by (simp add: round_key_def odd_ext_def with_sign_def)
  then have "round_key (int (255 * unit32)) = int (255 * unit32)" by (simp only: m_def)
  with 1 2 show ?thesis by simp
qed

lemma quantize_saturates:
  assumes lo: "f32_is_finite lo" and hi: "f32_is_finite hi" and lt: "f32_lt lo hi"
    and fin: "f32_is_finite (f32_sub hi lo)" and x: "\<not> f32_is_nan x" and y: "\<not> f32_is_nan y"
  shows "(\<not> f32_lt y x \<longrightarrow> quantize_component lo hi x \<le> quantize_component lo hi y) \<and>
    (\<not> f32_lt lo x \<longrightarrow> quantize_component lo hi x = 0) \<and>
    (\<not> f32_lt x hi \<longrightarrow> quantize_component lo hi x = 255)"
proof -
  have nan: "\<not> f32_is_nan lo" "\<not> f32_is_nan hi" using lo hi by (simp_all add: f32_finite_not_nan)
  obtain r where r: "unpack32 (f32_sub hi lo) = FNum False r" "0 < r"
    and rf: "fits_in 23 r" "r < fover 23 8" and rk: "sub_key (f32_key lo) (f32_key hi) = int r"
    using range_key [OF lo hi lt fin] by blast
  note q = quantize_component_key [OF lo r]
  have b: "\<bar>f32_key z\<bar> \<le> int (fover 23 8)" for z
    unfolding f32_key_def by (rule fkey_bound) simp
  note mono = component_key_mono [OF r(2) _ b b]
  have l0: "component_key r (f32_key lo) (f32_key lo) = 0"
    by (simp add: component_key_def range_key_zero [OF lo])
  have h1: "component_key r (f32_key lo) (f32_key hi) = int (255 * unit32)"
    unfolding component_key_def rk by (rule range_key_one [OF r(2) rf])
  have "byte_key 0 = 0" by (simp add: byte_key_def)
  moreover have "byte_key w = 0" if "w \<le> 0" for w using that by (simp add: byte_key_def)
  moreover have "byte_key w = 255" if "int (255 * unit32) \<le> w" for w
  proof -
    have "255 * unit32 \<le> nat w" using that by linarith
    then have "255 \<le> nat w div unit32" by (simp add: less_eq_div_iff_mult_less_eq unit32)
    then show ?thesis by (simp add: byte_key_def)
  qed
  ultimately show ?thesis
    using mono [of x y "f32_key lo"] mono [of x lo "f32_key lo"] mono [of hi x "f32_key lo"] l0 h1
    by (auto simp: q x y f32_lt_key nan not_less intro: byte_key_mono)
qed

text \<open>Without a range, and with one that is no number, every component becomes zero.\<close>

lemma quantize_constant:
  assumes "f32_is_finite lo" and "f32_is_finite hi" and "\<not> f32_lt lo hi" and "\<not> f32_lt hi lo"
  shows "quantize_component lo hi x = 0"
proof -
  obtain s l t h where u: "unpack32 lo = FNum s l" "unpack32 hi = FNum t h"
    using assms(1,2) by (cases "unpack32 lo"; cases "unpack32 hi") (auto simp: f32_is_finite_def)
  have "with_sign s l = with_sign t h" using assms(3,4) by (simp add: f32_lt_def u)
  then have "with_sign t h + with_sign (\<not> s) l = 0" by (auto simp: with_sign_def)
  then have "f32_eq (f32_sub hi lo) F32_ZERO"
    by (simp add: f32_eq_def u fsub_def f32_consts Let_def with_sign_def)
  then show ?thesis by (simp add: quantize_component_def)
qed

lemma quantize_overflow:
  assumes "f32_is_finite lo" and "f32_is_finite hi" and "\<not> f32_is_finite (f32_sub hi lo)"
  shows "quantize_component lo hi x = 0"
proof -
  obtain s l t h where u: "unpack32 lo = FNum s l" "unpack32 hi = FNum t h"
    using assms(1,2) by (cases "unpack32 lo"; cases "unpack32 hi") (auto simp: f32_is_finite_def)
  have "unpack32 (f32_sub hi lo) \<noteq> FNan" by (simp add: fsub_def u Let_def)
  then obtain r where r: "unpack32 (f32_sub hi lo) = FInf r"
    using assms(3) by (cases "unpack32 (f32_sub hi lo)") (auto simp: f32_is_finite_def)
  have "unpack32 (f32_div (f32_sub x lo) (f32_sub hi lo)) = FNan \<or>
      (\<exists>a. unpack32 (f32_div (f32_sub x lo) (f32_sub hi lo)) = FNum a 0)"
    unfolding f32_unpack(5) r by (cases "unpack32 (f32_sub x lo)") auto
  moreover have zero: "frnd 23 8 a 0 d = FNum a 0" if "0 < d" for a d
    using that by (simp add: frnd_def fround_def fsat_def half_even_def fover_def Let_def)
  ultimately have "unpack32 (f32_round (f32_mul (f32_div (f32_sub x lo) (f32_sub hi lo)) F32_255)) = FNan \<or>
      (\<exists>a. unpack32 (f32_round (f32_mul (f32_div (f32_sub x lo) (f32_sub hi lo)) F32_255)) = FNum a 0)"
    by (auto simp: f32_consts simp del: f32_unpack(5))
  then have "f32_to_u8 (f32_clamp F32_ZERO F32_255
      (f32_round (f32_mul (f32_div (f32_sub x lo) (f32_sub hi lo)) F32_255))) = 0"
    by (auto simp: f32_to_u8_def f32_consts fclamp_def with_sign_def simp del: f32_unpack(1-7) split: if_split_asm)
  moreover have "\<not> f32_eq (f32_sub hi lo) F32_ZERO" by (simp add: f32_eq_def r f32_consts del: f32_unpack)
  ultimately show ?thesis by (simp add: quantize_component_def Let_def)
qed

text \<open>C25: Quantization of a dimension with finite bounds, the lower not above the upper, as training
  learns them. If the bounds differ and their difference is finite, it is monotone, a component that is not
  smaller never gets a smaller byte, and it saturates: components at or below the minimum get 0 and those
  at or above the maximum get 255, infinities included. If the dimension is constant, or if the difference
  overflows, every component gets 0.
\<close>

theorem quantize_monotone_saturating:
  assumes lo: "f32_is_finite lo" and hi: "f32_is_finite hi" and le: "\<not> f32_lt hi lo"
    and x: "\<not> f32_is_nan x" and y: "\<not> f32_is_nan y"
  shows "if f32_lt lo hi \<and> f32_is_finite (f32_sub hi lo)
    then (\<not> f32_lt y x \<longrightarrow> quantize_component lo hi x \<le> quantize_component lo hi y) \<and>
      (\<not> f32_lt lo x \<longrightarrow> quantize_component lo hi x = 0) \<and>
      (\<not> f32_lt x hi \<longrightarrow> quantize_component lo hi x = 255)
    else quantize_component lo hi x = 0"
  using quantize_saturates [OF lo hi _ _ x y] quantize_constant [OF lo hi _ le] quantize_overflow [OF lo hi]
  by auto

theorem quantize_monotone_saturating_witness:
  "quantize_component F32_ZERO F32_ONE F32_INFINITY = 255 \<and>
   quantize_component F32_ZERO F32_ONE F32_NEG_INFINITY = 0 \<and>
   quantize_component F32_ONE F32_ONE F32_INFINITY = 0"
proof -
  have fin: "f32_is_finite F32_ZERO" "f32_is_finite F32_ONE" and lt: "f32_lt F32_ZERO F32_ONE"
    and r: "f32_is_finite (f32_sub F32_ONE F32_ZERO)" and nan: "\<not> f32_is_nan F32_INFINITY" "\<not> f32_is_nan F32_NEG_INFINITY"
    and out: "\<not> f32_lt F32_INFINITY F32_ONE" "\<not> f32_lt F32_ZERO F32_NEG_INFINITY"
    by (simp_all add: f32_is_finite_def f32_lt_def f32_is_nan_def float_eval)
  note 1 = quantize_monotone_saturating [OF fin f32_lt_asym [OF lt]]
  show ?thesis
    using 1 [OF nan] 1 [OF nan(2,1)] quantize_monotone_saturating [OF fin(2,2) f32_lt_irrefl nan] lt r out by simp
qed

text \<open>Training accepts finite samples whose range overflows, and then the maximum of the
  training set itself is quantized to 0 and comes back as not a number.\<close>

theorem quantizer_range_overflow:
  "\<exists>q lo hi. train [[lo], [hi]] = Inr q \<and> f32_is_finite lo \<and> f32_is_finite hi \<and>
     quantize q [hi] = Inr [0] \<and> (\<exists>x. sq_round_trip q [hi] = Inr [x] \<and> f32_is_nan x)"
proof -
  define lo hi :: f32 where "lo = 0xFF7FFFFF" and "hi = 0x7F7FFFFF"
  note ev = lo_def hi_def float_eval
  have fin: "f32_is_finite lo" "f32_is_finite hi" by (simp_all add: f32_is_finite_def ev)
  have "train [[lo], [hi]] = Inr \<lparr>sq_min = [lo], sq_max = [hi]\<rparr>"
    using fin by (simp add: train_def f32_lt_def ev)
  moreover have "quantize \<lparr>sq_min = [lo], sq_max = [hi]\<rparr> [hi] = Inr [0]"
    by (simp add: quantize_def quantize_component_def sq_dim_def f32_eq_def f32_to_u8_def ev)
  moreover have "f32_is_nan (dequantize_component lo hi 0)"
    by (simp add: dequantize_component_def f32_eq_def f32_is_nan_def fof_nat_def ev)
  ultimately show ?thesis
    using fin by (intro exI [of _ "\<lparr>sq_min = [lo], sq_max = [hi]\<rparr>"] exI [of _ lo] exI [of _ hi])
      (simp add: sq_round_trip_def dequantize_def sq_dim_def)
qed

end
