(* ===== verification/Spec2Isabelle.thy ===== *)
theory Spec2Isabelle
  imports Races Database_Crash Quantize
begin

text \<open>
  A verification development of \<^verbatim>\<open>sastran\<close>, an embedded key-value store with a vector index
  (crate under \<^verbatim>\<open>src/src\<close>). The store is a log-structured merge tree: a write goes to a
  write-ahead log and to a table in memory, a full memory table becomes a sorted table file (SSTable),
  and the files are merged in two levels. Keys may carry embeddings, which a graph of the HNSW kind
  indexes for nearest-neighbour search; the graph is a cache that snapshots save and recovery rebuilds.

  \<^bold>\<open>Theories and the code they model.\<close> Definitions bear the names of the code, with a prefix where a
  name would clash, and are listed with their lines in the manifest beside this directory.

  \<^item> \<open>Prelude\<close>: machine words, byte slices, little-endian integers, the error type (\<^verbatim>\<open>error.rs\<close>).
    \<open>BTree\<close>: the ordered map as a sorted list, with the interface \<open>ordered_map\<close>. \<open>Heap\<close>: the binary
    heap, with the interface \<open>heap_order\<close>. \<open>Codec\<close>: the interface \<open>positioned_codec\<close> of
    length-prefixed entries. \<open>Text\<close>: decimal numbers in file names.
  \<^item> \<open>Fs\<close> (\<^verbatim>\<open>io/\<close>): one directory with inodes, names and contents as the process sees them and
    as they are on stable storage, and a plan of faults that any operation may meet.
  \<^item> \<open>Wal_Record\<close>, \<open>Wal_Writer\<close>, \<open>Wal_Reader\<close>, \<open>Replay\<close> (\<^verbatim>\<open>wal/\<close>): the record format, appending,
    scanning up to a torn tail, and replay into the memory table.
  \<^item> \<open>Memtable\<close> (\<^verbatim>\<open>memtable.rs\<close>).
  \<^item> \<open>Bloom\<close>, \<open>Sst_Format\<close>, \<open>Sst_Writer\<close>, \<open>Sst_Reader\<close>, \<open>Sst_Iter\<close>, \<open>Merge\<close> (\<^verbatim>\<open>sstable/\<close>): the table
    file, its writer, its point lookups and iteration, and the merge of several tables.
  \<^item> \<open>Filenames\<close>, \<open>Engine\<close>, \<open>Engine_Inv\<close>, \<open>Compaction\<close>, \<open>Engine_Ops\<close>, \<open>Recovery\<close>, \<open>History\<close>
    (\<^verbatim>\<open>EngineInner\<close> in \<^verbatim>\<open>engine.rs\<close>): the operations of the engine on the tree, their invariant, and
    opening after a close or a power loss. A power loss (\<open>crashed\<close> in \<open>History\<close>) keeps any of the changes
    of the directory that were not synced and, of each file, any prefix of the bytes that were not.
    \<open>Faults\<close>: writes and flushes that a fault or a power loss cuts at any call. They leave the map before
    or after them, except that the rotation of the log may leave a log shorter than its header, which
    the next open refuses.
  \<^item> \<open>Ieee\<close>, \<open>F32\<close>: IEEE 754 arithmetic with rounding to nearest, computed on exact fractions, for
    \<^verbatim>\<open>f32\<close> and what the code uses of \<^verbatim>\<open>f64\<close>. \<open>Quantize\<close> (\<^verbatim>\<open>quantize.rs\<close>): the scalar quantizer.
  \<^item> \<open>Hnsw\<close>, \<open>Hnsw_Inv\<close>, \<open>Hnsw_Graph\<close>, \<open>Hnsw_Delete\<close>, \<open>Hnsw_Search\<close> (\<^verbatim>\<open>hnsw/index.rs\<close>): the graph,
    its invariant, insertion, deletion with edge repair, and search.
  \<^item> \<open>Snapshot\<close>, \<open>Snapshot_Roundtrip\<close> (\<^verbatim>\<open>hnsw/snapshot.rs\<close>): the snapshot file of a graph.
  \<^item> \<open>Vector_Index\<close>, \<open>Vector_Search\<close> (\<^verbatim>\<open>VectorIndex\<close> in \<^verbatim>\<open>engine.rs\<close>): the index over the graph, with
    its maps between keys and nodes, the index step of every write, and both queries.
  \<^item> \<open>Index_Recovery\<close> (\<^verbatim>\<open>recover_vector_index\<close> and below): the index from the latest snapshot and what
    was written since, or from all entries.
  \<^item> \<open>Database\<close> (\<^verbatim>\<open>Engine\<close>): the public operations, tree step, index step and snapshot together.
    \<open>Database_Inv\<close>: writing and finding snapshots. \<open>Database_Rep\<close>, \<open>Database_Ops\<close>: what an open
    database stands for, and that every operation keeps it. \<open>Database_History\<close>, \<open>Database_Recovery\<close>:
    whole runs, and what recovery gives. \<open>Database_Crash\<close>: runs that a power loss interrupts.
  \<^item> \<open>Threads\<close> (\<^verbatim>\<open>Engine\<close> under concurrent callers): \<open>put\<close>, \<open>put_indexed\<close>, \<open>delete\<close> and \<open>flush\<close> cut
    where the code releases a lock, the relation of steps of any number of threads, and what every
    schedule keeps. \<open>Races\<close>: two schedules that lose the agreement of store and index.

  \<^bold>\<open>How the model reads.\<close> A struct is a record, an enum a datatype, a \<^verbatim>\<open>Result\<close> a sum whose left side
  is the crate's error. A panic (an index out of range, a failed assertion) is the error \<open>Panic\<close>, so
  that a theorem that excludes it says that the code does not panic. An operation on files takes and
  returns the file system; one that mutates the engine or the graph returns it. Integers stored in a
  file keep their width; lengths and indices are \<open>nat\<close>. The hash functions (CRC-32, xxh3), the random
  generator and the natural logarithm of \<^verbatim>\<open>f64\<close> come from libraries and are parameters of the
  definitions. No law is assumed of them.

  \<^bold>\<open>What the lemmas show.\<close> Formats: what an encoder writes its decoder reads, and arbitrary bytes give an
  error and not a panic, with two exceptions that are proved. The snapshot decoder indexes and slices
  its buffer with \<open>index_at\<close> and \<open>slice_at\<close>, which panic out of range, so that its theorem rests on the
  length checks of the code. Components: each keeps its invariant on
  every operation and computes what its specification says, on failing file systems too. Engine: the
  abstraction \<open>engine_rep\<close> relates the engine and its files to a map from keys to values; every
  operation commutes with it, flush, compaction and recovery leave the map alone, and \<open>history_refines_map\<close>
  composes them for every history of operations, restarts and power losses. Graph: \<open>graph_ok\<close> says that
  edges lead to nodes of their layer, lists respect their caps (\<open>m\<close> above layer 0, on layer 0 the larger of
  \<open>m_max_0\<close> and \<open>m\<close>, since an insertion gives the new node up to \<open>m\<close> neighbours there) and the entry point is a live node of the
  highest level; insertion and deletion keep it and change the arena as specified, under it no search
  panics, and a search whose beam can hold the graph is exact. Snapshots: they read back, and the graph
  that is read answers as the one that was written. Index: \<open>vi_abs\<close> is the map from keys to vectors it
  stands for; writes update it, queries answer from it, and both recoveries rebuild it, which the
  interface \<open>newest_first\<close> reduces to one step of the walk over the entries. Database: \<open>db_rep\<close> relates
  an open database to a map from keys to entries. The index agrees with the map except on keys where a
  plain put has shadowed a vector, a behaviour of the code that the relation makes explicit, and the
  snapshot on disk agrees with it wherever the memtable does not decide; \<open>database_refines_map\<close> composes
  the operations for every history with restarts.

  \<^bold>\<open>Bounds and termination.\<close> Files and sums of sizes stay below \<open>2 ^ 62\<close> and identifiers below \<open>2 ^ 64\<close>
  where theorems say so, so that the offsets computed in \<^verbatim>\<open>u64\<close> do not wrap; a graph holds at most
  \<open>2 ^ 32\<close> nodes, the range of its identifiers. Loops are structural or carry a measure: scans the bytes
  left, the greedy search the finitely many floats below the current distance, the beam search the nodes
  not yet visited and then the candidates left. The merge loop, whose end depends on the files, is a
  partial function into \<open>option\<close>, and the theorems on it show that it returns; so are the walk over a
  table and the widening loop of the filtered query. No fuel is used. Every open may add to the graph a
  node per entry of the memtable, so a history bounds the nodes by its vector writes and its restarts.

  \<^bold>\<open>Threads.\<close> The engine locks the store and the index one after the other, so its operations are not
  atomic. \<open>steps_compose\<close> checks that the steps of a write agree with the operation of \<open>Database\<close>, so that
  the two translations of the code do not drift apart; \<open>threads_keep_agreement\<close> that store and index agree under every schedule in which writes of
  one key do not overlap; the theorems of \<open>Races\<close> why that condition is needed, and that a restart may
  still lose a vector from the index without it being violated.

  \<^bold>\<open>Not modelled.\<close>
  \<^item> Reads, queries and \<open>close\<close> as steps of threads, the single file operations of a snapshot, which are
    one step here, and poisoned locks.
  \<^item> A power loss in the middle of a compaction or of a snapshot, and one that leaves a file under two names
    after a rename. For the vector index, a power loss after a restart: a compaction that leaves no table
    lets a restart begin the numbers again, and a removed snapshot that comes back may then be taken for
    the newest.
  \<^item> Log messages, and the formatted part of error texts. Directories other than the engine's.
  \<^item> Capacity hints to allocations (the filtered query presizes its result by \<open>k\<close>, which panics for a \<open>k\<close> that
    no allocation can hold) and running out of memory. The product \<open>k * 2\<close> of a search is taken without
    wrap-around, which is the code for \<open>k\<close> below \<open>2 ^ 63\<close>.
  \<^item> The payload of a NaN, and what sorting by distance does when a distance is a NaN (the standard library
    leaves it open, and may panic): the model gives it the place of zero. Theorems about order exclude it,
    and those that exclude panics from the graph do so apart from that sort.
\<close>

section \<open>The engine as a map\<close>

lemma small_write:
  "valid_key [1]" "valid_value [5]" "0 + entry_bound [1] (Put [5]) < 2 ^ 62" "0 + 2 < (2 :: nat) ^ 64"
  by (simp_all add: valid_key_def valid_value_def entry_bound_def)

lemma small_write_bound: "0 + entry_bound [1] (Put [5]) = 32" "0 + 2 = (2 :: nat)"
  by (simp_all add: entry_bound_def)

lemma small_delete: "0 + entry_bound [1] Tombstone < 2 ^ 62"
  by (simp add: entry_bound_def)

text \<open>C3: The engine is a map. On an empty directory, every sequence of puts, vector writes, deletes,
  lookups, flushes, restarts and power losses between operations, with automatic flushes and
  compactions at whatever thresholds, returns from every call, reports no error, and answers every
  lookup as the map from keys to values does.\<close>

theorem history_refines_map:
  assumes "plan s = []" and "names s = []" and "\<forall>c \<in> set cs. command_ok c"
    and "sum_list (map command_bound cs) < 2 ^ 62" and "2 * length cs < 2 ^ 64"
  shows "\<exists>e s1 e' s'. open_inner crc s = (Inr e, s1) \<and>
    run_commands crc xxh opts cs e s1 = Some (map Inr (spec_commands cs Map.empty), e', s')"
proof -
  from open_inner_fresh [OF assms(1,2)] obtain e s1 where
    "open_inner crc s = (Inr e, s1)" "engine_rep crc xxh e s1 Map.empty 0 0" by blast
  with run_commands_rep [OF this(2) assms(3), of opts] assms(4,5) show ?thesis by auto
qed

theorem history_refines_map_witness:
  "\<exists>e s1 e' s'. open_inner (\<lambda>_. 7) empty_fs = (Inr e, s1) \<and>
     run_commands (\<lambda>_. 7) (\<lambda>_. 9) small_options
       [PutCmd [1] [5], PutCmd [2] [6], DeleteCmd [1], GetCmd [1], CrashCmd, GetCmd [2]] e s1 =
     Some ([Inr None, Inr None, Inr None, Inr None, Inr None, Inr (Some [6])], e', s')"
  using history_refines_map [of empty_fs
      "[PutCmd [1] [5], PutCmd [2] [6], DeleteCmd [1], GetCmd [1], CrashCmd, GetCmd [2]]"
      "\<lambda>_. 7" "\<lambda>_. 9" small_options]
  by (simp add: empty_fs_def valid_key_def valid_value_def entry_bound_def)

text \<open>C11: Acknowledged writes survive a power loss: whenever the engine stands for a map between two
  operations (the invariant that every history of operations, restarts and power losses keeps), a
  power loss that keeps any of the unsynced changes of the directory and any prefix of the unsynced
  bytes of each file leaves a directory that opens without error, and the reopened engine stands for,
  and answers every lookup from, the same map.\<close>
theorem crash_keeps_acknowledged_writes:
  assumes "engine_rep crc xxh e s m N I" and "crashed s s'"
  shows "\<exists>e'. open_inner crc s' = (Inr e', s') \<and> engine_rep crc xxh e' s' m N I \<and>
    (\<forall>ky. engine_get crc xxh ky e' s' = (Inr (m ky), s'))"
proof -
  from reopen_on [OF assms(1) crashed_on [OF _ assms(2)]] obtain e' where
    "open_inner crc s' = (Inr e', s')" "engine_rep crc xxh e' s' m N I" by blast
  with engine_get_rep show ?thesis by blast
qed

theorem crash_keeps_acknowledged_writes_witness:
  "\<exists>e s s' e'. engine_rep (\<lambda>_. 7) (\<lambda>_. 9) e s [[1] \<mapsto> [5]] 32 2 \<and> crashed s s' \<and>
     open_inner (\<lambda>_. 7) s' = (Inr e', s') \<and> engine_get (\<lambda>_. 7) (\<lambda>_. 9) [1] e' s' = (Inr (Some [5]), s')"
proof -
  obtain e0 s0 where "engine_rep (\<lambda>_. 7) (\<lambda>_. 9) e0 s0 Map.empty 0 0" using fresh_engine by blast
  from lsm_put_rep [OF this small_write, of small_options] obtain e s where
    e: "engine_rep (\<lambda>_. 7) (\<lambda>_. 9) e s [[1] \<mapsto> [5]] 32 2" unfolding small_write_bound by blast
  have "fs_ok (s\<lparr>names := stable_names s\<rparr>)" using e by (auto simp: engine_rep_def engine_on_def durable_def)
  then obtain s' where "crashed s s'" using crash_possible by blast
  with crash_keeps_acknowledged_writes [OF e this] e show ?thesis
    by (metis (no_types, lifting) fun_upd_same)
qed

text \<open>Closing and opening again is the identity on the map, and the open is a pure read of the
  directory.\<close>

theorem close_then_open_keeps_map:
  assumes "engine_rep crc xxh e s m N I"
  shows "\<exists>e1 s1 e2. engine_close e s = (Inr (), e1, s1) \<and> en_closed e1 \<and>
    open_inner crc s1 = (Inr e2, s1) \<and> engine_rep crc xxh e2 s1 m N I"
proof -
  from reopen_rep [OF assms] obtain e1 s1 e2 where r: "engine_close e s = (Inr (), e1, s1)"
    "open_inner crc s1 = (Inr e2, s1)" "engine_rep crc xxh e2 s1 m N I" by blast
  moreover have "en_closed e1" using r(1) by (auto simp: engine_close_def split: if_splits prod.splits sum.splits)
  ultimately show ?thesis by blast
qed

theorem close_then_open_keeps_map_witness:
  "\<exists>e s e1 s1 e2. engine_close e s = (Inr (), e1, s1) \<and> open_inner (\<lambda>_. 7) s1 = (Inr e2, s1) \<and>
     engine_rep (\<lambda>_. 7) (\<lambda>_. 9) e2 s1 Map.empty 0 0"
proof -
  obtain e s where "engine_rep (\<lambda>_. 7) (\<lambda>_. 9) e s Map.empty 0 0" using fresh_engine by blast
  from close_then_open_keeps_map [OF this] show ?thesis by blast
qed

section \<open>Single operations\<close>

text \<open>A put or a vector write of admissible size returns, and afterwards the engine stands for the
  map with that one binding updated, whether or not the write set off a flush and a compaction.\<close>

theorem put_updates_map:
  assumes "engine_rep crc xxh e s m N I" and "valid_key ky" and "valid_value v"
    and "N + entry_bound ky (Put v) < 2 ^ 62" and "I + 2 < 2 ^ 64"
  shows "(\<exists>r e' s'. lsm_put crc xxh opts ky v e s = Some (Inr r, e', s') \<and>
      engine_rep crc xxh e' s' (m(ky \<mapsto> v)) (N + entry_bound ky (Put v)) (I + 2)) \<and>
    (\<exists>r e' s'. lsm_put_vector crc xxh opts ky v e s = Some (Inr r, e', s') \<and>
      engine_rep crc xxh e' s' (m(ky \<mapsto> v)) (N + entry_bound ky (Put v)) (I + 2))"
  using lsm_put_rep [OF assms, of opts] lsm_put_vector_rep [OF assms(1-3) _ assms(5), of opts] assms(4)
  by (simp add: entry_bound_def)

theorem put_updates_map_witness:
  "\<exists>e s r e' s'. engine_rep (\<lambda>_. 7) (\<lambda>_. 9) e s Map.empty 0 0 \<and>
     lsm_put (\<lambda>_. 7) (\<lambda>_. 9) small_options [1] [5] e s = Some (Inr r, e', s') \<and>
     engine_rep (\<lambda>_. 7) (\<lambda>_. 9) e' s' [[1] \<mapsto> [5]] 32 2"
proof -
  obtain e s where e: "engine_rep (\<lambda>_. 7) (\<lambda>_. 9) e s Map.empty 0 0" using fresh_engine by blast
  from put_updates_map [OF e small_write, of small_options] e show ?thesis
    unfolding small_write_bound by blast
qed

text \<open>A delete returns, and afterwards the key is unbound and every other key is as before, even if
  older tables still hold values for it.\<close>

theorem delete_unbinds_key:
  assumes "engine_rep crc xxh e s m N I" and "valid_key ky"
    and "N + entry_bound ky Tombstone < 2 ^ 62" and "I + 2 < 2 ^ 64"
  shows "\<exists>r e' s'. lsm_delete crc xxh opts ky e s = Some (Inr r, e', s') \<and>
    engine_rep crc xxh e' s' (m(ky := None)) (N + entry_bound ky Tombstone) (I + 2) \<and>
    engine_get crc xxh ky e' s' = (Inr None, s')"
  using lsm_delete_rep [OF assms, of opts] engine_get_rep by fastforce

theorem delete_unbinds_key_witness:
  "\<exists>e s r e' s'. engine_rep (\<lambda>_. 7) (\<lambda>_. 9) e s Map.empty 0 0 \<and>
     lsm_delete (\<lambda>_. 7) (\<lambda>_. 9) small_options [1] e s = Some (Inr r, e', s') \<and>
     engine_get (\<lambda>_. 7) (\<lambda>_. 9) [1] e' s' = (Inr None, s')"
proof -
  obtain e s where e: "engine_rep (\<lambda>_. 7) (\<lambda>_. 9) e s Map.empty 0 0" using fresh_engine by blast
  from delete_unbinds_key [OF e small_write(1) small_delete small_write(4), of small_options] e
  show ?thesis by blast
qed

text \<open>A lookup answers from the map and changes nothing.\<close>

theorem get_reads_map:
  assumes "engine_rep crc xxh e s m N I"
  shows "engine_get crc xxh ky e s = (Inr (m ky), s)"
  using assms by (rule engine_get_rep)

theorem get_reads_map_witness:
  "\<exists>e s. engine_get (\<lambda>_. 7) (\<lambda>_. 9) [1] e s = (Inr None, s)"
proof -
  obtain e s where "engine_rep (\<lambda>_. 7) (\<lambda>_. 9) e s Map.empty 0 0" using fresh_engine by blast
  from get_reads_map [OF this, of "[1]"] show ?thesis by auto
qed

text \<open>A flush moves the memtable into a new newest L0 table and empties the log, and the map stays
  the same.\<close>

theorem flush_keeps_map:
  assumes "engine_rep crc xxh e s m N I" and "N < 2 ^ 62" and "I + 1 < 2 ^ 64"
  shows "\<exists>e' s'. flush_inner crc xxh opts e s = (Inr (), e', s') \<and>
    engine_rep crc xxh e' s' m N (I + 1) \<and> mt_is_empty (en_memtable e')"
  using assms by (rule flush_rep)

theorem flush_keeps_map_witness:
  "\<exists>e s e' s'. flush_inner (\<lambda>_. 7) (\<lambda>_. 9) small_options e s = (Inr (), e', s') \<and>
     engine_rep (\<lambda>_. 7) (\<lambda>_. 9) e' s' Map.empty 0 1"
proof -
  obtain e s where "engine_rep (\<lambda>_. 7) (\<lambda>_. 9) e s Map.empty 0 0" using fresh_engine by blast
  from flush_keeps_map [OF this, of small_options] show ?thesis by auto
qed

text \<open>C15: A compaction returns, leaves no L0 table and at most one L1 table, and the map stays the same
  although every tombstone is dropped.\<close>

theorem compaction_keeps_map:
  assumes "engine_rep crc xxh e s m N I" and "N < 2 ^ 62" and "I + 1 < 2 ^ 64"
  shows "\<exists>e' s'. compact_l0_l1 crc xxh opts e s = Some (Inr (), e', s') \<and>
    engine_rep crc xxh e' s' m N (I + 1) \<and> fst (level_counts e') = 0 \<and> snd (level_counts e') \<le> 1"
  using compact_rep [OF assms, of opts] by (auto simp: level_counts_def)

theorem compaction_keeps_map_witness:
  "\<exists>e s e' s'. compact_l0_l1 (\<lambda>_. 7) (\<lambda>_. 9) small_options e s = Some (Inr (), e', s') \<and>
     engine_rep (\<lambda>_. 7) (\<lambda>_. 9) e' s' Map.empty 0 1 \<and> fst (level_counts e') = 0"
proof -
  obtain e s where "engine_rep (\<lambda>_. 7) (\<lambda>_. 9) e s Map.empty 0 0" using fresh_engine by blast
  from compaction_keeps_map [OF this, of small_options] show ?thesis by auto
qed

section \<open>Error paths\<close>

text \<open>A failing flush, at whatever point and for whatever fault, loses nothing from memory: the
  memtable and the log writer are unchanged and no table is dropped.\<close>

theorem flush_error_keeps_memtable:
  assumes "flush_inner crc xxh opts e s = (Inl err, e', s')"
  shows "en_memtable e' = en_memtable e \<and> en_writer e' = en_writer e \<and>
    lv_l1 (en_levels e') = lv_l1 (en_levels e) \<and>
    (lv_l0 (en_levels e') = lv_l0 (en_levels e) \<or> (\<exists>t. lv_l0 (en_levels e') = t # lv_l0 (en_levels e)))"
  using assms by (auto simp: flush_inner_def Let_def split: if_splits prod.splits sum.splits)

theorem flush_error_keeps_memtable_witness:
  "\<exists>e s e' s'. flush_inner (\<lambda>_. 7) (\<lambda>_. 9) small_options e s = (Inl (Io OsError), e', s') \<and>
     en_memtable e' = mt_new \<and> en_writer e' = en_writer e"
proof -
  define e where "e = \<lparr>en_writer = \<lparr>w_file = 0, w_scratch = []\<rparr>, en_memtable = mt_new,
    en_levels = \<lparr>lv_l0 = [], lv_l1 = []\<rparr>, en_next_sst_id = 0, en_closed = False\<rparr>"
  define s where "s = empty_fs\<lparr>plan := [Fail 0]\<rparr>"
  have run: "flush_inner (\<lambda>_. 7) (\<lambda>_. 9) small_options e s = (Inl (Io OsError), e, s\<lparr>plan := []\<rparr>)"
    by (simp add: flush_inner_def e_def s_def mt_is_empty_def mt_new_def wal_sync_def sync_file_def
        take_outcome.simps)
  moreover have "en_memtable e = mt_new" by (simp add: e_def)
  ultimately show ?thesis using flush_error_keeps_memtable [OF run] by metis
qed

text \<open>C35: A failing compaction changes nothing in memory: the engine keeps all of its tables and its
  next id, for whatever fault.\<close>

theorem compaction_error_changes_nothing:
  assumes "compact_l0_l1 crc xxh opts e s = Some (Inl err, e', s')"
  shows "e' = e"
  using assms
  by (auto simp: compact_l0_l1_def compact_install_def compact_discard_def Let_def
      split: if_splits prod.splits sum.splits option.splits)

theorem compaction_error_changes_nothing_witness:
  "\<exists>e s e' s'. compact_l0_l1 (\<lambda>_. 7) (\<lambda>_. 9) small_options e s = Some (Inl (Io OsError), e', s') \<and> e' = e"
proof -
  define e where "e = \<lparr>en_writer = \<lparr>w_file = 0, w_scratch = []\<rparr>, en_memtable = mt_new,
    en_levels = \<lparr>lv_l0 = [], lv_l1 = []\<rparr>, en_next_sst_id = 0, en_closed = False\<rparr>"
  define s where "s = empty_fs\<lparr>plan := [Fail 0]\<rparr>"
  have run: "compact_l0_l1 (\<lambda>_. 7) (\<lambda>_. 9) small_options e s = Some (Inl (Io OsError), e, s\<lparr>plan := []\<rparr>)"
    by (simp add: compact_l0_l1_def e_def s_def merge_new_def sst_create_def open_append_def
        take_outcome.simps Let_def)
  from compaction_error_changes_nothing [OF run] run show ?thesis by blast
qed

text \<open>A put that fails before its record is on stable storage is not applied: unless both the append
  and the sync succeeded, memtable, tables and ids are as before.\<close>

theorem failed_put_is_not_applied:
  assumes "lsm_put crc xxh opts ky v e s = Some (Inl err, e', s')"
  shows "en_memtable e' = en_memtable e \<and> en_levels e' = en_levels e \<and> en_next_sst_id e' = en_next_sst_id e \<or>
    (\<exists>w s1 s2. wal_append crc record_kind.Put ky v (en_writer e) s = (Inr (), w, s1) \<and> wal_sync w s1 = (Inr (), s2))"
  using assms
  by (auto simp: lsm_put_def lsm_write_def split: if_splits prod.splits sum.splits)

theorem failed_put_is_not_applied_witness:
  "\<exists>e s e' s'. lsm_put (\<lambda>_. 7) (\<lambda>_. 9) small_options [] [5] e s = Some (Inl (InvalidArgument ''empty key''), e', s') \<and>
     en_memtable e' = en_memtable e"
proof -
  obtain e s where "engine_rep (\<lambda>_. 7) (\<lambda>_. 9) e s Map.empty 0 0" using fresh_engine by blast
  then have "\<not> en_closed e" by (simp add: engine_rep_def)
  moreover have app: "wal_append (\<lambda>_. 7) record_kind.Put [] [5] (en_writer e) s =
      (Inl (InvalidArgument ''empty key''), en_writer e\<lparr>w_scratch := []\<rparr>, s)"
    by (simp add: wal_append_def encode_frame valid_record_def)
  ultimately have "lsm_put (\<lambda>_. 7) (\<lambda>_. 9) small_options [] [5] e s =
      Some (Inl (InvalidArgument ''empty key''), e\<lparr>en_writer := en_writer e\<lparr>w_scratch := []\<rparr>\<rparr>, s)"
    by (simp add: lsm_put_def lsm_write_def)
  note run = this
  have "\<not> (\<exists>w s1 s2. wal_append (\<lambda>_. 7) record_kind.Put [] [5] (en_writer e) s = (Inr (), w, s1) \<and>
      wal_sync w s1 = (Inr (), s2))" by (simp add: app)
  with failed_put_is_not_applied [OF run] run show ?thesis by blast
qed

text \<open>A write with an empty or oversized key or an oversized value is refused as an invalid argument,
  on any file system: no file, no table and no memtable entry changes.\<close>

theorem invalid_write_is_refused:
  assumes "\<not> en_closed e" and "\<not> valid_key ky \<or> \<not> valid_value v"
  shows "\<exists>msg w. lsm_put crc xxh opts ky v e s = Some (Inl (InvalidArgument msg), e\<lparr>en_writer := w\<rparr>, s) \<and>
    w_file w = w_file (en_writer e)"
proof -
  have "\<not> valid_record \<lparr>rec_kind = record_kind.Put, rec_key = ky, rec_value = v\<rparr>"
    using assms(2) by (auto simp: valid_record_def valid_key_def valid_value_def)
  from wal_append_invalid [OF this, of crc "en_writer e" s] assms(1) show ?thesis
    by (auto simp: lsm_put_def lsm_write_def intro!: exI [of _ "en_writer e\<lparr>w_scratch := []\<rparr>"])
qed

theorem invalid_write_is_refused_witness:
  "\<exists>e s msg w. lsm_put (\<lambda>_. 7) (\<lambda>_. 9) small_options [] [] e s =
     Some (Inl (InvalidArgument msg), e\<lparr>en_writer := w\<rparr>, s)"
proof -
  obtain e s where "engine_rep (\<lambda>_. 7) (\<lambda>_. 9) e s Map.empty 0 0" using fresh_engine by blast
  then have "\<not> en_closed e" by (simp add: engine_rep_def)
  from invalid_write_is_refused [OF this, of "[]" "[]" "\<lambda>_. 7" "\<lambda>_. 9" small_options s] show ?thesis
    by (auto simp: valid_key_def)
qed

text \<open>A closed engine refuses every operation with \<open>Closed\<close> and touches nothing, and closing it
  again succeeds.\<close>

theorem closed_engine_refuses:
  assumes "en_closed e"
  shows "lsm_put crc xxh opts ky v e s = Some (Inl Closed, e, s) \<and>
    lsm_put_vector crc xxh opts ky v e s = Some (Inl Closed, e, s) \<and>
    lsm_delete crc xxh opts ky e s = Some (Inl Closed, e, s) \<and>
    lsm_flush crc xxh opts e s = Some (Inl Closed, e, s) \<and>
    engine_get crc xxh ky e s = (Inl Closed, s) \<and> engine_close e s = (Inr (), e, s)"
  using assms
  by (simp add: lsm_put_def lsm_put_vector_def lsm_delete_def lsm_write_def lsm_flush_def
      engine_get_def engine_close_def)

theorem closed_engine_refuses_witness:
  "\<exists>e s. en_closed e \<and> engine_get (\<lambda>_. 7) (\<lambda>_. 9) [1] e s = (Inl Closed, s)"
proof -
  define e where "e = \<lparr>en_writer = \<lparr>w_file = 0, w_scratch = []\<rparr>, en_memtable = mt_new,
    en_levels = \<lparr>lv_l0 = [], lv_l1 = []\<rparr>, en_next_sst_id = 0, en_closed = True\<rparr>"
  have "en_closed e" by (simp add: e_def)
  from closed_engine_refuses [OF this] \<open>en_closed e\<close> show ?thesis by blast
qed

end
